(* ===== verification/KPrelude.thy ===== *)
theory KPrelude
  imports Main "HOL-Library.Word" "HOL-Library.Monad_Syntax"
begin

text \<open>
  Shared vocabulary of the development: the C integer types at their width, the automation
  collections, and the generic facts on words, lists and options that the component theories
  use.  Nothing here models code of its own.

  Conventions.  A C pointer is a 64-bit word and \<open>0\<close> is \<^verbatim>\<open>NULL\<close>.  A \<^verbatim>\<open>char\<close> or byte is an 8-bit
  word.  A \<^verbatim>\<open>pid_t\<close> and other small signed values are HOL integers whose range checks are the
  ones written in the code.  Code that follows pointers returns an \<open>option\<close>: \<open>None\<close> stands for a
  run that dereferences a pointer to no live object or never returns.
\<close>

type_synonym u8 = "8 word"
type_synonym u16 = "16 word"
type_synonym u32 = "32 word"
type_synonym u64 = "64 word"

named_theorems kinv "invariant preservation lemmas of the kernel operations"
named_theorems kframe "frame lemmas: what an operation leaves unchanged"

section \<open>Words\<close>

lemma unat_lt2p: "unat (a :: 'a::len word) < 2 ^ LENGTH('a)"
  by (rule unsigned_less)

lemma mod_add_cancel_less:
  fixes i j n k :: nat
  assumes "i < n" "j < n" "(k + i) mod n = (k + j) mod n"
  shows "i = j"
proof (rule ccontr)
  assume "i \<noteq> j"
  then consider "i < j" | "j < i" by linarith
  then show False
  proof cases
    case 1
    then have "n dvd (k + j) - (k + i)" using assms(3) by (metis add_left_mono less_imp_le mod_eq_dvd_iff_nat)
    with 1 assms(2) show False by (simp add: nat_dvd_not_less)
  next
    case 2
    then have "n dvd (k + i) - (k + j)" using assms(3) by (metis add_left_mono less_imp_le mod_eq_dvd_iff_nat)
    with 2 assms(1) show False by (simp add: nat_dvd_not_less)
  qed
qed

lemma unat_succ_no_wrap:
  fixes a b :: "'a::len word"
  assumes "a < b"
  shows "unat (a + 1) = unat a + 1"
proof -
  have "unat a + 1 \<le> unat b"
    using assms by (simp add: word_less_nat_alt)
  then have "unat a + 1 < 2 ^ LENGTH('a)"
    using unat_lt2p [of b] by linarith
  then show ?thesis
    by (simp add: unat_word_ariths)
qed

lemma unat_succ_mod:
  fixes a b :: "'a::len word"
  assumes "a < b"
  shows "unat ((a + 1) mod b) = (unat a + 1) mod unat b"
  using unat_succ_no_wrap [OF assms] by (simp add: unat_mod_distrib)

lemma unat_pred:
  fixes a :: "'a::len word"
  assumes "0 < a"
  shows "unat (a - 1) = unat a - 1"
  using assms by (simp add: unat_minus_one word_neq_0_conv)

lemma unat_of_nat_u64: "i < 2 ^ 64 \<Longrightarrow> unat (of_nat i :: u64) = i"
  by (simp add: unat_of_nat)

section \<open>Lists\<close>

text \<open>The bytes of a string literal.\<close>
definition bytes :: "string \<Rightarrow> u8 list" where
  "bytes s = map of_char s"

lemma length_bytes [simp]: "length (bytes s) = length s"
  by (simp add: bytes_def)

lemma map_upt_Suc_hd:
  "0 < n \<Longrightarrow> map f [0..<n] = f 0 # map (\<lambda>i. f (Suc i)) [0..<n - 1]"
  by (cases n) (simp_all add: map_upt_Suc del: upt_Suc)

lemma map_upt_cong_less: "(\<And>i. i < n \<Longrightarrow> f i = g i) \<Longrightarrow> map f [0..<n] = map g [0..<n]"
  by simp

text \<open>The hexadecimal digits of a number, most significant first, give the number back.\<close>
lemma nibbles: "foldl (\<lambda>a d. 16 * a + d) 0 (map (\<lambda>i. x div 16 ^ (n - 1 - i) mod 16) [0..<n]) = x mod 16 ^ n" for x :: nat
proof (induction n arbitrary: x)
  case (Suc n)
  have "map (\<lambda>i. x div 16 ^ (Suc n - 1 - i) mod 16) [0..<Suc n] =
      map (\<lambda>i. (x div 16) div 16 ^ (n - 1 - i) mod 16) [0..<n] @ [x mod 16]"
  proof -
    have "x div 16 ^ (n - i) = (x div 16) div 16 ^ (n - 1 - i)" if "i < n" for i
    proof -
      have "n - i = Suc (n - 1 - i)" using that by simp
      then have "(16 :: nat) ^ (n - i) = 16 * 16 ^ (n - 1 - i)" by (metis power_Suc)
      then show ?thesis by (simp add: div_mult2_eq)
    qed
    then have "map (\<lambda>i. x div 16 ^ (n - i) mod 16) [0..<n] = map (\<lambda>i. (x div 16) div 16 ^ (n - 1 - i) mod 16) [0..<n]"
      by (intro map_cong) auto
    then show ?thesis by simp
  qed
  then have "foldl (\<lambda>a d. 16 * a + d) 0 (map (\<lambda>i. x div 16 ^ (Suc n - 1 - i) mod 16) [0..<Suc n]) =
      16 * (x div 16 mod 16 ^ n) + x mod 16"
    using Suc.IH [of "x div 16"] by (simp only: foldl_append foldl.simps)
  then show ?case by (simp only: power_Suc mod_mult2_eq)
qed simp

text \<open>The maximal runs of elements that are not separators.\<close>
function words :: "('a \<Rightarrow> bool) \<Rightarrow> 'a list \<Rightarrow> 'a list list" where
  "words P [] = []"
| "words P (x # xs) =
     (if P x then words P xs
      else (x # takeWhile (\<lambda>y. \<not> P y) xs) # words P (dropWhile (\<lambda>y. \<not> P y) xs))"
  by pat_completeness auto

termination words
  by (relation "measure (length \<circ> snd)") (auto simp: le_imp_less_Suc length_dropWhile_le)

end
