(* ===== verification/KAllocator.thy ===== *)
theory KAllocator
  imports KPrelude
begin

text \<open>
  The memory manager interface of \<^verbatim>\<open>Kernel/include/memoryManager.h\<close>.  The kernel is linked
  against one of two implementations of it (the free list or the buddy tree), so every client
  below takes the manager as a record of operations, and relies on it only through the laws of
  the locale \<open>allocator\<close>, which both implementations are shown to satisfy.
\<close>

record 'm mm_ops =
  mm_alloc :: "'m \<Rightarrow> u64 \<Rightarrow> ('m \<times> u64) option"
  mm_free :: "'m \<Rightarrow> u64 \<Rightarrow> 'm option"

record MemoryInfo =
  mi_total :: u64
  mi_occupied :: u64
  mi_free :: u64
  mi_fragments :: u64

text \<open>
  The contract: \<open>blocks\<close> gives the live payloads (address and size in bytes), \<open>limit\<close> the
  largest request the manager promises to treat correctly.
\<close>

locale allocator =
  fixes ops :: "'m mm_ops"
    and inv :: "'m \<Rightarrow> bool"
    and blocks :: "'m \<Rightarrow> u64 \<rightharpoonup> nat"
    and limit :: "'m \<Rightarrow> nat"
  assumes alloc_law: "\<lbrakk> inv m; n \<noteq> 0; unat n \<le> limit m \<rbrakk> \<Longrightarrow>
      \<exists>m' p. mm_alloc ops m n = Some (m', p) \<and> inv m' \<and> limit m' = limit m \<and>
        (if p = 0 then blocks m' = blocks m
         else blocks m p = None \<and> (\<exists>k. unat n \<le> k \<and> blocks m' = (blocks m)(p \<mapsto> k)))"
    and free_law: "\<lbrakk> inv m; blocks m p = Some k \<rbrakk> \<Longrightarrow>
      \<exists>m'. mm_free ops m p = Some m' \<and> inv m' \<and> limit m' = limit m \<and> blocks m' = (blocks m)(p := None)"
    and free_null: "mm_free ops m 0 = Some m"
    and disjoint_law: "\<lbrakk> inv m; blocks m p = Some k; blocks m q = Some l; p \<noteq> q \<rbrakk> \<Longrightarrow>
      unat p + k \<le> unat q \<or> unat q + l \<le> unat p"

section \<open>Ownership\<close>

text \<open>
  The blocks the kernel's structures own, as a family of address lists indexed by owner.  The
  family is well placed when every owned block is live and no block is owned twice: this is what
  rules out double frees and the use of freed blocks.
\<close>

definition own_ok :: "('m \<Rightarrow> bool) \<Rightarrow> ('m \<Rightarrow> u64 \<rightharpoonup> nat) \<Rightarrow> 'm \<Rightarrow> ('o \<Rightarrow> u64 list) \<Rightarrow> bool" where
  "own_ok minv mblocks m f \<longleftrightarrow> minv m \<and>
     (\<forall>x. distinct (f x) \<and> set (f x) \<subseteq> dom (mblocks m) \<and> 0 \<notin> set (f x)) \<and>
     (\<forall>x y. x \<noteq> y \<longrightarrow> set (f x) \<inter> set (f y) = {})"

lemma own_ok_inv: "own_ok minv mblocks m f \<Longrightarrow> minv m"
  by (simp add: own_ok_def)

lemma own_ok_live: "own_ok minv mblocks m f \<Longrightarrow> a \<in> set (f x) \<Longrightarrow> mblocks m a \<noteq> None"
  by (auto simp: own_ok_def)

lemma own_ok_distinct: "own_ok minv mblocks m f \<Longrightarrow> distinct (f x)"
  by (simp add: own_ok_def)

lemma own_ok_nonnull: "own_ok minv mblocks m f \<Longrightarrow> a \<in> set (f x) \<Longrightarrow> a \<noteq> 0"
  by (auto simp: own_ok_def)

lemma own_ok_owner: "own_ok minv mblocks m f \<Longrightarrow> a \<in> set (f x) \<Longrightarrow> a \<in> set (f y) \<Longrightarrow> x = y"
  unfolding own_ok_def by blast

text \<open>Giving up blocks without freeing them keeps the family well placed.\<close>
lemma own_ok_shrink:
  assumes "own_ok minv mblocks m f" and "distinct xs" and "set xs \<subseteq> set (f x)"
  shows "own_ok minv mblocks m (f(x := xs))"
proof -
  have "0 \<notin> set xs" "set xs \<subseteq> dom (mblocks m)"
    using assms by (auto simp: own_ok_def)
  moreover have "set xs \<inter> set (f y) = {}" if "x \<noteq> y" for y
    using assms that unfolding own_ok_def by blast
  ultimately show ?thesis
    using assms(1,2) unfolding own_ok_def by (simp add: Int_commute)
qed

lemma own_ok_change:
  assumes "own_ok minv mblocks m f" and "minv m'" and "distinct xs" and "0 \<notin> set xs"
    and "set xs \<subseteq> dom (mblocks m')"
    and "\<And>y. y \<noteq> x \<Longrightarrow> set (f y) \<subseteq> dom (mblocks m')"
    and "\<And>y. y \<noteq> x \<Longrightarrow> set xs \<inter> set (f y) = {}"
  shows "own_ok minv mblocks m' (f(x := xs))"
  using assms unfolding own_ok_def by (simp add: Int_commute)

context allocator
begin

lemma alloc_cases:
  assumes "inv m" and "n \<noteq> 0" and "unat n \<le> limit m"
  obtains (fail) m' where "mm_alloc ops m n = Some (m', 0)" "inv m'" "limit m' = limit m"
      "blocks m' = blocks m"
    | (new) m' p k where "mm_alloc ops m n = Some (m', p)" "p \<noteq> 0" "inv m'" "limit m' = limit m"
      "blocks m p = None" "unat n \<le> k" "blocks m' = (blocks m)(p \<mapsto> k)"
  using alloc_law [OF assms] by (metis (full_types))

lemma alloc_then_free:
  assumes "inv m" and "n \<noteq> 0" and "unat n \<le> limit m"
    and "mm_alloc ops m n = Some (m', p)"
  shows "\<exists>m''. mm_free ops m' p = Some m'' \<and> blocks m'' = blocks m"
  using assms(1-3)
proof (cases rule: alloc_cases)
  case fail
  with assms(4) show ?thesis by (auto simp: free_null)
next
  case (new m1 p1 k)
  with assms(4) have "blocks m' p = Some k" "inv m'" by auto
  from free_law [OF this(2,1)] new assms(4) show ?thesis
    by (auto simp: fun_upd_idem)
qed

lemma own_alloc:
  assumes ok: "own_ok inv blocks m f" and "n \<noteq> 0" and "unat n \<le> limit m"
  obtains (fail) m' where "mm_alloc ops m n = Some (m', 0)" "limit m' = limit m" "own_ok inv blocks m' f"
      "blocks m' = blocks m"
    | (new) m' p where "mm_alloc ops m n = Some (m', p)" "p \<noteq> 0" "limit m' = limit m"
      "\<And>x. p \<notin> set (f x)" "own_ok inv blocks m' f"
      "\<And>x xs. distinct xs \<Longrightarrow> set xs \<subseteq> insert p (set (f x)) \<Longrightarrow> own_ok inv blocks m' (f(x := xs))"
      "dom (blocks m') = insert p (dom (blocks m))" "p \<notin> dom (blocks m)"
  using own_ok_inv [OF ok] assms(2,3)
proof (cases rule: alloc_cases)
  case (fail m')
  have "own_ok inv blocks m' f" using ok fail by (simp add: own_ok_def)
  with fail that(1) show ?thesis by blast
next
  case (new m' p k)
  have free: "p \<notin> set (f x)" for x using own_ok_live [OF ok] new(5) by blast
  have sub: "set (f x) \<subseteq> dom (blocks m')" for x using ok new(7) by (auto simp: own_ok_def)
  have "own_ok inv blocks m' f" using ok new(3) sub by (simp add: own_ok_def)
  moreover have "own_ok inv blocks m' (f(x := xs))"
    if dist: "distinct xs" and sub_xs: "set xs \<subseteq> insert p (set (f x))" for x xs
  proof (rule own_ok_change [OF ok new(3) dist])
    show "0 \<notin> set xs" using sub_xs new(2) own_ok_nonnull [OF ok] by blast
    show "set xs \<subseteq> dom (blocks m')" using sub_xs sub new(7) by force
    show "set (f y) \<subseteq> dom (blocks m')" for y by (rule sub)
    show "set xs \<inter> set (f y) = {}" if "y \<noteq> x" for y
      using sub_xs free own_ok_owner [OF ok] that by blast
  qed
  moreover have "dom (blocks m') = insert p (dom (blocks m))" "p \<notin> dom (blocks m)" using new(5,7) by auto
  ultimately show ?thesis using that(2) new(1,2,4) free by blast
qed

lemma own_free_dom:
  assumes ok: "own_ok inv blocks m f" and p: "p \<in> set (f x)"
  obtains m' where "mm_free ops m p = Some m'" "limit m' = limit m"
    "\<And>xs. distinct xs \<Longrightarrow> set xs \<subseteq> set (f x) - {p} \<Longrightarrow> own_ok inv blocks m' (f(x := xs))"
    "dom (blocks m') = dom (blocks m) - {p}"
proof -
  obtain k where "blocks m p = Some k" using own_ok_live [OF ok p] by auto
  from free_law [OF own_ok_inv [OF ok] this] obtain m' where
    m': "mm_free ops m p = Some m'" "inv m'" "limit m' = limit m" "blocks m' = (blocks m)(p := None)" by blast
  have other: "p \<notin> set (f y)" if "y \<noteq> x" for y using own_ok_owner [OF ok] p that by blast
  have "own_ok inv blocks m' (f(x := xs))" if dist: "distinct xs" and sub_xs: "set xs \<subseteq> set (f x) - {p}" for xs
  proof (rule own_ok_change [OF ok m'(2) dist])
    show "0 \<notin> set xs" using sub_xs own_ok_nonnull [OF ok] by blast
    show "set xs \<subseteq> dom (blocks m')" using sub_xs ok m'(4) by (auto simp: own_ok_def)
    show "set (f y) \<subseteq> dom (blocks m')" if "y \<noteq> x" for y
      using other [OF that] ok m'(4) by (auto simp: own_ok_def)
    show "set xs \<inter> set (f y) = {}" if "y \<noteq> x" for y
      using sub_xs own_ok_owner [OF ok] that by blast
  qed
  moreover have "dom (blocks m') = dom (blocks m) - {p}" using m'(4) by auto
  ultimately show ?thesis using that m'(1,3) by blast
qed

lemma own_free:
  assumes "own_ok inv blocks m f" and "p \<in> set (f x)"
  obtains m' where "mm_free ops m p = Some m'" "limit m' = limit m"
    "\<And>xs. distinct xs \<Longrightarrow> set xs \<subseteq> set (f x) - {p} \<Longrightarrow> own_ok inv blocks m' (f(x := xs))"
  by (rule own_free_dom [OF assms]) (rule that)

end

end
