(* ===== verification/KFreeList.thy ===== *)
theory KFreeList
  imports KAllocator
begin

unbundle bit_operations_syntax

text \<open>
  \<^verbatim>\<open>Kernel/memory/memoryManager.c\<close>: the first-fit free list with coalescing, the default
  memory manager.  The headers live in a typed heap \<open>hdr\<close> from addresses to \<^verbatim>\<open>Block\<close> records and
  are linked by the \<^verbatim>\<open>prev\<close> and \<^verbatim>\<open>next\<close> pointers the code follows; the walks over \<^verbatim>\<open>next\<close> are partial
  functions, since a corrupt list may be cyclic.  The invariant \<open>fl_rep\<close> says that the list is a
  doubly linked chain that tiles the managed area with no two free neighbours.
\<close>

record Block =
  blk_size :: u64
  blk_free :: bool
  blk_prev :: u64
  blk_next :: u64

record fl_state =
  hdr :: "u64 \<Rightarrow> Block"
  baseBlock :: u64
  totalBytes :: u64

text \<open>\<^verbatim>\<open>ALIGNMENT\<close> and \<^verbatim>\<open>HEADER_SIZE\<close> (two pointers, a size and a flag padded to eight bytes).\<close>
definition ALIGNMENT :: u64 where
  "ALIGNMENT = 8"

definition HEADER_SIZE :: u64 where
  "HEADER_SIZE = 32"

definition alignUp :: "u64 \<Rightarrow> u64" where
  "alignUp n = (n + (ALIGNMENT - 1)) AND NOT (ALIGNMENT - 1)"

definition upd_hdr :: "u64 \<Rightarrow> (Block \<Rightarrow> Block) \<Rightarrow> fl_state \<Rightarrow> fl_state" where
  "upd_hdr a f st = st\<lparr>hdr := (hdr st)(a := f (hdr st a))\<rparr>"

definition mem_init :: "u64 \<Rightarrow> u64 \<Rightarrow> fl_state \<Rightarrow> fl_state" where
  "mem_init start sz st =
     st\<lparr>baseBlock := start,
        hdr := (hdr st)(start := \<lparr>blk_size = sz - HEADER_SIZE, blk_free = True,
                                  blk_prev = 0, blk_next = 0\<rparr>),
        totalBytes := sz\<rparr>"

text \<open>The body of the allocation loop for the block it settles on: split when the rest can hold
  a header and a payload, mark it used, return the payload.\<close>
definition take_block :: "u64 \<Rightarrow> u64 \<Rightarrow> fl_state \<Rightarrow> fl_state \<times> u64" where
  "take_block sz b st =
     (let st = (if blk_size (hdr st b) \<ge> sz + HEADER_SIZE + ALIGNMENT
                then (let split = b + HEADER_SIZE + sz;
                          st = upd_hdr split (\<lambda>_. \<lparr>blk_size = blk_size (hdr st b) - sz - HEADER_SIZE,
                                 blk_free = True, blk_prev = b, blk_next = blk_next (hdr st b)\<rparr>) st;
                          st = (if blk_next (hdr st b) \<noteq> 0
                                then upd_hdr (blk_next (hdr st b)) (\<lambda>x. x\<lparr>blk_prev := split\<rparr>) st
                                else st);
                          st = upd_hdr b (\<lambda>x. x\<lparr>blk_next := split\<rparr>) st
                      in upd_hdr b (\<lambda>x. x\<lparr>blk_size := sz\<rparr>) st)
                else st);
          st = upd_hdr b (\<lambda>x. x\<lparr>blk_free := False\<rparr>) st
      in (st, b + HEADER_SIZE))"

partial_function (option) alloc_loop :: "u64 \<Rightarrow> u64 \<Rightarrow> fl_state \<Rightarrow> (fl_state \<times> u64) option" where
  "alloc_loop sz b st =
     (if b = 0 then Some (st, 0)
      else if \<not> blk_free (hdr st b) \<or> blk_size (hdr st b) < sz
      then alloc_loop sz (blk_next (hdr st b)) st
      else Some (take_block sz b st))"

definition mem_alloc :: "fl_state \<Rightarrow> u64 \<Rightarrow> (fl_state \<times> u64) option" where
  "mem_alloc st sz =
     (if sz = 0 \<or> baseBlock st = 0 then Some (st, 0)
      else alloc_loop (alignUp sz) (baseBlock st) st)"

definition merge_next :: "u64 \<Rightarrow> fl_state \<Rightarrow> fl_state" where
  "merge_next b st =
     (let n = blk_next (hdr st b) in
      if n \<noteq> 0 \<and> blk_free (hdr st n)
      then (let st = upd_hdr b (\<lambda>x. x\<lparr>blk_size := blk_size x + (HEADER_SIZE + blk_size (hdr st n))\<rparr>) st;
                st = upd_hdr b (\<lambda>x. x\<lparr>blk_next := blk_next (hdr st n)\<rparr>) st
            in if blk_next (hdr st b) \<noteq> 0
               then upd_hdr (blk_next (hdr st b)) (\<lambda>x. x\<lparr>blk_prev := b\<rparr>) st else st)
      else st)"

definition merge_prev :: "u64 \<Rightarrow> fl_state \<Rightarrow> fl_state" where
  "merge_prev b st =
     (let p = blk_prev (hdr st b) in
      if p \<noteq> 0 \<and> blk_free (hdr st p)
      then (let st = upd_hdr p (\<lambda>x. x\<lparr>blk_size := blk_size x + (HEADER_SIZE + blk_size (hdr st b))\<rparr>) st;
                st = upd_hdr p (\<lambda>x. x\<lparr>blk_next := blk_next (hdr st b)\<rparr>) st
            in if blk_next (hdr st b) \<noteq> 0
               then upd_hdr (blk_next (hdr st b)) (\<lambda>x. x\<lparr>blk_prev := p\<rparr>) st else st)
      else st)"

definition mem_free :: "fl_state \<Rightarrow> u64 \<Rightarrow> fl_state" where
  "mem_free st ptr =
     (if ptr = 0 then st
      else (let b = ptr - HEADER_SIZE;
                st = upd_hdr b (\<lambda>x. x\<lparr>blk_free := True\<rparr>) st
            in merge_prev b (merge_next b st)))"

partial_function (option) status_loop :: "u64 \<Rightarrow> u64 \<Rightarrow> u64 \<Rightarrow> fl_state \<Rightarrow> (u64 \<times> u64) option" where
  "status_loop b fr fg st =
     (if b = 0 then Some (fr, fg)
      else if blk_free (hdr st b)
      then status_loop (blk_next (hdr st b)) (fr + blk_size (hdr st b)) (fg + 1) st
      else status_loop (blk_next (hdr st b)) fr fg st)"

text \<open>The status of the manager; the caller's non-\<^verbatim>\<open>NULL\<close> \<^verbatim>\<open>info\<close> is the result.\<close>
definition mem_status :: "fl_state \<Rightarrow> MemoryInfo option" where
  "mem_status st = do {
     (fr, fg) \<leftarrow> status_loop (baseBlock st) 0 0 st;
     Some \<lparr>mi_total = totalBytes st, mi_occupied = totalBytes st - fr, mi_free = fr, mi_fragments = fg\<rparr>
   }"

definition fl_ops :: "fl_state mm_ops" where
  "fl_ops = \<lparr>mm_alloc = mem_alloc, mm_free = (\<lambda>st p. Some (mem_free st p))\<rparr>"

declare alloc_loop.simps [simp del] status_loop.simps [simp del]

section \<open>The chain of blocks\<close>

type_synonym blk = "u64 \<times> u64 \<times> bool"

abbreviation baddr :: "blk \<Rightarrow> u64" where "baddr \<equiv> fst"
abbreviation bsize :: "blk \<Rightarrow> u64" where "bsize x \<equiv> fst (snd x)"
abbreviation bfree :: "blk \<Rightarrow> bool" where "bfree x \<equiv> snd (snd x)"

text \<open>\<open>seg h pv p bs pv' p'\<close>: from \<open>p\<close>, whose predecessor is \<open>pv\<close>, the links run through exactly
  \<open>bs\<close> and leave at \<open>p'\<close>, whose predecessor is \<open>pv'\<close>.\<close>
fun seg :: "(u64 \<Rightarrow> Block) \<Rightarrow> u64 \<Rightarrow> u64 \<Rightarrow> blk list \<Rightarrow> u64 \<Rightarrow> u64 \<Rightarrow> bool" where
  "seg h pv p [] pv' p' \<longleftrightarrow> pv = pv' \<and> p = p'"
| "seg h pv p ((a, sz, f) # bs) pv' p' \<longleftrightarrow>
     p = a \<and> a \<noteq> 0 \<and> blk_size (h a) = sz \<and> blk_free (h a) = f \<and> blk_prev (h a) = pv \<and>
     seg h a (blk_next (h a)) bs pv' p'"

text \<open>The blocks tile the bytes from \<open>lo\<close> to \<open>hi\<close>, each payload a multiple of the alignment.\<close>
fun layout :: "nat \<Rightarrow> blk list \<Rightarrow> nat \<Rightarrow> bool" where
  "layout lo [] hi \<longleftrightarrow> lo = hi"
| "layout lo ((a, sz, f) # bs) hi \<longleftrightarrow>
     unat a = lo \<and> 8 dvd unat sz \<and> layout (lo + 32 + unat sz) bs hi"

definition coalesced :: "blk list \<Rightarrow> bool" where
  "coalesced = successively (\<lambda>x y. \<not> (bfree x \<and> bfree y))"

definition fl_rep :: "fl_state \<Rightarrow> blk list \<Rightarrow> bool" where
  "fl_rep st bs \<longleftrightarrow> bs \<noteq> [] \<and> baseBlock st \<noteq> 0 \<and> 8 dvd unat (baseBlock st) \<and>
     (\<exists>pv. seg (hdr st) 0 (baseBlock st) bs pv 0) \<and>
     layout (unat (baseBlock st)) bs (unat (baseBlock st) + unat (totalBytes st)) \<and>
     unat (baseBlock st) + unat (totalBytes st) < 2 ^ 64 \<and> coalesced bs"

lemma seg_append:
  "seg h pv p (xs @ ys) pv' p' \<longleftrightarrow> (\<exists>q r. seg h pv p xs q r \<and> seg h q r ys pv' p')"
proof (induction xs arbitrary: pv p)
  case (Cons x xs)
  obtain a sz f where "x = (a, sz, f)" by (cases x)
  with Cons show ?case by simp
qed simp

lemma seg_frame:
  "(\<And>a. a \<in> baddr ` set bs \<Longrightarrow> h' a = h a) \<Longrightarrow> seg h' pv p bs pv' p' = seg h pv p bs pv' p'"
  by (induction bs arbitrary: pv p) auto

lemma seg_upd_other [simp]:
  "a \<notin> baddr ` set bs \<Longrightarrow> seg (h(a := x)) pv p bs pv' p' = seg h pv p bs pv' p'"
  by (rule seg_frame) auto

lemma layout_append:
  "layout lo (xs @ ys) hi \<longleftrightarrow> (\<exists>mid. layout lo xs mid \<and> layout mid ys hi)"
  by (induction xs arbitrary: lo) auto

lemma layout_le: "layout lo bs hi \<Longrightarrow> lo \<le> hi"
  by (induction bs arbitrary: lo) (auto, fastforce)

lemma layout_bounds:
  "layout lo bs hi \<Longrightarrow> (a, sz, f) \<in> set bs \<Longrightarrow> lo \<le> unat a \<and> unat a + 32 + unat sz \<le> hi"
  by (induction bs arbitrary: lo) (auto dest: layout_le, fastforce)

lemma layout_aligned:
  "layout lo bs hi \<Longrightarrow> 8 dvd lo \<Longrightarrow> (a, sz, f) \<in> set bs \<Longrightarrow> 8 dvd unat a \<and> 8 dvd unat sz"
proof (induction bs arbitrary: lo)
  case (Cons b bs)
  obtain a' sz' f' where b: "b = (a', sz', f')" by (cases b)
  have "8 dvd lo + 32 + unat sz'" using Cons.prems b by (simp add: dvd_add)
  with Cons b show ?case by auto
qed simp

lemma layout_distinct: "layout lo bs hi \<Longrightarrow> distinct (map baddr bs)"
proof (induction bs arbitrary: lo)
  case (Cons b bs)
  obtain a sz f where b: "b = (a, sz, f)" by (cases b)
  with Cons.prems have l: "layout (lo + 32 + unat sz) bs hi" "unat a = lo" by auto
  have "a \<notin> baddr ` set bs"
    using layout_bounds [OF l(1)] l(2) by fastforce
  with Cons.IH [OF l(1)] b show ?case by auto
qed simp

section \<open>Allocation\<close>

definition fits :: "u64 \<Rightarrow> blk \<Rightarrow> bool" where
  "fits sz b \<longleftrightarrow> bfree b \<and> sz \<le> bsize b"

lemma alloc_loop_none:
  assumes "seg (hdr st) pv p bs pv' 0" and "\<And>b. b \<in> set bs \<Longrightarrow> \<not> fits sz b"
  shows "alloc_loop sz p st = Some (st, 0)"
  using assms
proof (induction bs arbitrary: pv p)
  case Nil
  then show ?case by (simp add: alloc_loop.simps)
next
  case (Cons b bs)
  then obtain a s f where b: "b = (a, s, f)" by (cases b)
  with Cons show ?case
    by (subst alloc_loop.simps) (fastforce simp: fits_def)
qed

lemma alloc_loop_first:
  assumes "seg (hdr st) pv p (xs @ (a, s, True) # ys) pv' 0"
    and "\<And>b. b \<in> set xs \<Longrightarrow> \<not> fits sz b" and "sz \<le> s"
  shows "alloc_loop sz p st = Some (take_block sz a st)"
  using assms
proof (induction xs arbitrary: pv p)
  case Nil
  then show ?case by (subst alloc_loop.simps) auto
next
  case (Cons b bs)
  then obtain a' s' f' where b: "b = (a', s', f')" by (cases b)
  with Cons show ?case
    by (subst alloc_loop.simps) (fastforce simp: fits_def)
qed

text \<open>First fit at the level of block lists.\<close>
lemma first_fit_cases:
  obtains (none) "\<And>b. b \<in> set bs \<Longrightarrow> \<not> fits sz b"
    | (some) xs a s ys where "bs = xs @ (a, s, True) # ys" "\<And>b. b \<in> set xs \<Longrightarrow> \<not> fits sz b" "sz \<le> s"
proof (cases "\<exists>b \<in> set bs. fits sz b")
  case True
  then obtain xs b ys where "bs = xs @ b # ys" "fits sz b" "\<forall>b \<in> set xs. \<not> fits sz b"
    by (rule split_list_first_propE)
  moreover obtain a s f where b: "b = (a, s, f)" by (cases b)
  moreover from b \<open>fits sz b\<close> have "f" "sz \<le> s" by (simp_all add: fits_def)
  ultimately show ?thesis using some [of xs a s ys] by blast
next
  case False
  then show ?thesis by (intro none) blast
qed

definition taken :: "u64 \<Rightarrow> u64 \<Rightarrow> u64 \<Rightarrow> blk list" where
  "taken sz a s =
     (if s \<ge> sz + HEADER_SIZE + ALIGNMENT
      then [(a, sz, False), (a + HEADER_SIZE + sz, s - sz - HEADER_SIZE, True)]
      else [(a, s, False)])"

lemma unat_add_no_wrap: "unat (x :: u64) + unat y < 2 ^ 64 \<Longrightarrow> unat (x + y) = unat x + unat y"
  by (simp add: unat_word_ariths)

lemma unat_HEADER [simp]: "unat HEADER_SIZE = 32" by (simp add: HEADER_SIZE_def)
lemma unat_ALIGNMENT [simp]: "unat ALIGNMENT = 8" by (simp add: ALIGNMENT_def)

lemma unat_need:
  assumes "unat sz \<le> unat s" and "unat s + 40 < 2 ^ 64"
  shows "unat (sz + HEADER_SIZE + ALIGNMENT) = unat sz + 40"
  using assms by (simp add: unat_add_no_wrap)

lemma unat_rest:
  assumes "unat sz + 32 \<le> unat s"
  shows "unat (s - sz - HEADER_SIZE) = unat s - unat sz - 32"
  using assms by (simp add: unat_sub word_le_nat_alt)

lemma layout_taken:
  assumes "layout lo ((a, s, True) # ys) hi" and "sz \<le> s" and "8 dvd unat sz" and "hi < 2 ^ 64"
    and lt: "unat s + 40 < 2 ^ 64"
  shows "layout lo (taken sz a s @ ys) hi"
proof (cases "s \<ge> sz + HEADER_SIZE + ALIGNMENT")
  case True
  have le: "unat sz + 40 \<le> unat s"
    using True assms(2) unat_need [OF _ lt] by (simp add: word_le_nat_alt)
  have hi: "unat a + 32 + unat s \<le> hi" using layout_bounds [OF assms(1), of a s True] by simp
  have "unat (a + HEADER_SIZE + sz) = unat a + 32 + unat sz"
    using hi assms(4) le by (simp add: unat_add_no_wrap)
  moreover have "unat (s - sz - HEADER_SIZE) = unat s - unat sz - 32"
    using le by (simp add: unat_rest)
  moreover have "8 dvd unat s - unat sz - 32"
    using assms(1,3) by (simp add: dvd_diff_nat)
  ultimately show ?thesis
    using True assms(1,3) le by (simp add: taken_def add.assoc)
next
  case False
  with assms show ?thesis by (simp add: taken_def)
qed

lemma take_block_ptr [simp]: "snd (take_block sz a st) = a + HEADER_SIZE"
  by (simp add: take_block_def Let_def)

lemma take_block_globals [simp]:
  "baseBlock (fst (take_block sz a st)) = baseBlock st"
  "totalBytes (fst (take_block sz a st)) = totalBytes st"
  by (simp_all add: take_block_def Let_def upd_hdr_def)

lemma seg_take_block:
  assumes sg: "seg (hdr st) q0 p (xs @ (a, s, True) # ys) pv 0"
    and dist: "distinct (map baddr (xs @ taken sz a s @ ys))"
    and nz: "\<And>b. b \<in> set (taken sz a s) \<Longrightarrow> baddr b \<noteq> 0"
  shows "\<exists>pv'. seg (hdr (fst (take_block sz a st))) q0 p (xs @ taken sz a s @ ys) pv' 0"
proof -
  obtain q where xs: "seg (hdr st) q0 p xs q a"
    and rest: "seg (hdr st) q a ((a, s, True) # ys) pv 0"
    using sg by (auto simp: seg_append)
  have a: "a \<noteq> 0" "blk_size (hdr st a) = s" "blk_free (hdr st a)" "blk_prev (hdr st a) = q"
    and ys: "seg (hdr st) a (blk_next (hdr st a)) ys pv 0"
    using rest by auto
  show ?thesis
  proof (cases "s \<ge> sz + HEADER_SIZE + ALIGNMENT")
    case False
    with a have h: "hdr (fst (take_block sz a st)) = (hdr st)(a := (hdr st a)\<lparr>blk_free := False\<rparr>)"
      by (simp add: take_block_def Let_def upd_hdr_def)
    with False xs ys a dist show ?thesis
      by (intro exI [of _ pv]) (auto simp: seg_append taken_def)
  next
    case True
    define c where "c = a + HEADER_SIZE + sz"
    have t: "taken sz a s = [(a, sz, False), (c, s - sz - HEADER_SIZE, True)]"
      using True by (simp add: taken_def c_def)
    have nc: "c \<noteq> 0" "c \<noteq> a" "c \<notin> baddr ` set xs" "c \<notin> baddr ` set ys" "a \<notin> baddr ` set xs"
        "a \<notin> baddr ` set ys"
      using dist nz [of "(c, s - sz - HEADER_SIZE, True)"] t by auto
    define h1 where "h1 = (hdr st)(c := \<lparr>blk_size = s - sz - HEADER_SIZE, blk_free = True,
                            blk_prev = a, blk_next = blk_next (hdr st a)\<rparr>)"
    show ?thesis
    proof (cases ys)
      case Nil
      then have "blk_next (hdr st a) = 0" using ys by auto
      with True a nc(2) have h: "hdr (fst (take_block sz a st)) =
          h1(a := (hdr st a)\<lparr>blk_next := c, blk_size := sz, blk_free := False\<rparr>)"
        by (simp add: take_block_def Let_def upd_hdr_def h1_def c_def [symmetric])
      with Nil xs a nc t \<open>blk_next (hdr st a) = 0\<close> show ?thesis
        by (intro exI [of _ c]) (auto simp: seg_append h1_def)
    next
      case (Cons y ys')
      obtain b bs bf where y: "y = (b, bs, bf)" by (cases y)
      have nb: "blk_next (hdr st a) = b" "b \<noteq> 0" "b \<noteq> a" "b \<noteq> c" "b \<notin> baddr ` set xs" "b \<notin> baddr ` set ys'"
        using ys Cons y dist nc by auto
      with True a nc(2) have h: "hdr (fst (take_block sz a st)) =
          h1(b := (hdr st b)\<lparr>blk_prev := c\<rparr>,
             a := (hdr st a)\<lparr>blk_next := c, blk_size := sz, blk_free := False\<rparr>)"
        by (simp add: take_block_def Let_def upd_hdr_def h1_def c_def [symmetric])
      with Cons y xs ys a nc nb t show ?thesis
        by (intro exI [of _ pv]) (auto simp: seg_append h1_def)
    qed
  qed
qed

lemma coalesced_taken:
  assumes "coalesced (xs @ (a, s, True) # ys)"
  shows "coalesced (xs @ taken sz a s @ ys)"
  using assms by (cases xs rule: rev_cases; cases ys)
    (auto simp: coalesced_def taken_def successively_append_iff successively_Cons)

lemma fl_rep_take_block:
  assumes rep: "fl_rep st (xs @ (a, s, True) # ys)" and "sz \<le> s" and "8 dvd unat sz"
  shows "fl_rep (fst (take_block sz a st)) (xs @ taken sz a s @ ys)"
proof -
  let ?lo = "unat (baseBlock st)" and ?hi = "unat (baseBlock st) + unat (totalBytes st)"
  obtain mid where l1: "layout ?lo xs mid" and l2: "layout mid ((a, s, True) # ys) ?hi"
    using rep by (auto simp: fl_rep_def layout_append)
  have hi: "?hi < 2 ^ 64" and lo: "0 < ?lo" "8 dvd ?lo" using rep by (auto simp: fl_rep_def unat_gt_0)
  have "unat a + 32 + unat s \<le> ?hi" "?lo \<le> mid" "8 \<le> ?lo"
    using layout_bounds [OF l2, of a s True] layout_le [OF l1] lo by (auto dest: dvd_imp_le)
  then have "unat s + 40 < 2 ^ 64" using l2 hi by simp
  from layout_taken [OF l2 assms(2,3) hi this] l1
  have lay: "layout ?lo (xs @ taken sz a s @ ys) ?hi" by (auto simp: layout_append)
  have "baddr b \<noteq> 0" if "b \<in> set (taken sz a s)" for b
    using layout_bounds [OF lay, of "baddr b" "bsize b" "bfree b"] that lo by (auto simp: unat_eq_zero)
  with seg_take_block [OF _ layout_distinct [OF lay]] rep lay coalesced_taken
  show ?thesis by (auto simp: fl_rep_def taken_def)
qed

section \<open>The live payloads\<close>

text \<open>The live payloads of a block list: the used blocks, by payload address.\<close>
definition live :: "blk list \<Rightarrow> u64 \<rightharpoonup> nat" where
  "live bs = map_of (map (\<lambda>b. (baddr b + HEADER_SIZE, unat (bsize b))) (filter (\<lambda>b. \<not> bfree b) bs))"

lemma live_None_if: "p - HEADER_SIZE \<notin> baddr ` set bs \<Longrightarrow> live bs p = None"
  by (force simp: live_def map_of_eq_None_iff)

lemma live_iff:
  assumes "distinct (map baddr bs)"
  shows "live bs p = Some k \<longleftrightarrow> (\<exists>s. (p - HEADER_SIZE, s, False) \<in> set bs \<and> k = unat s)"
proof -
  have "distinct (map (fst \<circ> (\<lambda>b. (baddr b + HEADER_SIZE, unat (bsize b)))) (filter (\<lambda>b. \<not> bfree b) bs))"
    using assms by (induction bs) force+
  then show ?thesis
    unfolding live_def by (subst map_of_eq_Some_iff) (force simp: map_map)+
qed

lemma live_free [simp]: "live (xs @ (a, s, True) # ys) = live (xs @ ys)"
  by (simp add: live_def)

lemma live_used:
  assumes "a \<notin> baddr ` set (xs @ ys)"
  shows "live (xs @ (a, s, False) # ys) = (live (xs @ ys))(a + HEADER_SIZE \<mapsto> unat s)"
proof -
  have "live xs (a + HEADER_SIZE) = None" using assms by (intro live_None_if) auto
  then show ?thesis by (auto simp: live_def fun_eq_iff map_add_def split: option.splits)
qed

lemma seg_unique:
  "seg h pv p bs q 0 \<Longrightarrow> seg h pv p bs' q' 0 \<Longrightarrow> bs = bs'"
proof (induction bs arbitrary: pv p bs')
  case Nil
  then show ?case by (cases bs') auto
next
  case (Cons b bs)
  obtain a s f where b: "b = (a, s, f)" by (cases b)
  with Cons.prems obtain c cs where bs': "bs' = c # cs" by (cases bs') auto
  obtain a' s' f' where "c = (a', s', f')" by (cases c)
  with Cons.prems b bs' have "c = b" "seg h a (blk_next (h a)) bs q 0" "seg h a (blk_next (h a)) cs q' 0"
    by auto
  with Cons.IH bs' show ?case by blast
qed

lemma fl_rep_unique:
  assumes "fl_rep st bs" and "fl_rep st bs'"
  shows "bs = bs'"
proof -
  obtain pv pv' where "seg (hdr st) 0 (baseBlock st) bs pv 0" "seg (hdr st) 0 (baseBlock st) bs' pv' 0"
    using assms unfolding fl_rep_def by blast
  then show ?thesis by (rule seg_unique)
qed

lemma fl_rep_distinct: "fl_rep st bs \<Longrightarrow> distinct (map baddr bs)"
  by (auto simp: fl_rep_def dest: layout_distinct)

section \<open>Alignment\<close>

lemma alignUp_nat: "unat (alignUp n) = (unat (n + 7) div 8) * 8"
proof -
  have "alignUp n = push_bit 3 (drop_bit 3 (n + 7))"
  proof -
    have m: "(7 :: u64) = mask 3" by (simp add: mask_eq_exp_minus_1)
    have "ALIGNMENT - 1 = (7 :: u64)" by (simp add: ALIGNMENT_def)
    then have "alignUp n = (n + 7) AND NOT 7" by (simp only: alignUp_def)
    then have "alignUp n = (n + 7) AND NOT (mask 3)" by (simp only: m)
    also have "\<dots> = push_bit 3 (drop_bit 3 (n + 7))"
      by (auto simp: bit_eq_iff bit_simps)
    finally show ?thesis .
  qed
  also have "unat \<dots> = (unat (n + 7) div 8) * 8"
  proof -
    have "unat (drop_bit 3 (n + 7)) = unat (n + 7) div 8"
      by (simp add: drop_bit_eq_div unat_div_distrib)
    moreover have "unat (n + 7) div 8 * 8 < 2 ^ 64"
      using unat_lt2p [of "n + 7"] by simp
    ultimately show ?thesis
      by (simp add: push_bit_eq_mult unat_word_ariths)
  qed
  finally show ?thesis .
qed

lemma alignUp_ok:
  assumes "unat n \<le> 2 ^ 64 - 8"
  shows "unat n \<le> unat (alignUp n)" and "unat (alignUp n) < unat n + 8" and "8 dvd unat (alignUp n)"
proof -
  have "unat (n + 7) = unat n + 7" using assms by (simp add: unat_add_no_wrap)
  then show "unat n \<le> unat (alignUp n)" "unat (alignUp n) < unat n + 8" "8 dvd unat (alignUp n)"
    by (simp_all add: alignUp_nat)
qed

lemma alignUp_wraps:
  assumes "2 ^ 64 - 8 < unat n"
  shows "alignUp n = 0"
proof -
  have "unat (n + 7) = (unat n + 7) mod 2 ^ 64" by (simp add: unat_word_ariths)
  also have "(unat n + 7) mod 2 ^ 64 = unat n + 7 - 2 ^ 64"
    using assms unat_lt2p [of n] by (simp add: mod_if)
  also have "\<dots> < 8" using unat_lt2p [of n] by simp
  finally show ?thesis by (simp add: word_unat_eq_iff alignUp_nat)
qed

section \<open>Freeing\<close>

fun mnext :: "u64 \<Rightarrow> u64 \<Rightarrow> blk list \<Rightarrow> blk list" where
  "mnext a s ((b, t, True) # ys) = (a, s + (HEADER_SIZE + t), True) # ys"
| "mnext a s ys = (a, s, True) # ys"

text \<open>The predecessor side, on the reversed prefix.\<close>
fun mprev :: "blk list \<Rightarrow> u64 \<Rightarrow> u64 \<Rightarrow> blk list" where
  "mprev ((c, u, True) # rxs) a s = (c, u + (HEADER_SIZE + s), True) # rxs"
| "mprev rxs a s = (a, s, True) # rxs"

lemma seg_merge_next:
  assumes sg: "seg (hdr st) q0 p (xs @ (a, s, True) # ys) pv 0"
    and dist: "distinct (map baddr (xs @ (a, s, True) # ys))"
  shows "\<exists>pv'. seg (hdr (merge_next a st)) q0 p (xs @ mnext a s ys) pv' 0"
proof -
  obtain q where xs: "seg (hdr st) q0 p xs q a"
    and a: "a \<noteq> 0" "blk_size (hdr st a) = s" "blk_free (hdr st a)" "blk_prev (hdr st a) = q"
    and ys: "seg (hdr st) a (blk_next (hdr st a)) ys pv 0"
    using sg by (auto simp: seg_append)
  show ?thesis
  proof (cases "\<exists>b t ys'. ys = (b, t, True) # ys'")
    case False
    then have "merge_next a st = st" "mnext a s ys = (a, s, True) # ys"
      using ys by (cases ys; auto simp: merge_next_def Let_def)+
    with sg show ?thesis by auto
  next
    case True
    then obtain b t ys' where y: "ys = (b, t, True) # ys'" by blast
    then have b: "blk_next (hdr st a) = b" "b \<noteq> 0" "blk_size (hdr st b) = t" "blk_free (hdr st b)"
        "b \<noteq> a" "b \<notin> baddr ` set xs" "b \<notin> baddr ` set ys'" "a \<notin> baddr ` set ys'" "a \<notin> baddr ` set xs"
      and ys': "seg (hdr st) b (blk_next (hdr st b)) ys' pv 0"
      using ys dist by auto
    define h1 where "h1 = (hdr st)(a := (hdr st a)\<lparr>blk_size := s + (HEADER_SIZE + t),
                                                 blk_next := blk_next (hdr st b)\<rparr>)"
    show ?thesis
    proof (cases ys')
      case Nil
      with ys' have n: "blk_next (hdr st b) = 0" by auto
      with a b have "hdr (merge_next a st) = h1"
        by (simp add: merge_next_def Let_def upd_hdr_def h1_def)
      with Nil y n xs a b show ?thesis by (intro exI [of _ a]) (auto simp: seg_append h1_def)
    next
      case (Cons z zs)
      obtain c u f where z: "z = (c, u, f)" by (cases z)
      have c: "blk_next (hdr st b) = c" "c \<noteq> 0" "c \<noteq> a" "c \<noteq> b" "c \<notin> baddr ` set xs" "c \<notin> baddr ` set zs"
        using ys' Cons z dist y by auto
      with a b have "hdr (merge_next a st) = h1(c := (hdr st c)\<lparr>blk_prev := a\<rparr>)"
        by (simp add: merge_next_def Let_def upd_hdr_def h1_def)
      with Cons z y xs ys' a b c show ?thesis by (intro exI [of _ "if zs = [] then c else pv"]) (auto simp: seg_append h1_def)
    qed
  qed
qed

lemma seg_merge_prev:
  assumes sg: "seg (hdr st) 0 p (rev rxs @ (a, s, True) # ys) pv 0"
    and dist: "distinct (map baddr (rev rxs @ (a, s, True) # ys))"
  shows "\<exists>pv'. seg (hdr (merge_prev a st)) 0 p (rev (mprev rxs a s) @ ys) pv' 0"
proof -
  obtain q where xs: "seg (hdr st) 0 p (rev rxs) q a"
    and a: "a \<noteq> 0" "blk_size (hdr st a) = s" "blk_free (hdr st a)" "blk_prev (hdr st a) = q"
    and ys: "seg (hdr st) a (blk_next (hdr st a)) ys pv 0"
    using sg by (auto simp: seg_append)
  show ?thesis
  proof (cases "\<exists>c u rxs'. rxs = (c, u, True) # rxs'")
    case False
    then have "merge_prev a st = st" "mprev rxs a s = (a, s, True) # rxs"
      using xs a by (cases rxs; auto simp: merge_prev_def Let_def seg_append)+
    with sg show ?thesis by auto
  next
    case True
    then obtain c u rxs' where x: "rxs = (c, u, True) # rxs'" by blast
    then obtain r where c: "q = c" "c \<noteq> 0" "blk_size (hdr st c) = u" "blk_free (hdr st c)"
        "blk_prev (hdr st c) = r" "blk_next (hdr st c) = a"
        "c \<noteq> a" "c \<notin> baddr ` set rxs'" "c \<notin> baddr ` set ys" "a \<notin> baddr ` set rxs'" "a \<notin> baddr ` set ys"
      and xs': "seg (hdr st) 0 p (rev rxs') r c"
      using xs dist by (auto simp: seg_append)
    define h1 where "h1 = (hdr st)(c := (hdr st c)\<lparr>blk_size := u + (HEADER_SIZE + s),
                                                 blk_next := blk_next (hdr st a)\<rparr>)"
    show ?thesis
    proof (cases ys)
      case Nil
      with ys have n: "blk_next (hdr st a) = 0" by auto
      with a c have "hdr (merge_prev a st) = h1"
        by (simp add: merge_prev_def Let_def upd_hdr_def h1_def)
      with Nil x n xs' a c show ?thesis by (intro exI [of _ c]) (auto simp: seg_append h1_def)
    next
      case (Cons z zs)
      obtain d v f where z: "z = (d, v, f)" by (cases z)
      have d: "blk_next (hdr st a) = d" "d \<noteq> 0" "d \<noteq> a" "d \<noteq> c" "d \<notin> baddr ` set rxs'" "d \<notin> baddr ` set zs"
        using ys Cons z dist x by auto
      with a c have "hdr (merge_prev a st) = h1(d := (hdr st d)\<lparr>blk_prev := c\<rparr>)"
        by (simp add: merge_prev_def Let_def upd_hdr_def h1_def)
      with Cons z x xs' ys a c d show ?thesis
        by (intro exI [of _ "if zs = [] then d else pv"]) (auto simp: seg_append h1_def)
    qed
  qed
qed

lemma layout_mnext:
  assumes "layout lo (xs @ (a, s, f) # ys) hi" and "hi < 2 ^ 64"
  shows "layout lo (xs @ mnext a s ys) hi"
proof -
  obtain mid where l: "layout lo xs mid" "layout mid ((a, s, f) # ys) hi"
    using assms(1) by (auto simp: layout_append)
  have "layout mid (mnext a s ys) hi"
  proof (cases "\<exists>b t ys'. ys = (b, t, True) # ys'")
    case True
    then obtain b t ys' where y: "ys = (b, t, True) # ys'" by blast
    with l(2) have "unat s + (32 + unat t) < 2 ^ 64"
      using layout_le [of "mid + 32 + unat s + 32 + unat t" ys' hi] assms(2) by simp
    then have "unat (s + (HEADER_SIZE + t)) = unat s + (32 + unat t)"
      by (simp add: unat_add_no_wrap)
    with y l(2) show ?thesis by (simp add: add.assoc dvd_add)
  next
    case False
    then have "mnext a s ys = (a, s, True) # ys" by (cases ys) auto
    with l(2) show ?thesis by simp
  qed
  with l(1) show ?thesis by (auto simp: layout_append)
qed

lemma layout_mprev:
  assumes "layout lo (rev rxs @ (a, s, f) # ys) hi" and "hi < 2 ^ 64"
  shows "layout lo (rev (mprev rxs a s) @ ys) hi"
proof (cases "\<exists>c u rxs'. rxs = (c, u, True) # rxs'")
  case True
  then obtain c u rxs' where x: "rxs = (c, u, True) # rxs'" by blast
  then obtain mid where l: "layout lo (rev rxs') mid" "layout mid ((c, u, True) # (a, s, f) # ys) hi"
    using assms(1) by (auto simp: layout_append)
  then have "unat u + (32 + unat s) < 2 ^ 64"
    using layout_le [of "mid + 32 + unat u + 32 + unat s" ys hi] assms(2) by simp
  then have "unat (u + (HEADER_SIZE + s)) = unat u + (32 + unat s)"
    by (simp add: unat_add_no_wrap)
  with x l show ?thesis by (auto simp: layout_append add.assoc dvd_add intro!: exI [of _ mid])
next
  case False
  then have "mprev rxs a s = (a, s, True) # rxs" by (cases rxs) auto
  with assms(1) show ?thesis by (auto simp: layout_append)
qed

text \<open>The block list after a free, and what it keeps.\<close>
definition freed :: "blk list \<Rightarrow> u64 \<Rightarrow> u64 \<Rightarrow> blk list \<Rightarrow> blk list" where
  "freed xs a s ys = (case mnext a s ys of [] \<Rightarrow> xs | (_, s', _) # zs \<Rightarrow> rev (mprev (rev xs) a s') @ zs)"

lemma mnext_head: "\<exists>s' zs. mnext a s ys = (a, s', True) # zs"
  by (cases "(a, s, ys)" rule: mnext.cases) auto

lemma coalesced_freed:
  assumes "coalesced (xs @ (a, s, False) # ys)"
  shows "coalesced (freed xs a s ys)"
  using assms
  by (cases "(a, s, ys)" rule: mnext.cases; cases "(rev xs, a, s)" rule: mprev.cases)
    (auto simp: freed_def coalesced_def successively_append_iff successively_Cons rev_swap)

lemma live_freed: "live (freed xs a s ys) = live (xs @ ys)"
  by (cases "(a, s, ys)" rule: mnext.cases; cases "(rev xs, a, s)" rule: mprev.cases)
    (auto simp: freed_def rev_swap live_def)

lemma merge_globals [simp]:
  "baseBlock (merge_next a st) = baseBlock st" "totalBytes (merge_next a st) = totalBytes st"
  "baseBlock (merge_prev a st) = baseBlock st" "totalBytes (merge_prev a st) = totalBytes st"
  by (simp_all add: merge_next_def merge_prev_def Let_def upd_hdr_def)

lemma fl_rep_free:
  assumes rep: "fl_rep st (xs @ (a, s, False) # ys)"
  shows "fl_rep (mem_free st (a + HEADER_SIZE)) (freed xs a s ys)"
proof -
  let ?lo = "unat (baseBlock st)" and ?hi = "unat (baseBlock st) + unat (totalBytes st)"
  let ?s1 = "upd_hdr a (\<lambda>x. x\<lparr>blk_free := True\<rparr>) st"
  have lay: "layout ?lo (xs @ (a, s, False) # ys) ?hi" and hi: "?hi < 2 ^ 64"
    and base: "baseBlock st \<noteq> 0" "8 dvd ?lo" and co: "coalesced (xs @ (a, s, False) # ys)"
    using rep by (auto simp: fl_rep_def)
  obtain pv where sg: "seg (hdr st) 0 (baseBlock st) (xs @ (a, s, False) # ys) pv 0"
    using rep by (auto simp: fl_rep_def)
  have d0: "distinct (map baddr (xs @ (a, s, True) # ys))"
    using layout_distinct [OF lay] by simp
  with sg have "seg (hdr ?s1) 0 (baseBlock st) (xs @ (a, s, True) # ys) pv 0"
    by (auto simp: seg_append upd_hdr_def)
  from seg_merge_next [OF this d0] obtain pv1 where
    sg1: "seg (hdr (merge_next a ?s1)) 0 (baseBlock st) (xs @ mnext a s ys) pv1 0" by blast
  obtain s' zs where m: "mnext a s ys = (a, s', True) # zs" using mnext_head by blast
  have lay1: "layout ?lo (xs @ (a, s', True) # zs) ?hi"
    using layout_mnext [OF lay hi] m by simp
  have "\<exists>pv2. seg (hdr (merge_prev a (merge_next a ?s1))) 0 (baseBlock st)
           (rev (mprev (rev xs) a s') @ zs) pv2 0"
    using seg_merge_prev [of "merge_next a ?s1" "baseBlock st" "rev xs" a s' zs pv1] sg1 m
      layout_distinct [OF lay1] by simp
  moreover have "layout ?lo (rev (mprev (rev xs) a s') @ zs) ?hi"
    using layout_mprev [of ?lo "rev xs" a s' True zs ?hi] lay1 hi by simp
  moreover have "a + HEADER_SIZE \<noteq> 0"
  proof -
    have "unat a + 32 + unat s \<le> ?hi" using layout_bounds [OF lay, of a s False] by simp
    then have "unat (a + HEADER_SIZE) = unat a + 32" using hi by (simp add: unat_add_no_wrap)
    then show ?thesis by (metis add_is_0 unat_0 zero_neq_numeral)
  qed
  moreover have "freed xs a s ys = rev (mprev (rev xs) a s') @ zs" by (simp add: freed_def m)
  moreover have "freed xs a s ys \<noteq> []"
    using m by (cases "(rev xs, a, s')" rule: mprev.cases) (auto simp: freed_def rev_swap)
  ultimately show ?thesis
    using coalesced_freed [OF co] base hi
    by (auto simp: fl_rep_def mem_free_def Let_def upd_hdr_def)
qed

section \<open>The operations on represented states\<close>

definition fl_inv :: "fl_state \<Rightarrow> bool" where
  "fl_inv st \<longleftrightarrow> (\<exists>bs. fl_rep st bs)"

definition fl_blocks :: "fl_state \<Rightarrow> u64 \<rightharpoonup> nat" where
  "fl_blocks st = (if fl_inv st then live (SOME bs. fl_rep st bs) else Map.empty)"

lemma fl_blocks_rep: "fl_rep st bs \<Longrightarrow> fl_blocks st = live bs"
  unfolding fl_blocks_def fl_inv_def by (metis fl_rep_unique someI)

lemma fl_rep_init:
  assumes "start \<noteq> 0" "8 dvd unat start" "8 dvd unat sz" "32 \<le> unat sz" "unat start + unat sz < 2 ^ 64"
  shows "fl_rep (mem_init start sz st) [(start, sz - HEADER_SIZE, True)]"
proof -
  have "unat (sz - HEADER_SIZE) = unat sz - 32"
    using assms(4) by (simp add: unat_sub word_le_nat_alt)
  then show ?thesis using assms by (simp add: fl_rep_def mem_init_def coalesced_def dvd_diff_nat)
qed

lemma mem_alloc_none:
  assumes "fl_rep st bs" and "\<And>b. b \<in> set bs \<Longrightarrow> \<not> fits (alignUp n) b"
  shows "mem_alloc st n = Some (st, 0)"
  using assms by (auto simp: mem_alloc_def fl_rep_def intro: alloc_loop_none)

lemma mem_alloc_first:
  assumes "fl_rep st (xs @ (a, s, True) # ys)" and "n \<noteq> 0"
    and "\<And>b. b \<in> set xs \<Longrightarrow> \<not> fits (alignUp n) b" and "alignUp n \<le> s"
  shows "mem_alloc st n = Some (fst (take_block (alignUp n) a st), a + HEADER_SIZE)"
proof -
  obtain pv where "seg (hdr st) 0 (baseBlock st) (xs @ (a, s, True) # ys) pv 0" "baseBlock st \<noteq> 0"
    using assms(1) by (auto simp: fl_rep_def)
  from alloc_loop_first [OF this(1) assms(3,4)] this(2) assms(2) show ?thesis
    by (simp add: mem_alloc_def prod_eq_iff)
qed

text \<open>Every call on a well-formed heap falls in one of two cases.\<close>
lemma mem_alloc_cases:
  assumes rep: "fl_rep st bs" and n: "n \<noteq> 0"
  obtains (fail) "mem_alloc st n = Some (st, 0)" "\<And>b. b \<in> set bs \<Longrightarrow> \<not> fits (alignUp n) b"
    | (ok) xs a s ys st' where "bs = xs @ (a, s, True) # ys" "alignUp n \<le> s"
      "\<And>b. b \<in> set xs \<Longrightarrow> \<not> fits (alignUp n) b"
      "mem_alloc st n = Some (st', a + HEADER_SIZE)" "fl_rep st' (xs @ taken (alignUp n) a s @ ys)"
proof (cases rule: first_fit_cases [of bs "alignUp n"])
  case none
  show ?thesis by (rule fail [OF mem_alloc_none [OF rep none] none])
next
  case (some xs a s ys)
  have "8 dvd unat (alignUp n)" by (simp add: alignUp_nat)
  with some rep show ?thesis
    using ok [OF some(1,3,2)] mem_alloc_first [of st xs a s ys n] fl_rep_take_block n by blast
qed

lemma payload_nonnull:
  assumes "fl_rep st bs" and "(a, s, f) \<in> set bs"
  shows "a + HEADER_SIZE \<noteq> 0" and "unat (a + HEADER_SIZE) = unat a + 32"
proof -
  have "unat a + 32 + unat s < 2 ^ 64"
    using assms layout_bounds [of "unat (baseBlock st)" bs _ a s f] by (fastforce simp: fl_rep_def)
  then show eq: "unat (a + HEADER_SIZE) = unat a + 32" by (simp add: unat_add_no_wrap)
  show "a + HEADER_SIZE \<noteq> 0"
  proof
    assume "a + HEADER_SIZE = 0"
    with eq show False by simp
  qed
qed

lemma live_taken:
  assumes rep: "fl_rep st (xs @ (a, s, True) # ys)"
    and rep': "fl_rep st' (xs @ taken sz a s @ ys)" and "sz \<le> s"
  shows "\<exists>k. unat sz \<le> k \<and> live (xs @ taken sz a s @ ys) =
           (live (xs @ (a, s, True) # ys))(a + HEADER_SIZE \<mapsto> k) \<and>
         live (xs @ (a, s, True) # ys) (a + HEADER_SIZE) = None"
proof -
  have d: "a \<notin> baddr ` set (xs @ ys)"
    using fl_rep_distinct [OF rep] by auto
  have none: "live (xs @ ys) (a + HEADER_SIZE) = None" using d by (intro live_None_if) simp
  show ?thesis
  proof (cases "s \<ge> sz + HEADER_SIZE + ALIGNMENT")
    case True
    let ?c = "(a + HEADER_SIZE + sz, s - sz - HEADER_SIZE, True)"
    have "a \<notin> baddr ` set (xs @ ?c # ys)"
      using fl_rep_distinct [OF rep'] True by (auto simp: taken_def)
    from live_used [OF this, of sz] True none show ?thesis
      by (intro exI [of _ "unat sz"]) (simp add: taken_def)
  next
    case False
    with live_used [OF d, of s] none assms(3) show ?thesis
      by (intro exI [of _ "unat s"]) (simp add: taken_def word_le_nat_alt)
  qed
qed

lemma fl_blocks_disjoint:
  assumes rep: "fl_rep st bs" and "live bs p = Some k" and "live bs q = Some l" and "p \<noteq> q"
  shows "unat p + k \<le> unat q \<or> unat q + l \<le> unat p"
proof -
  have d: "distinct (map baddr bs)" by (rule fl_rep_distinct [OF rep])
  obtain s t where p: "(p - HEADER_SIZE, s, False) \<in> set bs" "k = unat s"
    and q: "(q - HEADER_SIZE, t, False) \<in> set bs" "l = unat t"
    using assms(2,3) live_iff [OF d] by metis
  let ?a = "p - HEADER_SIZE" and ?b = "q - HEADER_SIZE"
  have ab: "?a \<noteq> ?b" using assms(4) by simp
  have pu: "unat p = unat ?a + 32" and qu: "unat q = unat ?b + 32"
    using payload_nonnull(2) [OF rep p(1)] payload_nonnull(2) [OF rep q(1)] by simp_all
  have lay: "layout (unat (baseBlock st)) bs (unat (baseBlock st) + unat (totalBytes st))"
    using rep by (simp add: fl_rep_def)
  obtain xs ys where bs: "bs = xs @ (?a, s, False) # ys" using p(1) by (meson split_list)
  obtain mid where l1: "layout (unat (baseBlock st)) xs mid"
    and l2: "layout mid ((?a, s, False) # ys) (unat (baseBlock st) + unat (totalBytes st))"
    using lay bs by (auto simp: layout_append)
  from q(1) bs ab consider "(?b, t, False) \<in> set xs" | "(?b, t, False) \<in> set ys" by auto
  then show ?thesis
  proof cases
    case 1
    from layout_bounds [OF l1 this] l2 pu qu p(2) q(2) show ?thesis by simp
  next
    case 2
    have "layout (mid + 32 + unat s) ys (unat (baseBlock st) + unat (totalBytes st))" "unat ?a = mid"
      using l2 by auto
    from layout_bounds [OF this(1) 2] this(2) pu qu p(2) q(2) show ?thesis by simp
  qed
qed

interpretation fl: allocator fl_ops fl_inv fl_blocks "\<lambda>_. 2 ^ 64 - 8"
proof
  fix st :: fl_state and n :: u64
  assume inv: "fl_inv st" and n: "n \<noteq> 0" and le: "unat n \<le> 2 ^ 64 - 8"
  obtain bs where rep: "fl_rep st bs" using inv by (auto simp: fl_inv_def)
  show "\<exists>st' p. mm_alloc fl_ops st n = Some (st', p) \<and> fl_inv st' \<and> (2::nat) ^ 64 - 8 = 2 ^ 64 - 8 \<and>
      (if p = 0 then fl_blocks st' = fl_blocks st
       else fl_blocks st p = None \<and> (\<exists>k. unat n \<le> k \<and> fl_blocks st' = (fl_blocks st)(p \<mapsto> k)))"
    using rep n
  proof (cases rule: mem_alloc_cases)
    case fail
    with inv show ?thesis by (simp add: fl_ops_def)
  next
    case (ok xs a s ys st')
    have "a + HEADER_SIZE \<noteq> 0" using payload_nonnull(1) [of st bs a s True] rep ok(1) by simp
    moreover obtain k where "unat (alignUp n) \<le> k" "live (xs @ taken (alignUp n) a s @ ys) =
        (live bs)(a + HEADER_SIZE \<mapsto> k)" "live bs (a + HEADER_SIZE) = None"
      using live_taken [OF _ ok(5,2)] rep ok(1) by blast
    ultimately show ?thesis
      using ok alignUp_ok(1) [OF le] fl_blocks_rep [OF rep] fl_blocks_rep [OF ok(5)]
      by (auto simp: fl_ops_def fl_inv_def intro!: exI [of _ k])
  qed
next
  fix st p k
  assume inv: "fl_inv st" and b: "fl_blocks st p = Some k"
  obtain bs where rep: "fl_rep st bs" using inv by (auto simp: fl_inv_def)
  obtain s where "(p - HEADER_SIZE, s, False) \<in> set bs"
    using b fl_blocks_rep [OF rep] live_iff [OF fl_rep_distinct [OF rep]] by auto
  then obtain xs ys where bs: "bs = xs @ (p - HEADER_SIZE, s, False) # ys" by (meson split_list)
  have rep': "fl_rep (mem_free st p) (freed xs (p - HEADER_SIZE) s ys)"
    using fl_rep_free [of st xs "p - HEADER_SIZE" s ys] rep bs by simp
  have "p - HEADER_SIZE \<notin> baddr ` set (xs @ ys)"
    using fl_rep_distinct [OF rep] bs by auto
  then have "live bs = (live (xs @ ys))(p \<mapsto> unat s)" "live (xs @ ys) p = None"
    using live_used [of "p - HEADER_SIZE" xs ys s] live_None_if bs by auto
  then have "live (xs @ ys) = (live bs)(p := None)" by auto
  with rep' show "\<exists>st'. mm_free fl_ops st p = Some st' \<and> fl_inv st' \<and> (2::nat) ^ 64 - 8 = 2 ^ 64 - 8 \<and>
      fl_blocks st' = (fl_blocks st)(p := None)"
    using fl_blocks_rep [OF rep] fl_blocks_rep [OF rep'] live_freed
    by (auto simp: fl_ops_def fl_inv_def)
next
  show "mm_free fl_ops st 0 = Some st" for st by (simp add: fl_ops_def mem_free_def)
next
  fix st p k q l
  assume "fl_inv st" and b: "fl_blocks st p = Some k" "fl_blocks st q = Some l" "p \<noteq> q"
  then obtain bs where rep: "fl_rep st bs" by (auto simp: fl_inv_def)
  from fl_blocks_disjoint [OF rep] b show "unat p + k \<le> unat q \<or> unat q + l \<le> unat p"
    by (simp add: fl_blocks_rep [OF rep])
qed

section \<open>Status\<close>

lemma status_loop_seg:
  assumes "seg (hdr st) pv p bs pv' 0"
  shows "status_loop p fr fg st =
    Some (fr + sum_list (map bsize (filter bfree bs)), fg + of_nat (length (filter bfree bs)))"
  using assms
proof (induction bs arbitrary: pv p fr fg)
  case Nil
  then show ?case by (simp add: status_loop.simps)
next
  case (Cons b bs)
  obtain a s f where b: "b = (a, s, f)" by (cases b)
  with Cons.prems have h: "p = a" "a \<noteq> 0" "blk_size (hdr st a) = s" "blk_free (hdr st a) = f"
    "seg (hdr st) a (blk_next (hdr st a)) bs pv' 0" by auto
  show ?case
    by (subst status_loop.simps) (use h b Cons.IH [OF h(5)] in \<open>auto simp: algebra_simps\<close>)
qed

lemma layout_total:
  "layout lo bs hi \<Longrightarrow> hi = lo + 32 * length bs + sum_list (map (unat \<circ> bsize) bs)"
proof (induction bs arbitrary: lo)
  case (Cons b bs)
  obtain a s f where "b = (a, s, f)" by (cases b)
  with Cons.prems Cons.IH [of "lo + 32 + unat s"] show ?case by simp
qed simp

lemma unat_sum_list:
  assumes "sum_list (map (unat \<circ> bsize) bs) < 2 ^ 64"
  shows "unat (sum_list (map bsize (bs :: blk list))) = sum_list (map (unat \<circ> bsize) bs)"
  using assms by (induction bs) (auto simp: unat_add_no_wrap)

lemma sum_list_filter_split:
  "sum_list (map f (filter P xs)) + sum_list (map f (filter (\<lambda>x. \<not> P x) xs)) = sum_list (map f xs :: nat list)"
  by (induction xs) auto

section \<open>Properties\<close>

text \<open>The zeroed data segment the kernel starts with, and \<^verbatim>\<open>MEM_HEAP_START\<close>,
  \<^verbatim>\<open>MEM_HEAP_SIZE\<close> of \<^verbatim>\<open>memoryManager.h\<close>.\<close>
definition fl_zero :: fl_state where
  "fl_zero = \<lparr>hdr = (\<lambda>_. \<lparr>blk_size = 0, blk_free = False, blk_prev = 0, blk_next = 0\<rparr>),
              baseBlock = 0, totalBytes = 0\<rparr>"

definition MEM_HEAP_START :: u64 where
  "MEM_HEAP_START = 0x1000000"

definition MEM_HEAP_SIZE :: u64 where
  "MEM_HEAP_SIZE = 256 * 1024 * 1024"

lemma heap_constants [simp]:
  "unat MEM_HEAP_START = 0x1000000" "unat MEM_HEAP_SIZE = 0x10000000" "MEM_HEAP_START \<noteq> 0"
  by (simp_all add: MEM_HEAP_START_def MEM_HEAP_SIZE_def)

lemma boot_rep:
  "fl_rep (mem_init MEM_HEAP_START MEM_HEAP_SIZE st) [(MEM_HEAP_START, MEM_HEAP_SIZE - HEADER_SIZE, True)]"
  by (rule fl_rep_init) simp_all

lemma boot_inv [simp]: "fl_inv (mem_init MEM_HEAP_START MEM_HEAP_SIZE st)"
  using boot_rep by (auto simp: fl_inv_def)

text \<open>C11. Allocation of 1 to \<open>2 ^ 64 - 8\<close> bytes on a well-formed heap returns, keeps the heap well formed (a doubly linked
  chain that tiles the area with no two free neighbours), and either answers \<^verbatim>\<open>NULL\<close> without
  touching the live blocks or returns an 8-aligned payload of at least the requested size that
  lies inside the managed area and overlaps no block that was live.\<close>
theorem mem_alloc_correct:
  assumes "fl_inv st" and "n \<noteq> 0" and "unat n \<le> 2 ^ 64 - 8"
  shows "\<exists>st' p. mem_alloc st n = Some (st', p) \<and> fl_inv st' \<and>
    (if p = 0 then st' = st
     else 8 dvd unat p \<and>
       (\<exists>k. unat n \<le> k \<and> fl_blocks st' = (fl_blocks st)(p \<mapsto> k) \<and>
          unat (baseBlock st) \<le> unat p \<and> unat p + k \<le> unat (baseBlock st) + unat (totalBytes st) \<and>
          (\<forall>q l. fl_blocks st q = Some l \<longrightarrow> unat p + k \<le> unat q \<or> unat q + l \<le> unat p)))"
proof -
  obtain bs where rep: "fl_rep st bs" using assms(1) by (auto simp: fl_inv_def)
  show ?thesis
    using rep assms(2)
  proof (cases rule: mem_alloc_cases)
    case fail
    with assms(1) show ?thesis by auto
  next
    case (ok xs a s ys st')
    let ?p = "a + HEADER_SIZE"
    have p0: "?p \<noteq> 0" and pu: "unat ?p = unat a + 32"
      using payload_nonnull [of st bs a s True] rep ok(1) by auto
    have lay: "layout (unat (baseBlock st)) bs (unat (baseBlock st) + unat (totalBytes st))"
      and al: "8 dvd unat (baseBlock st)" using rep by (auto simp: fl_rep_def)
    have mem: "(a, s, True) \<in> set bs" using ok(1) by simp
    obtain k where k: "unat n \<le> k" "fl_blocks st' = (fl_blocks st)(?p \<mapsto> k)" "fl_blocks st ?p = None"
      using fl.alloc_law [OF assms] ok(4) p0 by (auto simp: fl_ops_def)
    have "live (xs @ taken (alignUp n) a s @ ys) ?p = Some k"
      using k(2) fl_blocks_rep [OF ok(5)] by simp
    then obtain t where t: "(a, t, False) \<in> set (xs @ taken (alignUp n) a s @ ys)" "k = unat t"
      using live_iff [OF fl_rep_distinct [OF ok(5)]] by auto
    then have "unat a + 32 + k \<le> unat (baseBlock st') + unat (totalBytes st')"
        "baseBlock st' = baseBlock st" "totalBytes st' = totalBytes st"
      using ok(4,5) layout_bounds [OF _ t(1)] mem_alloc_first [of st xs a s ys n] rep ok(1,2,3) assms(2)
      by (auto simp: fl_rep_def)
    moreover have "unat (baseBlock st) \<le> unat a" "8 dvd unat a"
      using layout_bounds [OF lay mem] layout_aligned [OF lay al mem] by auto
    moreover have "fl_inv st'" using ok(5) by (auto simp: fl_inv_def)
    moreover have "unat ?p + k \<le> unat q \<or> unat q + l \<le> unat ?p" if "fl_blocks st q = Some l" for q l
    proof -
      have "q \<noteq> ?p" using that k(3) by auto
      with fl.disjoint_law [OF \<open>fl_inv st'\<close>, of ?p k q l] k(2) that show ?thesis by simp
    qed
    ultimately show ?thesis using ok(4) p0 pu k by (auto intro!: exI [of _ k])
  qed
qed

theorem mem_alloc_correct_witness:
  "\<exists>st' p. mem_alloc (mem_init MEM_HEAP_START MEM_HEAP_SIZE fl_zero) 100 = Some (st', p) \<and> fl_inv st'"
  using mem_alloc_correct [of "mem_init MEM_HEAP_START MEM_HEAP_SIZE fl_zero" 100] by auto

lemma boot_alloc_100:
  "\<exists>st' p. mem_alloc (mem_init MEM_HEAP_START MEM_HEAP_SIZE st) 100 = Some (st', p) \<and> p \<noteq> 0"
proof -
  have n: "alignUp 100 = 104" by (simp add: alignUp_def ALIGNMENT_def)
  have "fl_rep (mem_init MEM_HEAP_START MEM_HEAP_SIZE st) ([] @ (MEM_HEAP_START, MEM_HEAP_SIZE - HEADER_SIZE, True) # [])"
    using boot_rep by simp
  from mem_alloc_first [OF this, of 100] n show ?thesis
    by (simp add: MEM_HEAP_SIZE_def HEADER_SIZE_def MEM_HEAP_START_def)
qed

text \<open>C38. First fit is complete: \<^verbatim>\<open>NULL\<close> is returned exactly when no free block can hold the
  rounded-up request.\<close>
theorem mem_alloc_null_iff:
  assumes "fl_rep st bs" and "n \<noteq> 0" and "mem_alloc st n = Some (st', p)"
  shows "p = 0 \<longleftrightarrow> (\<forall>b \<in> set bs. bfree b \<longrightarrow> bsize b < alignUp n)"
  using assms(1,2)
proof (cases rule: mem_alloc_cases)
  case fail
  with assms(3) show ?thesis by (auto simp: fits_def not_le)
next
  case (ok xs a s ys st1)
  have "a + HEADER_SIZE \<noteq> 0" using payload_nonnull(1) [OF assms(1), of a s True] ok(1) by simp
  with ok assms(3) show ?thesis by (auto simp: not_less)
qed

theorem mem_alloc_null_iff_witness:
  "\<exists>st' p. mem_alloc (mem_init MEM_HEAP_START MEM_HEAP_SIZE fl_zero) 100 = Some (st', p) \<and> p \<noteq> 0"
proof -
  obtain st' p where a: "mem_alloc (mem_init MEM_HEAP_START MEM_HEAP_SIZE fl_zero) 100 = Some (st', p)"
    using boot_alloc_100 by blast
  have "alignUp 100 = 104" by (simp add: alignUp_def ALIGNMENT_def)
  then have "p \<noteq> 0"
    using mem_alloc_null_iff [OF boot_rep _ a] by (simp add: MEM_HEAP_SIZE_def HEADER_SIZE_def)
  with a show ?thesis by blast
qed

text \<open>C12. Freeing a live payload returns its bytes: the heap stays well formed and coalesced and
  exactly that block leaves the live set.\<close>
theorem mem_free_correct:
  assumes "fl_inv st" and "fl_blocks st p = Some k"
  shows "fl_inv (mem_free st p) \<and> fl_blocks (mem_free st p) = (fl_blocks st)(p := None)"
  using fl.free_law [OF assms] by (simp add: fl_ops_def)

theorem mem_free_correct_witness:
  "\<exists>st p. fl_inv st \<and> fl_blocks st p \<noteq> None \<and> fl_inv (mem_free st p) \<and> fl_blocks (mem_free st p) p = None"
proof -
  obtain st p where a: "mem_alloc (mem_init MEM_HEAP_START MEM_HEAP_SIZE fl_zero) 100 = Some (st, p)" "p \<noteq> 0"
    using boot_alloc_100 by blast
  then have "fl_inv st" "fl_blocks st p \<noteq> None"
    using fl.alloc_law [of "mem_init MEM_HEAP_START MEM_HEAP_SIZE fl_zero" 100] by (auto simp: fl_ops_def)
  with mem_free_correct [of st p] show ?thesis by fastforce
qed

text \<open>C13. Freeing what was just allocated restores the block list: splitting and coalescing are
  inverse, so repeated allocate/free cycles do not fragment the heap.\<close>
theorem mem_alloc_free_roundtrip:
  assumes rep: "fl_rep st bs" and "mem_alloc st n = Some (st', p)" and "p \<noteq> 0"
  shows "fl_rep (mem_free st' p) bs"
proof -
  have n: "n \<noteq> 0" using assms(2,3) by (auto simp: mem_alloc_def)
  show ?thesis
    using rep n
  proof (cases rule: mem_alloc_cases)
    case fail
    with assms(2,3) show ?thesis by simp
  next
    case (ok xs a s ys st1)
    have co: "coalesced (xs @ (a, s, True) # ys)" using rep ok(1) by (simp add: fl_rep_def)
    have p: "st1 = st'" "p = a + HEADER_SIZE" using ok(4) assms(2) by simp_all
    have mp: "mprev (rev xs) a s = (a, s, True) # rev xs"
      using co by (cases "(rev xs, a, s)" rule: mprev.cases)
        (auto simp: coalesced_def rev_swap successively_append_iff)
    show ?thesis
    proof (cases "s \<ge> alignUp n + HEADER_SIZE + ALIGNMENT")
      case True
      let ?c = "(a + HEADER_SIZE + alignUp n, s - alignUp n - HEADER_SIZE, True)"
      have "fl_rep st' (xs @ (a, alignUp n, False) # ?c # ys)"
        using ok(5) p(1) True by (simp add: taken_def)
      from fl_rep_free [OF this] show ?thesis
        using p(2) ok(1) mp by (simp add: freed_def)
    next
      case False
      have "fl_rep st' (xs @ (a, s, False) # ys)" using ok(5) p(1) False by (simp add: taken_def)
      moreover have "mnext a s ys = (a, s, True) # ys"
        using co by (cases "(a, s, ys)" rule: mnext.cases)
          (auto simp: coalesced_def successively_append_iff successively_Cons)
      ultimately show ?thesis
        using fl_rep_free [of st' xs a s ys] p(2) ok(1) mp by (simp add: freed_def)
    qed
  qed
qed

theorem mem_alloc_free_roundtrip_witness:
  "\<exists>st' p. mem_alloc (mem_init MEM_HEAP_START MEM_HEAP_SIZE fl_zero) 100 = Some (st', p) \<and> p \<noteq> 0 \<and>
     fl_rep (mem_free st' p) [(MEM_HEAP_START, MEM_HEAP_SIZE - HEADER_SIZE, True)]"
proof -
  obtain st' p where a: "mem_alloc (mem_init MEM_HEAP_START MEM_HEAP_SIZE fl_zero) 100 = Some (st', p)" "p \<noteq> 0"
    using boot_alloc_100 by blast
  from mem_alloc_free_roundtrip [OF boot_rep this] this show ?thesis by blast
qed

text \<open>\<^verbatim>\<open>mem_status\<close> returns and accounts for every byte: free is the sum of the free payloads,
  fragments their number, and occupied is exactly the used payloads plus one header per block.\<close>
theorem mem_status_accounts:
  assumes "fl_rep st bs"
  shows "\<exists>info. mem_status st = Some info \<and> mi_total info = totalBytes st \<and>
    unat (mi_free info) = sum_list (map (unat \<circ> bsize) (filter bfree bs)) \<and>
    unat (mi_fragments info) = length (filter bfree bs) \<and>
    unat (mi_occupied info) = sum_list (map (unat \<circ> bsize) (filter (\<lambda>b. \<not> bfree b) bs)) + 32 * length bs"
proof -
  let ?fr = "sum_list (map (unat \<circ> bsize) (filter bfree bs))"
  let ?us = "sum_list (map (unat \<circ> bsize) (filter (\<lambda>b. \<not> bfree b) bs))"
  obtain pv where sg: "seg (hdr st) 0 (baseBlock st) bs pv 0" using assms by (auto simp: fl_rep_def)
  have tot: "unat (totalBytes st) = 32 * length bs + ?fr + ?us"
    using assms layout_total [of "unat (baseBlock st)" bs "unat (baseBlock st) + unat (totalBytes st)"]
      sum_list_filter_split [of "unat \<circ> bsize" bfree bs]
    by (auto simp: fl_rep_def)
  have fr: "unat (sum_list (map bsize (filter bfree bs))) = ?fr"
    using tot unat_lt2p [of "totalBytes st"] by (intro unat_sum_list) simp
  have "length bs < 2 ^ 64" using tot unat_lt2p [of "totalBytes st"] by simp
  then have "length (filter bfree bs) < 2 ^ 64" by (rule le_less_trans [OF length_filter_le])
  then have fg: "unat (of_nat (length (filter bfree bs)) :: u64) = length (filter bfree bs)"
    by (simp add: unat_of_nat)
  have "unat (totalBytes st - sum_list (map bsize (filter bfree bs))) = unat (totalBytes st) - ?fr"
    using tot fr by (simp add: unat_sub word_le_nat_alt)
  then show ?thesis
    using status_loop_seg [OF sg, of 0 0] tot fr fg by (simp add: mem_status_def)
qed

theorem mem_status_accounts_witness:
  "\<exists>info. mem_status (mem_init MEM_HEAP_START MEM_HEAP_SIZE fl_zero) = Some info \<and>
     unat (mi_free info) = 0x10000000 - 32 \<and> unat (mi_fragments info) = 1 \<and> unat (mi_occupied info) = 32"
proof -
  have "unat (MEM_HEAP_SIZE - HEADER_SIZE) = 0x10000000 - 32"
    by (simp add: MEM_HEAP_SIZE_def HEADER_SIZE_def)
  then show ?thesis using mem_status_accounts [OF boot_rep, of fl_zero] by auto
qed

text \<open>A request above \<open>2 ^ 64 - 8\<close> wraps around in \<^verbatim>\<open>alignUp\<close> and is served: on the boot heap
  \<^verbatim>\<open>mem_alloc\<close> answers with a non-\<^verbatim>\<open>NULL\<close> payload of zero bytes instead of failing.\<close>
theorem mem_alloc_huge_request_served:
  assumes "2 ^ 64 - 8 < unat n"
  shows "\<exists>st'. mem_alloc (mem_init MEM_HEAP_START MEM_HEAP_SIZE st) n = Some (st', MEM_HEAP_START + HEADER_SIZE) \<and>
    fl_blocks st' (MEM_HEAP_START + HEADER_SIZE) = Some 0"
proof -
  let ?b = "(MEM_HEAP_START, MEM_HEAP_SIZE - HEADER_SIZE, True)"
  have z: "alignUp n = 0" by (rule alignUp_wraps [OF assms])
  have n: "n \<noteq> 0" using assms by auto
  have rep: "fl_rep (mem_init MEM_HEAP_START MEM_HEAP_SIZE st) ([] @ ?b # [])" using boot_rep by simp
  from mem_alloc_first [OF rep n] z obtain st' where
    al: "mem_alloc (mem_init MEM_HEAP_START MEM_HEAP_SIZE st) n = Some (st', MEM_HEAP_START + HEADER_SIZE)"
    and st': "st' = fst (take_block 0 MEM_HEAP_START (mem_init MEM_HEAP_START MEM_HEAP_SIZE st))"
    by auto
  have "fl_rep st' ([] @ taken 0 MEM_HEAP_START (MEM_HEAP_SIZE - HEADER_SIZE) @ [])"
    unfolding st' by (rule fl_rep_take_block [OF rep]) simp_all
  from fl_blocks_rep [OF this] al show ?thesis
    by (auto simp: taken_def live_def MEM_HEAP_SIZE_def HEADER_SIZE_def ALIGNMENT_def)
qed

theorem mem_alloc_huge_request_served_witness:
  "\<exists>st'. mem_alloc (mem_init MEM_HEAP_START MEM_HEAP_SIZE fl_zero) 0xFFFFFFFFFFFFFFFF = Some (st', MEM_HEAP_START + HEADER_SIZE) \<and>
    fl_blocks st' (MEM_HEAP_START + HEADER_SIZE) = Some 0"
  using mem_alloc_huge_request_served [of "0xFFFFFFFFFFFFFFFF" fl_zero] by simp

end
