(* ===== verification/KCircularBuffer.thy ===== *)
theory KCircularBuffer
  imports KFreeList
begin

text \<open>
  \<^verbatim>\<open>Kernel/circularBuffer.c\<close>: the byte FIFO inside a pipe.  The record holds the fields of
  \<^verbatim>\<open>circularBufferCDT\<close> and the two addresses it occupies; \<open>cb_data\<close> is the memory from the data
  pointer on.  A possibly \<^verbatim>\<open>NULL\<close> argument is an \<open>option\<close>.  The theory shows that the indices
  stay inside the array and that the structure is a bounded FIFO queue (locale \<open>bounded_fifo\<close>).
\<close>

record circularBuffer =
  cb_self :: u64
  cb_data_ptr :: u64
  cb_data :: "u64 \<Rightarrow> u8"
  maxSize :: u64
  readIdx :: u64
  writeIdx :: u64
  cb_count :: u64

text \<open>\<^verbatim>\<open>#define EOF 0\<close>\<close>
definition CB_EOF :: u8 where
  "CB_EOF = 0"

text \<open>\<^verbatim>\<open>sizeof(circularBufferCDT)\<close>: a pointer and four 64-bit integers.\<close>
definition sizeof_circularBuffer :: u64 where
  "sizeof_circularBuffer = 40"

text \<open>\<open>raw\<close> is what the freshly allocated data area already holds.\<close>
definition newBuffer ::
  "'m mm_ops \<Rightarrow> (u64 \<Rightarrow> u8) \<Rightarrow> u64 \<Rightarrow> 'm \<Rightarrow> ('m \<times> circularBuffer option) option" where
  "newBuffer mm raw maxSz m =
     (if maxSz = 0 then Some (m, None)
      else do {
        (m, cb) \<leftarrow> mm_alloc mm m sizeof_circularBuffer;
        if cb = 0 then Some (m, None)
        else do {
          (m, d) \<leftarrow> mm_alloc mm m maxSz;
          if d = 0 then do { m \<leftarrow> mm_free mm m cb; Some (m, None) }
          else Some (m, Some \<lparr>cb_self = cb, cb_data_ptr = d, cb_data = raw, maxSize = maxSz,
                              readIdx = 0, writeIdx = 0, cb_count = 0\<rparr>)
        }
      })"

definition bufferIsFull :: "circularBuffer option \<Rightarrow> bool" where
  "bufferIsFull cb = (case cb of None \<Rightarrow> False | Some c \<Rightarrow> cb_count c = maxSize c)"

definition bufferHasData :: "circularBuffer option \<Rightarrow> bool" where
  "bufferHasData cb = (case cb of None \<Rightarrow> False | Some c \<Rightarrow> cb_count c > 0)"

definition bufferWrite :: "circularBuffer option \<Rightarrow> u8 \<Rightarrow> circularBuffer option \<times> int" where
  "bufferWrite cb byteToWrite =
     (case cb of None \<Rightarrow> (None, 0)
      | Some c \<Rightarrow>
          if bufferIsFull (Some c) then (Some c, 0)
          else (Some (c\<lparr>cb_data := (cb_data c)(writeIdx c := byteToWrite),
                        writeIdx := (writeIdx c + 1) mod maxSize c,
                        cb_count := cb_count c + 1\<rparr>), 1))"

definition bufferRead :: "circularBuffer option \<Rightarrow> circularBuffer option \<times> u8" where
  "bufferRead cb =
     (case cb of None \<Rightarrow> (None, CB_EOF)
      | Some c \<Rightarrow>
          if \<not> bufferHasData (Some c) then (Some c, CB_EOF)
          else (Some (c\<lparr>readIdx := (readIdx c + 1) mod maxSize c,
                        cb_count := cb_count c - 1\<rparr>), cb_data c (readIdx c)))"

definition freeBuffer :: "'m mm_ops \<Rightarrow> circularBuffer option \<Rightarrow> 'm \<Rightarrow> 'm option" where
  "freeBuffer mm cb m =
     (case cb of None \<Rightarrow> Some m
      | Some c \<Rightarrow> do { m \<leftarrow> mm_free mm m (cb_data_ptr c); mm_free mm m (cb_self c) })"

section \<open>Invariant and abstraction\<close>

definition cb_inv :: "circularBuffer \<Rightarrow> bool" where
  "cb_inv c \<longleftrightarrow> maxSize c \<noteq> 0 \<and> readIdx c < maxSize c \<and> writeIdx c < maxSize c \<and>
     cb_count c \<le> maxSize c \<and>
     unat (writeIdx c) = (unat (readIdx c) + unat (cb_count c)) mod unat (maxSize c)"

definition cb_slot :: "circularBuffer \<Rightarrow> nat \<Rightarrow> u64" where
  "cb_slot c i = of_nat ((unat (readIdx c) + i) mod unat (maxSize c))"

definition cb_list :: "circularBuffer \<Rightarrow> u8 list" where
  "cb_list c = map (\<lambda>i. cb_data c (cb_slot c i)) [0..<unat (cb_count c)]"

lemma length_cb_list [simp]: "length (cb_list c) = unat (cb_count c)"
  by (simp add: cb_list_def)

lemma unat_cb_slot:
  assumes "maxSize c \<noteq> 0"
  shows "unat (cb_slot c i) = (unat (readIdx c) + i) mod unat (maxSize c)"
proof -
  have "(unat (readIdx c) + i) mod unat (maxSize c) < unat (maxSize c)"
    using assms by (simp add: unat_gt_0)
  then show ?thesis
    unfolding cb_slot_def
    using unat_lt2p [of "maxSize c"] by (simp add: unat_of_nat)
qed

lemma cb_slot_inj:
  assumes inv: "maxSize c \<noteq> 0" and i: "i < unat (maxSize c)" and j: "j < unat (maxSize c)"
    and eq: "cb_slot c i = cb_slot c j"
  shows "i = j"
proof -
  have "(unat (readIdx c) + i) mod unat (maxSize c) = (unat (readIdx c) + j) mod unat (maxSize c)"
    using unat_cb_slot [OF inv] eq by metis
  then show ?thesis
    by (rule mod_add_cancel_less [OF i j])
qed

lemma cb_list_nth: "i < unat (cb_count c) \<Longrightarrow> cb_list c ! i = cb_data c (cb_slot c i)"
  by (simp add: cb_list_def)

lemma cb_inv_count_le: "cb_inv c \<Longrightarrow> unat (cb_count c) \<le> unat (maxSize c)"
  by (simp add: cb_inv_def word_le_nat_alt)

lemma cb_write_slot:
  assumes "cb_inv c"
  shows "writeIdx c = cb_slot c (unat (cb_count c))"
  using assms by (simp add: word_unat_eq_iff unat_cb_slot cb_inv_def)

lemma bufferWrite_full:
  "cb_count c = maxSize c \<Longrightarrow> bufferWrite (Some c) b = (Some c, 0)"
  by (simp add: bufferWrite_def bufferIsFull_def)

lemma bufferRead_empty:
  "cb_count c = 0 \<Longrightarrow> bufferRead (Some c) = (Some c, CB_EOF)"
  by (simp add: bufferRead_def bufferHasData_def)

lemma bufferWrite_room:
  assumes inv: "cb_inv c" and room: "cb_count c \<noteq> maxSize c"
  shows "\<exists>c'. bufferWrite (Some c) b = (Some c', 1) \<and> cb_inv c' \<and> maxSize c' = maxSize c \<and>
           cb_list c' = cb_list c @ [b]"
proof -
  let ?c' = "c\<lparr>cb_data := (cb_data c)(writeIdx c := b), writeIdx := (writeIdx c + 1) mod maxSize c,
               cb_count := cb_count c + 1\<rparr>"
  have lt: "cb_count c < maxSize c" and nz: "maxSize c \<noteq> 0" and w: "writeIdx c < maxSize c"
    using inv room by (auto simp: cb_inv_def order.strict_iff_order)
  have cnt: "unat (cb_count ?c') = unat (cb_count c) + 1"
    using unat_succ_no_wrap [OF lt] by simp
  have "unat (writeIdx ?c') = (unat (readIdx c) + unat (cb_count ?c')) mod unat (maxSize c)"
    using inv unat_succ_mod [OF w] cnt by (simp add: cb_inv_def mod_simps add.assoc)
  moreover have "cb_count ?c' \<le> maxSize ?c'"
    using cnt lt by (simp add: word_le_nat_alt word_less_nat_alt)
  moreover have "(writeIdx c + 1) mod maxSize c < maxSize c"
    using nz by (simp add: word_mod_less_divisor word_neq_0_conv)
  ultimately have inv': "cb_inv ?c'"
    using inv by (simp add: cb_inv_def)
  have slot: "cb_slot ?c' = cb_slot c" by (simp add: cb_slot_def fun_eq_iff)
  have "cb_list ?c' = cb_list c @ [b]"
  proof (rule nth_equalityI)
    show "length (cb_list ?c') = length (cb_list c @ [b])" using cnt by simp
  next
    fix i assume "i < length (cb_list ?c')"
    then have i: "i < unat (cb_count c) + 1" using cnt by simp
    have ltn: "unat (cb_count c) < unat (maxSize c)" using lt by (simp add: word_less_nat_alt)
    show "cb_list ?c' ! i = (cb_list c @ [b]) ! i"
    proof (cases "i = unat (cb_count c)")
      case True
      with i cnt show ?thesis
        using cb_write_slot [OF inv] slot by (simp add: cb_list_nth nth_append)
    next
      case False
      with i have il: "i < unat (cb_count c)" by simp
      have "cb_slot c i \<noteq> writeIdx c"
        using cb_slot_inj [OF nz, of i "unat (cb_count c)"] il ltn cb_write_slot [OF inv] by auto
      with il i cnt slot show ?thesis by (simp add: cb_list_nth nth_append)
    qed
  qed
  moreover have "bufferWrite (Some c) b = (Some ?c', 1)"
    using room by (simp add: bufferWrite_def bufferIsFull_def)
  ultimately show ?thesis using inv' by auto
qed

lemma bufferRead_data:
  assumes inv: "cb_inv c" and data: "cb_count c \<noteq> 0"
  shows "\<exists>c' x. bufferRead (Some c) = (Some c', x) \<and> cb_inv c' \<and> maxSize c' = maxSize c \<and>
           cb_list c = x # cb_list c'"
proof -
  let ?c' = "c\<lparr>readIdx := (readIdx c + 1) mod maxSize c, cb_count := cb_count c - 1\<rparr>"
  have nz: "maxSize c \<noteq> 0" and r: "readIdx c < maxSize c" and pos: "0 < cb_count c"
    using inv data by (auto simp: cb_inv_def word_neq_0_conv)
  have cnt: "unat (cb_count ?c') = unat (cb_count c) - 1" and cpos: "0 < unat (cb_count c)"
    using unat_pred [OF pos] data by (auto simp: unat_gt_0)
  have rd: "unat (readIdx ?c') = (unat (readIdx c) + 1) mod unat (maxSize c)"
    using unat_succ_mod [OF r] by simp
  have "unat (writeIdx c) = (unat (readIdx ?c') + unat (cb_count ?c')) mod unat (maxSize c)"
  proof -
    have "(unat (readIdx ?c') + unat (cb_count ?c')) mod unat (maxSize c)
        = (unat (readIdx c) + 1 + unat (cb_count ?c')) mod unat (maxSize c)"
      by (simp only: rd mod_add_left_eq)
    also have "unat (readIdx c) + 1 + unat (cb_count ?c') = unat (readIdx c) + unat (cb_count c)"
      using cnt cpos by simp
    finally show ?thesis using inv by (simp add: cb_inv_def)
  qed
  moreover have "cb_count ?c' \<le> maxSize ?c'"
    using cnt cb_inv_count_le [OF inv] by (simp add: word_le_nat_alt)
  moreover have "(readIdx c + 1) mod maxSize c < maxSize c"
    using nz by (simp add: word_mod_less_divisor word_neq_0_conv)
  ultimately have inv': "cb_inv ?c'" using inv by (simp add: cb_inv_def)
  have slot: "cb_slot ?c' i = cb_slot c (Suc i)" for i
    using rd by (simp add: cb_slot_def mod_simps)
  have s0: "cb_slot c 0 = readIdx c"
    using r by (simp add: cb_slot_def word_less_nat_alt)
  have "cb_list c = cb_data c (readIdx c) # cb_list ?c'"
    unfolding cb_list_def using cpos cnt slot s0 by (simp add: map_upt_Suc_hd)
  moreover have "bufferRead (Some c) = (Some ?c', cb_data c (readIdx c))"
    using pos by (simp add: bufferRead_def bufferHasData_def)
  ultimately show ?thesis using inv' by auto
qed

lemma bufferHasData_iff: "bufferHasData (Some c) \<longleftrightarrow> cb_list c \<noteq> []"
  by (auto simp: bufferHasData_def cb_list_def word_gt_0 unat_eq_zero)

lemma bufferIsFull_iff: "bufferIsFull (Some c) \<longleftrightarrow> length (cb_list c) = unat (maxSize c)"
  by (simp add: bufferIsFull_def word_unat_eq_iff)

section \<open>The bounded FIFO contract\<close>

datatype 'a fifo_op = Put 'a | Get
datatype 'a fifo_out = PutOk | PutFull | Got 'a | Nothing

text \<open>The specification: a list that accepts an element only below its capacity.\<close>
fun spec_step :: "nat \<Rightarrow> 'a list \<Rightarrow> 'a fifo_op \<Rightarrow> 'a list \<times> 'a fifo_out" where
  "spec_step cap xs (Put x) = (if length xs < cap then (xs @ [x], PutOk) else (xs, PutFull))"
| "spec_step cap [] Get = ([], Nothing)"
| "spec_step cap (x # xs) Get = (xs, Got x)"

fun run_fifo :: "('q \<Rightarrow> 'a fifo_op \<Rightarrow> 'q \<times> 'a fifo_out) \<Rightarrow> 'q \<Rightarrow> 'a fifo_op list \<Rightarrow> 'q \<times> 'a fifo_out list" where
  "run_fifo step q [] = (q, [])"
| "run_fifo step q (opn # opns) =
     (case step q opn of (q', out) \<Rightarrow> (case run_fifo step q' opns of (q'', outs) \<Rightarrow> (q'', out # outs)))"

locale bounded_fifo =
  fixes step :: "'q \<Rightarrow> 'a fifo_op \<Rightarrow> 'q \<times> 'a fifo_out"
    and contents :: "'q \<Rightarrow> 'a list"
    and cap :: "'q \<Rightarrow> nat"
    and invar :: "'q \<Rightarrow> bool"
  assumes step_refines: "invar q \<Longrightarrow> step q opn = (q', out) \<Longrightarrow>
      spec_step (cap q) (contents q) opn = (contents q', out)"
    and step_invar: "invar q \<Longrightarrow> step q opn = (q', out) \<Longrightarrow> invar q' \<and> cap q' = cap q"
begin

lemma run_refines:
  assumes "invar q" and "run_fifo step q opns = (q', outs)"
  shows "run_fifo (spec_step (cap q)) (contents q) opns = (contents q', outs) \<and> invar q' \<and> cap q' = cap q"
  using assms
proof (induction opns arbitrary: q outs)
  case Nil
  then show ?case by simp
next
  case (Cons opn opns)
  obtain q1 out where s: "step q opn = (q1, out)" by (cases "step q opn")
  obtain outs1 where r: "run_fifo step q1 opns = (q', outs1)" and "outs = out # outs1"
    using Cons.prems(2) s by (auto split: prod.splits)
  with Cons.IH [OF _ r] step_invar [OF Cons.prems(1) s] step_refines [OF Cons.prems(1) s]
  show ?case by auto
qed

end

text \<open>What a run accepted and what it delivered.\<close>
fun accepted :: "'a fifo_op list \<Rightarrow> 'a fifo_out list \<Rightarrow> 'a list" where
  "accepted (Put x # opns) (PutOk # outs) = x # accepted opns outs"
| "accepted (_ # opns) (_ # outs) = accepted opns outs"
| "accepted _ _ = []"

fun delivered :: "'a fifo_out list \<Rightarrow> 'a list" where
  "delivered [] = []"
| "delivered (Got x # outs) = x # delivered outs"
| "delivered (_ # outs) = delivered outs"

lemma spec_run_fifo_order:
  assumes "run_fifo (spec_step cap) xs opns = (ys, outs)"
  shows "delivered outs @ ys = xs @ accepted opns outs"
  using assms
proof (induction opns arbitrary: xs outs)
  case Nil
  then show ?case by simp
next
  case (Cons opn opns)
  obtain xs1 out where s: "spec_step cap xs opn = (xs1, out)" by fastforce
  obtain outs1 where r: "run_fifo (spec_step cap) xs1 opns = (ys, outs1)" and o: "outs = out # outs1"
    using Cons.prems s by (auto split: prod.splits)
  have IH: "delivered outs1 @ ys = xs1 @ accepted opns outs1" by (rule Cons.IH [OF r])
  show ?case
  proof (cases opn)
    case (Put x)
    with s o IH show ?thesis by (auto split: if_splits)
  next
    case Get
    with s o IH show ?thesis by (cases xs) auto
  qed
qed

text \<open>The buffer's own operations as a FIFO step: a read is tried only when there is data, as
  the pipe does.\<close>
fun cb_step :: "circularBuffer \<Rightarrow> u8 fifo_op \<Rightarrow> circularBuffer \<times> u8 fifo_out" where
  "cb_step c (Put b) = (case bufferWrite (Some c) b of (r, n) \<Rightarrow>
     (case r of None \<Rightarrow> c | Some c' \<Rightarrow> c', if n = 1 then PutOk else PutFull))"
| "cb_step c Get =
     (if bufferHasData (Some c)
      then (case bufferRead (Some c) of (r, b) \<Rightarrow> (case r of None \<Rightarrow> c | Some c' \<Rightarrow> c', Got b))
      else (c, Nothing))"

lemma cb_step_law:
  assumes inv: "cb_inv c" and st: "cb_step c opn = (c', out)"
  shows "spec_step (unat (maxSize c)) (cb_list c) opn = (cb_list c', out) \<and> cb_inv c' \<and> maxSize c' = maxSize c"
proof (cases opn)
  case (Put b)
  show ?thesis
  proof (cases "cb_count c = maxSize c")
    case True
    with Put st inv show ?thesis by (auto simp: bufferWrite_full)
  next
    case False
    obtain d where d: "bufferWrite (Some c) b = (Some d, 1)" "cb_inv d" "maxSize d = maxSize c"
        "cb_list d = cb_list c @ [b]"
      using bufferWrite_room [OF inv False] by blast
    have "length (cb_list c) < unat (maxSize c)"
      using False cb_inv_count_le [OF inv] by (simp add: le_less word_unat_eq_iff)
    with Put st d show ?thesis by auto
  qed
next
  case Get
  show ?thesis
  proof (cases "cb_count c = 0")
    case True
    with Get st inv show ?thesis by (auto simp: bufferHasData_def cb_list_def)
  next
    case False
    obtain d x where d: "bufferRead (Some c) = (Some d, x)" "cb_inv d" "maxSize d = maxSize c"
        "cb_list c = x # cb_list d"
      using bufferRead_data [OF inv False] by blast
    with Get st False show ?thesis by (auto simp: bufferHasData_def word_neq_0_conv)
  qed
qed

interpretation cbq: bounded_fifo cb_step cb_list "\<lambda>c. unat (maxSize c)" cb_inv
  by unfold_locales (auto dest: cb_step_law)

section \<open>Creating and destroying a buffer\<close>

context allocator
begin

lemma newBuffer_law:
  assumes inv: "inv m" and lim: "40 \<le> limit m" "unat maxSz \<le> limit m"
  shows "\<exists>m' r. newBuffer ops raw maxSz m = Some (m', r) \<and> inv m' \<and> limit m' = limit m \<and>
    (case r of None \<Rightarrow> blocks m' = blocks m
     | Some c \<Rightarrow> cb_inv c \<and> cb_list c = [] \<and> maxSize c = maxSz \<and>
         (\<exists>k l. cb_self c \<noteq> 0 \<and> cb_data_ptr c \<noteq> 0 \<and> cb_self c \<noteq> cb_data_ptr c \<and> unat maxSz \<le> l \<and>
            blocks m (cb_self c) = None \<and> blocks m (cb_data_ptr c) = None \<and>
            blocks m' = (blocks m)(cb_self c \<mapsto> k, cb_data_ptr c \<mapsto> l)))"
proof (cases "maxSz = 0")
  case True
  with inv show ?thesis by (simp add: newBuffer_def)
next
  case False
  have s: "sizeof_circularBuffer \<noteq> 0" "unat sizeof_circularBuffer \<le> limit m"
    using lim by (simp_all add: sizeof_circularBuffer_def)
  from inv s show ?thesis
  proof (cases rule: alloc_cases)
    case (fail m1)
    with False show ?thesis by (simp add: newBuffer_def)
  next
    case (new m1 cb k)
    from new(3) False lim(2) new(4) have "inv m1" "maxSz \<noteq> 0" "unat maxSz \<le> limit m1" by auto
    then show ?thesis
    proof (cases rule: alloc_cases)
      case (fail m2)
      with new have "blocks m2 cb = Some k" "inv m2" by auto
      from free_law [OF this(2,1)] fail new False show ?thesis
        by (auto simp: newBuffer_def fun_upd_idem)
    next
      case (new m2 d l)
      with \<open>mm_alloc ops m sizeof_circularBuffer = Some (m1, cb)\<close> \<open>cb \<noteq> 0\<close> \<open>limit m1 = limit m\<close>
        \<open>blocks m cb = None\<close> \<open>blocks m1 = (blocks m)(cb \<mapsto> k)\<close> False
      show ?thesis
        by (auto simp: newBuffer_def cb_inv_def cb_list_def word_neq_0_conv split: if_splits)
    qed
  qed
qed

lemma freeBuffer_law:
  assumes "inv m" and "blocks m (cb_self c) = Some k" and "blocks m (cb_data_ptr c) = Some l"
    and "cb_self c \<noteq> cb_data_ptr c"
  shows "\<exists>m'. freeBuffer ops (Some c) m = Some m' \<and> inv m' \<and> limit m' = limit m \<and>
    blocks m' = (blocks m)(cb_data_ptr c := None, cb_self c := None)"
proof -
  obtain m1 where m1: "mm_free ops m (cb_data_ptr c) = Some m1" "inv m1" "limit m1 = limit m"
      "blocks m1 = (blocks m)(cb_data_ptr c := None)"
    using free_law [OF assms(1,3)] by blast
  then have "blocks m1 (cb_self c) = Some k" using assms(2,4) by simp
  from free_law [OF m1(2) this] m1 show ?thesis by (auto simp: freeBuffer_def)
qed

end

section \<open>Properties\<close>

text \<open>C16. The circular buffer is a bounded FIFO.  For any sequence of writes and reads from a
  well-formed buffer the answers are those of a list with the buffer's capacity, every index
  stays inside the data array, and what was read followed by what is left equals what was there
  followed by what was accepted.\<close>
theorem circular_buffer_fifo:
  assumes "cb_inv c" and "run_fifo cb_step c opns = (c', outs)"
  shows "run_fifo (spec_step (unat (maxSize c))) (cb_list c) opns = (cb_list c', outs) \<and> cb_inv c' \<and>
    delivered outs @ cb_list c' = cb_list c @ accepted opns outs"
  using cbq.run_refines [OF assms] spec_run_fifo_order by blast

text \<open>A two-byte buffer that fills, refuses, wraps around and empties.\<close>
definition cb_example :: circularBuffer where
  "cb_example = \<lparr>cb_self = 64, cb_data_ptr = 128, cb_data = (\<lambda>_. 0), maxSize = 2, readIdx = 0,
                 writeIdx = 0, cb_count = 0\<rparr>"

theorem circular_buffer_fifo_witness:
  "snd (run_fifo cb_step cb_example [Put 7, Put 8, Put 9, Get, Put 10, Get, Get, Get]) =
     [PutOk, PutOk, PutFull, Got 7, PutOk, Got 8, Got 10, Nothing]"
proof -
  have inv: "cb_inv cb_example" by (simp add: cb_inv_def cb_example_def)
  obtain c' outs where r: "run_fifo cb_step cb_example [Put 7, Put 8, Put 9, Get, Put 10, Get, Get, Get] = (c', outs)"
    by fastforce
  have "cb_list cb_example = []" "unat (maxSize cb_example) = 2"
    by (simp_all add: cb_list_def cb_example_def)
  with circular_buffer_fifo [OF inv r] r show ?thesis by simp
qed

end
