(* ===== verification/KQueue.thy ===== *)
theory KQueue
  imports KFreeList
begin

text \<open>
  \<^verbatim>\<open>Kernel/queue.c\<close>: the generic FIFO list used by the scheduler, the semaphores and the
  processes.  The first part is the code: nodes linked in a heap, a \<^verbatim>\<open>queueCDT\<close> with its first and
  last pointers, every node obtained from and returned to the memory manager.  The second part
  is the queue as its clients see it, a list of node addresses and elements with the same memory
  traffic (the \<open>kq_\<close> operations); the refinement lemmas show that the code implements it.
\<close>

section \<open>The linked implementation\<close>

record 'd node =
  nd_data :: 'd
  nd_tail :: u64

record queueCDT =
  q_first :: u64
  q_last :: u64
  q_count :: int

text \<open>The state a queue operation works on: the manager, the nodes that exist and the structure behind
  the queue's handle, \<open>None\<close> for a \<^verbatim>\<open>NULL\<close> handle.  An access to a node that is not there, or to the
  structure through a \<^verbatim>\<open>NULL\<close> handle, has no outcome.\<close>
type_synonym 'd nodes = "u64 \<rightharpoonup> 'd node"
type_synonym ('m, 'd) qstate = "'m \<times> 'd nodes \<times> queueCDT option"

definition sizeof_Node :: u64 where
  "sizeof_Node = 16"

definition sizeof_queueCDT :: u64 where
  "sizeof_queueCDT = 24"

text \<open>The handle is the address and what is behind it.\<close>
definition newQueue :: "'m mm_ops \<Rightarrow> 'm \<Rightarrow> ('m \<times> u64 \<times> queueCDT option) option" where
  "newQueue mm m = do {
     (m, queue) \<leftarrow> mm_alloc mm m sizeof_queueCDT;
     Some (m, queue, if queue = 0 then None else Some \<lparr>q_first = 0, q_last = 0, q_count = 0\<rparr>)
   }"

definition getQueueSize :: "queueCDT option \<Rightarrow> int" where
  "getQueueSize q = (case q of None \<Rightarrow> 0 | Some q \<Rightarrow> q_count q)"

definition isQueueEmpty :: "queueCDT option \<Rightarrow> bool" where
  "isQueueEmpty q = (getQueueSize q = 0)"

text \<open>The code does not test the handle: it takes the node and then writes through it.\<close>
definition enqueue :: "'m mm_ops \<Rightarrow> 'd \<Rightarrow> ('m, 'd) qstate \<Rightarrow> (('m, 'd) qstate \<times> int) option" where
  "enqueue mm x = (\<lambda>(m, h, queue). do {
     (m, n) \<leftarrow> mm_alloc mm m sizeof_Node;
     if n = 0 then Some ((m, h, queue), 0)
     else (let h = h(n \<mapsto> \<lparr>nd_data = x, nd_tail = 0\<rparr>) in
       if isQueueEmpty queue then do {
         q \<leftarrow> queue;
         Some ((m, h, Some (q\<lparr>q_first := n, q_last := n, q_count := q_count q + 1\<rparr>)), 1)
       }
       else do {
         q \<leftarrow> queue;
         nd \<leftarrow> h (q_last q);
         Some ((m, h(q_last q \<mapsto> nd\<lparr>nd_tail := n\<rparr>), Some (q\<lparr>q_last := n, q_count := q_count q + 1\<rparr>)), 1)
       })
   })"

definition pollQueue :: "'m mm_ops \<Rightarrow> ('m, 'd) qstate \<Rightarrow> (('m, 'd) qstate \<times> 'd option) option" where
  "pollQueue mm = (\<lambda>(m, h, queue).
     if isQueueEmpty queue then Some ((m, h, queue), None)
     else do {
       q \<leftarrow> queue;
       nd \<leftarrow> h (q_first q);
       m \<leftarrow> mm_free mm m (q_first q);
       (let h = h(q_first q := None);
            q = q\<lparr>q_first := nd_tail nd, q_count := q_count q - 1\<rparr>;
            q = (if q_count q = 0 then q\<lparr>q_last := 0\<rparr> else q)
        in Some ((m, h, Some q), Some (nd_data nd)))
     })"

text \<open>The unlinking works on the structure of a handle that was tested.\<close>
definition removeNodeFromQueue ::
  "'m mm_ops \<Rightarrow> u64 \<Rightarrow> u64 \<Rightarrow> u64 \<Rightarrow> 'm \<times> 'd nodes \<times> queueCDT \<Rightarrow> ('m \<times> 'd nodes \<times> queueCDT) option" where
  "removeNodeFromQueue mm nodeToRemove previousNode nextNode = (\<lambda>(m, h, q). do {
     (h, q) \<leftarrow> (if previousNode = 0 then Some (h, q\<lparr>q_first := nextNode\<rparr>)
                else do { nd \<leftarrow> h previousNode; Some (h(previousNode \<mapsto> nd\<lparr>nd_tail := nextNode\<rparr>), q) });
     (let q = (if nodeToRemove = q_last q then q\<lparr>q_last := previousNode\<rparr> else q) in do {
       m \<leftarrow> mm_free mm m nodeToRemove;
       Some (m, h(nodeToRemove := None), q\<lparr>q_count := q_count q - 1\<rparr>)
     })
   })"

partial_function (option) remove_loop ::
  "'m mm_ops \<Rightarrow> ('d \<Rightarrow> bool) \<Rightarrow> u64 \<Rightarrow> u64 \<Rightarrow> int \<Rightarrow> 'm \<times> 'd nodes \<times> queueCDT \<Rightarrow> (('m \<times> 'd nodes \<times> queueCDT) \<times> int) option" where
  "remove_loop mm hit prv cur removed s =
     (if cur = 0 then Some (s, removed)
      else Option.bind (fst (snd s) cur) (\<lambda>nd.
        if hit (nd_data nd)
        then Option.bind (removeNodeFromQueue mm cur prv (nd_tail nd) s)
               (\<lambda>s. remove_loop mm hit prv (nd_tail nd) (removed + 1) s)
        else remove_loop mm hit cur (nd_tail nd) removed s))"

text \<open>\<open>cmp\<close> is the comparison callback; equality is its result \<open>0\<close>.\<close>
definition removeFromQueue ::
  "'m mm_ops \<Rightarrow> 'd \<Rightarrow> ('d \<Rightarrow> 'd \<Rightarrow> int) \<Rightarrow> ('m, 'd) qstate \<Rightarrow> (('m, 'd) qstate \<times> int) option" where
  "removeFromQueue mm x cmp = (\<lambda>(m, h, queue). case queue of
       None \<Rightarrow> Some ((m, h, queue), 0)
     | Some q \<Rightarrow> do {
         ((m, h, q), removed) \<leftarrow> remove_loop mm (\<lambda>y. cmp x y = 0) 0 (q_first q) 0 (m, h, q);
         Some ((m, h, Some (if isQueueEmpty (Some q) then q\<lparr>q_first := 0, q_last := 0\<rparr> else q)), removed)
       })"

partial_function (option) free_nodes :: "'m mm_ops \<Rightarrow> u64 \<Rightarrow> 'm \<times> 'd nodes \<Rightarrow> ('m \<times> 'd nodes) option" where
  "free_nodes mm cur s =
     (if cur = 0 then Some s
      else Option.bind (snd s cur) (\<lambda>nd. Option.bind (mm_free mm (fst s) cur)
             (\<lambda>m. free_nodes mm (nd_tail nd) (m, (snd s)(cur := None)))))"

text \<open>\<open>qp\<close> is the queue's own address.\<close>
definition freeQueue :: "'m mm_ops \<Rightarrow> u64 \<Rightarrow> ('m, 'd) qstate \<Rightarrow> ('m \<times> 'd nodes) option" where
  "freeQueue mm qp = (\<lambda>(m, h, queue). case queue of
       None \<Rightarrow> Some (m, h)
     | Some q \<Rightarrow> do { (m, h) \<leftarrow> free_nodes mm (q_first q) (m, h); m \<leftarrow> mm_free mm m qp; Some (m, h) })"

declare remove_loop.simps [simp del] free_nodes.simps [simp del]

section \<open>The queue its clients see\<close>

record 'd kqueue =
  kq_self :: u64
  kq_nodes :: "(u64 \<times> 'd) list"

definition kq_elems :: "'d kqueue \<Rightarrow> 'd list" where
  "kq_elems q = map snd (kq_nodes q)"

definition kq_new :: "'m mm_ops \<Rightarrow> 'm \<Rightarrow> ('m \<times> 'd kqueue option) option" where
  "kq_new mm m = do {
     (m, p) \<leftarrow> mm_alloc mm m sizeof_queueCDT;
     Some (m, if p = 0 then None else Some \<lparr>kq_self = p, kq_nodes = []\<rparr>)
   }"

definition kq_enqueue :: "'m mm_ops \<Rightarrow> 'd \<Rightarrow> 'm \<Rightarrow> 'd kqueue \<Rightarrow> ('m \<times> 'd kqueue \<times> int) option" where
  "kq_enqueue mm x m q = do {
     (m, n) \<leftarrow> mm_alloc mm m sizeof_Node;
     Some (if n = 0 then (m, q, 0) else (m, q\<lparr>kq_nodes := kq_nodes q @ [(n, x)]\<rparr>, 1))
   }"

definition kq_poll :: "'m mm_ops \<Rightarrow> 'm \<Rightarrow> 'd kqueue \<Rightarrow> ('m \<times> 'd kqueue \<times> 'd option) option" where
  "kq_poll mm m q =
     (case kq_nodes q of [] \<Rightarrow> Some (m, q, None)
      | (n, x) # ns \<Rightarrow> do { m \<leftarrow> mm_free mm m n; Some (m, q\<lparr>kq_nodes := ns\<rparr>, Some x) })"

fun free_all :: "'m mm_ops \<Rightarrow> u64 list \<Rightarrow> 'm \<Rightarrow> 'm option" where
  "free_all mm [] m = Some m"
| "free_all mm (a # as) m = do { m \<leftarrow> mm_free mm m a; free_all mm as m }"

definition kq_remove :: "'m mm_ops \<Rightarrow> ('d \<Rightarrow> bool) \<Rightarrow> 'm \<Rightarrow> 'd kqueue \<Rightarrow> ('m \<times> 'd kqueue \<times> int) option" where
  "kq_remove mm hit m q = do {
     m \<leftarrow> free_all mm (map fst (filter (\<lambda>n. hit (snd n)) (kq_nodes q))) m;
     Some (m, q\<lparr>kq_nodes := filter (\<lambda>n. \<not> hit (snd n)) (kq_nodes q)\<rparr>,
           int (length (filter (\<lambda>n. hit (snd n)) (kq_nodes q))))
   }"

definition kq_free :: "'m mm_ops \<Rightarrow> 'd kqueue \<Rightarrow> 'm \<Rightarrow> 'm option" where
  "kq_free mm q m = do { m \<leftarrow> free_all mm (map fst (kq_nodes q)) m; mm_free mm m (kq_self q) }"

text \<open>The same operations on a handle that may be \<^verbatim>\<open>NULL\<close>: \<^verbatim>\<open>pollQueue\<close>, \<^verbatim>\<open>removeFromQueue\<close> and
  \<^verbatim>\<open>freeQueue\<close> check for it, \<^verbatim>\<open>enqueue\<close> takes its node first and then writes through the handle.\<close>

definition kqp_enqueue :: "'m mm_ops \<Rightarrow> 'd \<Rightarrow> 'm \<Rightarrow> 'd kqueue option \<Rightarrow> ('m \<times> 'd kqueue option \<times> int) option" where
  "kqp_enqueue mm x m qo =
     (case qo of Some q \<Rightarrow> do { (m, q, r) \<leftarrow> kq_enqueue mm x m q; Some (m, Some q, r) }
      | None \<Rightarrow> do { (m, n) \<leftarrow> mm_alloc mm m sizeof_Node; if n = 0 then Some (m, None, 0) else None })"

definition kqp_poll :: "'m mm_ops \<Rightarrow> 'm \<Rightarrow> 'd kqueue option \<Rightarrow> ('m \<times> 'd kqueue option \<times> 'd option) option" where
  "kqp_poll mm m qo =
     (case qo of Some q \<Rightarrow> do { (m, q, r) \<leftarrow> kq_poll mm m q; Some (m, Some q, r) }
      | None \<Rightarrow> Some (m, None, None))"

definition kqp_remove :: "'m mm_ops \<Rightarrow> ('d \<Rightarrow> bool) \<Rightarrow> 'm \<Rightarrow> 'd kqueue option \<Rightarrow> ('m \<times> 'd kqueue option \<times> int) option" where
  "kqp_remove mm hit m qo =
     (case qo of Some q \<Rightarrow> do { (m, q, r) \<leftarrow> kq_remove mm hit m q; Some (m, Some q, r) }
      | None \<Rightarrow> Some (m, None, 0))"

definition kqp_free :: "'m mm_ops \<Rightarrow> 'd kqueue option \<Rightarrow> 'm \<Rightarrow> 'm option" where
  "kqp_free mm qo m = (case qo of Some q \<Rightarrow> kq_free mm q m | None \<Rightarrow> Some m)"

definition kqp_empty :: "'d kqueue option \<Rightarrow> bool" where
  "kqp_empty qo = (case qo of Some q \<Rightarrow> kq_nodes q = [] | None \<Rightarrow> True)"

text \<open>An insertion asks for one node and queues the element exactly when it gets one.\<close>
lemma kq_enqueue_node:
  "kq_enqueue mm x m q = Some (m', q', r) \<Longrightarrow>
     \<exists>n. mm_alloc mm m sizeof_Node = Some (m', n) \<and> kq_elems q' = kq_elems q @ (if n = 0 then [] else [x])"
  by (auto simp: kq_enqueue_def kq_elems_def bind_eq_Some_conv split: if_splits)

lemma kqp_enqueue_node:
  "kqp_enqueue mm x m (Some q) = Some (m', Some q', r) \<Longrightarrow>
     \<exists>n. mm_alloc mm m sizeof_Node = Some (m', n) \<and> kq_elems q' = kq_elems q @ (if n = 0 then [] else [x])"
  using kq_enqueue_node [of mm x m q m' q' r] by (auto simp: kqp_enqueue_def bind_eq_Some_conv)

section \<open>Representation\<close>

fun npath :: "'d nodes \<Rightarrow> u64 \<Rightarrow> (u64 \<times> 'd) list \<Rightarrow> u64 \<Rightarrow> bool" where
  "npath h p [] e \<longleftrightarrow> p = e"
| "npath h p ((a, x) # ns) e \<longleftrightarrow> p = a \<and> a \<noteq> 0 \<and> (\<exists>nd. h a = Some nd \<and> nd_data nd = x \<and> npath h (nd_tail nd) ns e)"

definition last_addr :: "(u64 \<times> 'd) list \<Rightarrow> u64" where
  "last_addr ns = (if ns = [] then 0 else fst (last ns))"

definition qrep :: "'d nodes \<Rightarrow> queueCDT \<Rightarrow> (u64 \<times> 'd) list \<Rightarrow> bool" where
  "qrep h q ns \<longleftrightarrow> npath h (q_first q) ns 0 \<and> distinct (map fst ns) \<and>
     q_last q = last_addr ns \<and> q_count q = int (length ns)"

lemma npath_append: "npath h p (xs @ ys) e \<longleftrightarrow> (\<exists>m. npath h p xs m \<and> npath h m ys e)"
proof (induction xs arbitrary: p)
  case (Cons x xs)
  obtain a y where "x = (a, y)" by (cases x)
  with Cons show ?case by auto
qed simp

lemma npath_upd_other [simp]:
  "a \<notin> fst ` set ns \<Longrightarrow> npath (h(a := v)) p ns e = npath h p ns e"
proof (induction ns arbitrary: p)
  case (Cons n ns)
  obtain b y where "n = (b, y)" by (cases n)
  with Cons show ?case by auto
qed simp

lemma npath_nonnull: "npath h p ns e \<Longrightarrow> 0 \<notin> fst ` set ns"
  by (induction ns arbitrary: p) force+

lemma isQueueEmpty_rep: "qrep h q ns \<Longrightarrow> isQueueEmpty (Some q) \<longleftrightarrow> ns = []"
  by (simp add: qrep_def isQueueEmpty_def getQueueSize_def)

lemma qrep_enqueue:
  assumes rep: "qrep h q ns" and n: "n \<noteq> 0" "n \<notin> fst ` set ns"
    and al: "mm_alloc mm m sizeof_Node = Some (m', n)"
  shows "\<exists>h' q'. enqueue mm x (m, h, Some q) = Some ((m', h', Some q'), 1) \<and> qrep h' q' (ns @ [(n, x)])"
proof (cases ns rule: rev_cases)
  case Nil
  with assms show ?thesis
    by (auto simp: enqueue_def Let_def isQueueEmpty_rep [OF rep] qrep_def last_addr_def)
next
  case (snoc ms l)
  obtain a y where l: "l = (a, y)" by (cases l)
  obtain nd where a: "q_last q = a" "npath h (q_first q) ms a" "a \<noteq> 0" "h a = Some nd" "nd_data nd = y"
      "nd_tail nd = 0" "a \<notin> fst ` set ms"
    using l snoc rep by (auto simp: qrep_def last_addr_def npath_append)
  with assms snoc l show ?thesis
    by (auto simp: enqueue_def Let_def isQueueEmpty_rep [OF rep] qrep_def last_addr_def npath_append)
qed

lemma qrep_poll:
  assumes rep: "qrep h q ((a, x) # ns)" and fr: "mm_free mm m a = Some m'"
  shows "\<exists>q'. pollQueue mm (m, h, Some q) = Some ((m', h(a := None), Some q'), Some x) \<and> qrep (h(a := None)) q' ns"
proof -
  obtain nd where "q_first q = a" "h a = Some nd" "nd_data nd = x" "npath h (nd_tail nd) ns 0" "a \<notin> fst ` set ns"
    using rep by (auto simp: qrep_def)
  with assms show ?thesis
    by (auto simp: pollQueue_def Let_def isQueueEmpty_rep [OF rep] qrep_def last_addr_def)
qed

lemma removeNode_rep:
  assumes rep: "qrep h q (kept @ (a, x) # rest)" and fr: "mm_free mm m a = Some m'"
    and prv: "prv = last_addr kept" and nd: "h a = Some nd"
  shows "\<exists>h' q'. removeNodeFromQueue mm a prv (nd_tail nd) (m, h, q) = Some (m', h', q') \<and> qrep h' q' (kept @ rest)"
proof -
  have path: "npath h (q_first q) kept a" "npath h (nd_tail nd) rest 0" "a \<noteq> 0"
    and dist: "distinct (map fst (kept @ (a, x) # rest))"
    and lst: "q_last q = last_addr (kept @ (a, x) # rest)" and cnt: "q_count q = int (length kept + length rest + 1)"
    using rep nd by (auto simp: qrep_def npath_append)
  have last: "(a = q_last q) = (rest = [])"
    using lst dist by (cases rest rule: rev_cases) (auto simp: last_addr_def)
  show ?thesis
  proof (cases kept rule: rev_cases)
    case Nil
    with path dist lst cnt last fr prv show ?thesis
      by (auto simp: removeNodeFromQueue_def Let_def qrep_def last_addr_def)
  next
    case (snoc ks k)
    obtain b y where k: "k = (b, y)" by (cases k)
    obtain ndb where b: "prv = b" "b \<noteq> 0" "npath h (q_first q) ks b" "h b = Some ndb" "nd_data ndb = y" "nd_tail ndb = a"
        "b \<notin> fst ` set ks" "b \<notin> fst ` set rest" "b \<noteq> a"
      using path(1) prv snoc k dist by (auto simp: last_addr_def npath_append)
    with path dist lst cnt last fr snoc k show ?thesis
      by (auto simp: removeNodeFromQueue_def Let_def qrep_def last_addr_def npath_append split: if_splits)
  qed
qed

definition head_addr :: "(u64 \<times> 'd) list \<Rightarrow> u64" where
  "head_addr ns = (if ns = [] then 0 else fst (hd ns))"

lemma head_addr_simps [simp]: "head_addr [] = 0" "head_addr ((a, x) # ns) = a"
  by (simp_all add: head_addr_def)

lemma npath_head: "npath h p ns 0 \<Longrightarrow> p = head_addr ns"
  by (cases ns) auto

lemma remove_loop_rep:
  assumes "qrep h q (kept @ rest)" and "prv = last_addr kept"
    and "free_all mm (map fst (filter (\<lambda>n. hit (snd n)) rest)) m = Some m'"
  shows "\<exists>h' q'. remove_loop mm hit prv (head_addr rest) k (m, h, q) =
             Some ((m', h', q'), k + int (length (filter (\<lambda>n. hit (snd n)) rest))) \<and>
           qrep h' q' (kept @ filter (\<lambda>n. \<not> hit (snd n)) rest)"
  using assms
proof (induction rest arbitrary: kept prv m h q k)
  case Nil
  then show ?case by (simp add: remove_loop.simps)
next
  case (Cons n rest)
  obtain a x where n: "n = (a, x)" by (cases n)
  obtain nd where a: "a \<noteq> 0" "h a = Some nd" "nd_data nd = x" "nd_tail nd = head_addr rest"
    using Cons.prems(1) n by (auto simp: qrep_def npath_append dest: npath_head)
  show ?case
  proof (cases "hit x")
    case True
    with Cons.prems(3) n obtain m1 where m1: "mm_free mm m a = Some m1"
        "free_all mm (map fst (filter (\<lambda>n. hit (snd n)) rest)) m1 = Some m'"
      by (auto split: Option.bind_splits)
    obtain h1 q1 where r: "removeNodeFromQueue mm a prv (nd_tail nd) (m, h, q) = Some (m1, h1, q1)"
        "qrep h1 q1 (kept @ rest)"
      using removeNode_rep [OF Cons.prems(1) [unfolded n] m1(1) Cons.prems(2) a(2)] by blast
    from Cons.IH [OF r(2) Cons.prems(2) m1(2), of "k + 1"] show ?thesis
      using n a True r(1)
      by (subst remove_loop.simps) (auto simp: add.assoc)
  next
    case False
    have rep: "qrep h q ((kept @ [(a, x)]) @ rest)" using Cons.prems(1) n by simp
    have "a = last_addr (kept @ [(a, x)])" by (simp add: last_addr_def)
    from Cons.IH [OF rep this, of m k] Cons.prems(3) n False a show ?thesis
      by (subst remove_loop.simps) (auto simp: add.assoc)
  qed
qed

lemma qrep_first: "qrep h q ns \<Longrightarrow> q_first q = head_addr ns"
  by (auto simp: qrep_def dest: npath_head)

lemma qrep_remove:
  assumes rep: "qrep h q ns"
    and fr: "free_all mm (map fst (filter (\<lambda>n. cmp x (snd n) = 0) ns)) m = Some m'"
  shows "\<exists>h' q'. removeFromQueue mm x cmp (m, h, Some q) =
             Some ((m', h', Some q'), int (length (filter (\<lambda>n. cmp x (snd n) = 0) ns))) \<and>
           qrep h' q' (filter (\<lambda>n. cmp x (snd n) \<noteq> 0) ns)"
proof -
  have rep0: "qrep h q ([] @ ns)" and l0: "0 = last_addr ([] :: (u64 \<times> 'a) list)"
    using rep by (simp_all add: last_addr_def)
  obtain h1 q1 where r: "remove_loop mm (\<lambda>y. cmp x y = 0) 0 (head_addr ns) 0 (m, h, q) =
        Some ((m', h1, q1), int (length (filter (\<lambda>n. cmp x (snd n) = 0) ns)))"
      "qrep h1 q1 (filter (\<lambda>n. cmp x (snd n) \<noteq> 0) ns)"
    using remove_loop_rep [OF rep0 l0 fr, of 0] by auto
  have e: "isQueueEmpty (Some q1) \<longleftrightarrow> filter (\<lambda>n. cmp x (snd n) \<noteq> 0) ns = []"
    by (rule isQueueEmpty_rep [OF r(2)])
  then have "qrep h1 (if isQueueEmpty (Some q1) then q1\<lparr>q_first := 0, q_last := 0\<rparr> else q1)
      (filter (\<lambda>n. cmp x (snd n) \<noteq> 0) ns)"
    using r(2) by (auto simp: qrep_def last_addr_def)
  with r(1) qrep_first [OF rep] show ?thesis by (simp add: removeFromQueue_def)
qed

text \<open>Freeing the queue gives back its nodes and then the structure, like \<open>kq_free\<close>.\<close>
lemma free_nodes_rep:
  assumes "npath h p ns 0" "distinct (map fst ns)"
  shows "map_option fst (free_nodes mm p (m, h)) = free_all mm (map fst ns) m"
  using assms
proof (induction ns arbitrary: p m h)
  case Nil
  then show ?case by (simp add: free_nodes.simps)
next
  case (Cons n ns)
  obtain a x where n: "n = (a, x)" by (cases n)
  obtain nd where nd: "p = a" "a \<noteq> 0" "h a = Some nd" "npath h (nd_tail nd) ns 0" using Cons.prems(1) n by auto
  have "npath (h(a := None)) (nd_tail nd) ns 0" using nd(4) Cons.prems(2) n by (subst npath_upd_other) auto
  then have "map_option fst (free_nodes mm (nd_tail nd) (m1, h(a := None))) = free_all mm (map fst ns) m1" for m1
    using Cons.prems(2) by (intro Cons.IH) (simp_all del: fun_upd_apply)
  then show ?case using n nd
    by (subst free_nodes.simps) (cases "mm_free mm m a"; simp)
qed

lemma freeQueue_rep:
  assumes "qrep h q (kq_nodes kq)" "kq_self kq = qp"
  shows "map_option fst (freeQueue mm qp (m, h, Some q)) = kq_free mm kq m"
proof -
  have "map_option fst (free_nodes mm (q_first q) (m, h)) = free_all mm (map fst (kq_nodes kq)) m"
    using assms(1) by (intro free_nodes_rep) (simp_all add: qrep_def)
  then show ?thesis using assms(2)
    by (cases "free_nodes mm (q_first q) (m, h)") (auto simp: freeQueue_def kq_free_def option.map_comp o_def split: bind_split)
qed

section \<open>Simulation\<close>

datatype 'd qop = Enq 'd | Poll | Remove 'd
datatype 'd qout = Count int | Elem "'d option"

text \<open>One operation of the code and the same operation of the client's queue, each on a handle.\<close>
fun q_step :: "'m mm_ops \<Rightarrow> ('d \<Rightarrow> 'd \<Rightarrow> int) \<Rightarrow> 'd qop \<Rightarrow> ('m, 'd) qstate \<Rightarrow> (('m, 'd) qstate \<times> 'd qout) option" where
  "q_step mm cmp (Enq x) s = do { (s, r) \<leftarrow> enqueue mm x s; Some (s, Count r) }"
| "q_step mm cmp Poll s = do { (s, r) \<leftarrow> pollQueue mm s; Some (s, Elem r) }"
| "q_step mm cmp (Remove x) s = do { (s, r) \<leftarrow> removeFromQueue mm x cmp s; Some (s, Count r) }"

fun kqp_step :: "'m mm_ops \<Rightarrow> ('d \<Rightarrow> 'd \<Rightarrow> int) \<Rightarrow> 'd qop \<Rightarrow> 'm \<Rightarrow> 'd kqueue option \<Rightarrow> ('m \<times> 'd kqueue option \<times> 'd qout) option" where
  "kqp_step mm cmp (Enq x) m q = do { (m, q, r) \<leftarrow> kqp_enqueue mm x m q; Some (m, q, Count r) }"
| "kqp_step mm cmp Poll m q = do { (m, q, r) \<leftarrow> kqp_poll mm m q; Some (m, q, Elem r) }"
| "kqp_step mm cmp (Remove x) m q = do { (m, q, r) \<leftarrow> kqp_remove mm (\<lambda>y. cmp x y = 0) m q; Some (m, q, Count r) }"

fun q_run :: "'m mm_ops \<Rightarrow> ('d \<Rightarrow> 'd \<Rightarrow> int) \<Rightarrow> 'd qop list \<Rightarrow> ('m, 'd) qstate \<Rightarrow> (('m, 'd) qstate \<times> 'd qout list) option" where
  "q_run mm cmp [] s = Some (s, [])"
| "q_run mm cmp (opn # opns) s = do {
     (s, out) \<leftarrow> q_step mm cmp opn s; (s, outs) \<leftarrow> q_run mm cmp opns s; Some (s, out # outs) }"

fun kqp_run :: "'m mm_ops \<Rightarrow> ('d \<Rightarrow> 'd \<Rightarrow> int) \<Rightarrow> 'd qop list \<Rightarrow> 'm \<Rightarrow> 'd kqueue option \<Rightarrow> ('m \<times> 'd kqueue option \<times> 'd qout list) option" where
  "kqp_run mm cmp [] m q = Some (m, q, [])"
| "kqp_run mm cmp (opn # opns) m q = do {
     (m, q, out) \<leftarrow> kqp_step mm cmp opn m q; (m, q, outs) \<leftarrow> kqp_run mm cmp opns m q; Some (m, q, out # outs) }"

text \<open>The code's queue represents the client's queue and owns its nodes.\<close>
definition queue_sim :: "('m \<Rightarrow> bool) \<Rightarrow> ('m \<Rightarrow> u64 \<rightharpoonup> nat) \<Rightarrow> ('m \<Rightarrow> nat) \<Rightarrow>
    'm \<Rightarrow> 'd nodes \<Rightarrow> queueCDT \<Rightarrow> 'd kqueue \<Rightarrow> bool" where
  "queue_sim minv mblocks mlimit m h q kq \<longleftrightarrow> minv m \<and> 24 \<le> mlimit m \<and> qrep h q (kq_nodes kq) \<and>
     (\<forall>a \<in> fst ` set (kq_nodes kq). mblocks m a \<noteq> None)"

text \<open>Through a \<^verbatim>\<open>NULL\<close> handle both sides do the same, whatever the memory: nothing is polled or removed,
  and an insertion that gets its node has no outcome.\<close>
lemma null_step: "q_step mm cmp opn (m, h, None) = map_option (\<lambda>(m, kq, out). ((m, h, None), out)) (kqp_step mm cmp opn m None)"
  by (cases opn) (auto simp: enqueue_def pollQueue_def removeFromQueue_def isQueueEmpty_def getQueueSize_def
      kqp_enqueue_def kqp_poll_def kqp_remove_def Let_def split: bind_split)

lemma null_step_None: "kqp_step mm cmp opn m None = Some (m', kq, out) \<Longrightarrow> kq = None"
  by (cases opn) (auto simp: kqp_enqueue_def kqp_poll_def kqp_remove_def bind_eq_Some_conv split: if_splits)

lemma null_run: "q_run mm cmp opns (m, h, None) = map_option (\<lambda>(m, kq, outs). ((m, h, None), outs)) (kqp_run mm cmp opns m None)"
proof (induction opns arbitrary: m)
  case (Cons opn opns)
  show ?case
  proof (cases "kqp_step mm cmp opn m None")
    case None
    then show ?thesis by (simp add: null_step)
  next
    case (Some x)
    obtain m1 kq out where x: "x = (m1, kq, out)" by (cases x)
    then have "kq = None" using null_step_None [of mm cmp opn m m1 kq out] Some by simp
    then show ?thesis using Some x Cons.IH [of m1]
      by (cases "kqp_run mm cmp opns m1 None") (auto simp: null_step)
  qed
qed simp

context allocator
begin

lemma free_all_law:
  assumes "inv m" and "distinct as" and "\<And>a. a \<in> set as \<Longrightarrow> blocks m a \<noteq> None"
  shows "\<exists>m'. free_all ops as m = Some m' \<and> inv m' \<and> limit m' = limit m \<and> blocks m' = blocks m |` (- set as)"
  using assms
proof (induction as arbitrary: m)
  case Nil
  then show ?case by simp
next
  case (Cons a as)
  obtain k where "blocks m a = Some k" using Cons.prems(3) [of a] by auto
  from free_law [OF Cons.prems(1) this] obtain m1 where
    m1: "mm_free ops m a = Some m1" "inv m1" "limit m1 = limit m" "blocks m1 = (blocks m)(a := None)" by blast
  have "\<And>b. b \<in> set as \<Longrightarrow> blocks m1 b \<noteq> None" using Cons.prems(2,3) m1(4) by auto
  from Cons.IH [OF m1(2) _ this] Cons.prems(2) m1 show ?case
    by (auto simp: restrict_map_def fun_eq_iff)
qed

lemma queue_sim_step:
  assumes sim: "queue_sim inv blocks limit m h q kq"
  shows "\<exists>m' h' q' kq' out. q_step ops cmp opn (m, h, Some q) = Some ((m', h', Some q'), out) \<and>
           kqp_step ops cmp opn m (Some kq) = Some (m', Some kq', out) \<and> queue_sim inv blocks limit m' h' q' kq'"
proof (cases opn)
  case (Enq x)
  have s: "inv m" "sizeof_Node \<noteq> 0" "unat sizeof_Node \<le> limit m"
    using sim by (simp_all add: queue_sim_def sizeof_Node_def)
  then show ?thesis
  proof (cases rule: alloc_cases)
    case (fail m1)
    with sim Enq show ?thesis by (auto simp: kqp_enqueue_def kq_enqueue_def enqueue_def queue_sim_def)
  next
    case (new m1 n k)
    have "n \<notin> fst ` set (kq_nodes kq)" using sim new(5) by (auto simp: queue_sim_def)
    from qrep_enqueue [OF _ new(2) this new(1), of h q x] sim obtain h' q' where
      "enqueue ops x (m, h, Some q) = Some ((m1, h', Some q'), 1)" "qrep h' q' (kq_nodes kq @ [(n, x)])"
      by (auto simp: queue_sim_def)
    with new sim Enq show ?thesis by (auto simp: kqp_enqueue_def kq_enqueue_def queue_sim_def)
  qed
next
  case Poll
  show ?thesis
  proof (cases "kq_nodes kq")
    case Nil
    with sim isQueueEmpty_rep [of h q "[]"] Poll show ?thesis
      by (auto simp: queue_sim_def kqp_poll_def kq_poll_def pollQueue_def)
  next
    case (Cons n ns)
    obtain a x where n: "n = (a, x)" by (cases n)
    obtain k where "blocks m a = Some k" "inv m" using sim Cons n by (auto simp: queue_sim_def)
    from free_law [OF this(2,1)] obtain m1 where
      m1: "mm_free ops m a = Some m1" "inv m1" "limit m1 = limit m" "blocks m1 = (blocks m)(a := None)" by blast
    have rep: "qrep h q ((a, x) # ns)" using sim Cons n by (simp add: queue_sim_def)
    moreover have "a \<notin> fst ` set ns" using rep by (auto simp: qrep_def)
    ultimately show ?thesis
      using qrep_poll [OF rep m1(1)] sim m1 Cons n Poll by (auto simp: kqp_poll_def kq_poll_def queue_sim_def)
  qed
next
  case (Remove x)
  let ?dead = "map fst (filter (\<lambda>n. cmp x (snd n) = 0) (kq_nodes kq))"
  have rep: "qrep h q (kq_nodes kq)" and "inv m" using sim by (simp_all add: queue_sim_def)
  have dist: "distinct (map fst (kq_nodes kq))" using rep by (simp add: qrep_def)
  then have "distinct ?dead" by (metis distinct_map_filter)
  moreover have "\<And>a. a \<in> set ?dead \<Longrightarrow> blocks m a \<noteq> None" using sim by (auto simp: queue_sim_def)
  ultimately obtain m1 where m1: "free_all ops ?dead m = Some m1" "inv m1" "limit m1 = limit m"
      "blocks m1 = blocks m |` (- set ?dead)"
    using free_all_law [OF \<open>inv m\<close>] by metis
  have keep: "fst n \<notin> set ?dead" if "n \<in> set (kq_nodes kq)" "cmp x (snd n) \<noteq> 0" for n
    using that dist by (auto simp: distinct_map dest: inj_onD)
  obtain h' q' where "removeFromQueue ops x cmp (m, h, Some q) =
        Some ((m1, h', Some q'), int (length (filter (\<lambda>n. cmp x (snd n) = 0) (kq_nodes kq))))"
      "qrep h' q' (filter (\<lambda>n. cmp x (snd n) \<noteq> 0) (kq_nodes kq))"
    using qrep_remove [where cmp = cmp and x = x, OF rep m1(1)] by blast
  moreover have "blocks m1 (fst n) \<noteq> None" if "n \<in> set (kq_nodes kq)" "cmp x (snd n) \<noteq> 0" for n
    using keep [OF that] that(1) sim unfolding m1(4) by (simp add: queue_sim_def)
  ultimately show ?thesis using m1(1-3) sim Remove by (auto simp: kqp_remove_def kq_remove_def queue_sim_def)
qed

text \<open>A new handle is \<^verbatim>\<open>NULL\<close> or an empty queue.\<close>
lemma newQueue_sim:
  fixes h :: "'d nodes"
  assumes "inv m" and "24 \<le> limit m" and "newQueue ops m = Some (m1, qp, q)"
  obtains (null) "qp = 0" "q = None" "kq_new ops m = Some (m1, None :: 'd kqueue option)"
    | (made) q0 where "qp \<noteq> 0" "q = Some q0" "kq_new ops m = Some (m1, Some (\<lparr>kq_self = qp, kq_nodes = []\<rparr> :: 'd kqueue))"
      "queue_sim inv blocks limit m1 h q0 \<lparr>kq_self = qp, kq_nodes = []\<rparr>"
proof -
  have al: "mm_alloc ops m sizeof_queueCDT = Some (m1, qp)" and q: "q = (if qp = 0 then None else Some \<lparr>q_first = 0, q_last = 0, q_count = 0\<rparr>)"
    using assms(3) by (auto simp: newQueue_def bind_eq_Some_conv)
  have "inv m1" "limit m1 = limit m" using assms(1,2) al alloc_law [of m sizeof_queueCDT]
    by (auto simp: sizeof_queueCDT_def)
  then have "queue_sim inv blocks limit m1 h \<lparr>q_first = 0, q_last = 0, q_count = 0\<rparr> \<lparr>kq_self = qp, kq_nodes = []\<rparr>"
    using assms(2) by (simp add: queue_sim_def qrep_def last_addr_def)
  then show thesis using al q null made by (cases "qp = 0") (auto simp: kq_new_def)
qed

lemma queue_sim_run:
  assumes "queue_sim inv blocks limit m h q kq"
  shows "\<exists>m' h' q' kq' outs. q_run ops cmp opns (m, h, Some q) = Some ((m', h', Some q'), outs) \<and>
           kqp_run ops cmp opns m (Some kq) = Some (m', Some kq', outs) \<and> queue_sim inv blocks limit m' h' q' kq'"
  using assms
proof (induction opns arbitrary: m h q kq)
  case Nil
  then show ?case by simp
next
  case (Cons opn opns)
  obtain m1 h1 q1 kq1 out where s: "q_step ops cmp opn (m, h, Some q) = Some ((m1, h1, Some q1), out)"
      "kqp_step ops cmp opn m (Some kq) = Some (m1, Some kq1, out)" "queue_sim inv blocks limit m1 h1 q1 kq1"
    using queue_sim_step [OF Cons.prems] by metis
  from Cons.IH [OF s(3)] s(1,2) show ?case by fastforce
qed

text \<open>From \<^verbatim>\<open>newQueue\<close> on, the code is the client's queue, whether or not there was memory for it.\<close>
lemma queue_refines:
  assumes "inv m" and "24 \<le> limit m" and "newQueue ops m = Some (m1, qp, q)"
  shows "\<exists>kq. kq_new ops m = Some (m1, kq) \<and>
    (if qp = 0 then kq = None \<and>
       q_run ops cmp opns (m1, h, q) = map_option (\<lambda>(m, kq, outs). ((m, h, None), outs)) (kqp_run ops cmp opns m1 None)
     else \<exists>m' h' q' kq' outs. q_run ops cmp opns (m1, h, q) = Some ((m', h', Some q'), outs) \<and>
       kqp_run ops cmp opns m1 kq = Some (m', Some kq', outs) \<and> qrep h' q' (kq_nodes kq'))"
  using assms
proof (cases rule: newQueue_sim [where h = h])
  case null
  then show ?thesis by (simp add: null_run)
next
  case (made q0)
  from queue_sim_run [OF made(4)] show ?thesis unfolding queue_sim_def using made(1-3) by fastforce
qed

text \<open>The client's operations under ownership: \<open>x\<close> is the owner of the queue's nodes.\<close>

lemma own_enqueue:
  assumes ok: "own_ok inv blocks m f" and lim: "24 \<le> limit m" and fx: "f x = map fst (kq_nodes q)"
  obtains m' q' r where "kq_enqueue ops d m q = Some (m', q', r)" "limit m' = limit m"
    "kq_self q' = kq_self q" "own_ok inv blocks m' (f(x := map fst (kq_nodes q')))"
    "r = 0 \<and> q' = q \<or> r = 1 \<and> kq_elems q' = kq_elems q @ [d]"
proof -
  have n: "sizeof_Node \<noteq> 0" "unat sizeof_Node \<le> limit m" using lim by (simp_all add: sizeof_Node_def)
  from ok n show thesis
  proof (cases rule: own_alloc)
    case (fail m')
    show ?thesis
    proof (rule that)
      show "kq_enqueue ops d m q = Some (m', q, 0)" using fail by (simp add: kq_enqueue_def)
      show "own_ok inv blocks m' (f(x := map fst (kq_nodes q)))"
        using fail(3) fx by (metis fun_upd_triv)
    qed (use fail in simp_all)
  next
    case (new m' p)
    let ?q = "q\<lparr>kq_nodes := kq_nodes q @ [(p, d)]\<rparr>"
    show ?thesis
    proof (rule that)
      show "kq_enqueue ops d m q = Some (m', ?q, 1)" using new by (simp add: kq_enqueue_def)
      show "own_ok inv blocks m' (f(x := map fst (kq_nodes ?q)))"
        using new(4) [of x] own_ok_distinct [OF ok, of x] fx by (intro new(6)) auto
    qed (use new in \<open>simp_all add: kq_elems_def\<close>)
  qed
qed

lemma own_poll:
  assumes ok: "own_ok inv blocks m f" and fx: "f x = map fst (kq_nodes q)"
  obtains m' q' where
    "kq_poll ops m q = Some (m', q', if kq_elems q = [] then None else Some (hd (kq_elems q)))"
    "limit m' = limit m" "kq_self q' = kq_self q" "kq_elems q' = tl (kq_elems q)"
    "own_ok inv blocks m' (f(x := map fst (kq_nodes q')))"
proof (cases "kq_nodes q")
  case Nil
  show ?thesis
    by (rule that [of m q]) (use Nil fx ok in \<open>simp_all add: kq_poll_def kq_elems_def fun_upd_idem\<close>)
next
  case (Cons n ns)
  obtain a d where n: "n = (a, d)" by (cases n)
  have "a \<in> set (f x)" using fx Cons n by simp
  from own_free [OF ok this] obtain m' where m': "mm_free ops m a = Some m'" "limit m' = limit m"
      "\<And>xs. distinct xs \<Longrightarrow> set xs \<subseteq> set (f x) - {a} \<Longrightarrow> own_ok inv blocks m' (f(x := xs))" by blast
  have "own_ok inv blocks m' (f(x := map fst ns))"
    using own_ok_distinct [OF ok, of x] fx Cons n by (intro m'(3)) auto
  then show ?thesis
    by (intro that [of m' "q\<lparr>kq_nodes := ns\<rparr>"]) (use m' Cons n in \<open>simp_all add: kq_poll_def kq_elems_def\<close>)
qed

lemma own_free_all:
  assumes "own_ok inv blocks m f" and "distinct as" and "set as \<subseteq> set (f x)"
  obtains m' where "free_all ops as m = Some m'" "limit m' = limit m"
    "\<And>xs. distinct xs \<Longrightarrow> set xs \<subseteq> set (f x) - set as \<Longrightarrow> own_ok inv blocks m' (f(x := xs))"
  using assms
proof (induction as arbitrary: m f thesis)
  case Nil
  show ?case
  proof (rule Nil.prems(1))
    show "free_all ops [] m = Some m" by simp
    show "own_ok inv blocks m (f(x := xs))" if "distinct xs" "set xs \<subseteq> set (f x) - set []" for xs
      using that by (intro own_ok_shrink [OF Nil.prems(2)]) simp_all
  qed simp
next
  case (Cons a as)
  have "a \<in> set (f x)" using Cons.prems(4) by simp
  from own_free [OF Cons.prems(2) this] obtain m1 where m1: "mm_free ops m a = Some m1" "limit m1 = limit m"
      "\<And>xs. distinct xs \<Longrightarrow> set xs \<subseteq> set (f x) - {a} \<Longrightarrow> own_ok inv blocks m1 (f(x := xs))" by blast
  let ?f = "f(x := remove1 a (f x))"
  have d: "distinct (f x)" by (rule own_ok_distinct [OF Cons.prems(2)])
  then have ok1: "own_ok inv blocks m1 ?f" by (intro m1(3)) auto
  moreover have "set as \<subseteq> set (?f x)" using Cons.prems(3,4) d by auto
  ultimately obtain m2 where m2: "free_all ops as m1 = Some m2" "limit m2 = limit m1"
      "\<And>xs. distinct xs \<Longrightarrow> set xs \<subseteq> set (?f x) - set as \<Longrightarrow> own_ok inv blocks m2 (?f(x := xs))"
    using Cons.IH [of m1 ?f] Cons.prems(3) by (metis distinct.simps(2))
  show ?case
  proof (rule Cons.prems(1))
    show "free_all ops (a # as) m = Some m2" using m1(1) m2(1) by simp
    show "own_ok inv blocks m2 (f(x := xs))" if "distinct xs" "set xs \<subseteq> set (f x) - set (a # as)" for xs
      using m2(3) [OF that(1)] that(2) d by auto
  qed (use m1 m2 in simp)
qed

lemma own_remove:
  assumes ok: "own_ok inv blocks m f" and fx: "f x = map fst (kq_nodes q)"
  obtains m' q' r where "kq_remove ops hit m q = Some (m', q', r)" "limit m' = limit m"
    "kq_self q' = kq_self q" "kq_elems q' = filter (\<lambda>d. \<not> hit d) (kq_elems q)"
    "own_ok inv blocks m' (f(x := map fst (kq_nodes q')))"
proof -
  let ?dead = "map fst (filter (\<lambda>n. hit (snd n)) (kq_nodes q))"
  let ?q = "q\<lparr>kq_nodes := filter (\<lambda>n. \<not> hit (snd n)) (kq_nodes q)\<rparr>"
  have dist: "distinct (map fst (kq_nodes q))" using own_ok_distinct [OF ok, of x] fx by simp
  then have "distinct ?dead" by (metis distinct_map_filter)
  moreover have "set ?dead \<subseteq> set (f x)" using fx by auto
  ultimately obtain m' where m': "free_all ops ?dead m = Some m'" "limit m' = limit m"
      "\<And>xs. distinct xs \<Longrightarrow> set xs \<subseteq> set (f x) - set ?dead \<Longrightarrow> own_ok inv blocks m' (f(x := xs))"
    using own_free_all [OF ok, of ?dead x] by metis
  have "fst n \<notin> set ?dead" if "n \<in> set (kq_nodes q)" "\<not> hit (snd n)" for n
    using that dist by (auto simp: distinct_map dest: inj_onD)
  then have "own_ok inv blocks m' (f(x := map fst (kq_nodes ?q)))"
    using dist fx by (intro m'(3)) (auto simp: distinct_map_filter)
  then show ?thesis
    by (intro that [of m' ?q "int (length ?dead)"])
      (use m'(1,2) in \<open>simp_all add: kq_remove_def kq_elems_def filter_map o_def\<close>)
qed

end

section \<open>Properties\<close>

text \<open>C17. The linked queue over the free-list manager is the client's list queue.  When \<^verbatim>\<open>newQueue\<close> gets
  its memory, any sequence of \<^verbatim>\<open>enqueue\<close>, \<^verbatim>\<open>pollQueue\<close> and \<^verbatim>\<open>removeFromQueue\<close> runs to the end without an
  access through \<^verbatim>\<open>NULL\<close> or to a freed node, gives the answers of the list, makes the same memory
  requests, and leaves the links, the last pointer and the count in agreement with the list.  When it
  does not, the handle is \<^verbatim>\<open>NULL\<close> for both, and both go wrong at the same operation, the first
  \<^verbatim>\<open>enqueue\<close> that gets a node, if there is one.\<close>
theorem linked_queue_refines_list:
  assumes "fl_inv m" and "newQueue fl_ops m = Some (m1, qp, q)"
  shows "\<exists>kq. kq_new fl_ops m = Some (m1, kq) \<and>
    (if qp = 0 then kq = None \<and>
       q_run fl_ops cmp opns (m1, h, q) = map_option (\<lambda>(m, kq, outs). ((m, h, None), outs)) (kqp_run fl_ops cmp opns m1 None)
     else \<exists>m' h' q' kq' outs. q_run fl_ops cmp opns (m1, h, q) = Some ((m', h', Some q'), outs) \<and>
       kqp_run fl_ops cmp opns m1 kq = Some (m', Some kq', outs) \<and> qrep h' q' (kq_nodes kq'))"
  by (rule fl.queue_refines [OF assms(1) _ assms(2)]) simp

lemma boot_queue:
  obtains m1 qp q where "newQueue fl_ops (mem_init MEM_HEAP_START MEM_HEAP_SIZE fl_zero) = Some (m1, qp, q)" "qp \<noteq> 0"
proof -
  let ?m = "mem_init MEM_HEAP_START MEM_HEAP_SIZE fl_zero"
  have rep: "fl_rep ?m [(MEM_HEAP_START, MEM_HEAP_SIZE - HEADER_SIZE, True)]" by (rule boot_rep)
  have nz: "sizeof_queueCDT \<noteq> 0" by (simp add: sizeof_queueCDT_def)
  from rep nz show thesis
  proof (cases rule: mem_alloc_cases)
    case fail
    then have "\<not> fits (alignUp sizeof_queueCDT) (MEM_HEAP_START, MEM_HEAP_SIZE - HEADER_SIZE, True)" by simp
    then show thesis
      by (simp add: fits_def alignUp_def ALIGNMENT_def sizeof_queueCDT_def MEM_HEAP_SIZE_def HEADER_SIZE_def)
  next
    case (ok xs a s ys st')
    then have "a + HEADER_SIZE \<noteq> 0" using payload_nonnull(1) [OF rep, of a s True] by auto
    then show thesis using ok(4) by (intro that [of st' "a + HEADER_SIZE"]) (simp_all add: newQueue_def fl_ops_def)
  qed
qed

theorem linked_queue_refines_list_witness:
  "\<exists>m1 qp q. newQueue fl_ops (mem_init MEM_HEAP_START MEM_HEAP_SIZE fl_zero) = Some (m1, qp, q) \<and> qp \<noteq> 0 \<and>
     (\<exists>s outs. q_run fl_ops (\<lambda>x y. x - y) [Enq 5, Enq 6, Remove 5, Poll, Poll :: int qop] (m1, Map.empty, q) = Some (s, outs))"
proof -
  obtain m1 qp q where n: "newQueue fl_ops (mem_init MEM_HEAP_START MEM_HEAP_SIZE fl_zero) = Some (m1, qp, q)" "qp \<noteq> 0"
    by (rule boot_queue)
  from linked_queue_refines_list [OF boot_inv n(1), of "\<lambda>x y. x - y" "[Enq 5, Enq 6, Remove 5, Poll, Poll]" Map.empty] n
  show ?thesis by fastforce
qed

end
