(* ===== verification/KTimer.thy ===== *)
theory KTimer
  imports KPrelude
begin

unbundle bit_operations_syntax

text \<open>
  \<^verbatim>\<open>Kernel/interruptions/timer.c\<close> and \<^verbatim>\<open>Kernel/Drivers/soundDriver.c\<close>: the tick counter and the
  PC speaker, whose expiry check runs on every tick.  The I/O ports are hardware: \<open>port_in\<close> is
  what a read answers (environment) and \<open>port_out\<close> the log of writes, latest first.
\<close>

record timer_state =
  ticks :: u64
  sound_playing :: bool
  sound_start_time :: u32
  sound_duration :: u32
  port_in :: "u16 \<Rightarrow> u8"
  port_out :: "(u16 \<times> u8) list"

definition writePort :: "u16 \<Rightarrow> u8 \<Rightarrow> timer_state \<Rightarrow> timer_state" where
  "writePort p v t = t\<lparr>port_out := (p, v) # port_out t\<rparr>"

definition PERIOD_MILLIS :: u64 where
  "PERIOD_MILLIS = 55"

definition FREQUENCY :: u64 where
  "FREQUENCY = 1000 div PERIOD_MILLIS"

text \<open>The C functions return \<^verbatim>\<open>int\<close>: the low 32 bits of the 64-bit value.\<close>
definition ticks_elapsed :: "timer_state \<Rightarrow> u32" where
  "ticks_elapsed t = ucast (ticks t)"

definition seconds_elapsed :: "timer_state \<Rightarrow> u32" where
  "seconds_elapsed t = ucast (ticks t div FREQUENCY)"

definition milliseconds_elapsed :: "timer_state \<Rightarrow> u32" where
  "milliseconds_elapsed t = ucast (ticks t * PERIOD_MILLIS)"

definition SPEAKER_PORT :: u16 where "SPEAKER_PORT = 0x61"
definition PIT_CONTROL_PORT :: u16 where "PIT_CONTROL_PORT = 0x43"
definition PIT_CHANNEL2_PORT :: u16 where "PIT_CHANNEL2_PORT = 0x42"
definition PIT_FREQUENCY :: u32 where "PIT_FREQUENCY = 1193182"

definition setSpeakerFrequency :: "u32 \<Rightarrow> timer_state \<Rightarrow> timer_state" where
  "setSpeakerFrequency frequency t =
     (if frequency = 0 then writePort SPEAKER_PORT (port_in t SPEAKER_PORT AND 0xFC) t
      else (let divisor = PIT_FREQUENCY div frequency;
                t = writePort PIT_CONTROL_PORT 0xB6 t;
                t = writePort PIT_CHANNEL2_PORT (ucast (divisor AND 0xFF)) t;
                t = writePort PIT_CHANNEL2_PORT (ucast (drop_bit 8 divisor AND 0xFF)) t
            in writePort SPEAKER_PORT (port_in t SPEAKER_PORT OR 0x03) t))"

definition stopSound :: "timer_state \<Rightarrow> timer_state" where
  "stopSound t = setSpeakerFrequency 0
     (t\<lparr>sound_playing := False, sound_start_time := 0, sound_duration := 0\<rparr>)"

definition playSound :: "u32 \<Rightarrow> u32 \<Rightarrow> timer_state \<Rightarrow> timer_state" where
  "playSound frequency duration_ms t =
     (if frequency = 0 \<or> duration_ms = 0 then stopSound t
      else setSpeakerFrequency frequency
        (t\<lparr>sound_playing := True, sound_start_time := milliseconds_elapsed t,
           sound_duration := duration_ms\<rparr>))"

definition isSoundPlaying :: "timer_state \<Rightarrow> timer_state \<times> bool" where
  "isSoundPlaying t =
     (if \<not> sound_playing t then (t, False)
      else if milliseconds_elapsed t - sound_start_time t \<ge> sound_duration t
      then (stopSound t, False) else (t, True))"

definition timer_handler :: "timer_state \<Rightarrow> timer_state" where
  "timer_handler t = fst (isSoundPlaying (t\<lparr>ticks := ticks t + 1\<rparr>))"

text \<open>The loop of \<^verbatim>\<open>sleep\<close>: interrupts are enabled, so ticks arrive while it polls.  Each element of
  the list is the number of ticks served before one poll of the clock.\<close>
fun sleep_loop :: "u64 \<Rightarrow> u64 \<Rightarrow> u64 \<Rightarrow> nat list \<Rightarrow> timer_state \<Rightarrow> (timer_state \<times> u64) option" where
  "sleep_loop millis start elapsed pend t =
     (if elapsed < millis
      then (case pend of [] \<Rightarrow> None
            | n # pend' \<Rightarrow>
                (let t = (timer_handler ^^ n) t
                 in sleep_loop millis start (scast (milliseconds_elapsed t) - start) pend' t))
      else Some (t, elapsed))"

definition sleep :: "u64 \<Rightarrow> nat list \<Rightarrow> timer_state \<Rightarrow> (timer_state \<times> u64) option" where
  "sleep millis pend t = sleep_loop millis (scast (milliseconds_elapsed t)) 0 pend t"

declare sleep_loop.simps [simp del]

lemma setSpeakerFrequency_frame [simp]:
  "ticks (setSpeakerFrequency f t) = ticks t"
  "sound_playing (setSpeakerFrequency f t) = sound_playing t"
  "sound_duration (setSpeakerFrequency f t) = sound_duration t"
  "sound_start_time (setSpeakerFrequency f t) = sound_start_time t"
  "port_in (setSpeakerFrequency f t) = port_in t"
  by (simp_all add: setSpeakerFrequency_def writePort_def Let_def)

lemma timer_handler_ticks [simp]: "ticks (timer_handler t) = ticks t + 1"
  by (simp add: timer_handler_def isSoundPlaying_def stopSound_def)

lemma timer_handler_pow_ticks: "ticks ((timer_handler ^^ n) t) = ticks t + of_nat n"
  by (induction n) (simp_all add: algebra_simps)

section \<open>Properties\<close>

text \<open>A tone ends on its own: on the first tick at which at least its duration has passed
  since it started, the handler clears the playing state and its last port write switches the
  two speaker bits off; until then it leaves the tone alone.\<close>
theorem tone_expires:
  assumes "sound_playing t" and "t' = t\<lparr>ticks := ticks t + 1\<rparr>"
  shows "if milliseconds_elapsed t' - sound_start_time t \<ge> sound_duration t
         then \<not> sound_playing (timer_handler t) \<and>
              port_out (timer_handler t) = (SPEAKER_PORT, port_in t SPEAKER_PORT AND 0xFC) # port_out t
         else timer_handler t = t'"
  using assms
  by (simp add: timer_handler_def isSoundPlaying_def stopSound_def setSpeakerFrequency_def writePort_def
      milliseconds_elapsed_def)

definition timer_zero :: timer_state where
  "timer_zero = \<lparr>ticks = 0, sound_playing = False, sound_start_time = 0, sound_duration = 0,
                 port_in = (\<lambda>_. 0xFF), port_out = []\<rparr>"

theorem tone_expires_witness:
  "\<not> sound_playing (timer_handler (playSound 440 55 timer_zero)) \<and>
   sound_playing (timer_handler (playSound 440 100 timer_zero))"
  using tone_expires [of "playSound 440 55 timer_zero"] tone_expires [of "playSound 440 100 timer_zero"]
  by (simp add: playSound_def timer_zero_def milliseconds_elapsed_def PERIOD_MILLIS_def)

end
