(* ===== verification/KState.thy ===== *)
theory KState
  imports KQueue KCircularBuffer KTimer
begin

text \<open>
  The kernel state shared by the scheduler, the semaphores, the pipes, the file accesses and the
  processes: one typed heap per C structure, keyed by address, and the static variables of
  \<^verbatim>\<open>scheduler.c\<close>.  A structure that was freed, or never allocated, is not in its heap, so an
  operation that follows a bad pointer answers \<open>None\<close>.  The theory also has the accessors of
  \<^verbatim>\<open>process.c\<close> and the ownership map: which memory blocks each structure holds.
\<close>

section \<open>Structures\<close>

datatype State = READY | RUNNING | BLOCKED | ZOMBIE

record semCDT =
  sem_value :: int
  sem_blockedQueue :: "int kqueue"
  sem_lock :: bool

record pipeCDT =
  pp_buffer :: "circularBuffer option"
  pp_dataAvailable :: u64
  pp_freeSpaces :: u64
  pp_readMutex :: u64
  pp_writeMutex :: u64
  pp_refCount :: int
  pp_writerCount :: int

record fileAccessCDT =
  fa_pipe :: u64
  fa_flags :: u8
  fa_refCount :: int

text \<open>A copied \<^verbatim>\<open>argv\<close>: the array's address and, per entry, \<^verbatim>\<open>NULL\<close> or a string with its address.\<close>
record argvec =
  av_self :: u64
  av_strs :: "(u64 \<times> u8 list) option list"

text \<open>C strings are the lists of their bytes before the terminator.\<close>
record processCDT =
  p_pid :: int
  p_stackBase :: u64
  p_stackSize :: u64
  p_rsp :: u64
  p_rip :: u64
  p_state :: State
  p_name :: "u8 list"
  p_priorityLevel :: u8
  p_remainingQuantums :: u8
  p_ppid :: int
  p_children :: "int kqueue option"
  p_terminatedChildren :: "int kqueue option"
  p_terminated :: u64
  p_childTerminated :: u64
  p_argc :: int
  p_argv :: "argvec option"
  p_fdTable :: "u64 list"
  p_eofRequests :: "bool list"

record 'm kst =
  kmem :: 'm
  sems :: "u64 \<rightharpoonup> semCDT"
  pipes :: "u64 \<rightharpoonup> pipeCDT"
  files :: "u64 \<rightharpoonup> fileAccessCDT"
  procs :: "u64 \<rightharpoonup> processCDT"
  stackmem :: "u64 \<Rightarrow> u64"
  processTable :: "u64 list"
  foregroundSet :: "bool list"
  currentProcess :: u64
  readyQueue :: "int kqueue option"
  schedulerEnabled :: bool
  tmr :: timer_state

definition MAX_PROCESSES :: int where "MAX_PROCESSES = 64"
definition MAX_FDS :: int where "MAX_FDS = 16"
definition IDLE_PID :: int where "IDLE_PID = 0"
definition INIT_PID :: int where "INIT_PID = 1"

lemmas kconst [simp] = MAX_PROCESSES_def MAX_FDS_def IDLE_PID_def INIT_PID_def

section \<open>Accessors of process.c\<close>

definition on_proc :: "u64 \<Rightarrow> (processCDT \<Rightarrow> processCDT) \<Rightarrow> 'm kst \<Rightarrow> 'm kst option" where
  "on_proc p f s = do { pr \<leftarrow> procs s p; Some (s\<lparr>procs := (procs s)(p \<mapsto> f pr)\<rparr>) }"

definition comparePIDs :: "int \<Rightarrow> int \<Rightarrow> int" where
  "comparePIDs pid1 pid2 = pid1 - pid2"

definition getMaxProcesses :: int where "getMaxProcesses = MAX_PROCESSES"

definition getPID :: "u64 \<Rightarrow> 'm kst \<Rightarrow> int option" where
  "getPID p s = map_option p_pid (procs s p)"

definition getPPID :: "u64 \<Rightarrow> 'm kst \<Rightarrow> int option" where
  "getPPID p s = map_option p_ppid (procs s p)"

definition setPPID :: "u64 \<Rightarrow> int \<Rightarrow> 'm kst \<Rightarrow> 'm kst option" where
  "setPPID p ppid = on_proc p (\<lambda>pr. pr\<lparr>p_ppid := ppid\<rparr>)"

definition getRSP :: "u64 \<Rightarrow> 'm kst \<Rightarrow> u64 option" where
  "getRSP p s = map_option p_rsp (procs s p)"

definition setRSP :: "u64 \<Rightarrow> u64 \<Rightarrow> 'm kst \<Rightarrow> 'm kst option" where
  "setRSP p newRSP = on_proc p (\<lambda>pr. pr\<lparr>p_rsp := newRSP\<rparr>)"

definition getState :: "u64 \<Rightarrow> 'm kst \<Rightarrow> State option" where
  "getState p s = map_option p_state (procs s p)"

definition setState :: "u64 \<Rightarrow> State \<Rightarrow> 'm kst \<Rightarrow> 'm kst option" where
  "setState p st = on_proc p (\<lambda>pr. pr\<lparr>p_state := st\<rparr>)"

definition getPriority :: "u64 \<Rightarrow> 'm kst \<Rightarrow> u8 option" where
  "getPriority p s = map_option p_priorityLevel (procs s p)"

definition setPriority :: "u64 \<Rightarrow> u8 \<Rightarrow> 'm kst \<Rightarrow> 'm kst option" where
  "setPriority p priority = on_proc p (\<lambda>pr. pr\<lparr>p_priorityLevel := priority, p_remainingQuantums := priority\<rparr>)"

definition hasQuantums :: "u64 \<Rightarrow> 'm kst \<Rightarrow> bool option" where
  "hasQuantums p s = map_option (\<lambda>pr. p_remainingQuantums pr > 0) (procs s p)"

definition useQuantum :: "u64 \<Rightarrow> 'm kst \<Rightarrow> 'm kst option" where
  "useQuantum p = on_proc p (\<lambda>pr. if p_remainingQuantums pr > 0
     then pr\<lparr>p_remainingQuantums := p_remainingQuantums pr - 1\<rparr> else pr)"

definition resetQuantums :: "u64 \<Rightarrow> 'm kst \<Rightarrow> 'm kst option" where
  "resetQuantums p = on_proc p (\<lambda>pr. pr\<lparr>p_remainingQuantums := p_priorityLevel pr\<rparr>)"

lemmas proc_accessors = getPID_def getPPID_def setPPID_def getRSP_def setRSP_def getState_def
  setState_def getPriority_def setPriority_def hasQuantums_def useQuantum_def resetQuantums_def

lemma on_proc_Some [simp]:
  "procs s p = Some pr \<Longrightarrow> on_proc p f s = Some (s\<lparr>procs := (procs s)(p \<mapsto> f pr)\<rparr>)"
  by (simp add: on_proc_def)

lemma comparePIDs_eq [simp]: "comparePIDs a b = 0 \<longleftrightarrow> a = b"
  by (simp add: comparePIDs_def)

section \<open>Ownership\<close>

datatype owner = OReady | OReadySelf | OBlocked u64 | OSem u64 | OChildren u64 | OTerminated u64
  | OProc u64 | OPipe u64 | OFile u64

definition qnodes :: "int kqueue option \<Rightarrow> u64 list" where
  "qnodes qo = (case qo of None \<Rightarrow> [] | Some q \<Rightarrow> map fst (kq_nodes q))"

definition qself :: "int kqueue option \<Rightarrow> u64 list" where
  "qself qo = (case qo of None \<Rightarrow> [] | Some q \<Rightarrow> [kq_self q])"

definition av_blocks :: "argvec option \<Rightarrow> u64 list" where
  "av_blocks av = (case av of None \<Rightarrow> []
     | Some a \<Rightarrow> av_self a # map fst (List.map_filter id (av_strs a)))"

definition sem_blocks :: "u64 \<Rightarrow> semCDT \<Rightarrow> u64 list" where
  "sem_blocks a c = [a, kq_self (sem_blockedQueue c)]"

definition proc_blocks :: "u64 \<Rightarrow> processCDT \<Rightarrow> u64 list" where
  "proc_blocks p pr = [p, p_stackBase pr] @ qself (p_children pr) @ qself (p_terminatedChildren pr) @
     av_blocks (p_argv pr)"

definition pipe_blocks :: "u64 \<Rightarrow> pipeCDT \<Rightarrow> u64 list" where
  "pipe_blocks a p = a # (case pp_buffer p of None \<Rightarrow> [] | Some c \<Rightarrow> [cb_self c, cb_data_ptr c])"

definition heap_blocks :: "(u64 \<rightharpoonup> 'x) \<Rightarrow> (u64 \<Rightarrow> 'x \<Rightarrow> u64 list) \<Rightarrow> u64 \<Rightarrow> u64 list" where
  "heap_blocks h f a = (case h a of None \<Rightarrow> [] | Some x \<Rightarrow> f a x)"

fun owned :: "'m kst \<Rightarrow> owner \<Rightarrow> u64 list" where
  "owned s OReady = qnodes (readyQueue s)"
| "owned s OReadySelf = qself (readyQueue s)"
| "owned s (OBlocked a) = heap_blocks (sems s) (\<lambda>_ c. map fst (kq_nodes (sem_blockedQueue c))) a"
| "owned s (OSem a) = heap_blocks (sems s) sem_blocks a"
| "owned s (OChildren a) = heap_blocks (procs s) (\<lambda>_ pr. qnodes (p_children pr)) a"
| "owned s (OTerminated a) = heap_blocks (procs s) (\<lambda>_ pr. qnodes (p_terminatedChildren pr)) a"
| "owned s (OProc a) = heap_blocks (procs s) proc_blocks a"
| "owned s (OPipe a) = heap_blocks (pipes s) pipe_blocks a"
| "owned s (OFile a) = heap_blocks (files s) (\<lambda>a _. [a]) a"

text \<open>Memory safety of a kernel state: every block a structure holds is live, and none is held
  twice.  The manager promises requests up to the size of a process stack.\<close>
definition kmem_ok :: "('m \<Rightarrow> bool) \<Rightarrow> ('m \<Rightarrow> u64 \<rightharpoonup> nat) \<Rightarrow> ('m \<Rightarrow> nat) \<Rightarrow> 'm kst \<Rightarrow> bool" where
  "kmem_ok minv mblocks mlimit s \<longleftrightarrow> own_ok minv mblocks (kmem s) (owned s) \<and> 2 ^ 15 \<le> mlimit (kmem s)"

abbreviation fl_kmem_ok :: "fl_state kst \<Rightarrow> bool" where
  "fl_kmem_ok \<equiv> kmem_ok fl_inv fl_blocks (\<lambda>_. 2 ^ 64 - 8)"

lemma owned_same:
  assumes "sems s' = sems s" "pipes s' = pipes s" "files s' = files s" "procs s' = procs s"
    "readyQueue s' = readyQueue s"
  shows "owned s' = owned s"
proof
  fix x show "owned s' x = owned s x" using assms by (cases x) simp_all
qed

lemma owned_misc [simp]:
  "owned (s\<lparr>tmr := t\<rparr>) = owned s" "owned (s\<lparr>kmem := m\<rparr>) = owned s"
  "owned (s\<lparr>currentProcess := c\<rparr>) = owned s" "owned (s\<lparr>foregroundSet := g\<rparr>) = owned s"
  "owned (s\<lparr>processTable := pt\<rparr>) = owned s" "owned (s\<lparr>stackmem := sm\<rparr>) = owned s"
  "owned (s\<lparr>schedulerEnabled := e\<rparr>) = owned s"
  by (rule owned_same; simp)+

text \<open>Changing the parts of a process that hold no memory.\<close>
lemma owned_proc_same:
  assumes "procs s p = Some pr" "procs s' = (procs s)(p \<mapsto> pr')"
    "p_children pr' = p_children pr" "p_terminatedChildren pr' = p_terminatedChildren pr"
    "p_stackBase pr' = p_stackBase pr" "p_argv pr' = p_argv pr"
    "sems s' = sems s" "pipes s' = pipes s" "files s' = files s" "readyQueue s' = readyQueue s"
  shows "owned s' = owned s"
proof
  fix x show "owned s' x = owned s x"
    using assms by (cases x) (auto simp: heap_blocks_def proc_blocks_def)
qed

lemma owned_sem_same:
  assumes "sems s a = Some c" "sem_blockedQueue c' = sem_blockedQueue c"
  shows "owned (s\<lparr>sems := (sems s)(a \<mapsto> c')\<rparr>) = owned s"
proof
  fix x show "owned (s\<lparr>sems := (sems s)(a \<mapsto> c')\<rparr>) x = owned s x"
    using assms by (cases x) (auto simp: heap_blocks_def sem_blocks_def)
qed

lemma owned_sem_queue:
  assumes "sems s a = Some c" "kq_self (sem_blockedQueue c') = kq_self (sem_blockedQueue c)"
  shows "owned (s\<lparr>sems := (sems s)(a \<mapsto> c')\<rparr>) =
    (owned s)(OBlocked a := map fst (kq_nodes (sem_blockedQueue c')))"
proof
  fix x show "owned (s\<lparr>sems := (sems s)(a \<mapsto> c')\<rparr>) x =
      ((owned s)(OBlocked a := map fst (kq_nodes (sem_blockedQueue c')))) x"
    using assms by (cases x) (auto simp: heap_blocks_def sem_blocks_def)
qed

lemma owned_ready:
  assumes "readyQueue s = Some q" "kq_self q' = kq_self q"
  shows "owned (s\<lparr>readyQueue := Some q'\<rparr>) = (owned s)(OReady := map fst (kq_nodes q'))"
proof
  fix x show "owned (s\<lparr>readyQueue := Some q'\<rparr>) x = ((owned s)(OReady := map fst (kq_nodes q'))) x"
    using assms by (cases x) (auto simp: qnodes_def qself_def)
qed

lemma owned_children:
  assumes "procs s p = Some pr" "p_children pr = Some q" "kq_self q' = kq_self q"
  shows "owned (s\<lparr>procs := (procs s)(p \<mapsto> pr\<lparr>p_children := Some q'\<rparr>)\<rparr>) =
    (owned s)(OChildren p := map fst (kq_nodes q'))"
proof
  fix x show "owned (s\<lparr>procs := (procs s)(p \<mapsto> pr\<lparr>p_children := Some q'\<rparr>)\<rparr>) x =
      ((owned s)(OChildren p := map fst (kq_nodes q'))) x"
    using assms by (cases x) (auto simp: heap_blocks_def proc_blocks_def qself_def qnodes_def)
qed

lemma owned_terminated:
  assumes "procs s p = Some pr" "p_terminatedChildren pr = Some q" "kq_self q' = kq_self q"
  shows "owned (s\<lparr>procs := (procs s)(p \<mapsto> pr\<lparr>p_terminatedChildren := Some q'\<rparr>)\<rparr>) =
    (owned s)(OTerminated p := map fst (kq_nodes q'))"
proof
  fix x show "owned (s\<lparr>procs := (procs s)(p \<mapsto> pr\<lparr>p_terminatedChildren := Some q'\<rparr>)\<rparr>) x =
      ((owned s)(OTerminated p := map fst (kq_nodes q'))) x"
    using assms by (cases x) (auto simp: heap_blocks_def proc_blocks_def qself_def qnodes_def)
qed

lemma kmem_ok_same:
  assumes "kmem_ok minv mblocks mlimit s" "kmem s' = kmem s" "owned s' = owned s"
  shows "kmem_ok minv mblocks mlimit s'"
  using assms by (simp add: kmem_ok_def)

end
