(* ===== verification/KDemoHeap.thy ===== *)
theory KDemoHeap
  imports KFreeList
begin

text \<open>
  A concrete free-list heap with forty live 64-byte blocks and the rest of the area free.  The
  worked examples of the kernel theories take the addresses of their structures from it.
\<close>

fun build_hdr :: "blk list \<Rightarrow> u64 \<Rightarrow> u64 \<Rightarrow> Block" where
  "build_hdr [] pv = (\<lambda>_. \<lparr>blk_size = 0, blk_free = False, blk_prev = 0, blk_next = 0\<rparr>)"
| "build_hdr ((a, sz, f) # bs) pv = (build_hdr bs a)
     (a := \<lparr>blk_size = sz, blk_free = f, blk_prev = pv, blk_next = (case bs of [] \<Rightarrow> 0 | b # _ \<Rightarrow> fst b)\<rparr>)"

definition demo_base :: "nat \<Rightarrow> u64" where
  "demo_base i = 0x1000000 + of_nat (96 * i)"

definition demo_blocks :: "blk list" where
  "demo_blocks = map (\<lambda>i. (demo_base i, 64, False)) [0..<40] @ [(demo_base 40, 0x100000, True)]"

definition demo_heap :: fl_state where
  "demo_heap = \<lparr>hdr = build_hdr demo_blocks 0, baseBlock = 0x1000000, totalBytes = 40 * 96 + 32 + 0x100000\<rparr>"

text \<open>The payload of the \<open>i\<close>-th live block.\<close>
definition demo_ptr :: "nat \<Rightarrow> u64" where
  "demo_ptr i = demo_base i + 32"

lemma unat_demo_base: "i \<le> 40 \<Longrightarrow> unat (demo_base i) = 0x1000000 + 96 * i"
proof -
  assume i: "i \<le> 40"
  have "unat (of_nat (96 * i) :: u64) = 96 * i"
    using i by (simp only: unat_of_nat) (simp add: take_bit_nat_eq_self)
  then show ?thesis unfolding demo_base_def using i by (subst unat_add_no_wrap) simp_all
qed

lemma seg_build:
  assumes "distinct (map baddr bs)" "0 \<notin> baddr ` set bs" "bs \<noteq> []"
  shows "\<exists>pv'. seg (build_hdr bs pv) pv (fst (hd bs)) bs pv' 0"
  using assms
proof (induction bs arbitrary: pv)
  case (Cons b bs)
  obtain a sz f where b: "b = (a, sz, f)" by (cases b)
  show ?case
  proof (cases bs)
    case Nil
    with Cons.prems b show ?thesis by auto
  next
    case (Cons c cs)
    with Cons.IH [of a] Cons.prems b obtain pv' where
      "seg (build_hdr bs a) a (fst (hd bs)) bs pv' 0" by auto
    moreover have "seg (build_hdr (b # bs) pv) a (fst (hd bs)) bs pv' 0 = seg (build_hdr bs a) a (fst (hd bs)) bs pv' 0"
      by (rule seg_frame) (use Cons.prems b in auto)
    ultimately have "seg (build_hdr (b # bs) pv) pv a (b # bs) pv' 0"
      using Cons.prems b Cons by (simp only: seg.simps) simp
    then show ?thesis using b by (simp only: list.sel fst_conv) blast
  qed
qed simp

lemma demo_layout:
  "layout (0x1000000 + 96 * i) (map (\<lambda>i. (demo_base i, 64, False)) [i..<40] @ [(demo_base 40, 0x100000, True)])
     (0x1000000 + 96 * 40 + 32 + 0x100000)" if "i \<le> 40" for i
  using that
proof (induction rule: inc_induct)
  case base
  show ?case by (simp add: unat_demo_base)
next
  case (step i)
  have "[i..<40] = i # [Suc i..<40]" using step(2) by (rule upt_conv_Cons)
  moreover have "0x1000000 + 96 * Suc i = 0x1000000 + 96 * i + 32 + unat (64 :: u64)" by simp
  moreover have "8 dvd unat (64 :: u64)" by simp
  moreover have "unat (demo_base i) = 0x1000000 + 96 * i" using step(2) by (simp add: unat_demo_base)
  ultimately show ?case using step(3) by (simp only: list.map append_Cons layout.simps)
qed

lemma demo_rep: "fl_rep demo_heap demo_blocks"
proof -
  have lay: "layout 0x1000000 demo_blocks (0x1000000 + 96 * 40 + 32 + 0x100000)"
    using demo_layout [of 0] by (simp add: demo_blocks_def)
  have "0 \<notin> baddr ` set demo_blocks"
  proof
    assume "0 \<in> baddr ` set demo_blocks"
    then obtain sz f where "(0, sz, f) \<in> set demo_blocks" by force
    from layout_bounds [OF lay this] show False by simp
  qed
  moreover have "[0..<40] = 0 # [Suc 0..<40]" by (rule upt_conv_Cons) simp
  then have "fst (hd demo_blocks) = 0x1000000" by (simp add: demo_blocks_def demo_base_def)
  moreover have "demo_blocks \<noteq> []" by (simp add: demo_blocks_def)
  ultimately have "\<exists>pv'. seg (build_hdr demo_blocks 0) 0 0x1000000 demo_blocks pv' 0"
    using seg_build [of demo_blocks 0] layout_distinct [OF lay] by metis
  moreover have "coalesced demo_blocks"
    unfolding coalesced_def demo_blocks_def
    by (auto simp: successively_conv_nth nth_append)
  ultimately show ?thesis
    using lay by (simp add: fl_rep_def demo_heap_def demo_blocks_def)
qed

lemma demo_inv [simp]: "fl_inv demo_heap"
  using demo_rep by (auto simp: fl_inv_def)

lemma demo_live: "i < 40 \<Longrightarrow> fl_blocks demo_heap (demo_ptr i) = Some 64"
  unfolding fl_blocks_rep [OF demo_rep]
  by (subst live_iff [OF fl_rep_distinct [OF demo_rep]], rule exI [of _ 64])
    (auto simp: demo_ptr_def HEADER_SIZE_def demo_blocks_def)

lemma unat_demo_ptr: "i < 40 \<Longrightarrow> unat (demo_ptr i) = 0x1000000 + 96 * i + 32"
  unfolding demo_ptr_def by (subst unat_add_no_wrap) (simp_all add: unat_demo_base)

lemma demo_ptr_inj: "i < 40 \<Longrightarrow> j < 40 \<Longrightarrow> demo_ptr i = demo_ptr j \<longleftrightarrow> i = j"
proof
  assume ij: "i < 40" "j < 40" "demo_ptr i = demo_ptr j"
  then have "0x1000000 + 96 * i + 32 = 0x1000000 + 96 * j + (32 :: nat)" by (metis unat_demo_ptr)
  then show "i = j" by linarith
qed simp

lemma demo_ptr_nonnull: "i < 40 \<Longrightarrow> demo_ptr i \<noteq> 0"
proof
  assume "i < 40" "demo_ptr i = 0"
  then have "0x1000000 + 96 * i + 32 = (0 :: nat)" by (metis unat_demo_ptr unat_0)
  then show False by simp
qed

end
