(* ===== verification/KDemo.thy ===== *)
theory KDemo
  imports KState KDemoHeap
begin

text \<open>
  A concrete kernel state with three processes: idle and init ready, a third one running.  Its
  structures take their addresses from the blocks of the example heap: process \<open>i\<close> uses blocks
  \<open>8 i\<close> to \<open>8 i + 7\<close> (control block, stack, the two queues, the two semaphores with their queues),
  the ready queue blocks \<open>24\<close> to \<open>26\<close>.
\<close>

definition demo_queue :: "nat \<Rightarrow> int kqueue" where
  "demo_queue i = \<lparr>kq_self = demo_ptr i, kq_nodes = []\<rparr>"

definition demo_sem :: "nat \<Rightarrow> semCDT" where
  "demo_sem i = \<lparr>sem_value = 0, sem_blockedQueue = demo_queue (i + 1), sem_lock = False\<rparr>"

definition demo_proc :: "nat \<Rightarrow> State \<Rightarrow> processCDT" where
  "demo_proc i st = \<lparr>p_pid = int i, p_stackBase = demo_ptr (8 * i + 1), p_stackSize = 64,
     p_rsp = demo_ptr (8 * i + 1) + 64, p_rip = 0x400000, p_state = st, p_name = [],
     p_priorityLevel = 1, p_remainingQuantums = 0, p_ppid = 1,
     p_children = Some (demo_queue (8 * i + 2)), p_terminatedChildren = Some (demo_queue (8 * i + 3)),
     p_terminated = demo_ptr (8 * i + 4), p_childTerminated = demo_ptr (8 * i + 6),
     p_argc = 0, p_argv = None, p_fdTable = replicate 16 0, p_eofRequests = replicate 16 False\<rparr>"

definition demo_kst :: "fl_state kst" where
  "demo_kst = \<lparr>kmem = demo_heap,
     sems = map_of (map (\<lambda>i. (demo_ptr i, demo_sem i)) [4, 6, 12, 14, 20, 22]),
     pipes = Map.empty, files = Map.empty,
     procs = map_of [(demo_ptr 0, demo_proc 0 READY), (demo_ptr 8, demo_proc 1 READY),
                     (demo_ptr 16, demo_proc 2 RUNNING)],
     stackmem = (\<lambda>_. 0),
     processTable = [demo_ptr 0, demo_ptr 8, demo_ptr 16] @ replicate 61 0,
     foregroundSet = replicate 64 False, currentProcess = demo_ptr 16,
     readyQueue = Some \<lparr>kq_self = demo_ptr 24, kq_nodes = [(demo_ptr 25, 0), (demo_ptr 26, 1)]\<rparr>,
     schedulerEnabled = True, tmr = timer_zero\<rparr>"

text \<open>Which owner holds which block of the heap.\<close>
definition demo_label :: "nat \<Rightarrow> owner" where
  "demo_label i =
     (if i < 24 then (let p = 8 * (i div 8) in
        if i mod 8 < 4 then OProc (demo_ptr p)
        else if i mod 8 < 6 then OSem (demo_ptr (p + 4)) else OSem (demo_ptr (p + 6)))
      else if i = 24 then OReadySelf else if i < 27 then OReady else OFile 0)"

lemma own_demo:
  assumes "\<And>x. \<exists>is. f x = map demo_ptr is \<and> distinct is \<and> (\<forall>i \<in> set is. i < 40 \<and> label i = x)"
  shows "own_ok fl_inv fl_blocks demo_heap f"
proof -
  have mem: "\<exists>i. a = demo_ptr i \<and> i < 40 \<and> label i = x" if "a \<in> set (f x)" for a x
    using assms [of x] that by (metis imageE list.set_map)
  have "distinct (f x)" for x
    using assms [of x] by (auto simp: distinct_map inj_on_def demo_ptr_inj)
  moreover have "set (f x) \<subseteq> dom (fl_blocks demo_heap)" for x
    using mem [of _ x] by (auto dest: demo_live)
  moreover have "0 \<notin> set (f x)" for x
    using mem [of 0 x] demo_ptr_nonnull by metis
  moreover have "set (f x) \<inter> set (f y) = {}" if "x \<noteq> y" for x y
    using mem [of _ x] mem [of _ y] that by (metis disjoint_iff demo_ptr_inj)
  ultimately show ?thesis by (simp add: own_ok_def)
qed

lemmas demo_defs = demo_kst_def demo_proc_def demo_sem_def demo_queue_def

lemma demo_owned:
  "\<exists>is. owned demo_kst x = map demo_ptr is \<and> distinct is \<and> (\<forall>i \<in> set is. i < 40 \<and> demo_label i = x)"
proof (cases x)
  case OReady
  then show ?thesis by (intro exI [of _ "[25, 26]"]) (simp add: demo_defs qnodes_def demo_label_def)
next
  case OReadySelf
  then show ?thesis by (intro exI [of _ "[24]"]) (simp add: demo_defs qself_def demo_label_def)
next
  case (OBlocked a)
  then show ?thesis by (intro exI [of _ "[]"]) (simp add: demo_defs heap_blocks_def)
next
  case (OSem a)
  show ?thesis
  proof (cases "\<exists>i \<in> {4, 6, 12, 14, 20, 22}. a = demo_ptr i")
    case True
    then obtain i where i: "a = demo_ptr i" "i \<in> {4, 6, 12, 14, 20, 22}" by blast
    then show ?thesis using OSem
      by (intro exI [of _ "[i, i + 1]"]) (auto simp: demo_defs heap_blocks_def sem_blocks_def demo_label_def demo_ptr_inj)
  next
    case False
    then show ?thesis using OSem by (intro exI [of _ "[]"]) (simp add: demo_defs heap_blocks_def)
  qed
next
  case (OProc a)
  show ?thesis
  proof (cases "\<exists>i \<in> {0, 8, 16}. a = demo_ptr i")
    case True
    then obtain i where i: "a = demo_ptr i" "i \<in> {0, 8, 16}" by blast
    then show ?thesis using OProc
      by (intro exI [of _ "[i, i + 1, i + 2, i + 3]"])
        (auto simp: demo_defs heap_blocks_def proc_blocks_def qself_def av_blocks_def demo_label_def demo_ptr_inj)
  next
    case False
    then show ?thesis using OProc by (intro exI [of _ "[]"]) (simp add: demo_defs heap_blocks_def)
  qed
qed (intro exI [of _ "[]"], auto simp: demo_defs heap_blocks_def qnodes_def)+

text \<open>The blocks from 27 on are live but not used by the state.\<close>
lemma demo_owned_small:
  assumes "owned demo_kst x = map demo_ptr is" "\<forall>i \<in> set is. i < 40 \<and> demo_label i = x" "i \<in> set is"
  shows "i < 27"
proof (rule ccontr)
  assume "\<not> i < 27"
  then have "x = OFile 0" using assms(2,3) by (auto simp: demo_label_def)
  then have "owned demo_kst x = []" by (simp add: demo_kst_def heap_blocks_def)
  with assms(1,3) show False by simp
qed

lemma demo_kmem: "fl_kmem_ok demo_kst"
  using own_demo [of "owned demo_kst", OF demo_owned] by (simp add: kmem_ok_def) (simp add: demo_kst_def)

end
