(* ===== verification/KSched.thy ===== *)
theory KSched
  imports KDemo
begin

text \<open>
  The core of \<^verbatim>\<open>Kernel/process_contextswitch/scheduler.c\<close>: the process table, the ready queue, the
  state changes and the tick.  \<^verbatim>\<open>schedule\<close> is the body of interrupt 0x20; it is also what
  \<^verbatim>\<open>forceSchedulerCall\<close> runs.  The theory shows that it never follows a bad pointer, keeps the
  scheduler's invariant and the memory ownership, and is an exact weighted round robin.
\<close>

section \<open>Operations\<close>

definition ptab :: "'m kst \<Rightarrow> int \<Rightarrow> u64 option" where
  "ptab s pid = (if 0 \<le> pid \<and> pid < MAX_PROCESSES then Some (processTable s ! nat pid) else None)"

definition getProcessesCount :: "'m kst \<Rightarrow> nat" where
  "getProcessesCount s = length (filter (\<lambda>p. p \<noteq> 0) (take (nat MAX_PROCESSES) (processTable s)))"

definition findFreePid :: "'m kst \<Rightarrow> int" where
  "findFreePid s = (case List.find (\<lambda>i. processTable s ! i = 0) [0..<nat MAX_PROCESSES] of
     None \<Rightarrow> -1 | Some i \<Rightarrow> int i)"

definition enableScheduler :: "'m kst \<Rightarrow> 'm kst" where
  "enableScheduler s = s\<lparr>schedulerEnabled := True\<rparr>"

definition getCurrentPID :: "'m kst \<Rightarrow> int option" where
  "getCurrentPID s = (if currentProcess s \<noteq> 0 then getPID (currentProcess s) s else Some (-1))"

definition setCurrentBlocked :: "'m kst \<Rightarrow> 'm kst option" where
  "setCurrentBlocked s = (if currentProcess s \<noteq> 0 then setState (currentProcess s) BLOCKED s else Some s)"

definition isUnkillable :: "int \<Rightarrow> bool" where
  "isUnkillable pid \<longleftrightarrow> pid = IDLE_PID \<or> pid = INIT_PID"

definition setBlocked :: "'m mm_ops \<Rightarrow> int \<Rightarrow> 'm kst \<Rightarrow> ('m kst \<times> int) option" where
  "setBlocked mm pid s =
     (case ptab s pid of None \<Rightarrow> Some (s, -1)
      | Some p \<Rightarrow>
        if p = 0 then Some (s, -1)
        else if isUnkillable pid then Some (s, -1)
        else do {
          st \<leftarrow> getState p s;
          if st \<noteq> RUNNING \<and> st \<noteq> READY then Some (s, -1)
          else do {
            s \<leftarrow> (if st = READY then do {
                    (m, q, r) \<leftarrow> kqp_remove mm (\<lambda>y. comparePIDs pid y = 0) (kmem s) (readyQueue s);
                    Some (s\<lparr>kmem := m, readyQueue := q\<rparr>) }
                  else Some s);
            s \<leftarrow> setState p BLOCKED s;
            Some (s, 0)
          }
        })"

definition setReady :: "'m mm_ops \<Rightarrow> int \<Rightarrow> 'm kst \<Rightarrow> ('m kst \<times> int) option" where
  "setReady mm pid s =
     (case ptab s pid of None \<Rightarrow> Some (s, -1)
      | Some p \<Rightarrow>
        if p = 0 then Some (s, -1)
        else do {
          st \<leftarrow> getState p s;
          if st \<noteq> BLOCKED then Some (s, -1)
          else do {
            (m, q, r) \<leftarrow> kqp_enqueue mm pid (kmem s) (readyQueue s);
            s \<leftarrow> setState p READY (s\<lparr>kmem := m, readyQueue := q\<rparr>);
            Some (s, 0)
          }
        })"

definition setPriorityOnPID :: "int \<Rightarrow> u8 \<Rightarrow> 'm kst \<Rightarrow> ('m kst \<times> int) option" where
  "setPriorityOnPID pid priority s =
     (case ptab s pid of None \<Rightarrow> Some (s, -1)
      | Some p \<Rightarrow>
        if p = 0 \<or> priority = 0 then Some (s, -1)
        else do { s \<leftarrow> setPriority p priority s; Some (s, 0) })"

definition addToFG :: "int \<Rightarrow> 'm kst \<Rightarrow> 'm kst \<times> int" where
  "addToFG pid s =
     (case ptab s pid of None \<Rightarrow> (s, -1)
      | Some p \<Rightarrow> if p = 0 \<or> foregroundSet s ! nat pid then (s, -1)
                 else (s\<lparr>foregroundSet := (foregroundSet s)[nat pid := True]\<rparr>, 0))"

definition removeFromFG :: "int \<Rightarrow> 'm kst \<Rightarrow> 'm kst \<times> int" where
  "removeFromFG pid s =
     (if pid < 0 \<or> pid \<ge> MAX_PROCESSES then (s, -1)
      else if \<not> foregroundSet s ! nat pid then (s, -1)
      else (s\<lparr>foregroundSet := (foregroundSet s)[nat pid := False]\<rparr>, 0))"

definition isInFG :: "int \<Rightarrow> 'm kst \<Rightarrow> bool" where
  "isInFG pid s \<longleftrightarrow> \<not> (pid < 0 \<or> pid \<ge> MAX_PROCESSES) \<and> foregroundSet s ! nat pid"

text \<open>\<^verbatim>\<open>(pid_t)(intptr_t) pollQueue(...)\<close>: the \<^verbatim>\<open>NULL\<close> of an empty queue reads as pid \<open>0\<close>.\<close>
definition pid_of_poll :: "int option \<Rightarrow> int" where
  "pid_of_poll r = (case r of None \<Rightarrow> 0 | Some pid \<Rightarrow> pid)"

definition getNextPID :: "'m mm_ops \<Rightarrow> 'm kst \<Rightarrow> ('m kst \<times> int) option" where
  "getNextPID mm s =
     (if kqp_empty (readyQueue s) then Some (s, IDLE_PID)
      else do {
        (m, q, r) \<leftarrow> kqp_poll mm (kmem s) (readyQueue s);
        Some (s\<lparr>kmem := m, readyQueue := q\<rparr>, pid_of_poll r)
      })"

text \<open>The tail of \<^verbatim>\<open>schedule\<close>: pick the next process and give it a full slice.\<close>
definition dispatch_next :: "'m mm_ops \<Rightarrow> 'm kst \<Rightarrow> ('m kst \<times> u64) option" where
  "dispatch_next mm s = do {
     (s, nextPid) \<leftarrow> getNextPID mm s;
     p \<leftarrow> ptab s nextPid;
     s \<leftarrow> setState p RUNNING (s\<lparr>currentProcess := p\<rparr>);
     s \<leftarrow> resetQuantums p s;
     s \<leftarrow> useQuantum p s;
     rsp \<leftarrow> getRSP p s;
     Some (s, rsp)
   }"

definition schedule :: "'m mm_ops \<Rightarrow> u64 \<Rightarrow> 'm kst \<Rightarrow> ('m kst \<times> u64) option" where
  "schedule mm prevRSP s =
     (let s = s\<lparr>tmr := timer_handler (tmr s)\<rparr>; cur = currentProcess s in
      if \<not> schedulerEnabled s then Some (s, prevRSP)
      else if cur = 0 then dispatch_next mm s
      else do {
        s \<leftarrow> setRSP cur prevRSP s;
        st \<leftarrow> getState cur s;
        if st = RUNNING then do {
          hq \<leftarrow> hasQuantums cur s;
          if hq then do { s \<leftarrow> useQuantum cur s; Some (s, prevRSP) }
          else do {
            s \<leftarrow> setState cur READY s;
            pid \<leftarrow> getPID cur s;
            (m, q, r) \<leftarrow> kqp_enqueue mm pid (kmem s) (readyQueue s);
            dispatch_next mm (s\<lparr>kmem := m, readyQueue := q\<rparr>)
          }
        }
        else dispatch_next mm s
      })"

text \<open>\<^verbatim>\<open>forceSchedulerCall\<close> raises interrupt 0x20; \<open>rsp\<close> is the stack pointer the stub saves.  The
  call returns to its caller when the caller is dispatched again.\<close>
definition forceSchedulerCall :: "'m mm_ops \<Rightarrow> u64 \<Rightarrow> 'm kst \<Rightarrow> 'm kst option" where
  "forceSchedulerCall mm rsp s = do { (s, r) \<leftarrow> schedule mm rsp s; Some s }"

section \<open>Invariant\<close>

definition rq_elems :: "'m kst \<Rightarrow> int list" where
  "rq_elems s = (case readyQueue s of None \<Rightarrow> [] | Some q \<Rightarrow> kq_elems q)"

text \<open>The process registered under a pid.\<close>
definition proc_at :: "'m kst \<Rightarrow> int \<Rightarrow> processCDT option" where
  "proc_at s pid = (if 0 \<le> pid \<and> pid < 64 \<and> processTable s ! nat pid \<noteq> 0
     then procs s (processTable s ! nat pid) else None)"

definition pstate :: "'m kst \<Rightarrow> int \<Rightarrow> State option" where
  "pstate s pid = map_option p_state (proc_at s pid)"

definition tab_ok :: "'m kst \<Rightarrow> bool" where
  "tab_ok s \<longleftrightarrow> length (processTable s) = 64 \<and> length (foregroundSet s) = 64 \<and>
     (\<forall>i<64. processTable s ! i \<noteq> 0 \<longrightarrow>
        (\<exists>pr. procs s (processTable s ! i) = Some pr \<and> p_pid pr = int i))"

definition ready_ok :: "'m kst \<Rightarrow> bool" where
  "ready_ok s \<longleftrightarrow> readyQueue s \<noteq> None \<and> distinct (rq_elems s) \<and>
     (\<forall>pid \<in> set (rq_elems s). pstate s pid = Some READY)"

definition cur_ok :: "'m kst \<Rightarrow> bool" where
  "cur_ok s \<longleftrightarrow> (currentProcess s \<noteq> 0 \<longrightarrow> currentProcess s \<in> set (processTable s)) \<and>
     (\<forall>pid. pstate s pid = Some RUNNING \<longrightarrow> processTable s ! nat pid = currentProcess s)"

definition idle_ok :: "'m kst \<Rightarrow> bool" where
  "idle_ok s \<longleftrightarrow> pstate s 0 = Some READY \<or> pstate s 0 = Some RUNNING"

definition sched_inv :: "'m kst \<Rightarrow> bool" where
  "sched_inv s \<longleftrightarrow> tab_ok s \<and> ready_ok s \<and> cur_ok s \<and> idle_ok s"

lemmas sched_defs = sched_inv_def tab_ok_def ready_ok_def cur_ok_def idle_ok_def

text \<open>No ready process is missing from the queue (true as long as no queue node was refused).\<close>
definition ready_complete :: "'m kst \<Rightarrow> bool" where
  "ready_complete s \<longleftrightarrow> (\<forall>pid. pstate s pid = Some READY \<longrightarrow> pid \<in> set (rq_elems s))"

lemma proc_atD: "proc_at s pid = Some pr \<Longrightarrow>
    0 \<le> pid \<and> pid < 64 \<and> processTable s ! nat pid \<noteq> 0 \<and> procs s (processTable s ! nat pid) = Some pr"
  by (simp add: proc_at_def split: if_splits)

lemma tab_okD:
  assumes "tab_ok s" "0 \<le> pid" "pid < 64" "processTable s ! nat pid \<noteq> 0"
  obtains pr where "proc_at s pid = Some pr" "p_pid pr = pid" "procs s (processTable s ! nat pid) = Some pr"
proof -
  have "nat pid < 64" using assms(2,3) by simp
  with assms obtain pr where "procs s (processTable s ! nat pid) = Some pr" "p_pid pr = int (nat pid)"
    unfolding tab_ok_def by blast
  with assms(2-4) show thesis by (intro that [of pr]) (simp_all add: proc_at_def)
qed

lemma proc_at_pid:
  assumes "tab_ok s" "proc_at s pid = Some pr"
  shows "p_pid pr = pid"
proof -
  have "0 \<le> pid" "pid < 64" "processTable s ! nat pid \<noteq> 0" using proc_atD [OF assms(2)] by simp_all
  from tab_okD [OF assms(1) this] assms(2) show ?thesis by auto
qed

lemma tab_ok_inj:
  assumes "tab_ok s" "proc_at s pid = Some pr" "proc_at s pid' = Some pr'"
    "processTable s ! nat pid = processTable s ! nat pid'"
  shows "pid = pid'"
proof -
  have "pr = pr'" using proc_atD [OF assms(2)] proc_atD [OF assms(3)] assms(4) by simp
  then show ?thesis using proc_at_pid [OF assms(1,2)] proc_at_pid [OF assms(1,3)] by simp
qed

text \<open>Updating one process in the heap: only its own pid sees it.\<close>
lemma proc_at_upd:
  assumes "tab_ok s" "proc_at s pid = Some pr"
    and "procs s' = (procs s)(processTable s ! nat pid \<mapsto> pr')" "processTable s' = processTable s"
  shows "proc_at s' = (proc_at s)(pid \<mapsto> pr')"
proof
  fix x
  show "proc_at s' x = ((proc_at s)(pid \<mapsto> pr')) x"
  proof (cases "x = pid")
    case True
    with assms show ?thesis by (auto simp: proc_at_def split: if_splits)
  next
    case False
    have "processTable s ! nat x \<noteq> processTable s ! nat pid"
      if x: "0 \<le> x" "x < 64" "processTable s ! nat x \<noteq> 0"
    proof
      assume e: "processTable s ! nat x = processTable s ! nat pid"
      obtain prx where "proc_at s x = Some prx" using tab_okD [OF assms(1) x] by blast
      with tab_ok_inj [OF assms(1) this assms(2) e] False show False by simp
    qed
    with False assms(3,4) show ?thesis by (simp add: proc_at_def)
  qed
qed

lemma proc_at_same:
  "procs s' = procs s \<Longrightarrow> processTable s' = processTable s \<Longrightarrow> proc_at s' = proc_at s"
  by (simp add: proc_at_def fun_eq_iff)

lemma proc_at_misc [simp]:
  "proc_at (s\<lparr>tmr := t\<rparr>) = proc_at s" "proc_at (s\<lparr>kmem := m\<rparr>) = proc_at s"
  "proc_at (s\<lparr>currentProcess := c\<rparr>) = proc_at s" "proc_at (s\<lparr>readyQueue := q\<rparr>) = proc_at s"
  "proc_at (s\<lparr>sems := sm\<rparr>) = proc_at s" "proc_at (s\<lparr>pipes := pm\<rparr>) = proc_at s"
  "proc_at (s\<lparr>files := fm\<rparr>) = proc_at s" "proc_at (s\<lparr>foregroundSet := g\<rparr>) = proc_at s"
  "proc_at (s\<lparr>kmem := m, readyQueue := q\<rparr>) = proc_at s"
  by (rule proc_at_same; simp)+

text \<open>The current process is registered.\<close>
lemma current_registered:
  assumes "sched_inv s" "currentProcess s \<noteq> 0"
  obtains pid pr where "proc_at s pid = Some pr" "processTable s ! nat pid = currentProcess s" "p_pid pr = pid"
    "procs s (currentProcess s) = Some pr"
proof -
  obtain i where i: "i < 64" "processTable s ! i = currentProcess s"
    using assms by (auto simp: sched_defs in_set_conv_nth)
  then obtain pr where "procs s (currentProcess s) = Some pr" "p_pid pr = int i"
    using assms by (auto simp: sched_defs)
  with i assms(2) show thesis by (intro that [of "int i" pr]) (auto simp: proc_at_def)
qed

lemma ready_registered:
  assumes "sched_inv s" "pid \<in> set (rq_elems s)"
  obtains pr where "proc_at s pid = Some pr" "p_state pr = READY" "p_pid pr = pid"
  using assms proc_at_pid [of s pid] by (auto simp: sched_inv_def ready_ok_def pstate_def)

lemma pstate_upd:
  "proc_at s' = (proc_at s)(pid \<mapsto> pr') \<Longrightarrow> pstate s' = (pstate s)(pid \<mapsto> p_state pr')"
  by (simp add: pstate_def fun_eq_iff)

lemma tab_ok_same:
  assumes "tab_ok s" "processTable s' = processTable s" "length (foregroundSet s') = 64" "proc_at s' = proc_at s"
  shows "tab_ok s'"
  unfolding tab_ok_def
proof (intro conjI allI impI)
  fix i :: nat assume i: "i < 64" "processTable s' ! i \<noteq> 0"
  have "proc_at s' (int i) = proc_at s (int i)" using assms(4) by simp
  with i assms(1,2) show "\<exists>pr. procs s' (processTable s' ! i) = Some pr \<and> p_pid pr = int i"
    by (simp add: proc_at_def tab_ok_def)
qed (use assms in \<open>simp_all add: tab_ok_def\<close>)

lemma tab_ok_upd:
  assumes ok: "tab_ok s" and tab: "processTable s' = processTable s" "length (foregroundSet s') = 64"
    and at: "proc_at s' = (proc_at s)(pid \<mapsto> pr')" and pid: "proc_at s pid \<noteq> None" "p_pid pr' = pid"
  shows "tab_ok s'"
  unfolding tab_ok_def
proof (intro conjI allI impI)
  fix i :: nat assume i: "i < 64" "processTable s' ! i \<noteq> 0"
  then obtain pr where "proc_at s (int i) = Some pr" "p_pid pr = int i"
    using tab_okD [OF ok, of "int i"] tab(1) by auto
  then have "\<exists>pr. proc_at s' (int i) = Some pr \<and> p_pid pr = int i" using at pid by auto
  then show "\<exists>pr. procs s' (processTable s' ! i) = Some pr \<and> p_pid pr = int i"
    by (auto dest: proc_atD)
qed (use assms in \<open>simp_all add: tab_ok_def\<close>)

text \<open>What the operations on states and queues leave alone.\<close>
definition sched_frame :: "'m kst \<Rightarrow> 'm kst \<Rightarrow> bool" where
  "sched_frame s s' \<longleftrightarrow> processTable s' = processTable s \<and> foregroundSet s' = foregroundSet s \<and>
     schedulerEnabled s' = schedulerEnabled s \<and> pipes s' = pipes s \<and> files s' = files s \<and>
     stackmem s' = stackmem s"

definition dispatched :: "processCDT \<Rightarrow> processCDT" where
  "dispatched pr = pr\<lparr>p_state := RUNNING,
     p_remainingQuantums := (if p_priorityLevel pr > 0 then p_priorityLevel pr - 1 else 0)\<rparr>"

definition next_pid :: "int list \<Rightarrow> int" where
  "next_pid rq = (if rq = [] then 0 else hd rq)"

definition preempted :: "u64 \<Rightarrow> processCDT \<Rightarrow> processCDT" where
  "preempted rsp pr = pr\<lparr>p_rsp := rsp, p_state := (if p_state pr = RUNNING then READY else p_state pr)\<rparr>"

definition ticked :: "u64 \<Rightarrow> processCDT \<Rightarrow> processCDT" where
  "ticked rsp pr = pr\<lparr>p_rsp := rsp, p_remainingQuantums := p_remainingQuantums pr - 1\<rparr>"

text \<open>The current process, when there is one, with its pid.\<close>
definition current_is :: "'m kst \<Rightarrow> int \<Rightarrow> processCDT \<Rightarrow> bool" where
  "current_is s pid pr \<longleftrightarrow> currentProcess s \<noteq> 0 \<and> proc_at s pid = Some pr \<and>
     processTable s ! nat pid = currentProcess s"

lemma current_is_procs: "current_is s pid pr \<Longrightarrow> procs s (currentProcess s) = Some pr"
  by (auto simp: current_is_def dest: proc_atD)

lemma current_isE:
  assumes "sched_inv s" "currentProcess s \<noteq> 0"
  obtains pid pr where "current_is s pid pr"
  using current_registered [OF assms] assms(2) by (metis current_is_def)

lemma running_is_current:
  assumes "sched_inv s" "current_is s pid pr" "pstate s x = Some RUNNING"
  shows "x = pid \<and> p_state pr = RUNNING"
proof -
  obtain prx where prx: "proc_at s x = Some prx" "p_state prx = RUNNING" using assms(3) by (auto simp: pstate_def)
  have "processTable s ! nat x = processTable s ! nat pid"
    using assms unfolding sched_inv_def cur_ok_def current_is_def by metis
  then have "x = pid"
    using assms tab_ok_inj [OF _ prx(1)] by (simp add: sched_inv_def current_is_def)
  with prx assms(2) show ?thesis by (simp add: current_is_def)
qed

lemma no_current_no_running:
  assumes "sched_inv s" "currentProcess s = 0"
  shows "pstate s x \<noteq> Some RUNNING"
proof
  assume run: "pstate s x = Some RUNNING"
  then obtain prx where "proc_at s x = Some prx" by (auto simp: pstate_def)
  then have "processTable s ! nat x \<noteq> 0" by (simp add: proc_atD)
  moreover have "processTable s ! nat x = 0"
    using assms run unfolding sched_inv_def cur_ok_def by metis
  ultimately show False by simp
qed

context allocator
begin

lemma kmem_ready_upd:
  assumes ok: "kmem_ok inv blocks limit s" and q: "readyQueue s = Some q"
    and own: "own_ok inv blocks m' ((owned s)(OReady := map fst (kq_nodes q')))"
    and "limit m' = limit (kmem s)" "kq_self q' = kq_self q"
  shows "kmem_ok inv blocks limit (s\<lparr>kmem := m', readyQueue := Some q'\<rparr>)"
proof -
  have "owned (s\<lparr>kmem := m', readyQueue := Some q'\<rparr>) = (owned s)(OReady := map fst (kq_nodes q'))"
    using owned_ready [of "s\<lparr>kmem := m'\<rparr>" q q'] q assms(5) by simp
  with assms show ?thesis by (simp add: kmem_ok_def)
qed

lemma ready_enqueue:
  assumes ok: "kmem_ok inv blocks limit s" and q: "readyQueue s = Some q"
  obtains m' q' r where "kqp_enqueue ops pid (kmem s) (readyQueue s) = Some (m', Some q', r)"
    "kmem_ok inv blocks limit (s\<lparr>kmem := m', readyQueue := Some q'\<rparr>)"
    "r = 0 \<and> q' = q \<or> r = 1 \<and> kq_elems q' = kq_elems q @ [pid]"
proof -
  have own: "own_ok inv blocks (kmem s) (owned s)" and lim: "24 \<le> limit (kmem s)"
    using ok by (simp_all add: kmem_ok_def)
  have "owned s OReady = map fst (kq_nodes q)" using q by (simp add: qnodes_def)
  from own_enqueue [OF own lim this, of pid] obtain m' q' r where
    e: "kq_enqueue ops pid (kmem s) q = Some (m', q', r)" "limit m' = limit (kmem s)" "kq_self q' = kq_self q"
      "own_ok inv blocks m' ((owned s)(OReady := map fst (kq_nodes q')))"
      "r = 0 \<and> q' = q \<or> r = 1 \<and> kq_elems q' = kq_elems q @ [pid]" .
  then show thesis
    by (intro that [OF _ kmem_ready_upd [OF ok q e(4,2,3)] e(5)]) (simp add: kqp_enqueue_def q)
qed

lemma ready_remove:
  assumes ok: "kmem_ok inv blocks limit s" and q: "readyQueue s = Some q"
  obtains m' q' r where "kqp_remove ops hit (kmem s) (readyQueue s) = Some (m', Some q', r)"
    "kmem_ok inv blocks limit (s\<lparr>kmem := m', readyQueue := Some q'\<rparr>)"
    "kq_elems q' = filter (\<lambda>d. \<not> hit d) (kq_elems q)"
proof -
  have own: "own_ok inv blocks (kmem s) (owned s)"
    using ok by (simp_all add: kmem_ok_def)
  have "owned s OReady = map fst (kq_nodes q)" using q by (simp add: qnodes_def)
  from own_remove [OF own this, of hit] obtain m' q' r where
    e: "kq_remove ops hit (kmem s) q = Some (m', q', r)" "limit m' = limit (kmem s)" "kq_self q' = kq_self q"
      "kq_elems q' = filter (\<lambda>d. \<not> hit d) (kq_elems q)"
      "own_ok inv blocks m' ((owned s)(OReady := map fst (kq_nodes q')))" .
  then show thesis
    by (intro that [OF _ kmem_ready_upd [OF ok q e(5,2,3)] e(4)]) (simp add: kqp_remove_def q)
qed

lemma getNextPID_spec:
  assumes ok: "kmem_ok inv blocks limit s" and q: "readyQueue s = Some q"
  obtains m' q' where "getNextPID ops s = Some (s\<lparr>kmem := m', readyQueue := Some q'\<rparr>, next_pid (rq_elems s))"
    "kmem_ok inv blocks limit (s\<lparr>kmem := m', readyQueue := Some q'\<rparr>)" "kq_elems q' = tl (rq_elems s)"
proof (cases "rq_elems s = []")
  case True
  with q have "kqp_empty (readyQueue s)" by (simp add: kqp_empty_def rq_elems_def kq_elems_def)
  moreover have eq: "s = s\<lparr>kmem := kmem s, readyQueue := Some q\<rparr>" using q by (cases s) simp
  have "kmem_ok inv blocks limit (s\<lparr>kmem := kmem s, readyQueue := Some q\<rparr>)" using ok eq by argo
  ultimately show thesis using True q
    by (intro that [of q "kmem s"]) (simp_all add: getNextPID_def next_pid_def rq_elems_def)
next
  case False
  with q have ne: "kq_elems q \<noteq> []" "\<not> kqp_empty (readyQueue s)"
    by (simp_all add: kqp_empty_def rq_elems_def kq_elems_def)
  have own: "own_ok inv blocks (kmem s) (owned s)"
    using ok by (simp_all add: kmem_ok_def)
  have "owned s OReady = map fst (kq_nodes q)" using q by (simp add: qnodes_def)
  from own_poll [OF own this] obtain m' q' where
    e: "kq_poll ops (kmem s) q = Some (m', q', if kq_elems q = [] then None else Some (hd (kq_elems q)))"
      "limit m' = limit (kmem s)" "kq_self q' = kq_self q" "kq_elems q' = tl (kq_elems q)"
      "own_ok inv blocks m' ((owned s)(OReady := map fst (kq_nodes q')))" .
  then show thesis using ne q
    by (intro that [OF _ kmem_ready_upd [OF ok q e(5,2,3)]])
      (simp_all add: getNextPID_def kqp_poll_def pid_of_poll_def next_pid_def rq_elems_def)
qed

lemma dispatch_spec:
  assumes ok: "kmem_ok inv blocks limit s" and tab: "tab_ok s" and ready: "ready_ok s"
    and idle: "pstate s 0 = Some READY" and norun: "\<And>pid. pstate s pid \<noteq> Some RUNNING"
  obtains s' pr where "dispatch_next ops s = Some (s', p_rsp pr)"
    "proc_at s (next_pid (rq_elems s)) = Some pr"
    "proc_at s' = (proc_at s)(next_pid (rq_elems s) \<mapsto> dispatched pr)"
    "rq_elems s' = tl (rq_elems s)" "currentProcess s' = processTable s ! nat (next_pid (rq_elems s))"
    "sched_frame s s'" "sems s' = sems s" "tmr s' = tmr s" "kmem_ok inv blocks limit s'" "sched_inv s'"
proof -
  let ?n = "next_pid (rq_elems s)"
  obtain q where q: "readyQueue s = Some q" using ready by (auto simp: ready_ok_def)
  from getNextPID_spec [OF ok q] obtain m' q' where
    g: "getNextPID ops s = Some (s\<lparr>kmem := m', readyQueue := Some q'\<rparr>, ?n)"
      "kmem_ok inv blocks limit (s\<lparr>kmem := m', readyQueue := Some q'\<rparr>)" "kq_elems q' = tl (rq_elems s)" .
  have rdy: "pstate s ?n = Some READY"
    using ready idle by (simp add: next_pid_def ready_ok_def)
  then obtain pr where pr: "proc_at s ?n = Some pr" "p_state pr = READY" by (auto simp: pstate_def)
  let ?p = "processTable s ! nat ?n"
  note at = proc_atD [OF pr(1)]
  let ?s = "s\<lparr>kmem := m', readyQueue := Some q', currentProcess := ?p, procs := (procs s)(?p \<mapsto> dispatched pr)\<rparr>"
  have disp: "dispatch_next ops s = Some (?s, p_rsp pr)"
    using g(1) at by (simp add: dispatch_next_def ptab_def proc_accessors dispatched_def word_gt_0)
  have at': "proc_at ?s = (proc_at s)(?n \<mapsto> dispatched pr)"
    by (rule proc_at_upd [OF tab pr(1)]) simp_all
  have rq': "rq_elems ?s = tl (rq_elems s)" using g(3) by (simp add: rq_elems_def)
  have mem': "kmem_ok inv blocks limit ?s"
  proof (rule kmem_ok_same [OF g(2)])
    show "owned ?s = owned (s\<lparr>kmem := m', readyQueue := Some q'\<rparr>)"
      by (rule owned_proc_same [where p = ?p and pr = pr and pr' = "dispatched pr"]) (use at in \<open>simp_all add: dispatched_def\<close>)
  qed simp
  have ps: "pstate ?s = (pstate s)(?n \<mapsto> RUNNING)"
    using pstate_upd [OF at'] by (simp add: dispatched_def)
  have "tab_ok ?s"
    by (rule tab_ok_upd [OF tab _ _ at'])
      (use tab pr proc_at_pid [OF tab pr(1)] in \<open>simp_all add: tab_ok_def dispatched_def\<close>)
  moreover have "ready_ok ?s"
    using ready unfolding ready_ok_def rq' ps by (cases "rq_elems s") (auto simp: next_pid_def)
  moreover have "cur_ok ?s"
    using norun tab at unfolding cur_ok_def ps by (auto simp: tab_ok_def)
  moreover have "idle_ok ?s" using idle unfolding idle_ok_def ps by simp
  ultimately have "sched_inv ?s" by (simp add: sched_inv_def)
  then show thesis
    by (intro that [OF disp pr(1) at' rq']) (use mem' in \<open>simp_all add: sched_frame_def\<close>)
qed

lemma schedule_keep:
  assumes sinv: "sched_inv s" and ok: "kmem_ok inv blocks limit s" and en: "schedulerEnabled s"
    and cur: "current_is s pid pr" and run: "p_state pr = RUNNING" and qu: "p_remainingQuantums pr > 0"
  obtains s' where "schedule ops rsp s = Some (s', rsp)"
    "proc_at s' = (proc_at s)(pid \<mapsto> ticked rsp pr)" "rq_elems s' = rq_elems s"
    "currentProcess s' = currentProcess s" "sched_frame s s'" "sems s' = sems s"
    "kmem_ok inv blocks limit s'" "sched_inv s'"
proof -
  let ?s = "s\<lparr>tmr := timer_handler (tmr s), procs := (procs s)(currentProcess s \<mapsto> ticked rsp pr)\<rparr>"
  note pr = current_is_procs [OF cur]
  have tab: "tab_ok s" and at: "proc_at s pid = Some pr" and c: "processTable s ! nat pid = currentProcess s"
    using sinv cur by (simp_all add: sched_inv_def current_is_def)
  have sched: "schedule ops rsp s = Some (?s, rsp)"
    using cur en pr run qu
    by (simp add: schedule_def Let_def proc_accessors current_is_def ticked_def)
  have at': "proc_at ?s = (proc_at s)(pid \<mapsto> ticked rsp pr)"
    by (rule proc_at_upd [OF tab at]) (simp_all add: c)
  have ps: "pstate ?s = pstate s"
    using pstate_upd [OF at'] at by (auto simp: pstate_def ticked_def)
  have "tab_ok ?s"
    by (rule tab_ok_upd [OF tab _ _ at'])
      (use tab at proc_at_pid [OF tab at] in \<open>simp_all add: tab_ok_def ticked_def\<close>)
  with sinv have "sched_inv ?s" by (simp add: sched_inv_def ready_ok_def cur_ok_def idle_ok_def ps) (simp add: rq_elems_def)
  moreover have "kmem_ok inv blocks limit ?s"
    by (rule kmem_ok_same [OF ok _ owned_proc_same [OF pr, where pr' = "ticked rsp pr"]]) (simp_all add: ticked_def)
  ultimately show thesis
    by (intro that [OF sched at']) (simp_all add: rq_elems_def sched_frame_def)
qed

lemma schedule_switch:
  assumes sinv: "sched_inv s" and ok: "kmem_ok inv blocks limit s" and en: "schedulerEnabled s"
    and cur: "current_is s pid pr" and yield: "p_state pr \<noteq> RUNNING \<or> p_remainingQuantums pr = 0"
  obtains s' pr' rq where "schedule ops rsp s = Some (s', p_rsp pr')"
    "rq = rq_elems s \<or> p_state pr = RUNNING \<and> rq = rq_elems s @ [pid]"
    "((proc_at s)(pid \<mapsto> preempted rsp pr)) (next_pid rq) = Some pr'"
    "proc_at s' = ((proc_at s)(pid \<mapsto> preempted rsp pr))(next_pid rq \<mapsto> dispatched pr')"
    "rq_elems s' = tl rq" "currentProcess s' = processTable s ! nat (next_pid rq)" "sched_frame s s'"
    "sems s' = sems s" "kmem_ok inv blocks limit s'" "sched_inv s'"
proof -
  note pr = current_is_procs [OF cur]
  have tab: "tab_ok s" and at: "proc_at s pid = Some pr" and c: "processTable s ! nat pid = currentProcess s"
    using sinv cur by (simp_all add: sched_inv_def current_is_def)
  obtain q where q: "readyQueue s = Some q" using sinv by (auto simp: sched_inv_def ready_ok_def)
  let ?s1 = "s\<lparr>tmr := timer_handler (tmr s), procs := (procs s)(currentProcess s \<mapsto> preempted rsp pr)\<rparr>"
  have at1: "proc_at ?s1 = (proc_at s)(pid \<mapsto> preempted rsp pr)"
    by (rule proc_at_upd [OF tab at]) (simp_all add: c)
  have ok1: "kmem_ok inv blocks limit ?s1"
    by (rule kmem_ok_same [OF ok _ owned_proc_same [OF pr, where pr' = "preempted rsp pr"]])
      (simp_all add: preempted_def)
  have q1: "readyQueue ?s1 = Some q" using q by simp
  obtain m2 q2 where sched: "schedule ops rsp s = dispatch_next ops (?s1\<lparr>kmem := m2, readyQueue := Some q2\<rparr>)"
    and ok2: "kmem_ok inv blocks limit (?s1\<lparr>kmem := m2, readyQueue := Some q2\<rparr>)"
    and rq2: "kq_elems q2 = rq_elems s \<or> p_state pr = RUNNING \<and> kq_elems q2 = rq_elems s @ [pid]"
  proof (cases "p_state pr = RUNNING")
    case True
    from ready_enqueue [OF ok1 q1, of pid] obtain m' q' r where
      e: "kqp_enqueue ops pid (kmem ?s1) (readyQueue ?s1) = Some (m', Some q', r)"
        "kmem_ok inv blocks limit (?s1\<lparr>kmem := m', readyQueue := Some q'\<rparr>)"
        "r = 0 \<and> q' = q \<or> r = 1 \<and> kq_elems q' = kq_elems q @ [pid]" .
    have "schedule ops rsp s = dispatch_next ops (?s1\<lparr>kmem := m', readyQueue := Some q'\<rparr>)"
      using cur en pr True yield e(1) proc_at_pid [OF tab at]
      by (simp add: schedule_def Let_def proc_accessors current_is_def preempted_def)
    from that [OF this e(2)] e(3) q True show thesis by (auto simp: rq_elems_def)
  next
    case False
    have eq: "?s1 = ?s1\<lparr>kmem := kmem s, readyQueue := Some q\<rparr>" using q by (cases s) simp
    have "schedule ops rsp s = dispatch_next ops ?s1"
      using cur en pr False by (simp add: schedule_def Let_def proc_accessors current_is_def preempted_def)
    then have a: "schedule ops rsp s = dispatch_next ops (?s1\<lparr>kmem := kmem s, readyQueue := Some q\<rparr>)"
      using eq by argo
    have b: "kmem_ok inv blocks limit (?s1\<lparr>kmem := kmem s, readyQueue := Some q\<rparr>)" using ok1 eq by argo
    show thesis by (rule that [OF a b]) (simp add: q rq_elems_def)
  qed
  let ?s2 = "?s1\<lparr>kmem := m2, readyQueue := Some q2\<rparr>"
  have at2: "proc_at ?s2 = (proc_at s)(pid \<mapsto> preempted rsp pr)" using at1 by simp
  have ps2: "pstate ?s2 = (pstate s)(pid \<mapsto> p_state (preempted rsp pr))" by (rule pstate_upd [OF at2])
  have "tab_ok ?s2"
    by (rule tab_ok_upd [OF tab _ _ at2])
      (use tab at proc_at_pid [OF tab at] in \<open>simp_all add: tab_ok_def preempted_def\<close>)
  moreover have "ready_ok ?s2"
  proof -
    have *: "ready_ok s" using sinv by (simp add: sched_inv_def)
    have "pid \<notin> set (rq_elems s)" if "p_state pr = RUNNING"
      using * that at by (auto simp: ready_ok_def pstate_def)
    moreover have "p_state pr = READY" if "pid \<in> set (rq_elems s)"
      using * that at by (auto simp: ready_ok_def pstate_def)
    moreover have "rq_elems ?s2 = kq_elems q2" by (simp add: rq_elems_def)
    ultimately show ?thesis
      using * rq2 unfolding ready_ok_def ps2 by (auto simp: preempted_def)
  qed
  moreover have norun: "pstate ?s2 x \<noteq> Some RUNNING" for x
    using running_is_current [OF sinv cur, of x] unfolding ps2 by (auto simp: preempted_def)
  moreover have "pstate ?s2 0 = Some READY"
    using sinv running_is_current [OF sinv cur, of 0] at unfolding sched_inv_def idle_ok_def ps2
    by (auto simp: preempted_def pstate_def)
  ultimately obtain s' pr' where d: "dispatch_next ops ?s2 = Some (s', p_rsp pr')"
    "proc_at ?s2 (next_pid (rq_elems ?s2)) = Some pr'"
    "proc_at s' = (proc_at ?s2)(next_pid (rq_elems ?s2) \<mapsto> dispatched pr')"
    "rq_elems s' = tl (rq_elems ?s2)" "currentProcess s' = processTable ?s2 ! nat (next_pid (rq_elems ?s2))"
    "sched_frame ?s2 s'" "sems s' = sems ?s2" "kmem_ok inv blocks limit s'" "sched_inv s'"
    using dispatch_spec [OF ok2] by metis
  have rq: "rq_elems ?s2 = kq_elems q2" by (simp add: rq_elems_def)
  show thesis
    by (rule that [where rq = "kq_elems q2" and s' = s' and pr' = pr'])
      (use d rq2 sched in \<open>simp_all only: at2 rq, simp_all add: sched_frame_def\<close>)
qed

lemma schedule_first:
  assumes sinv: "sched_inv s" and ok: "kmem_ok inv blocks limit s" and en: "schedulerEnabled s"
    and cur: "currentProcess s = 0"
  obtains s' pr' where "schedule ops rsp s = Some (s', p_rsp pr')"
    "proc_at s (next_pid (rq_elems s)) = Some pr'"
    "proc_at s' = (proc_at s)(next_pid (rq_elems s) \<mapsto> dispatched pr')"
    "rq_elems s' = tl (rq_elems s)" "currentProcess s' = processTable s ! nat (next_pid (rq_elems s))"
    "sched_frame s s'" "sems s' = sems s" "kmem_ok inv blocks limit s'" "sched_inv s'"
proof -
  let ?s1 = "s\<lparr>tmr := timer_handler (tmr s)\<rparr>"
  have sched: "schedule ops rsp s = dispatch_next ops ?s1" using en cur by (simp add: schedule_def Let_def)
  have ok1: "kmem_ok inv blocks limit ?s1" by (rule kmem_ok_same [OF ok]) simp_all
  have rq: "rq_elems ?s1 = rq_elems s" by (simp add: rq_elems_def)
  have ps: "pstate ?s1 = pstate s" by (simp add: pstate_def fun_eq_iff)
  have "tab_ok ?s1" using sinv by (simp add: sched_inv_def tab_ok_def)
  moreover have "ready_ok ?s1" using sinv by (simp add: sched_inv_def ready_ok_def ps rq)
  moreover have "pstate ?s1 0 = Some READY"
    using sinv no_current_no_running [OF sinv cur, of 0] by (auto simp: ps sched_inv_def idle_ok_def)
  moreover have "\<And>x. pstate ?s1 x \<noteq> Some RUNNING" using no_current_no_running [OF sinv cur] by (simp add: ps)
  ultimately obtain s' pr' where d: "dispatch_next ops ?s1 = Some (s', p_rsp pr')"
    "proc_at ?s1 (next_pid (rq_elems ?s1)) = Some pr'"
    "proc_at s' = (proc_at ?s1)(next_pid (rq_elems ?s1) \<mapsto> dispatched pr')"
    "rq_elems s' = tl (rq_elems ?s1)" "currentProcess s' = processTable ?s1 ! nat (next_pid (rq_elems ?s1))"
    "sched_frame ?s1 s'" "sems s' = sems ?s1" "kmem_ok inv blocks limit s'" "sched_inv s'"
    using dispatch_spec [OF ok1] by metis
  show thesis
    by (rule that [where s' = s' and pr' = pr'])
      (use d sched in \<open>simp_all only: rq proc_at_misc, simp_all add: sched_frame_def\<close>)
qed

text \<open>A state change of one registered process, with the ready queue adjusted.\<close>
lemma sched_inv_state:
  assumes sinv: "sched_inv s" and at: "proc_at s pid = Some pr"
    and at': "proc_at s' = (proc_at s)(pid \<mapsto> pr\<lparr>p_state := st\<rparr>)"
    and tab': "processTable s' = processTable s" "length (foregroundSet s') = 64"
    and cur': "currentProcess s' = currentProcess s"
    and st: "st \<noteq> RUNNING" "pid = 0 \<Longrightarrow> st = READY"
    and rq': "readyQueue s' \<noteq> None" "distinct (rq_elems s')"
      "set (rq_elems s') \<subseteq> (if st = READY then insert pid (set (rq_elems s)) else set (rq_elems s) - {pid})"
  shows "sched_inv s'"
proof -
  have tab: "tab_ok s" using sinv by (simp add: sched_inv_def)
  have ps: "pstate s' = (pstate s)(pid \<mapsto> st)" using pstate_upd [OF at'] by simp
  have "tab_ok s'"
    by (rule tab_ok_upd [OF tab tab' at']) (use at proc_at_pid [OF tab at] in simp_all)
  moreover have "ready_ok s'"
  proof -
    have "pstate s' x = Some READY" if "x \<in> set (rq_elems s')" for x
    proof (cases "st = READY")
      case True
      then show ?thesis using that rq'(3) sinv unfolding ps by (auto simp: sched_inv_def ready_ok_def)
    next
      case False
      then have "x \<noteq> pid" "x \<in> set (rq_elems s)" using that rq'(3) by auto
      then show ?thesis using sinv unfolding ps by (auto simp: sched_inv_def ready_ok_def)
    qed
    with rq' show ?thesis by (simp add: ready_ok_def)
  qed
  moreover have "cur_ok s'"
    using sinv st(1) unfolding sched_inv_def cur_ok_def ps tab' cur' by auto
  moreover have "idle_ok s'"
    using sinv st(2) unfolding sched_inv_def idle_ok_def ps by auto
  ultimately show ?thesis by (simp add: sched_inv_def)
qed

lemma setReady_spec:
  assumes sinv: "sched_inv s" and ok: "kmem_ok inv blocks limit s"
  obtains (refused) "setReady ops pid s = Some (s, -1)" "pstate s pid \<noteq> Some BLOCKED"
  | (woken) s' pr where "setReady ops pid s = Some (s', 0)" "proc_at s pid = Some pr" "p_state pr = BLOCKED"
    "proc_at s' = (proc_at s)(pid \<mapsto> pr\<lparr>p_state := READY\<rparr>)"
    "rq_elems s' = rq_elems s @ [pid] \<or> rq_elems s' = rq_elems s \<and> mm_alloc ops (kmem s) sizeof_Node = Some (kmem s', 0)"
    "currentProcess s' = currentProcess s" "sched_frame s s'" "sems s' = sems s"
    "kmem_ok inv blocks limit s'" "sched_inv s'"
proof (cases "pstate s pid = Some BLOCKED")
  case False
  have "setReady ops pid s = Some (s, -1)"
  proof (cases "0 \<le> pid \<and> pid < 64 \<and> processTable s ! nat pid \<noteq> 0")
    case True
    have "tab_ok s" using sinv by (simp add: sched_inv_def)
    from tab_okD [OF this] True obtain pr where "proc_at s pid = Some pr" "procs s (processTable s ! nat pid) = Some pr"
      by metis
    with True False show ?thesis by (simp add: setReady_def ptab_def getState_def pstate_def)
  qed (auto simp: setReady_def ptab_def)
  with False refused show thesis by blast
next
  case True
  then obtain pr where at: "proc_at s pid = Some pr" "p_state pr = BLOCKED" by (auto simp: pstate_def)
  note p = proc_atD [OF at(1)]
  obtain q where q: "readyQueue s = Some q" using sinv by (auto simp: sched_inv_def ready_ok_def)
  from ready_enqueue [OF ok q, of pid] obtain m' q' r where
    e: "kqp_enqueue ops pid (kmem s) (readyQueue s) = Some (m', Some q', r)"
      "kmem_ok inv blocks limit (s\<lparr>kmem := m', readyQueue := Some q'\<rparr>)"
      "r = 0 \<and> q' = q \<or> r = 1 \<and> kq_elems q' = kq_elems q @ [pid]" .
  let ?pr = "pr\<lparr>p_state := READY\<rparr>" and ?p = "processTable s ! nat pid"
  let ?s = "s\<lparr>kmem := m', readyQueue := Some q', procs := (procs s)(?p \<mapsto> ?pr)\<rparr>"
  have call: "setReady ops pid s = Some (?s, 0)"
    using p at e(1) by (simp add: setReady_def ptab_def proc_accessors)
  have tab: "tab_ok s" using sinv by (simp add: sched_inv_def)
  have at': "proc_at ?s = (proc_at s)(pid \<mapsto> ?pr)" by (rule proc_at_upd [OF tab at(1)]) simp_all
  have rq: "rq_elems ?s = rq_elems s @ [pid] \<or> rq_elems ?s = rq_elems s \<and> mm_alloc ops (kmem s) sizeof_Node = Some (kmem ?s, 0)"
    using kqp_enqueue_node [OF e(1) [unfolded q]] q by (auto simp: rq_elems_def split: if_splits)
  have notin: "pid \<notin> set (rq_elems s)" using sinv True by (auto simp: sched_inv_def ready_ok_def)
  have dist: "distinct (rq_elems s)" using sinv by (simp add: sched_inv_def ready_ok_def)
  have "sched_inv ?s"
    by (rule sched_inv_state [OF sinv at(1) at']) (use rq notin dist tab in \<open>auto simp: tab_ok_def\<close>)
  moreover have "kmem_ok inv blocks limit ?s"
    by (rule kmem_ok_same [OF e(2) _ owned_proc_same [where p = ?p and pr = pr and pr' = ?pr]])
      (use p in simp_all)
  ultimately show thesis by (intro woken [OF call at at' rq]) (simp_all add: sched_frame_def)
qed

lemma setBlocked_spec:
  assumes sinv: "sched_inv s" and ok: "kmem_ok inv blocks limit s"
  obtains (refused) "setBlocked ops pid s = Some (s, -1)"
    "isUnkillable pid \<or> (pstate s pid \<noteq> Some RUNNING \<and> pstate s pid \<noteq> Some READY)"
  | (blocked) s' pr where "setBlocked ops pid s = Some (s', 0)" "\<not> isUnkillable pid" "proc_at s pid = Some pr"
    "p_state pr = RUNNING \<or> p_state pr = READY"
    "proc_at s' = (proc_at s)(pid \<mapsto> pr\<lparr>p_state := BLOCKED\<rparr>)"
    "rq_elems s' = filter (\<lambda>x. x \<noteq> pid) (rq_elems s)"
    "currentProcess s' = currentProcess s" "sched_frame s s'" "sems s' = sems s"
    "kmem_ok inv blocks limit s'" "sched_inv s'"
proof (cases "isUnkillable pid \<or> (pstate s pid \<noteq> Some RUNNING \<and> pstate s pid \<noteq> Some READY)")
  case True
  have "setBlocked ops pid s = Some (s, -1)"
  proof (cases "0 \<le> pid \<and> pid < 64 \<and> processTable s ! nat pid \<noteq> 0")
    case reg: True
    have "tab_ok s" using sinv by (simp add: sched_inv_def)
    from tab_okD [OF this] reg obtain pr where "proc_at s pid = Some pr" "procs s (processTable s ! nat pid) = Some pr"
      by metis
    with reg True show ?thesis by (auto simp: setBlocked_def ptab_def getState_def pstate_def)
  qed (auto simp: setBlocked_def ptab_def)
  with True refused show thesis by blast
next
  case False
  then obtain pr where at: "proc_at s pid = Some pr" "p_state pr = RUNNING \<or> p_state pr = READY"
    by (auto simp: pstate_def)
  note p = proc_atD [OF at(1)]
  obtain q where q: "readyQueue s = Some q" using sinv by (auto simp: sched_inv_def ready_ok_def)
  let ?pr = "pr\<lparr>p_state := BLOCKED\<rparr>" and ?p = "processTable s ! nat pid"
  have tab: "tab_ok s" using sinv by (simp add: sched_inv_def)
  obtain m' q' where call: "setBlocked ops pid s =
        Some (s\<lparr>kmem := m', readyQueue := Some q', procs := (procs s)(?p \<mapsto> ?pr)\<rparr>, 0)"
    and mem: "kmem_ok inv blocks limit (s\<lparr>kmem := m', readyQueue := Some q'\<rparr>)"
    and elems: "kq_elems q' = filter (\<lambda>x. x \<noteq> pid) (rq_elems s)"
  proof (cases "p_state pr = READY")
    case True
    from ready_remove [OF ok q, of "\<lambda>y. comparePIDs pid y = 0"] obtain m' q' r where
      e: "kqp_remove ops (\<lambda>y. comparePIDs pid y = 0) (kmem s) (readyQueue s) = Some (m', Some q', r)"
        "kmem_ok inv blocks limit (s\<lparr>kmem := m', readyQueue := Some q'\<rparr>)"
        "kq_elems q' = filter (\<lambda>d. \<not> comparePIDs pid d = 0) (kq_elems q)" .
    have "kq_elems q' = filter (\<lambda>x. x \<noteq> pid) (rq_elems s)"
      using e(3) q by (simp add: rq_elems_def) (rule filter_cong, auto)
    with e(1,2) show thesis
      by (intro that) (use p False True in \<open>simp_all add: setBlocked_def ptab_def proc_accessors\<close>)
  next
    case run: False
    have eq: "s = s\<lparr>kmem := kmem s, readyQueue := Some q\<rparr>" using q by (cases s) simp
    have "pid \<notin> set (rq_elems s)" using sinv run at by (auto simp: sched_inv_def ready_ok_def pstate_def)
    then have "filter (\<lambda>x. x \<noteq> pid) (rq_elems s) = rq_elems s" by (intro filter_True) auto
    then have "kq_elems q = filter (\<lambda>x. x \<noteq> pid) (rq_elems s)" using q by (simp add: rq_elems_def)
    moreover have "setBlocked ops pid s =
        Some (s\<lparr>kmem := kmem s, readyQueue := Some q, procs := (procs s)(?p \<mapsto> ?pr)\<rparr>, 0)"
      using p at False run q by (cases s) (simp add: setBlocked_def ptab_def proc_accessors)
    moreover have "kmem_ok inv blocks limit (s\<lparr>kmem := kmem s, readyQueue := Some q\<rparr>)" using ok eq by argo
    ultimately show thesis using that by blast
  qed
  let ?s = "s\<lparr>kmem := m', readyQueue := Some q', procs := (procs s)(?p \<mapsto> ?pr)\<rparr>"
  have at': "proc_at ?s = (proc_at s)(pid \<mapsto> ?pr)" by (rule proc_at_upd [OF tab at(1)]) simp_all
  have rq: "rq_elems ?s = filter (\<lambda>x. x \<noteq> pid) (rq_elems s)" using elems by (simp add: rq_elems_def)
  have dist: "distinct (rq_elems s)" using sinv by (simp add: sched_inv_def ready_ok_def)
  have "pid \<noteq> 0" using False by (auto simp: isUnkillable_def)
  then have "sched_inv ?s"
    by (intro sched_inv_state [OF sinv at(1) at']) (use rq dist tab in \<open>auto simp: tab_ok_def\<close>)
  moreover have "kmem_ok inv blocks limit ?s"
    by (rule kmem_ok_same [OF mem _ owned_proc_same [where p = ?p and pr = pr and pr' = ?pr]]) (use p in simp_all)
  ultimately show thesis using False
    by (intro blocked [OF call _ at at' rq]) (simp_all add: sched_frame_def)
qed

lemma schedule_safe:
  assumes sinv: "sched_inv s" and ok: "kmem_ok inv blocks limit s"
  obtains s' r where "schedule ops rsp s = Some (s', r)" "sched_inv s'" "kmem_ok inv blocks limit s'"
    "sched_frame s s'" "sems s' = sems s"
    "schedulerEnabled s \<longrightarrow> (\<exists>pid pr. current_is s' pid pr \<and> p_state pr = RUNNING \<and> r = p_rsp pr)"
proof (cases "schedulerEnabled s")
  case False
  let ?s = "s\<lparr>tmr := timer_handler (tmr s)\<rparr>"
  have "pstate ?s = pstate s" "rq_elems ?s = rq_elems s" by (simp_all add: pstate_def rq_elems_def fun_eq_iff)
  then have "sched_inv ?s" using sinv by (simp add: sched_defs)
  moreover have "kmem_ok inv blocks limit ?s" by (rule kmem_ok_same [OF ok]) simp_all
  ultimately show thesis using False
    by (intro that [of ?s rsp]) (simp_all add: schedule_def Let_def sched_frame_def)
next
  case en: True
  have disp: "current_is s' n (dispatched pr') \<and> p_state (dispatched pr') = RUNNING \<and> p_rsp pr' = p_rsp (dispatched pr')"
    if "proc_at s' = f(n \<mapsto> dispatched pr')" "currentProcess s' = processTable s ! nat n" "sched_frame s s'" for s' f n pr'
    using that proc_atD [of s' n "dispatched pr'"] by (auto simp: current_is_def dispatched_def sched_frame_def)
  show thesis
  proof (cases "currentProcess s = 0")
    case True
    from schedule_first [OF sinv ok en True, of rsp] show thesis
      by (metis that disp)
  next
    case False
    from current_isE [OF sinv False] obtain pid pr where cur: "current_is s pid pr" .
    show thesis
    proof (cases "p_state pr = RUNNING \<and> p_remainingQuantums pr > 0")
      case True
      then obtain s' where s': "schedule ops rsp s = Some (s', rsp)"
          "proc_at s' = (proc_at s)(pid \<mapsto> ticked rsp pr)" "currentProcess s' = currentProcess s"
          "sched_frame s s'" "sems s' = sems s" "kmem_ok inv blocks limit s'" "sched_inv s'"
        using schedule_keep [OF sinv ok en cur] by metis
      then have "current_is s' pid (ticked rsp pr)" using cur by (simp add: current_is_def sched_frame_def)
      moreover have "p_state (ticked rsp pr) = RUNNING" "rsp = p_rsp (ticked rsp pr)"
        using True by (simp_all add: ticked_def)
      ultimately show thesis by (intro that [OF s'(1,7,6,4,5)]) blast
    next
      case False
      then have "p_state pr \<noteq> RUNNING \<or> p_remainingQuantums pr = 0" by (auto simp: word_gt_0)
      from schedule_switch [OF sinv ok en cur this, of rsp] show thesis by (metis that disp)
    qed
  qed
qed

text \<open>A tick never wakes a process.\<close>
lemma schedule_sleeping:
  assumes sinv: "sched_inv s" and ok: "kmem_ok inv blocks limit s" and call: "schedule ops rsp s = Some (s', r)"
    and sl: "pstate s x \<noteq> Some READY" "pstate s x \<noteq> Some RUNNING"
  shows "pstate s' x = pstate s x"
proof (cases "schedulerEnabled s")
  case False
  then have "s' = s\<lparr>tmr := timer_handler (tmr s)\<rparr>" using call by (auto simp: schedule_def Let_def)
  then show ?thesis by (simp add: pstate_def)
next
  case en: True
  show ?thesis
  proof (cases "currentProcess s = 0")
    case True
    from schedule_first [OF sinv ok en True, of rsp] obtain s1 pr' where
      s1: "schedule ops rsp s = Some (s1, p_rsp pr')" "proc_at s (next_pid (rq_elems s)) = Some pr'"
        "proc_at s1 = (proc_at s)(next_pid (rq_elems s) \<mapsto> dispatched pr')" by metis
    have "x \<noteq> next_pid (rq_elems s)"
      using sl sinv by (auto simp: next_pid_def sched_inv_def ready_ok_def idle_ok_def)
    with s1 call show ?thesis by (simp add: pstate_def)
  next
    case False
    from current_isE [OF sinv False] obtain pid pr where cur: "current_is s pid pr" .
    have at: "proc_at s pid = Some pr" using cur by (simp add: current_is_def)
    show ?thesis
    proof (cases "p_state pr = RUNNING \<and> p_remainingQuantums pr > 0")
      case True
      then obtain s1 where "schedule ops rsp s = Some (s1, rsp)" "proc_at s1 = (proc_at s)(pid \<mapsto> ticked rsp pr)"
        using schedule_keep [OF sinv ok en cur] by metis
      with call at show ?thesis by (auto simp: pstate_def ticked_def)
    next
      case False
      then have "p_state pr \<noteq> RUNNING \<or> p_remainingQuantums pr = 0" by (auto simp: word_gt_0)
      from schedule_switch [OF sinv ok en cur this, of rsp] obtain s1 pr' rq where
        s1: "schedule ops rsp s = Some (s1, p_rsp pr')"
          "rq = rq_elems s \<or> p_state pr = RUNNING \<and> rq = rq_elems s @ [pid]"
          "((proc_at s)(pid \<mapsto> preempted rsp pr)) (next_pid rq) = Some pr'"
          "proc_at s1 = ((proc_at s)(pid \<mapsto> preempted rsp pr))(next_pid rq \<mapsto> dispatched pr')"
          "rq_elems s1 = tl rq" "currentProcess s1 = processTable s ! nat (next_pid rq)" "sched_frame s s1"
          "sems s1 = sems s" "kmem_ok inv blocks limit s1" "sched_inv s1" .
      have "x \<notin> set rq" using s1(2) sl sinv at by (auto simp: sched_inv_def ready_ok_def pstate_def)
      moreover have "x \<noteq> 0" using sl sinv by (auto simp: sched_inv_def idle_ok_def)
      ultimately have "x \<noteq> next_pid rq" by (auto simp: next_pid_def)
      with s1(1,4) call at sl show ?thesis by (auto simp: pstate_def preempted_def)
    qed
  qed
qed

end

section \<open>Round robin\<close>

text \<open>A run of timer ticks with no other event; \<open>rsps\<close> are the stack pointers the stub saves.\<close>
fun run_ticks :: "'m mm_ops \<Rightarrow> u64 list \<Rightarrow> 'm kst \<Rightarrow> 'm kst option" where
  "run_ticks mm [] s = Some s"
| "run_ticks mm (rsp # rsps) s = do { (s, r) \<leftarrow> schedule mm rsp s; run_ticks mm rsps s }"

text \<open>The ticks a process holds the CPU once dispatched, and the ticks the current one has left.\<close>
definition slice :: "'m kst \<Rightarrow> int \<Rightarrow> nat" where
  "slice s pid = (case proc_at s pid of None \<Rightarrow> 1 | Some pr \<Rightarrow> max 1 (unat (p_priorityLevel pr)))"

definition cur_left :: "'m kst \<Rightarrow> nat" where
  "cur_left s = (case procs s (currentProcess s) of None \<Rightarrow> 1
     | Some pr \<Rightarrow> if currentProcess s \<noteq> 0 \<and> p_state pr = RUNNING then unat (p_remainingQuantums pr) + 1 else 1)"

definition wait_ticks :: "'m kst \<Rightarrow> nat \<Rightarrow> nat" where
  "wait_ticks s k = cur_left s + sum_list (map (slice s) (take k (rq_elems s)))"

lemma cur_left_cur: "current_is s pid pr \<Longrightarrow>
    cur_left s = (if p_state pr = RUNNING then unat (p_remainingQuantums pr) + 1 else 1)"
  using current_is_procs [of s pid pr] by (simp add: cur_left_def current_is_def)

lemma slice_upd:
  assumes "proc_at s' = (proc_at s)(pid \<mapsto> pr')" "proc_at s pid = Some pr" "p_priorityLevel pr' = p_priorityLevel pr"
  shows "slice s' = slice s"
  using assms by (auto simp: slice_def fun_eq_iff)

lemma cur_left_dispatched:
  assumes "current_is s n (dispatched pr)"
  shows "cur_left s = max 1 (unat (p_priorityLevel pr))"
proof (cases "p_priorityLevel pr > 0")
  case True
  then have "unat (p_priorityLevel pr - 1) = unat (p_priorityLevel pr) - 1" "0 < unat (p_priorityLevel pr)"
    by (simp_all add: unat_pred word_less_nat_alt)
  with True cur_left_cur [OF assms] show ?thesis by (simp add: dispatched_def)
next
  case False
  then have "p_priorityLevel pr = 0" by (simp add: word_gt_0)
  with cur_left_cur [OF assms] show ?thesis by (simp add: dispatched_def)
qed

context allocator
begin

text \<open>One tick, seen by the waiting processes.\<close>
lemma tick_step:
  assumes sinv: "sched_inv s" and ok: "kmem_ok inv blocks limit s" and en: "schedulerEnabled s"
    and ne: "rq_elems s \<noteq> []"
  obtains (keep) s' r where "schedule ops rsp s = Some (s', r)" "sched_inv s'" "kmem_ok inv blocks limit s'"
      "schedulerEnabled s'" "slice s' = slice s" "rq_elems s' = rq_elems s" "cur_left s = Suc (cur_left s')"
    | (switch) s' r xs where "schedule ops rsp s = Some (s', r)" "sched_inv s'" "kmem_ok inv blocks limit s'"
      "schedulerEnabled s'" "slice s' = slice s" "rq_elems s' = tl (rq_elems s) @ xs" "cur_left s = 1"
      "cur_left s' = slice s (hd (rq_elems s))" "pstate s' (hd (rq_elems s)) = Some RUNNING"
proof (cases "currentProcess s = 0")
  case True
  from schedule_first [OF sinv ok en True, of rsp] obtain s' pr' where
    s': "schedule ops rsp s = Some (s', p_rsp pr')" "proc_at s (next_pid (rq_elems s)) = Some pr'"
      "proc_at s' = (proc_at s)(next_pid (rq_elems s) \<mapsto> dispatched pr')" "rq_elems s' = tl (rq_elems s)"
      "currentProcess s' = processTable s ! nat (next_pid (rq_elems s))" "sched_frame s s'"
      "kmem_ok inv blocks limit s'" "sched_inv s'" by metis
  have n: "next_pid (rq_elems s) = hd (rq_elems s)" using ne by (simp add: next_pid_def)
  have c: "current_is s' (hd (rq_elems s)) (dispatched pr')"
    using s'(3,5,6) n proc_atD [of s' "hd (rq_elems s)" "dispatched pr'"] by (simp add: current_is_def sched_frame_def)
  have sl: "slice s' = slice s" by (rule slice_upd [OF s'(3,2)]) (simp add: dispatched_def)
  show thesis
  proof (rule switch [where xs = "[]", OF s'(1,8,7)])
    show "cur_left s = 1" using True by (simp add: cur_left_def split: option.splits)
    show "cur_left s' = slice s (hd (rq_elems s))"
      using cur_left_dispatched [OF c] s'(2) n by (simp add: slice_def)
  qed (use s' sl en n in \<open>simp_all add: sched_frame_def pstate_def dispatched_def\<close>)
next
  case False
  from current_isE [OF sinv False] obtain pid pr where cur: "current_is s pid pr" .
  show thesis
  proof (cases "p_state pr = RUNNING \<and> p_remainingQuantums pr > 0")
    case True
    then obtain s' where s': "schedule ops rsp s = Some (s', rsp)"
        "proc_at s' = (proc_at s)(pid \<mapsto> ticked rsp pr)" "rq_elems s' = rq_elems s"
        "currentProcess s' = currentProcess s"
        "sched_frame s s'" "kmem_ok inv blocks limit s'" "sched_inv s'"
      using schedule_keep [OF sinv ok en cur] by metis
    have at: "proc_at s pid = Some pr" using cur by (simp add: current_is_def)
    have "current_is s' pid (ticked rsp pr)" using s' cur by (simp add: current_is_def sched_frame_def)
    from cur_left_cur [OF this] cur_left_cur [OF cur] True have "cur_left s = Suc (cur_left s')"
      by (simp add: ticked_def unat_pred word_less_nat_alt)
    then show thesis
      by (intro keep [OF s'(1,7,6)])
        (use s' en slice_upd [OF s'(2) at] in \<open>simp_all add: sched_frame_def ticked_def\<close>)
  next
    case nq: False
    then have "p_state pr \<noteq> RUNNING \<or> p_remainingQuantums pr = 0" by (auto simp: word_gt_0)
    from schedule_switch [OF sinv ok en cur this, of rsp] obtain s' pr' rq where
      s': "schedule ops rsp s = Some (s', p_rsp pr')"
        "rq = rq_elems s \<or> p_state pr = RUNNING \<and> rq = rq_elems s @ [pid]"
        "((proc_at s)(pid \<mapsto> preempted rsp pr)) (next_pid rq) = Some pr'"
        "proc_at s' = ((proc_at s)(pid \<mapsto> preempted rsp pr))(next_pid rq \<mapsto> dispatched pr')"
        "rq_elems s' = tl rq" "currentProcess s' = processTable s ! nat (next_pid rq)" "sched_frame s s'"
        "sems s' = sems s" "kmem_ok inv blocks limit s'" "sched_inv s'" .
    obtain xs where xs: "rq = rq_elems s @ xs" using s'(2) by auto
    have n: "next_pid rq = hd (rq_elems s)" using ne xs by (simp add: next_pid_def)
    have at: "proc_at s pid = Some pr" using cur by (simp add: current_is_def)
    have prio: "p_priorityLevel (preempted rsp pr) = p_priorityLevel pr" by (simp add: preempted_def)
    have sl: "slice s' = slice s"
    proof
      fix x
      show "slice s' x = slice s x"
        using s'(3,4) at prio
        by (cases "x = next_pid rq"; cases "x = pid") (simp_all add: slice_def dispatched_def)
    qed
    have c: "current_is s' (hd (rq_elems s)) (dispatched pr')"
      using s'(4,6,7) n proc_atD [of s' "hd (rq_elems s)" "dispatched pr'"] by (simp add: current_is_def sched_frame_def)
    have "slice s (hd (rq_elems s)) = max 1 (unat (p_priorityLevel pr'))"
      using s'(3) n at prio by (cases "hd (rq_elems s) = pid") (simp_all add: slice_def)
    with cur_left_dispatched [OF c] have "cur_left s' = slice s (hd (rq_elems s))" by simp
    moreover have "cur_left s = 1" using cur_left_cur [OF cur] nq by (auto simp: word_gt_0)
    moreover have "pstate s' (hd (rq_elems s)) = Some RUNNING" using s'(4) n by (simp add: pstate_def dispatched_def)
    ultimately show thesis
      by (intro switch [OF s'(1,10,9)]) (use s' sl en xs ne in \<open>simp_all add: sched_frame_def\<close>)
  qed
qed

lemma round_robin:
  assumes "sched_inv s" "kmem_ok inv blocks limit s" "schedulerEnabled s"
    and "k < length (rq_elems s)" "length rsps = wait_ticks s k" "m \<le> length rsps"
  shows "\<exists>s'. run_ticks ops (take m rsps) s = Some s' \<and>
    pstate s' (rq_elems s ! k) = Some (if m < length rsps then READY else RUNNING)"
  using assms
proof (induction rsps arbitrary: s k m)
  case Nil
  then show ?case by (simp add: wait_ticks_def cur_left_def split: option.splits if_splits)
next
  case (Cons rsp rsps)
  have ne: "rq_elems s \<noteq> []" using Cons.prems(4) by auto
  show ?case
  proof (cases m)
    case 0
    have "pstate s (rq_elems s ! k) = Some READY"
      using Cons.prems(1,4) by (simp add: sched_inv_def ready_ok_def)
    with 0 show ?thesis by simp
  next
    case (Suc m')
    from Cons.prems(1-3) ne show ?thesis
    proof (cases rule: tick_step [where rsp = rsp])
      case (keep s' r)
      have "length rsps = wait_ticks s' k" using Cons.prems(5) keep(5-7) by (simp add: wait_ticks_def)
      with Cons.IH [of s' k m'] keep Suc Cons.prems(4,6) show ?thesis by auto
    next
      case (switch s' r xs)
      obtain y ys where rq: "rq_elems s = y # ys" using ne by (cases "rq_elems s") auto
      show ?thesis
      proof (cases k)
        case 0
        then have "rsps = []" using Cons.prems(5) switch(7) by (simp add: wait_ticks_def)
        with 0 switch(1,9) Suc rq Cons.prems(6) show ?thesis by simp
      next
        case (Suc k')
        have k': "k' < length ys" using Cons.prems(4) rq Suc by simp
        then have nth: "rq_elems s' ! k' = rq_elems s ! k" and len: "k' < length (rq_elems s')"
          using switch(6) rq Suc by (simp_all add: nth_append)
        have "length rsps = wait_ticks s' k'"
          using Cons.prems(5) switch(5-8) rq Suc k' by (simp add: wait_ticks_def)
        with Cons.IH [OF switch(2-4) len this, of m'] nth switch(1) \<open>m = Suc m'\<close> Cons.prems(6)
        show ?thesis by simp
      qed
    qed
  qed
qed

end

section \<open>Properties\<close>

text \<open>C1. The tick handler is safe: from a well-formed scheduler state whose blocks are all live and
  singly owned, \<^verbatim>\<open>schedule\<close> never follows a bad pointer, keeps the invariant (queued processes are
  registered, ready and queued once, at most the current process is running, idle can run) and
  the ownership, and once enabled it leaves a registered running process as the current one and
  returns that process's saved stack pointer.\<close>
theorem schedule_keeps_invariant:
  assumes "sched_inv s" and "fl_kmem_ok s"
  shows "\<exists>s' r. schedule fl_ops rsp s = Some (s', r) \<and> sched_inv s' \<and>
    fl_kmem_ok s' \<and>
    (schedulerEnabled s \<longrightarrow> (\<exists>pid pr. current_is s' pid pr \<and> p_state pr = RUNNING \<and> r = p_rsp pr))"
proof -
  from fl.schedule_safe [OF assms, of rsp] obtain s' r where
    "schedule fl_ops rsp s = Some (s', r)" "sched_inv s'" "fl_kmem_ok s'" "sched_frame s s'" "sems s' = sems s"
    "schedulerEnabled s \<longrightarrow> (\<exists>pid pr. current_is s' pid pr \<and> p_state pr = RUNNING \<and> r = p_rsp pr)" .
  then show ?thesis by blast
qed

lemma demo_table: "i < 64 \<Longrightarrow> processTable demo_kst ! i =
    (if i = 0 then demo_ptr 0 else if i = 1 then demo_ptr 8 else if i = 2 then demo_ptr 16 else 0)"
  by (auto simp: demo_kst_def nth_Cons' nth_append)

lemma demo_proc_at: "proc_at demo_kst pid =
    (if pid = 0 then Some (demo_proc 0 READY) else if pid = 1 then Some (demo_proc 1 READY)
     else if pid = 2 then Some (demo_proc 2 RUNNING) else None)"
proof (cases "0 \<le> pid \<and> pid < 64")
  case True
  then show ?thesis
    by (auto simp: proc_at_def demo_table demo_ptr_inj demo_ptr_nonnull) (auto simp: demo_kst_def demo_ptr_inj)
qed (auto simp: proc_at_def)

lemma demo_rq: "rq_elems demo_kst = [0, 1]"
  by (simp add: rq_elems_def demo_kst_def kq_elems_def)

lemma demo_sched: "sched_inv demo_kst"
proof -
  have "tab_ok demo_kst"
    unfolding tab_ok_def
    by (auto simp: demo_table demo_ptr_nonnull demo_ptr_inj) (auto simp: demo_kst_def demo_proc_def demo_ptr_inj)
  moreover have "ready_ok demo_kst"
    unfolding ready_ok_def demo_rq pstate_def demo_proc_at by (simp add: demo_proc_def) (simp add: demo_kst_def)
  moreover have "cur_ok demo_kst"
    unfolding cur_ok_def pstate_def demo_proc_at
    by (auto simp: demo_proc_def demo_table) (auto simp: demo_kst_def)
  moreover have "idle_ok demo_kst"
    unfolding idle_ok_def pstate_def demo_proc_at by (simp add: demo_proc_def)
  ultimately show ?thesis by (simp add: sched_inv_def)
qed

theorem schedule_keeps_invariant_witness:
  "\<exists>s' r. schedule fl_ops 0 demo_kst = Some (s', r) \<and> sched_inv s' \<and> (\<exists>pid pr. current_is s' pid pr \<and> p_state pr = RUNNING)"
  using schedule_keeps_invariant [OF demo_sched demo_kmem, of 0] by (auto simp: demo_kst_def)

text \<open>C2. Weighted round robin, exactly: with no event but ticks, the process at position \<open>k\<close> of the
  ready queue starts to run precisely at the tick when the current process has used the rest of
  its slice and every process ahead of it has had its own (as many ticks as its priority, at
  least one); at every earlier tick it is still ready.  No ready process starves.\<close>
theorem round_robin_exact:
  assumes "sched_inv s" and "fl_kmem_ok s" and "schedulerEnabled s"
    and "k < length (rq_elems s)" and "length rsps = wait_ticks s k" and "m \<le> length rsps"
  shows "\<exists>s'. run_ticks fl_ops (take m rsps) s = Some s' \<and>
    pstate s' (rq_elems s ! k) = Some (if m < length rsps then READY else RUNNING)"
  by (rule fl.round_robin [OF assms])

theorem round_robin_exact_witness:
  "\<exists>s'. run_ticks fl_ops [0, 0] demo_kst = Some s' \<and> pstate s' 1 = Some RUNNING"
proof -
  have "schedulerEnabled demo_kst" by (simp add: demo_kst_def)
  moreover have "wait_ticks demo_kst 1 = 2"
  proof -
    have "cur_left demo_kst = 1"
      by (simp add: cur_left_def demo_kst_def demo_ptr_inj demo_proc_def)
    then show ?thesis by (simp add: wait_ticks_def demo_rq slice_def demo_proc_at demo_proc_def)
  qed
  ultimately show ?thesis
    using round_robin_exact [OF demo_sched demo_kmem, of 1 "[0, 0]" 2] by (simp add: demo_rq)
qed

text \<open>C19. A woken process joins the end of the queue once, unless the memory manager refuses the node of
  the queue, which leaves it READY but not queued: \<^verbatim>\<open>setReady\<close> acts only on a blocked process, answers
  \<open>-1\<close> and changes nothing otherwise, and \<^verbatim>\<open>setBlocked\<close> takes a process out of the queue and is
  refused for idle and init; both keep the invariant and the ownership.\<close>
theorem block_unblock_correct:
  assumes "sched_inv s" and "fl_kmem_ok s"
  shows "(\<exists>s' r. setReady fl_ops pid s = Some (s', r) \<and> sched_inv s' \<and>
      fl_kmem_ok s' \<and>
      (if pstate s pid = Some BLOCKED then r = 0 \<and> pstate s' = (pstate s)(pid \<mapsto> READY) \<and>
         (rq_elems s' = rq_elems s @ [pid] \<or>
          rq_elems s' = rq_elems s \<and> mem_alloc (kmem s) sizeof_Node = Some (kmem s', 0))
       else r = -1 \<and> s' = s)) \<and>
    (\<exists>s' r. setBlocked fl_ops pid s = Some (s', r) \<and> sched_inv s' \<and>
      fl_kmem_ok s' \<and>
      (if pid \<notin> {0, 1} \<and> pstate s pid \<in> {Some RUNNING, Some READY}
       then r = 0 \<and> pstate s' = (pstate s)(pid \<mapsto> BLOCKED) \<and>
         rq_elems s' = filter (\<lambda>x. x \<noteq> pid) (rq_elems s)
       else r = -1 \<and> s' = s))"
proof
  from assms show "\<exists>s' r. setReady fl_ops pid s = Some (s', r) \<and> sched_inv s' \<and>
      fl_kmem_ok s' \<and>
      (if pstate s pid = Some BLOCKED then r = 0 \<and> pstate s' = (pstate s)(pid \<mapsto> READY) \<and>
         (rq_elems s' = rq_elems s @ [pid] \<or>
          rq_elems s' = rq_elems s \<and> mem_alloc (kmem s) sizeof_Node = Some (kmem s', 0))
       else r = -1 \<and> s' = s)"
  proof (cases rule: fl.setReady_spec [where pid = pid])
    case refused
    with assms show ?thesis by simp
  next
    case (woken s' pr)
    then have "pstate s pid = Some BLOCKED" by (simp add: pstate_def)
    moreover have "mm_alloc fl_ops = mem_alloc" by (simp add: fl_ops_def)
    ultimately show ?thesis using woken pstate_upd [OF woken(4)] by (simp del: fun_upd_apply)
  qed
next
  from assms show "\<exists>s' r. setBlocked fl_ops pid s = Some (s', r) \<and> sched_inv s' \<and>
      fl_kmem_ok s' \<and>
      (if pid \<notin> {0, 1} \<and> pstate s pid \<in> {Some RUNNING, Some READY}
       then r = 0 \<and> pstate s' = (pstate s)(pid \<mapsto> BLOCKED) \<and>
         rq_elems s' = filter (\<lambda>x. x \<noteq> pid) (rq_elems s)
       else r = -1 \<and> s' = s)"
  proof (cases rule: fl.setBlocked_spec [where pid = pid])
    case refused
    with assms show ?thesis by (auto simp: isUnkillable_def)
  next
    case (blocked s' pr)
    then have "pid \<notin> {0, 1}" "pstate s pid \<in> {Some RUNNING, Some READY}"
      by (auto simp: pstate_def isUnkillable_def)
    with blocked pstate_upd [OF blocked(5)] show ?thesis by (simp del: fun_upd_apply)
  qed
qed

theorem block_unblock_correct_witness:
  "\<exists>s'. setBlocked fl_ops 2 demo_kst = Some (s', 0) \<and> pstate s' 2 = Some BLOCKED"
proof -
  have "pstate demo_kst 2 = Some RUNNING" by (simp add: pstate_def demo_proc_at demo_proc_def)
  then show ?thesis using block_unblock_correct [OF demo_sched demo_kmem, of 2] by auto
qed

end
