(* ===== verification/KSem.thy ===== *)
theory KSem
  imports KSched
begin

text \<open>
  \<^verbatim>\<open>Kernel/semaphores/semaphore.c\<close>.  The spinlock is modelled: taking a lock that is already held
  spins forever on the single CPU, so it answers \<open>None\<close>, and the specifications show that it never
  happens.  \<^verbatim>\<open>semWait\<close> ends, when it must block, with the forced tick that gives the CPU away; its
  last result says whether that happened (the call then returns \<open>0\<close> to the process once the
  process is dispatched again).
\<close>

section \<open>Operations\<close>

definition sizeof_semCDT :: u64 where
  "sizeof_semCDT = 24"

definition newSemaphore :: "'m mm_ops \<Rightarrow> int \<Rightarrow> 'm kst \<Rightarrow> ('m kst \<times> u64) option" where
  "newSemaphore mm value s = do {
     (m, sem) \<leftarrow> mm_alloc mm (kmem s) sizeof_semCDT;
     if sem = 0 then Some (s\<lparr>kmem := m\<rparr>, 0)
     else do {
       (m, q) \<leftarrow> kq_new mm m;
       (case q of
          None \<Rightarrow> do { m \<leftarrow> mm_free mm m sem; Some (s\<lparr>kmem := m\<rparr>, 0) }
        | Some q \<Rightarrow> Some (s\<lparr>kmem := m, sems := (sems s)(sem \<mapsto>
            \<lparr>sem_value = value, sem_blockedQueue = q, sem_lock = False\<rparr>)\<rparr>, sem))
     }
   }"

definition on_sem :: "u64 \<Rightarrow> (semCDT \<Rightarrow> semCDT) \<Rightarrow> 'm kst \<Rightarrow> 'm kst option" where
  "on_sem sem f s = do { c \<leftarrow> sems s sem; Some (s\<lparr>sems := (sems s)(sem \<mapsto> f c)\<rparr>) }"

definition sem_acquire :: "u64 \<Rightarrow> 'm kst \<Rightarrow> 'm kst option" where
  "sem_acquire sem s = do {
     c \<leftarrow> sems s sem;
     if sem_lock c then None else on_sem sem (\<lambda>c. c\<lparr>sem_lock := True\<rparr>) s
   }"

definition sem_release :: "u64 \<Rightarrow> 'm kst \<Rightarrow> 'm kst option" where
  "sem_release sem = on_sem sem (\<lambda>c. c\<lparr>sem_lock := False\<rparr>)"

definition sem_add :: "int \<Rightarrow> u64 \<Rightarrow> 'm kst \<Rightarrow> 'm kst option" where
  "sem_add d sem = on_sem sem (\<lambda>c. c\<lparr>sem_value := sem_value c + d\<rparr>)"

text \<open>The branch of \<^verbatim>\<open>semWait\<close> that blocks the caller: it is marked before it is queued.\<close>
definition sem_block_current :: "'m mm_ops \<Rightarrow> u64 \<Rightarrow> 'm kst \<Rightarrow> 'm kst option" where
  "sem_block_current mm sem s = do {
     pid \<leftarrow> getCurrentPID s;
     s \<leftarrow> setCurrentBlocked s;
     c \<leftarrow> sems s sem;
     (m, q, r) \<leftarrow> kq_enqueue mm pid (kmem s) (sem_blockedQueue c);
     on_sem sem (\<lambda>c. c\<lparr>sem_blockedQueue := q\<rparr>) (s\<lparr>kmem := m\<rparr>)
   }"

definition semWait :: "'m mm_ops \<Rightarrow> u64 \<Rightarrow> u64 \<Rightarrow> 'm kst \<Rightarrow> ('m kst \<times> int \<times> bool) option" where
  "semWait mm rsp sem s =
     (if sem = 0 then Some (s, -1, False)
      else do {
        s \<leftarrow> sem_acquire sem s;
        s \<leftarrow> sem_add (-1) sem s;
        c \<leftarrow> sems s sem;
        (let mustBlock = (sem_value c < 0) in do {
          s \<leftarrow> (if mustBlock then sem_block_current mm sem s else Some s);
          s \<leftarrow> sem_release sem s;
          s \<leftarrow> (if mustBlock then forceSchedulerCall mm rsp s else Some s);
          Some (s, 0, mustBlock)
        })
      })"

partial_function (option) post_loop :: "'m mm_ops \<Rightarrow> u64 \<Rightarrow> 'm kst \<Rightarrow> 'm kst option" where
  "post_loop mm sem s = Option.bind (sems s sem) (\<lambda>c.
     if sem_value c \<le> 0 \<and> kq_nodes (sem_blockedQueue c) \<noteq> []
     then Option.bind (kq_poll mm (kmem s) (sem_blockedQueue c)) (\<lambda>(m, q, r).
       Option.bind (on_sem sem (\<lambda>c. c\<lparr>sem_blockedQueue := q\<rparr>) (s\<lparr>kmem := m\<rparr>)) (\<lambda>s.
         Option.bind (setReady mm (pid_of_poll r) s) (\<lambda>(s, ok).
           if ok = 0 then Some s
           else Option.bind (sem_add 1 sem s) (\<lambda>s. post_loop mm sem s))))
     else Some s)"

definition semPost :: "'m mm_ops \<Rightarrow> u64 \<Rightarrow> 'm kst \<Rightarrow> ('m kst \<times> int) option" where
  "semPost mm sem s =
     (if sem = 0 then Some (s, -1)
      else do {
        s \<leftarrow> sem_acquire sem s;
        s \<leftarrow> sem_add 1 sem s;
        s \<leftarrow> post_loop mm sem s;
        s \<leftarrow> sem_release sem s;
        Some (s, 0)
      })"

definition semTryWait :: "u64 \<Rightarrow> 'm kst \<Rightarrow> ('m kst \<times> int) option" where
  "semTryWait sem s =
     (if sem = 0 then Some (s, -1)
      else do {
        s \<leftarrow> sem_acquire sem s;
        c \<leftarrow> sems s sem;
        (if sem_value c > 0
         then do { s \<leftarrow> sem_add (-1) sem s; s \<leftarrow> sem_release sem s; Some (s, 0) }
         else do { s \<leftarrow> sem_release sem s; Some (s, -1) })
      })"

definition freeSemaphore :: "'m mm_ops \<Rightarrow> u64 \<Rightarrow> 'm kst \<Rightarrow> 'm kst option" where
  "freeSemaphore mm sem s =
     (if sem = 0 then Some s
      else do {
        s \<leftarrow> sem_acquire sem s;
        c \<leftarrow> sems s sem;
        (if kq_nodes (sem_blockedQueue c) \<noteq> [] then sem_release sem s
         else do {
           m \<leftarrow> kq_free mm (sem_blockedQueue c) (kmem s);
           m \<leftarrow> mm_free mm m sem;
           Some (s\<lparr>kmem := m, sems := (sems s)(sem := None)\<rparr>)
         })
      })"

declare post_loop.simps [simp del]

lemma on_sem_Some [simp]:
  "sems s a = Some c \<Longrightarrow> on_sem a f s = Some (s\<lparr>sems := (sems s)(a \<mapsto> f c)\<rparr>)"
  by (simp add: on_sem_def)

section \<open>Invariants\<close>

text \<open>Between calls no semaphore is locked.\<close>
definition locks_free :: "'m kst \<Rightarrow> bool" where
  "locks_free s \<longleftrightarrow> (\<forall>a c. sems s a = Some c \<longrightarrow> \<not> sem_lock c)"

text \<open>A negative value counts the queued waiters (true as long as no queue node was refused).\<close>
definition sem_bal :: "semCDT \<Rightarrow> bool" where
  "sem_bal c \<longleftrightarrow> int (length (kq_nodes (sem_blockedQueue c))) = max 0 (- sem_value c)"

definition waiters :: "semCDT \<Rightarrow> int list" where
  "waiters c = kq_elems (sem_blockedQueue c)"

lemma length_waiters: "length (waiters c) = length (kq_nodes (sem_blockedQueue c))"
  by (simp add: waiters_def kq_elems_def)

text \<open>The part of the state the semaphore operations never touch.\<close>
lemma sched_inv_sems:
  assumes "sched_inv s" "procs s' = procs s" "processTable s' = processTable s" "foregroundSet s' = foregroundSet s"
    "currentProcess s' = currentProcess s" "readyQueue s' = readyQueue s"
  shows "sched_inv s'"
proof -
  have "proc_at s' = proc_at s" by (rule proc_at_same) (use assms in simp_all)
  then have "pstate s' = pstate s" "rq_elems s' = rq_elems s"
    using assms by (simp_all add: pstate_def rq_elems_def fun_eq_iff)
  with assms show ?thesis by (simp add: sched_defs)
qed

lemma kmem_ok_sem:
  assumes "kmem_ok minv mblocks mlimit s" "sems s a = Some c" "sem_blockedQueue c' = sem_blockedQueue c"
  shows "kmem_ok minv mblocks mlimit (s\<lparr>sems := (sems s)(a \<mapsto> c')\<rparr>)"
  by (rule kmem_ok_same [OF assms(1) _ owned_sem_same [OF assms(2,3)]]) simp

definition sem_set :: "u64 \<Rightarrow> semCDT \<Rightarrow> 'm kst \<Rightarrow> 'm kst" where
  "sem_set a c s = s\<lparr>sems := (sems s)(a \<mapsto> c)\<rparr>"

lemma sem_set_simps [simp]:
  "kmem (sem_set a c s) = kmem s" "procs (sem_set a c s) = procs s" "sems (sem_set a c s) = (sems s)(a \<mapsto> c)"
  "processTable (sem_set a c s) = processTable s" "foregroundSet (sem_set a c s) = foregroundSet s"
  "currentProcess (sem_set a c s) = currentProcess s" "readyQueue (sem_set a c s) = readyQueue s"
  "schedulerEnabled (sem_set a c s) = schedulerEnabled s" "pipes (sem_set a c s) = pipes s"
  "files (sem_set a c s) = files s" "stackmem (sem_set a c s) = stackmem s"
  by (simp_all add: sem_set_def)

lemma sem_set_sched [simp]: "sched_inv (sem_set a c s) = sched_inv s"
  by (auto intro: sched_inv_sems [of s] sched_inv_sems [of "sem_set a c s"])

lemma sem_set_at [simp]: "proc_at (sem_set a c s) = proc_at s" "pstate (sem_set a c s) = pstate s"
  "rq_elems (sem_set a c s) = rq_elems s" "current_is (sem_set a c s) = current_is s"
  by (simp_all add: sem_set_def pstate_def rq_elems_def current_is_def fun_eq_iff)

lemma sem_set_set [simp]: "sem_set a c (sem_set a d s) = sem_set a c s"
  by (simp add: sem_set_def)

lemma kmem_sem_set:
  "kmem_ok minv mblocks mlimit s \<Longrightarrow> sems s a = Some c \<Longrightarrow> sem_blockedQueue c' = sem_blockedQueue c \<Longrightarrow>
    kmem_ok minv mblocks mlimit (sem_set a c' s)"
  unfolding sem_set_def by (rule kmem_ok_sem)

lemma sem_ops_set:
  assumes "sems s a = Some c"
  shows "\<not> sem_lock c \<Longrightarrow> sem_acquire a s = Some (sem_set a (c\<lparr>sem_lock := True\<rparr>) s)"
    "sem_release a s = Some (sem_set a (c\<lparr>sem_lock := False\<rparr>) s)"
    "sem_add d a s = Some (sem_set a (c\<lparr>sem_value := sem_value c + d\<rparr>) s)"
  using assms by (simp_all add: sem_acquire_def sem_release_def sem_add_def sem_set_def)

text \<open>What a post does to a value and a queue of waiters: the waiters that can no longer be woken
  give their unit back, the first one that can takes it.\<close>
fun post_queue :: "(int \<Rightarrow> bool) \<Rightarrow> int \<Rightarrow> int list \<Rightarrow> int \<times> int list \<times> int option" where
  "post_queue awake v [] = (v, [], None)"
| "post_queue awake v (p # ps) =
     (if v \<le> 0 then if awake p then (v, ps, Some p) else post_queue awake (v + 1) ps else (v, p # ps, None))"

text \<open>At most one process changes, from blocked to ready at the end of the ready queue.\<close>
definition woke :: "'m kst \<Rightarrow> 'm kst \<Rightarrow> int option \<Rightarrow> bool" where
  "woke s s' w \<longleftrightarrow> sched_frame s s' \<and> currentProcess s' = currentProcess s \<and>
     (case w of None \<Rightarrow> proc_at s' = proc_at s \<and> rq_elems s' = rq_elems s
      | Some p \<Rightarrow> (\<exists>pr. proc_at s p = Some pr \<and> p_state pr = BLOCKED \<and>
          proc_at s' = (proc_at s)(p \<mapsto> pr\<lparr>p_state := READY\<rparr>) \<and>
          (rq_elems s' = rq_elems s @ [p] \<or> rq_elems s' = rq_elems s)))"

lemma woke_frame:
  assumes "woke s1 s' w" "sched_frame s s1" "currentProcess s1 = currentProcess s" "proc_at s1 = proc_at s"
    "rq_elems s1 = rq_elems s"
  shows "woke s s' w"
  using assms by (auto simp: woke_def sched_frame_def split: option.splits)

context allocator
begin

lemma kmem_sem_queue:
  assumes ok: "kmem_ok inv blocks limit s" and c: "sems s a = Some c"
    and own: "own_ok inv blocks m' ((owned s)(OBlocked a := map fst (kq_nodes q')))"
    and "limit m' = limit (kmem s)" "kq_self q' = kq_self (sem_blockedQueue c)" "sem_blockedQueue c' = q'"
  shows "kmem_ok inv blocks limit (s\<lparr>kmem := m', sems := (sems s)(a \<mapsto> c')\<rparr>)"
proof -
  have "owned (s\<lparr>kmem := m', sems := (sems s)(a \<mapsto> c')\<rparr>) = (owned s)(OBlocked a := map fst (kq_nodes q'))"
    using owned_sem_queue [of "s\<lparr>kmem := m'\<rparr>" a c c'] c assms(5,6) by simp
  with assms show ?thesis by (simp add: kmem_ok_def)
qed

lemma newSemaphore_spec:
  assumes ok: "kmem_ok inv blocks limit s"
  obtains (failed) m' where "newSemaphore ops v s = Some (s\<lparr>kmem := m'\<rparr>, 0)"
      "kmem_ok inv blocks limit (s\<lparr>kmem := m'\<rparr>)" "dom (blocks m') = dom (blocks (kmem s))"
    | (made) m' a q where "newSemaphore ops v s = Some (s\<lparr>kmem := m', sems := (sems s)(a \<mapsto>
          \<lparr>sem_value = v, sem_blockedQueue = q, sem_lock = False\<rparr>)\<rparr>, a)"
      "a \<noteq> 0" "sems s a = None" "kq_nodes q = []"
      "kmem_ok inv blocks limit (s\<lparr>kmem := m', sems := (sems s)(a \<mapsto>
          \<lparr>sem_value = v, sem_blockedQueue = q, sem_lock = False\<rparr>)\<rparr>)"
      "dom (blocks m') = {a, kq_self q} \<union> dom (blocks (kmem s))" "a \<notin> dom (blocks (kmem s))" "kq_self q \<notin> dom (blocks (kmem s))"
proof -
  have own: "own_ok inv blocks (kmem s) (owned s)" and lim: "2 ^ 15 \<le> limit (kmem s)"
    using ok by (simp_all add: kmem_ok_def)
  have n: "sizeof_semCDT \<noteq> 0" "unat sizeof_semCDT \<le> limit (kmem s)"
    using lim by (simp_all add: sizeof_semCDT_def)
  from own n show thesis
  proof (cases rule: own_alloc)
    case (fail m')
    with lim show thesis by (intro failed [of m']) (simp_all add: newSemaphore_def kmem_ok_def)
  next
    case (new m1 a)
    have none: "sems s a = None"
      using new(4) [of "OSem a"] by (cases "sems s a") (simp_all add: heap_blocks_def sem_blocks_def)
    have own1: "own_ok inv blocks m1 ((owned s)(OSem a := [a]))" by (rule new(6)) simp_all
    have n: "sizeof_queueCDT \<noteq> 0" "unat sizeof_queueCDT \<le> limit m1"
      using lim new(3) by (simp_all add: sizeof_queueCDT_def)
    from own1 n show thesis
    proof (cases rule: own_alloc)
      case (fail m2)
      from own_free_dom [OF fail(3), of a "OSem a"] obtain m3 where m3: "mm_free ops m2 a = Some m3" "limit m3 = limit m2"
          "\<And>xs. distinct xs \<Longrightarrow> set xs \<subseteq> set [a] - {a} \<Longrightarrow> own_ok inv blocks m3 ((owned s)(OSem a := [a], OSem a := xs))"
          "dom (blocks m3) = dom (blocks m2) - {a}"
        by auto
      have "(owned s)(OSem a := []) = owned s" using none by (auto simp: heap_blocks_def)
      with m3(3) [of "[]"] have "own_ok inv blocks m3 (owned s)" by simp
      with m3 new fail lim show thesis
        by (intro failed [of m3]) (simp_all add: newSemaphore_def kq_new_def kmem_ok_def)
    next
      case two: (new m2 b)
      let ?q = "\<lparr>kq_self = b, kq_nodes = []\<rparr>"
      let ?c = "\<lparr>sem_value = v, sem_blockedQueue = ?q, sem_lock = False\<rparr>"
      let ?s = "s\<lparr>kmem := m2, sems := (sems s)(a \<mapsto> ?c)\<rparr>"
      have "a \<noteq> b" using two(4) [of "OSem a"] by auto
      then have "own_ok inv blocks m2 ((owned s)(OSem a := [a], OSem a := [a, b]))"
        by (intro two(6)) auto
      moreover have "owned ?s = (owned s)(OSem a := [a, b])"
      proof
        fix x show "owned ?s x = ((owned s)(OSem a := [a, b])) x"
          using none by (cases x) (auto simp: heap_blocks_def sem_blocks_def)
      qed
      ultimately have "kmem_ok inv blocks limit ?s" using lim new(3) two(3) by (simp add: kmem_ok_def)
      with new two none show thesis
        by (intro made [of a ?q m2]) (auto simp: newSemaphore_def kq_new_def)
    qed
  qed
qed

lemma semWait_take:
  assumes "sems s a = Some c" "a \<noteq> 0" "\<not> sem_lock c" "sem_value c > 0"
  shows "semWait ops rsp a s = Some (sem_set a (c\<lparr>sem_value := sem_value c - 1, sem_lock := False\<rparr>) s, 0, False)"
  using assms by (simp add: semWait_def sem_ops_set [OF assms(1)])
    (simp add: sem_add_def sem_release_def sem_set_def)

lemma sem_block_spec:
  assumes sinv: "sched_inv s" and ok: "kmem_ok inv blocks limit s"
    and c: "sems s a = Some c" and cur: "current_is s pid pr" "p_state pr = RUNNING" and "pid \<noteq> 0"
  obtains s1 q where "sem_block_current ops a s = Some s1" "sems s1 = (sems s)(a \<mapsto> c\<lparr>sem_blockedQueue := q\<rparr>)"
    "kq_elems q = waiters c @ [pid] \<or> kq_elems q = waiters c"
    "proc_at s1 = (proc_at s)(pid \<mapsto> pr\<lparr>p_state := BLOCKED\<rparr>)" "currentProcess s1 = currentProcess s"
    "rq_elems s1 = rq_elems s" "sched_frame s s1" "sched_inv s1" "kmem_ok inv blocks limit s1"
proof -
  let ?pr = "pr\<lparr>p_state := BLOCKED\<rparr>"
  let ?s1 = "s\<lparr>procs := (procs s)(currentProcess s \<mapsto> ?pr)\<rparr>"
  note prs = current_is_procs [OF cur(1)]
  have tab: "tab_ok s" using sinv by (simp add: sched_inv_def)
  have at: "proc_at s pid = Some pr" "processTable s ! nat pid = currentProcess s"
    using cur(1) by (simp_all add: current_is_def)
  have ok1: "kmem_ok inv blocks limit ?s1"
    by (rule kmem_ok_same [OF ok _ owned_proc_same [OF prs, where pr' = ?pr]]) simp_all
  have own: "own_ok inv blocks (kmem ?s1) (owned ?s1)" and lim: "24 \<le> limit (kmem ?s1)"
    using ok1 by (simp_all add: kmem_ok_def)
  have "owned ?s1 (OBlocked a) = map fst (kq_nodes (sem_blockedQueue c))" using c by (simp add: heap_blocks_def)
  from own_enqueue [OF own lim this, of pid] obtain m' q r where
    e: "kq_enqueue ops pid (kmem ?s1) (sem_blockedQueue c) = Some (m', q, r)" "limit m' = limit (kmem ?s1)"
      "kq_self q = kq_self (sem_blockedQueue c)" "own_ok inv blocks m' ((owned ?s1)(OBlocked a := map fst (kq_nodes q)))"
      "r = 0 \<and> q = sem_blockedQueue c \<or> r = 1 \<and> kq_elems q = kq_elems (sem_blockedQueue c) @ [pid]" .
  let ?c = "c\<lparr>sem_blockedQueue := q\<rparr>"
  let ?s = "?s1\<lparr>kmem := m', sems := (sems ?s1)(a \<mapsto> ?c)\<rparr>"
  have c1: "sems ?s1 a = Some c" using c by simp
  have ok': "kmem_ok inv blocks limit ?s"
    by (rule kmem_sem_queue [OF ok1 c1 e(4,2,3)]) simp
  have at': "proc_at ?s = (proc_at s)(pid \<mapsto> ?pr)" by (rule proc_at_upd [OF tab at(1)]) (simp_all add: at(2))
  have notin: "pid \<notin> set (rq_elems s)" using sinv cur(2) at by (auto simp: sched_inv_def ready_ok_def pstate_def)
  have inv': "sched_inv ?s"
    by (rule sched_inv_state [OF sinv at(1) at'])
      (use sinv notin assms(6) in \<open>auto simp: sched_inv_def ready_ok_def tab_ok_def rq_elems_def\<close>)
  have "sem_block_current ops a s = Some ?s"
    using cur(1) prs c e(1) proc_at_pid [OF tab at(1)]
    by (simp add: sem_block_current_def getCurrentPID_def setCurrentBlocked_def proc_accessors current_is_def)
  then show thesis
    using e(5) by (intro that [OF _ _ _ at' _ _ _ inv' ok', of q]) (auto simp: rq_elems_def sched_frame_def waiters_def)
qed

lemma semWait_block:
  assumes sinv: "sched_inv s" and ok: "kmem_ok inv blocks limit s" and en: "schedulerEnabled s"
    and c: "sems s a = Some c" "a \<noteq> 0" "\<not> sem_lock c" "sem_value c \<le> 0"
    and cur: "current_is s pid pr" "p_state pr = RUNNING" "pid \<noteq> 0"
  obtains s' q where "semWait ops rsp a s = Some (s', 0, True)"
    "sems s' = (sems s)(a \<mapsto> c\<lparr>sem_value := sem_value c - 1, sem_blockedQueue := q, sem_lock := False\<rparr>)"
    "kq_elems q = waiters c @ [pid] \<or> kq_elems q = waiters c"
    "pstate s' = (pstate s)(pid \<mapsto> BLOCKED, next_pid (rq_elems s) \<mapsto> RUNNING)" "next_pid (rq_elems s) \<noteq> pid"
    "currentProcess s' = processTable s ! nat (next_pid (rq_elems s))"
    "rq_elems s' = tl (rq_elems s)" "sched_frame s s'" "sched_inv s'" "kmem_ok inv blocks limit s'"
proof -
  let ?c0 = "c\<lparr>sem_lock := True, sem_value := sem_value c - 1\<rparr>"
  let ?s0 = "sem_set a ?c0 s"
  have h: "sched_inv ?s0" "current_is ?s0 pid pr" "sems ?s0 a = Some ?c0" using sinv cur by simp_all
  have k0: "kmem_ok inv blocks limit ?s0" by (rule kmem_sem_set [OF ok c(1)]) simp
  from sem_block_spec [OF h(1) k0 h(3,2) cur(2,3)] obtain s1 q where s1: "sem_block_current ops a ?s0 = Some s1"
      "sems s1 = (sems ?s0)(a \<mapsto> ?c0\<lparr>sem_blockedQueue := q\<rparr>)"
      "kq_elems q = waiters ?c0 @ [pid] \<or> kq_elems q = waiters ?c0"
      "proc_at s1 = (proc_at ?s0)(pid \<mapsto> pr\<lparr>p_state := BLOCKED\<rparr>)" "currentProcess s1 = currentProcess ?s0"
      "rq_elems s1 = rq_elems ?s0" "sched_frame ?s0 s1" "sched_inv s1" "kmem_ok inv blocks limit s1" .
  let ?c1 = "c\<lparr>sem_value := sem_value c - 1, sem_blockedQueue := q, sem_lock := False\<rparr>"
  let ?s2 = "sem_set a ?c1 s1"
  let ?pr = "pr\<lparr>p_state := BLOCKED\<rparr>"
  have cs1: "sems s1 a = Some (?c0\<lparr>sem_blockedQueue := q\<rparr>)" using s1(2) by simp
  have ok2: "kmem_ok inv blocks limit ?s2" by (rule kmem_sem_set [OF s1(9) cs1]) simp
  have inv2: "sched_inv ?s2" using s1(8) by simp
  have en2: "schedulerEnabled ?s2" using s1(7) en by (simp add: sched_frame_def)
  have cur2: "current_is ?s2 pid ?pr" using s1(4,5,7) cur(1) by (simp add: current_is_def sched_frame_def)
  have "p_state ?pr \<noteq> RUNNING \<or> p_remainingQuantums ?pr = 0" by simp
  from schedule_switch [OF inv2 ok2 en2 cur2 this, of rsp] obtain s' pr' rq where
    s': "schedule ops rsp ?s2 = Some (s', p_rsp pr')"
      "rq = rq_elems ?s2 \<or> p_state ?pr = RUNNING \<and> rq = rq_elems ?s2 @ [pid]"
      "((proc_at ?s2)(pid \<mapsto> preempted rsp ?pr)) (next_pid rq) = Some pr'"
      "proc_at s' = ((proc_at ?s2)(pid \<mapsto> preempted rsp ?pr))(next_pid rq \<mapsto> dispatched pr')"
      "rq_elems s' = tl rq" "currentProcess s' = processTable ?s2 ! nat (next_pid rq)" "sched_frame ?s2 s'"
      "sems s' = sems ?s2" "kmem_ok inv blocks limit s'" "sched_inv s'" .
  have rq: "rq = rq_elems s" using s'(2) s1(6) by simp
  have call: "semWait ops rsp a s = Some (s', 0, True)"
  proof -
    have "sems (sem_set a (c\<lparr>sem_lock := True\<rparr>) s) a = Some (c\<lparr>sem_lock := True\<rparr>)" by simp
    from sem_ops_set(3) [OF this] show ?thesis
      using c s1(1) s'(1)
      by (simp add: semWait_def sem_ops_set [OF c(1)] sem_ops_set(2) [OF cs1] forceSchedulerCall_def)
  qed
  have notin: "pid \<notin> set (rq_elems s)"
    using sinv cur by (auto simp: sched_inv_def ready_ok_def pstate_def current_is_def)
  have np: "next_pid (rq_elems s) \<noteq> pid"
    using notin cur(3) by (auto simp: next_pid_def)
  show thesis
  proof (rule that [OF call])
    show "sems s' = (sems s)(a \<mapsto> ?c1)" using s'(8) s1(2) by simp
    show "pstate s' = (pstate s)(pid \<mapsto> BLOCKED, next_pid (rq_elems s) \<mapsto> RUNNING)"
      using s'(4) s1(4) rq by (simp add: pstate_def fun_eq_iff dispatched_def preempted_def)
  qed (use s1 s' rq np in \<open>simp_all add: waiters_def sched_frame_def\<close>)
qed

lemma post_loop_spec:
  assumes "sched_inv s" "kmem_ok inv blocks limit s" "sems s a = Some c"
    and "post_queue (\<lambda>p. pstate s p = Some BLOCKED) (sem_value c) (waiters c) = (v', w', wk)"
  shows "\<exists>s' q. post_loop ops a s = Some s' \<and>
    sems s' = (sems s)(a \<mapsto> c\<lparr>sem_value := v', sem_blockedQueue := q\<rparr>) \<and> kq_elems q = w' \<and>
    woke s s' wk \<and> sched_inv s' \<and> kmem_ok inv blocks limit s'"
  using assms
proof (induction "waiters c" arbitrary: s c)
  case Nil
  then have "kq_nodes (sem_blockedQueue c) = []" by (simp add: waiters_def kq_elems_def)
  with Nil have "post_loop ops a s = Some s" by (simp add: post_loop.simps)
  moreover have "sems s = (sems s)(a \<mapsto> c\<lparr>sem_value := v', sem_blockedQueue := sem_blockedQueue c\<rparr>)" "w' = []" "wk = None"
    using Nil by (auto simp: fun_upd_idem)
  ultimately show ?case
    using Nil by (intro exI [of _ s] exI [of _ "sem_blockedQueue c"]) (simp add: waiters_def woke_def sched_frame_def)
next
  case (Cons p ps)
  have els: "kq_elems (sem_blockedQueue c) = p # ps" and ne: "kq_nodes (sem_blockedQueue c) \<noteq> []"
    using Cons.hyps(2) by (auto simp: waiters_def kq_elems_def)
  show ?case
  proof (cases "sem_value c \<le> 0")
    case False
    then have "post_loop ops a s = Some s" using Cons.prems(3) by (simp add: post_loop.simps)
    moreover have "sems s = (sems s)(a \<mapsto> c\<lparr>sem_value := v', sem_blockedQueue := sem_blockedQueue c\<rparr>)"
        "w' = p # ps" "wk = None"
      using Cons.prems(3,4) Cons.hyps(2) [symmetric] False by (auto simp: fun_upd_idem)
    ultimately show ?thesis
      using Cons.prems els by (intro exI [of _ s] exI [of _ "sem_blockedQueue c"]) (simp add: woke_def sched_frame_def)
  next
    case True
    have own: "own_ok inv blocks (kmem s) (owned s)" using Cons.prems(2) by (simp add: kmem_ok_def)
    have "owned s (OBlocked a) = map fst (kq_nodes (sem_blockedQueue c))"
      using Cons.prems(3) by (simp add: heap_blocks_def)
    from own_poll [OF own this] els obtain m' q' where
      e: "kq_poll ops (kmem s) (sem_blockedQueue c) = Some (m', q', Some p)"
        "limit m' = limit (kmem s)" "kq_self q' = kq_self (sem_blockedQueue c)" "kq_elems q' = ps"
        "own_ok inv blocks m' ((owned s)(OBlocked a := map fst (kq_nodes q')))" by auto
    let ?c = "c\<lparr>sem_blockedQueue := q'\<rparr>"
    let ?s = "s\<lparr>kmem := m', sems := (sems s)(a \<mapsto> ?c)\<rparr>"
    have ok1: "kmem_ok inv blocks limit ?s" by (rule kmem_sem_queue [OF Cons.prems(2,3) e(5,2,3)]) simp
    have inv1: "sched_inv ?s" by (rule sched_inv_sems [OF Cons.prems(1)]) simp_all
    have at1: "proc_at ?s = proc_at s" by (rule proc_at_same) simp_all
    then have ps1: "pstate ?s = pstate s" by (simp add: pstate_def fun_eq_iff)
    have rq1: "rq_elems ?s = rq_elems s" by (simp add: rq_elems_def)
    have unf: "post_loop ops a s = Option.bind (setReady ops p ?s) (\<lambda>(s, ok).
        if ok = 0 then Some s else Option.bind (sem_add 1 a s) (\<lambda>s. post_loop ops a s))"
      using Cons.prems(3) True ne e(1) by (subst post_loop.simps) (simp add: pid_of_poll_def)
    from inv1 ok1 show ?thesis
    proof (cases rule: setReady_spec [where pid = p])
      case (woken s' pr)
      have "post_loop ops a s = Some s'" using unf woken(1) by simp
      moreover have "pstate s p = Some BLOCKED" using woken(2,3) at1 by (simp add: pstate_def)
      then have res: "v' = sem_value c" "w' = ps" "wk = Some p"
        using Cons.prems(4) Cons.hyps(2) [symmetric] True by auto
      moreover have "woke s s' (Some p)"
        using woken at1 rq1 unfolding woke_def by (auto simp: sched_frame_def)
      moreover have "sems s' = (sems s)(a \<mapsto> c\<lparr>sem_value := v', sem_blockedQueue := q'\<rparr>)"
        using woken(8) res by simp
      ultimately show ?thesis using woken(9,10) e(4) by blast
    next
      case refused
      let ?c1 = "?c\<lparr>sem_value := sem_value c + 1\<rparr>"
      let ?s1 = "sem_set a ?c1 ?s"
      have c1: "sems ?s a = Some ?c" by simp
      have "post_loop ops a s = post_loop ops a ?s1"
        using unf refused(1) sem_ops_set(3) [OF c1, of 1] by simp
      moreover have "\<exists>s' q. post_loop ops a ?s1 = Some s' \<and>
          sems s' = (sems ?s1)(a \<mapsto> ?c1\<lparr>sem_value := v', sem_blockedQueue := q\<rparr>) \<and> kq_elems q = w' \<and>
          woke ?s1 s' wk \<and> sched_inv s' \<and> kmem_ok inv blocks limit s'"
      proof (rule Cons.hyps(1))
        show "ps = waiters ?c1" using e(4) by (simp add: waiters_def)
        show "sched_inv ?s1" using inv1 by simp
        show "kmem_ok inv blocks limit ?s1" by (rule kmem_sem_set [OF ok1 c1]) simp
        show "sems ?s1 a = Some ?c1" by simp
        show "post_queue (\<lambda>p. pstate ?s1 p = Some BLOCKED) (sem_value ?c1) (waiters ?c1) = (v', w', wk)"
          using Cons.prems(4) Cons.hyps(2) [symmetric] True refused(2) e(4) ps1 by (simp add: waiters_def)
      qed
      ultimately obtain s' q where s': "post_loop ops a s = Some s'"
          "sems s' = (sems ?s1)(a \<mapsto> ?c1\<lparr>sem_value := v', sem_blockedQueue := q\<rparr>)" "kq_elems q = w'"
          "woke ?s1 s' wk" "sched_inv s'" "kmem_ok inv blocks limit s'" by auto
      have "woke s s' wk"
        by (rule woke_frame [OF s'(4)]) (use at1 rq1 in \<open>simp_all add: sched_frame_def\<close>)
      moreover have "sems s' = (sems s)(a \<mapsto> c\<lparr>sem_value := v', sem_blockedQueue := q\<rparr>)" using s'(2) by simp
      ultimately show ?thesis using s' by blast
    qed
  qed
qed

lemma semPost_spec:
  assumes sinv: "sched_inv s" and ok: "kmem_ok inv blocks limit s"
    and c: "sems s a = Some c" "a \<noteq> 0" "\<not> sem_lock c"
    and pq: "post_queue (\<lambda>p. pstate s p = Some BLOCKED) (sem_value c + 1) (waiters c) = (v', w', wk)"
  obtains s' q where "semPost ops a s = Some (s', 0)"
    "sems s' = (sems s)(a \<mapsto> c\<lparr>sem_value := v', sem_blockedQueue := q, sem_lock := False\<rparr>)" "kq_elems q = w'"
    "woke s s' wk" "sched_inv s'" "kmem_ok inv blocks limit s'"
proof -
  let ?c0 = "c\<lparr>sem_lock := True\<rparr>"
  let ?c1 = "c\<lparr>sem_lock := True, sem_value := sem_value c + 1\<rparr>"
  let ?s1 = "sem_set a ?c1 s"
  have acq: "sem_acquire a s = Some (sem_set a ?c0 s)" by (rule sem_ops_set(1) [OF c(1,3)])
  have "sems (sem_set a ?c0 s) a = Some ?c0" by simp
  from sem_ops_set(3) [OF this, of 1] have add: "sem_add 1 a (sem_set a ?c0 s) = Some ?s1" by simp
  have "sched_inv ?s1" "sems ?s1 a = Some ?c1" using sinv by simp_all
  moreover have "kmem_ok inv blocks limit ?s1" by (rule kmem_sem_set [OF ok c(1)]) simp
  moreover have "post_queue (\<lambda>p. pstate ?s1 p = Some BLOCKED) (sem_value ?c1) (waiters ?c1) = (v', w', wk)"
    using pq by (simp add: waiters_def)
  ultimately obtain s2 q where s2: "post_loop ops a ?s1 = Some s2"
      "sems s2 = (sems ?s1)(a \<mapsto> ?c1\<lparr>sem_value := v', sem_blockedQueue := q\<rparr>)" "kq_elems q = w'"
      "woke ?s1 s2 wk" "sched_inv s2" "kmem_ok inv blocks limit s2"
    using post_loop_spec [of ?s1 a ?c1 v' w' wk] by blast
  let ?c2 = "c\<lparr>sem_value := v', sem_blockedQueue := q, sem_lock := False\<rparr>"
  let ?s3 = "sem_set a ?c2 s2"
  have c2: "sems s2 a = Some (?c1\<lparr>sem_value := v', sem_blockedQueue := q\<rparr>)" using s2(2) by simp
  have "semPost ops a s = Some (?s3, 0)"
    using c(2) s2(1) sem_ops_set(2) [OF c2] by (simp add: semPost_def acq add)
  moreover have "kmem_ok inv blocks limit ?s3" by (rule kmem_sem_set [OF s2(6) c2]) simp
  moreover have "woke s s2 wk"
    by (rule woke_frame [OF s2(4)]) (simp_all add: sched_frame_def)
  then have "woke s ?s3 wk" by (cases wk) (simp_all add: woke_def sched_frame_def)
  ultimately show thesis using s2 by (intro that [of ?s3 q]) simp_all
qed

lemma semTryWait_spec:
  assumes c: "sems s a = Some c" "a \<noteq> 0" "\<not> sem_lock c"
  shows "semTryWait a s =
    (if sem_value c > 0 then Some (sem_set a (c\<lparr>sem_value := sem_value c - 1, sem_lock := False\<rparr>) s, 0)
     else Some (sem_set a (c\<lparr>sem_lock := False\<rparr>) s, -1))"
proof -
  let ?s0 = "sem_set a (c\<lparr>sem_lock := True\<rparr>) s"
  let ?s1 = "sem_set a (c\<lparr>sem_lock := True, sem_value := sem_value c - 1\<rparr>) s"
  have c0: "sems ?s0 a = Some (c\<lparr>sem_lock := True\<rparr>)"
    and c1: "sems ?s1 a = Some (c\<lparr>sem_lock := True, sem_value := sem_value c - 1\<rparr>)" by simp_all
  have "sem_add (-1) a ?s0 = Some ?s1" using sem_ops_set(3) [OF c0, of "-1"] by simp
  with sem_ops_set(1) [OF c(1,3)] sem_ops_set(2) [OF c0] sem_ops_set(2) [OF c1] c(2) show ?thesis
    by (simp add: semTryWait_def)
qed

lemma freeSemaphore_spec:
  assumes ok: "kmem_ok inv blocks limit s" and c: "sems s a = Some c" "a \<noteq> 0" "\<not> sem_lock c"
  obtains (busy) "waiters c \<noteq> []" "freeSemaphore ops a s = Some (sem_set a (c\<lparr>sem_lock := False\<rparr>) s)"
    | (freed) m' where "waiters c = []" "freeSemaphore ops a s = Some (s\<lparr>kmem := m', sems := (sems s)(a := None)\<rparr>)"
      "kmem_ok inv blocks limit (s\<lparr>kmem := m', sems := (sems s)(a := None)\<rparr>)"
      "dom (blocks m') = dom (blocks (kmem s)) - {a, kq_self (sem_blockedQueue c)}"
proof (cases "waiters c = []")
  case False
  let ?s0 = "sem_set a (c\<lparr>sem_lock := True\<rparr>) s"
  have "sems ?s0 a = Some (c\<lparr>sem_lock := True\<rparr>)" by simp
  from sem_ops_set(2) [OF this] sem_ops_set(1) [OF c(1,3)] c(2) False
  have "freeSemaphore ops a s = Some (sem_set a (c\<lparr>sem_lock := False\<rparr>) s)"
    by (simp add: freeSemaphore_def waiters_def kq_elems_def)
  with False busy show thesis by blast
next
  case True
  then have nil: "kq_nodes (sem_blockedQueue c) = []" by (simp add: waiters_def kq_elems_def)
  let ?b = "kq_self (sem_blockedQueue c)"
  have own: "own_ok inv blocks (kmem s) (owned s)" using ok by (simp add: kmem_ok_def)
  have ow: "owned s (OSem a) = [a, ?b]" using c by (simp add: heap_blocks_def sem_blocks_def)
  have ab: "a \<noteq> ?b" using own_ok_distinct [OF own, of "OSem a"] ow by simp
  have "?b \<in> set (owned s (OSem a))" using ow by simp
  from own_free_dom [OF own this] obtain m1 where m1: "mm_free ops (kmem s) ?b = Some m1" "limit m1 = limit (kmem s)"
      "\<And>xs. distinct xs \<Longrightarrow> set xs \<subseteq> set (owned s (OSem a)) - {?b} \<Longrightarrow> own_ok inv blocks m1 ((owned s)(OSem a := xs))"
      "dom (blocks m1) = dom (blocks (kmem s)) - {?b}"
    by blast
  have own1: "own_ok inv blocks m1 ((owned s)(OSem a := [a]))" by (rule m1(3)) (use ow ab in auto)
  let ?f = "(owned s)(OSem a := [a])"
  have "a \<in> set (?f (OSem a))" by simp
  from own_free_dom [OF own1 this] obtain m2 where m2: "mm_free ops m1 a = Some m2" "limit m2 = limit m1"
      "\<And>xs. distinct xs \<Longrightarrow> set xs \<subseteq> set (?f (OSem a)) - {a} \<Longrightarrow> own_ok inv blocks m2 (?f(OSem a := xs))"
      "dom (blocks m2) = dom (blocks m1) - {a}"
    by blast
  let ?s = "s\<lparr>kmem := m2, sems := (sems s)(a := None)\<rparr>"
  have "owned ?s = (owned s)(OSem a := [])"
  proof
    fix x show "owned ?s x = ((owned s)(OSem a := [])) x"
      using c nil by (cases x) (auto simp: heap_blocks_def)
  qed
  with m2 m1(2) ok have "kmem_ok inv blocks limit ?s" using m2(3) [of "[]"] by (simp add: kmem_ok_def)
  moreover have "freeSemaphore ops a s = Some ?s"
    using c nil m1(1) m2(1) sem_ops_set(1) [OF c(1,3)] by (simp add: freeSemaphore_def kq_free_def) (simp add: sem_set_def fun_upd_def)
  moreover have "dom (blocks m2) = dom (blocks (kmem s)) - {a, ?b}" using m1(4) m2(4) by auto
  ultimately show thesis using True freed by blast
qed

end

lemma post_queue_result:
  assumes "post_queue f u w = (v', w', wk)" "int (length w) = max 0 (1 - u)"
  shows "w' = tl (dropWhile (\<lambda>p. \<not> f p) w) \<and> wk = List.find f w \<and>
    v' = (if wk = None then max 1 u else - int (length w'))"
  using assms
proof (induction f u w rule: post_queue.induct)
  case (1 f u)
  then show ?case by auto
next
  case (2 f u p ps)
  then show ?case by (auto split: if_splits)
qed

section \<open>A resource guarded by a semaphore\<close>

text \<open>
  Interleaved use of one semaphore by any number of processes.  A configuration is a kernel state
  and the set of processes that hold a unit: those whose \<^verbatim>\<open>semWait\<close> returned at once and those a
  \<^verbatim>\<open>semPost\<close> woke up.  The running process may wait (if it holds no unit) or post (if it does), and
  a tick may come at any time.
\<close>
inductive guarded_step :: "'m mm_ops \<Rightarrow> u64 \<Rightarrow> 'm kst \<times> int set \<Rightarrow> 'm kst \<times> int set \<Rightarrow> bool"
  for mm a where
  take: "\<lbrakk> current_is s pid pr; p_state pr = RUNNING; pid \<noteq> 0; pid \<notin> H; semWait mm rsp a s = Some (s', r, False) \<rbrakk>
    \<Longrightarrow> guarded_step mm a (s, H) (s', insert pid H)"
| block: "\<lbrakk> current_is s pid pr; p_state pr = RUNNING; pid \<noteq> 0; pid \<notin> H; semWait mm rsp a s = Some (s', r, True) \<rbrakk>
    \<Longrightarrow> guarded_step mm a (s, H) (s', H)"
| post: "\<lbrakk> current_is s pid pr; p_state pr = RUNNING; pid \<in> H; semPost mm a s = Some (s', r) \<rbrakk>
    \<Longrightarrow> guarded_step mm a (s, H)
          (s', (H - {pid}) \<union> {p. pstate s p = Some BLOCKED \<and> pstate s' p = Some READY})"
| tick: "schedule mm rsp s = Some (s', r) \<Longrightarrow> guarded_step mm a (s, H) (s', H)"

definition guarded_inv :: "('m \<Rightarrow> bool) \<Rightarrow> ('m \<Rightarrow> u64 \<rightharpoonup> nat) \<Rightarrow> ('m \<Rightarrow> nat) \<Rightarrow> u64 \<Rightarrow> int \<Rightarrow> 'm kst \<times> int set \<Rightarrow> bool" where
  "guarded_inv minv mblocks mlimit a k = (\<lambda>(s, H). sched_inv s \<and> kmem_ok minv mblocks mlimit s \<and>
     schedulerEnabled s \<and> a \<noteq> 0 \<and> finite H \<and>
     (\<exists>c. sems s a = Some c \<and> \<not> sem_lock c \<and> int (card H) + max 0 (sem_value c) \<le> k \<and>
        distinct (waiters c) \<and> (\<forall>p \<in> set (waiters c). pstate s p = Some BLOCKED \<and> p \<notin> H)))"

lemma post_queue_head:
  assumes "post_queue f u w = (v', w', wk)" "\<forall>p \<in> set w. f p"
  shows "v' = u \<and> (wk = None \<and> w' = w \<or> u \<le> 0 \<and> (\<exists>p. wk = Some p \<and> w = p # w'))"
  using assms by (cases w) (auto split: if_splits)

context allocator
begin

lemma guarded_inv_step:
  assumes "guarded_step ops a x y" and "guarded_inv inv blocks limit a k x"
  shows "guarded_inv inv blocks limit a k y"
  using assms
proof (induction rule: guarded_step.induct)
  case (take s pid pr H rsp s' r)
  then obtain c where I: "sched_inv s" "kmem_ok inv blocks limit s" "schedulerEnabled s" "a \<noteq> 0" "finite H"
      "sems s a = Some c" "\<not> sem_lock c" "int (card H) + max 0 (sem_value c) \<le> k"
      "\<forall>p \<in> set (waiters c). pstate s p = Some BLOCKED \<and> p \<notin> H" "distinct (waiters c)"
    by (auto simp: guarded_inv_def)
  have pos: "sem_value c > 0"
  proof (rule ccontr)
    assume "\<not> sem_value c > 0"
    then have "sem_value c \<le> 0" by simp
    from semWait_block [OF I(1-3,6,4,7) this take(1-3), of rsp] take(5) show False by auto
  qed
  let ?c = "c\<lparr>sem_value := sem_value c - 1, sem_lock := False\<rparr>"
  have s': "s' = sem_set a ?c s" using semWait_take [OF I(6,4,7) pos, of rsp] take(5) by simp
  have run: "pstate s pid = Some RUNNING" using take(1,2) by (simp add: current_is_def pstate_def)
  have "kmem_ok inv blocks limit s'" unfolding s' by (rule kmem_sem_set [OF I(2,6)]) simp
  then show ?case using I pos run take(4) s' by (auto simp: guarded_inv_def waiters_def)
next
  case (block s pid pr H rsp s' r)
  then obtain c where I: "sched_inv s" "kmem_ok inv blocks limit s" "schedulerEnabled s" "a \<noteq> 0" "finite H"
      "sems s a = Some c" "\<not> sem_lock c" "int (card H) + max 0 (sem_value c) \<le> k"
      "\<forall>p \<in> set (waiters c). pstate s p = Some BLOCKED \<and> p \<notin> H" "distinct (waiters c)"
    by (auto simp: guarded_inv_def)
  have neg: "sem_value c \<le> 0"
  proof (rule ccontr)
    assume "\<not> sem_value c \<le> 0"
    then have "sem_value c > 0" by simp
    from semWait_take [OF I(6,4,7) this, of rsp] block(5) show False by simp
  qed
  from semWait_block [OF I(1-3,6,4,7) neg block(1-3), of rsp] obtain s1 q where
    s1: "semWait ops rsp a s = Some (s1, 0, True)"
      "sems s1 = (sems s)(a \<mapsto> c\<lparr>sem_value := sem_value c - 1, sem_blockedQueue := q, sem_lock := False\<rparr>)"
      "kq_elems q = waiters c @ [pid] \<or> kq_elems q = waiters c"
      "pstate s1 = (pstate s)(pid \<mapsto> BLOCKED, next_pid (rq_elems s) \<mapsto> RUNNING)" "next_pid (rq_elems s) \<noteq> pid"
      "currentProcess s1 = processTable s ! nat (next_pid (rq_elems s))"
      "rq_elems s1 = tl (rq_elems s)" "sched_frame s s1" "sched_inv s1" "kmem_ok inv blocks limit s1" .
  have "s' = s1" using s1(1) block(5) by simp
  moreover have "pstate s (next_pid (rq_elems s)) \<noteq> Some BLOCKED"
    using I(1) by (auto simp: next_pid_def sched_inv_def ready_ok_def idle_ok_def)
  then have "pstate s1 p = Some BLOCKED \<and> p \<notin> H" if "p \<in> set (kq_elems q)" for p
    using that s1(3,4,5) I(9) block(4) by auto
  moreover have "pid \<notin> set (waiters c)" using I(9) block(1,2) by (auto simp: current_is_def pstate_def)
  then have "distinct (kq_elems q)" using s1(3) I(10) by auto
  ultimately show ?case using I s1 neg by (auto simp: guarded_inv_def waiters_def sched_frame_def)
next
  case (post s pid pr H s' r)
  then obtain c where I: "sched_inv s" "kmem_ok inv blocks limit s" "schedulerEnabled s" "a \<noteq> 0" "finite H"
      "sems s a = Some c" "\<not> sem_lock c" "int (card H) + max 0 (sem_value c) \<le> k"
      "\<forall>p \<in> set (waiters c). pstate s p = Some BLOCKED \<and> p \<notin> H" "distinct (waiters c)"
    by (auto simp: guarded_inv_def)
  obtain v' w' wk where pq: "post_queue (\<lambda>p. pstate s p = Some BLOCKED) (sem_value c + 1) (waiters c) = (v', w', wk)"
    by (metis prod_cases3)
  from semPost_spec [OF I(1,2,6,4,7) pq] post(4) obtain q where
    s': "sems s' = (sems s)(a \<mapsto> c\<lparr>sem_value := v', sem_blockedQueue := q, sem_lock := False\<rparr>)" "kq_elems q = w'"
      "woke s s' wk" "sched_inv s'" "kmem_ok inv blocks limit s'" by (metis option.inject prod.inject)
  let ?W = "{p. pstate s p = Some BLOCKED \<and> pstate s' p = Some READY}"
  have en: "schedulerEnabled s'" using s'(3) I(3) by (simp add: woke_def sched_frame_def)
  from post_queue_head [OF pq] I(9) consider
      (none) "wk = None" "v' = sem_value c + 1" "w' = waiters c"
    | (some) p where "wk = Some p" "v' = sem_value c + 1" "sem_value c + 1 \<le> 0" "waiters c = p # w'"
    by auto
  then show ?case
  proof cases
    case none
    then have ps: "pstate s' = pstate s" using s'(3) by (simp add: woke_def pstate_def fun_eq_iff)
    then have W: "?W = {}" by auto
    have "int (card (H - {pid})) = int (card H) - 1"
      using post(3) I(5) card_Diff_singleton [of pid H] card_gt_0_iff [of H] by (auto simp: of_nat_diff)
    then show ?thesis using I s' en none ps unfolding W by (auto simp: guarded_inv_def waiters_def)
  next
    case (some p)
    obtain pr' where pr': "proc_at s p = Some pr'" "p_state pr' = BLOCKED"
        "proc_at s' = (proc_at s)(p \<mapsto> pr'\<lparr>p_state := READY\<rparr>)"
      using s'(3) some(1) by (auto simp: woke_def)
    have ps: "pstate s' = (pstate s)(p \<mapsto> READY)" using pstate_upd [OF pr'(3)] by simp
    have W: "?W = {p}" using ps pr' by (auto simp: pstate_def split: if_splits)
    have pH: "p \<notin> H" using I(9) some(4) by simp
    have "int (card ((H - {pid}) \<union> {p})) = int (card H)"
      using post(3) I(5) pH card_gt_0_iff [of H] by (simp add: card_insert_if card_Diff_singleton) auto
    moreover have "\<forall>x \<in> set w'. pstate s' x = Some BLOCKED \<and> x \<notin> (H - {pid}) \<union> {p}"
      using I(9,10) some(4) ps by auto
    moreover have "distinct w'" using I(10) some(4) by simp
    ultimately show ?thesis using I s' en some ps unfolding W by (auto simp: guarded_inv_def waiters_def)
  qed
next
  case (tick rsp s s' r H)
  then obtain c where I: "sched_inv s" "kmem_ok inv blocks limit s" "schedulerEnabled s" "a \<noteq> 0" "finite H"
      "sems s a = Some c" "\<not> sem_lock c" "int (card H) + max 0 (sem_value c) \<le> k"
      "\<forall>p \<in> set (waiters c). pstate s p = Some BLOCKED \<and> p \<notin> H" "distinct (waiters c)"
    by (auto simp: guarded_inv_def)
  from schedule_safe [OF I(1,2), of rsp] tick(1) have "sched_inv s'" "kmem_ok inv blocks limit s'"
      "sched_frame s s'" "sems s' = sems s" by (metis option.inject prod.inject)+
  moreover have "pstate s' p = Some BLOCKED" if "pstate s p = Some BLOCKED" for p
    using schedule_sleeping [OF I(1,2) tick(1), of p] that by simp
  ultimately show ?case using I by (auto simp: guarded_inv_def sched_frame_def)
qed

end

section \<open>A state with a waiting process\<close>

text \<open>The example state with init waiting on the semaphore in block 22.\<close>
definition demo_waiting :: "fl_state kst" where
  "demo_waiting = demo_kst\<lparr>procs := (procs demo_kst)(demo_ptr 8 \<mapsto> demo_proc 1 BLOCKED),
     readyQueue := Some \<lparr>kq_self = demo_ptr 24, kq_nodes = [(demo_ptr 25, 0)]\<rparr>,
     sems := (sems demo_kst)(demo_ptr 22 \<mapsto> \<lparr>sem_value = -1,
       sem_blockedQueue = \<lparr>kq_self = demo_ptr 23, kq_nodes = [(demo_ptr 26, 1)]\<rparr>, sem_lock = False\<rparr>)\<rparr>"

lemma demo_waiting_owned: "owned demo_waiting = (owned demo_kst)(OReady := [demo_ptr 25], OBlocked (demo_ptr 22) := [demo_ptr 26])"
proof
  fix x
  show "owned demo_waiting x = ((owned demo_kst)(OReady := [demo_ptr 25], OBlocked (demo_ptr 22) := [demo_ptr 26])) x"
    by (cases x) (auto simp: demo_waiting_def demo_defs heap_blocks_def qnodes_def qself_def sem_blocks_def
        proc_blocks_def demo_ptr_inj)
qed

lemma demo_waiting_kmem: "fl_kmem_ok demo_waiting"
proof -
  let ?l = "demo_label(26 := OBlocked (demo_ptr 22))"
  have "\<exists>is. owned demo_waiting x = map demo_ptr is \<and> distinct is \<and> (\<forall>i \<in> set is. i < 40 \<and> ?l i = x)" for x
  proof -
    consider (rdy) "x = OReady" | (blk) "x = OBlocked (demo_ptr 22)" | (oth) "x \<noteq> OReady" "x \<noteq> OBlocked (demo_ptr 22)" by blast
    then show ?thesis
    proof cases
      case rdy
      then show ?thesis by (intro exI [of _ "[25]"]) (simp add: demo_waiting_owned demo_label_def)
    next
      case blk
      then show ?thesis by (intro exI [of _ "[26]"]) (simp add: demo_waiting_owned)
    next
      case oth
      obtain "is" where i: "owned demo_kst x = map demo_ptr is" "distinct is" "\<forall>i \<in> set is. i < 40 \<and> demo_label i = x"
        using demo_owned [of x] by blast
      have "26 \<notin> set is" using i(3) oth(1) by (auto simp: demo_label_def)
      with i oth show ?thesis by (intro exI [of _ "is"]) (auto simp: demo_waiting_owned)
    qed
  qed
  from own_demo [OF this] show ?thesis by (simp add: kmem_ok_def) (simp add: demo_waiting_def demo_kst_def)
qed

lemma demo_waiting_at: "proc_at demo_waiting = (proc_at demo_kst)(1 \<mapsto> demo_proc 1 BLOCKED)"
proof (rule proc_at_upd)
  show "tab_ok demo_kst" using demo_sched by (simp add: sched_inv_def)
  show "proc_at demo_kst 1 = Some (demo_proc 1 READY)" by (simp add: demo_proc_at)
qed (simp_all add: demo_waiting_def demo_table)

lemma demo_waiting_sched: "sched_inv demo_waiting"
proof (rule fl.sched_inv_state [OF demo_sched])
  show "proc_at demo_kst 1 = Some (demo_proc 1 READY)" by (simp add: demo_proc_at)
  show "proc_at demo_waiting = (proc_at demo_kst)(1 \<mapsto> (demo_proc 1 READY)\<lparr>p_state := BLOCKED\<rparr>)"
    by (simp add: demo_waiting_at demo_proc_def)
qed (simp_all add: demo_waiting_def rq_elems_def kq_elems_def, simp_all add: demo_kst_def)

lemma demo_waiting_sem: "sems demo_waiting (demo_ptr 22) = Some \<lparr>sem_value = -1,
    sem_blockedQueue = \<lparr>kq_self = demo_ptr 23, kq_nodes = [(demo_ptr 26, 1)]\<rparr>, sem_lock = False\<rparr>"
  by (simp add: demo_waiting_def)

section \<open>Properties\<close>

text \<open>C4. \<^verbatim>\<open>semPost\<close> hands the unit over in arrival order: it always returns, wakes exactly the first
  queued process that is still blocked (waiters that were killed in between are dropped and give
  their unit back), keeps every other waiter in order, adds to the value only when there is nobody
  to wake, and leaves the value equal to minus the number of waiters; the scheduler invariant and
  the ownership are kept and the spinlock is free again.\<close>
theorem semPost_fifo:
  assumes "sched_inv s" and "fl_kmem_ok s" and "sems s a = Some c" and "a \<noteq> 0" and "\<not> sem_lock c" and "sem_bal c"
  shows "\<exists>s' c'. semPost fl_ops a s = Some (s', 0) \<and> sched_inv s' \<and> fl_kmem_ok s' \<and>
    sems s' = (sems s)(a \<mapsto> c') \<and> \<not> sem_lock c' \<and> sem_bal c' \<and>
    (case dropWhile (\<lambda>p. pstate s p \<noteq> Some BLOCKED) (waiters c) of
       [] \<Rightarrow> waiters c' = [] \<and> sem_value c' = max 0 (sem_value c) + 1 \<and> pstate s' = pstate s
     | p # ps \<Rightarrow> waiters c' = ps \<and> pstate s' = (pstate s)(p \<mapsto> READY) \<and>
         (rq_elems s' = rq_elems s @ [p] \<or> rq_elems s' = rq_elems s))"
proof -
  let ?f = "\<lambda>p. pstate s p = Some BLOCKED"
  obtain v' w' wk where pq: "post_queue ?f (sem_value c + 1) (waiters c) = (v', w', wk)" by (metis prod_cases3)
  from fl.semPost_spec [OF assms(1-5) pq] obtain s' q where
    s': "semPost fl_ops a s = Some (s', 0)"
      "sems s' = (sems s)(a \<mapsto> c\<lparr>sem_value := v', sem_blockedQueue := q, sem_lock := False\<rparr>)" "kq_elems q = w'"
      "woke s s' wk" "sched_inv s'" "fl_kmem_ok s'" .
  let ?c = "c\<lparr>sem_value := v', sem_blockedQueue := q, sem_lock := False\<rparr>"
  have len: "int (length (waiters c)) = max 0 (1 - (sem_value c + 1))"
    using assms(6) by (simp add: sem_bal_def length_waiters)
  note res = post_queue_result [OF pq len]
  have w': "waiters ?c = w'" using s'(3) by (simp add: waiters_def)
  have nodes: "length (kq_nodes q) = length w'" using s'(3) by (auto simp: kq_elems_def)
  show ?thesis
  proof (cases "dropWhile (\<lambda>p. \<not> ?f p) (waiters c)")
    case Nil
    then have "\<forall>x \<in> set (waiters c). \<not> ?f x" by (simp add: dropWhile_eq_Nil_conv)
    then have "List.find ?f (waiters c) = None" by (simp add: find_None_iff)
    with res Nil have none: "wk = None" "w' = []" by simp_all
    have ps: "pstate s' = pstate s" using s'(4) none by (simp add: woke_def pstate_def fun_eq_iff)
    have "v' = max 0 (sem_value c) + 1" using res none by simp
    moreover have "sem_bal ?c" using calculation nodes none by (simp add: sem_bal_def)
    ultimately show ?thesis
      using s' ps w' none unfolding Nil by (intro exI [of _ s'] exI [of _ ?c]) simp
  next
    case (Cons p ps)
    then have "List.find ?f (waiters c) = Some p" by (simp add: find_dropWhile comp_def)
    then have some: "wk = Some p" "w' = ps" "v' = - int (length ps)" using res Cons by auto
    obtain pr where "proc_at s' = (proc_at s)(p \<mapsto> pr\<lparr>p_state := READY\<rparr>)"
        and rq: "rq_elems s' = rq_elems s @ [p] \<or> rq_elems s' = rq_elems s"
      using s'(4) some by (auto simp: woke_def)
    from pstate_upd [OF this(1)] have "pstate s' = (pstate s)(p \<mapsto> READY)" by simp
    moreover have "sem_bal ?c" using some nodes by (simp add: sem_bal_def)
    ultimately show ?thesis using s' Cons w' some rq by (intro exI [of _ s'] exI [of _ ?c]) simp
  qed
qed

theorem semPost_fifo_witness:
  "\<exists>s'. semPost fl_ops (demo_ptr 22) demo_waiting = Some (s', 0) \<and> pstate s' 1 = Some READY"
proof -
  let ?c = "\<lparr>sem_value = -1, sem_blockedQueue = \<lparr>kq_self = demo_ptr 23, kq_nodes = [(demo_ptr 26, 1 :: int)]\<rparr>,
    sem_lock = False\<rparr>"
  have "waiters ?c = [1]" "pstate demo_waiting 1 = Some BLOCKED"
    by (simp_all add: waiters_def kq_elems_def pstate_def demo_waiting_at demo_proc_def)
  then have "dropWhile (\<lambda>p. pstate demo_waiting p \<noteq> Some BLOCKED) (waiters ?c) = [1]" by simp
  moreover have "demo_ptr 22 \<noteq> 0" "\<not> sem_lock ?c" "sem_bal ?c" by (simp_all add: demo_ptr_nonnull sem_bal_def)
  ultimately obtain s' where "semPost fl_ops (demo_ptr 22) demo_waiting = Some (s', 0)"
      "pstate s' = (pstate demo_waiting)(1 \<mapsto> READY)"
    using semPost_fifo [OF demo_waiting_sched demo_waiting_kmem demo_waiting_sem] by (simp del: fun_upd_apply) blast
  then show ?thesis by simp
qed

text \<open>C3. Mutual exclusion: however processes interleave waits, posts and ticks on a semaphore
  created with value \<open>k\<close>, at most \<open>k\<close> of them hold a unit at any time, and a process whose wait has
  not been granted stays blocked.\<close>
theorem semaphore_exclusion:
  assumes "(guarded_step fl_ops a)\<^sup>*\<^sup>* (s, {}) (s', H)"
    and "sched_inv s" and "fl_kmem_ok s" and "schedulerEnabled s" and "a \<noteq> 0"
    and "sems s a = Some c" and "sem_value c = k" and "0 \<le> k" and "waiters c = []" and "\<not> sem_lock c"
  shows "finite H \<and> int (card H) \<le> k \<and> sched_inv s' \<and> fl_kmem_ok s' \<and>
    (\<exists>c'. sems s' a = Some c' \<and> (\<forall>p \<in> set (waiters c'). pstate s' p = Some BLOCKED \<and> p \<notin> H))"
proof -
  have "guarded_inv fl_inv fl_blocks (\<lambda>_. 2 ^ 64 - 8) a k (s, {})"
    using assms(2-) by (simp add: guarded_inv_def)
  moreover have "guarded_inv fl_inv fl_blocks (\<lambda>_. 2 ^ 64 - 8) a k y"
    if "(guarded_step fl_ops a)\<^sup>*\<^sup>* x y" "guarded_inv fl_inv fl_blocks (\<lambda>_. 2 ^ 64 - 8) a k x" for x y
    using that by (induction rule: rtranclp_induct) (blast intro: fl.guarded_inv_step)+
  ultimately have "guarded_inv fl_inv fl_blocks (\<lambda>_. 2 ^ 64 - 8) a k (s', H)" using assms(1) by blast
  then show ?thesis by (auto simp: guarded_inv_def)
qed

text \<open>A run on the example state: the running process takes the only unit.\<close>
theorem semaphore_exclusion_witness:
  "\<exists>s' H. (guarded_step fl_ops (demo_ptr 22))\<^sup>*\<^sup>*
      (sem_set (demo_ptr 22) ((demo_sem 22)\<lparr>sem_value := 1\<rparr>) demo_kst, {}) (s', H) \<and> 2 \<in> H \<and> int (card H) \<le> 1"
proof -
  let ?c = "(demo_sem 22)\<lparr>sem_value := 1\<rparr>" and ?a = "demo_ptr 22"
  let ?s = "sem_set ?a ?c demo_kst"
  have c: "sems ?s ?a = Some ?c" by simp
  have cl: "a \<noteq> 0" if "a = ?a" for a using that demo_ptr_nonnull by simp
  have "sems demo_kst ?a = Some (demo_sem 22)" by (simp add: demo_kst_def demo_ptr_inj)
  then have mem: "fl_kmem_ok ?s" by (rule kmem_sem_set [OF demo_kmem]) simp
  obtain s' r where w: "semWait fl_ops 0 ?a ?s = Some (s', r, False)"
    using fl.semWait_take [OF c cl] by (simp add: demo_sem_def)
  have cur: "current_is ?s 2 (demo_proc 2 RUNNING)"
    by (simp add: current_is_def demo_proc_at demo_table demo_ptr_nonnull) (simp add: demo_kst_def demo_ptr_nonnull)
  have "guarded_step fl_ops ?a (?s, {}) (s', insert 2 {})"
    by (rule guarded_step.take [OF cur _ _ _ w]) (simp_all add: demo_proc_def)
  then have st: "(guarded_step fl_ops ?a)\<^sup>*\<^sup>* (?s, {}) (s', {2})" by simp
  have "schedulerEnabled ?s" by (simp add: demo_kst_def)
  moreover have "sched_inv ?s" "?a \<noteq> 0" "waiters ?c = []" "sem_value ?c = 1" "(0 :: int) \<le> 1" "\<not> sem_lock ?c"
    using demo_sched by (simp_all add: demo_ptr_nonnull demo_sem_def waiters_def kq_elems_def demo_queue_def)
  ultimately have "int (card {2 :: int}) \<le> 1"
    using semaphore_exclusion [OF st _ mem _ _ c, of 1] by blast
  then show ?thesis using st by blast
qed

text \<open>Waking a process by pid ignores the semaphore it waits on: \<^verbatim>\<open>setReady\<close>, which the unblock
  system call runs on any pid, makes a process queued in a semaphore ready without giving it a
  unit; the value does not change and the pid stays in the semaphore's queue.\<close>
theorem setReady_bypasses_semaphore:
  assumes "sched_inv s" and "fl_kmem_ok s" and "sems s a = Some c" and "pid \<in> set (waiters c)"
    and "pstate s pid = Some BLOCKED"
  shows "\<exists>s'. setReady fl_ops pid s = Some (s', 0) \<and> pstate s' pid = Some READY \<and> sems s' a = Some c"
  using assms(1,2)
proof (cases rule: fl.setReady_spec [where pid = pid])
  case refused
  with assms(5) show ?thesis by simp
next
  case (woken s' pr)
  with assms(3) show ?thesis by (simp add: pstate_def)
qed

theorem setReady_bypasses_semaphore_witness:
  "\<exists>s' c. setReady fl_ops 1 demo_waiting = Some (s', 0) \<and> pstate s' 1 = Some READY \<and>
     sems s' (demo_ptr 22) = Some c \<and> sem_value c = -1 \<and> waiters c = [1]"
  using setReady_bypasses_semaphore [OF demo_waiting_sched demo_waiting_kmem demo_waiting_sem, of 1]
  by (auto simp: waiters_def kq_elems_def pstate_def demo_waiting_at demo_proc_def)

end
