(* ===== verification/KLib.thy ===== *)
theory KLib
  imports KPrelude
begin

unbundle bit_operations_syntax

text \<open>
  \<^verbatim>\<open>Kernel/lib.c\<close>: the kernel's replacements of the C library, on a flat byte memory.  A loop that
  stops at a terminator is a partial function (\<open>None\<close> when there is no terminator ahead); a counted
  loop is a recursion on its counter.
\<close>

type_synonym mem = "u64 \<Rightarrow> u8"

section \<open>Code\<close>

fun memset_loop :: "u64 \<Rightarrow> u8 \<Rightarrow> nat \<Rightarrow> mem \<Rightarrow> mem" where
  "memset_loop dst chr 0 m = m"
| "memset_loop dst chr (Suc n) m = memset_loop dst chr n (m(dst + of_nat n := chr))"

text \<open>\<^verbatim>\<open>while (length--) dst[length] = chr\<close>: from the last byte down; the value is truncated to a byte.\<close>
definition memset :: "u64 \<Rightarrow> u32 \<Rightarrow> u64 \<Rightarrow> mem \<Rightarrow> mem" where
  "memset destination c len m = memset_loop destination (ucast c) (unat len) m"

fun copy_bytes :: "u64 \<Rightarrow> u64 \<Rightarrow> nat \<Rightarrow> nat \<Rightarrow> mem \<Rightarrow> mem" where
  "copy_bytes d s i 0 m = m"
| "copy_bytes d s i (Suc n) m = copy_bytes d s (Suc i) n (m(d + of_nat i := m (s + of_nat i)))"

text \<open>One 32-bit load and store.\<close>
definition copy_word :: "u64 \<Rightarrow> u64 \<Rightarrow> mem \<Rightarrow> mem" where
  "copy_word d s m = m(d := m s, d + 1 := m (s + 1), d + 2 := m (s + 2), d + 3 := m (s + 3))"

fun copy_words :: "u64 \<Rightarrow> u64 \<Rightarrow> nat \<Rightarrow> nat \<Rightarrow> mem \<Rightarrow> mem" where
  "copy_words d s i 0 m = m"
| "copy_words d s i (Suc n) m =
     copy_words d s (Suc i) n (copy_word (d + 4 * of_nat i) (s + 4 * of_nat i) m)"

definition memcpy :: "u64 \<Rightarrow> u64 \<Rightarrow> u64 \<Rightarrow> mem \<Rightarrow> mem" where
  "memcpy destination source len m =
     (if destination mod 4 = 0 \<and> source mod 4 = 0 \<and> len mod 4 = 0
      then copy_words destination source 0 (unat (len div 4)) m
      else copy_bytes destination source 0 (unat len) m)"

partial_function (option) strcmp :: "mem \<Rightarrow> u64 \<Rightarrow> u64 \<Rightarrow> int option" where
  "strcmp m s1 s2 =
     (let c1 = m s1; c2 = m s2 in
      if c1 = 0 then Some (uint c1 - uint c2)
      else if c1 = c2 then strcmp m (s1 + 1) (s2 + 1)
      else Some (uint c1 - uint c2))"

partial_function (option) strcpy :: "u64 \<Rightarrow> u64 \<Rightarrow> mem \<Rightarrow> mem option" where
  "strcpy dest src m =
     (let c = m src; m = m(dest := c) in
      if c \<noteq> 0 then strcpy (dest + 1) (src + 1) m else Some m)"

definition hexChars :: "u8 list" where
  "hexChars = map (\<lambda>n. of_nat n) ([48..<58] @ [65..<71])"

definition uint64ToHex :: "u64 \<Rightarrow> u8 list" where
  "uint64ToHex value = [48, 120] @
     map (\<lambda>i. hexChars ! unat (drop_bit ((15 - i) * 4) value AND 0xF)) [0..<16]"

partial_function (option) strlen_loop :: "mem \<Rightarrow> u64 \<Rightarrow> u64 \<Rightarrow> u64 option" where
  "strlen_loop m str len = (if m (str + len) \<noteq> 0 then strlen_loop m str (len + 1) else Some len)"

definition strlen :: "mem \<Rightarrow> u64 \<Rightarrow> u64 option" where
  "strlen m str = strlen_loop m str 0"

partial_function (option) concat_loop :: "u64 \<Rightarrow> u64 \<Rightarrow> nat \<Rightarrow> nat \<Rightarrow> mem \<Rightarrow> (mem \<times> nat) option" where
  "concat_loop dest str i pos m =
     (if m (str + of_nat i) \<noteq> 0
      then concat_loop dest str (Suc i) (Suc pos) (m(dest + of_nat pos := m (str + of_nat i)))
      else Some (m, pos))"

definition concat_strings :: "u64 \<Rightarrow> u64 \<Rightarrow> u64 \<Rightarrow> mem \<Rightarrow> mem option" where
  "concat_strings dest str1 str2 m = do {
     (m, pos) \<leftarrow> concat_loop dest str1 0 0 m;
     (m, pos) \<leftarrow> concat_loop dest str2 0 pos m;
     Some (m(dest + of_nat pos := 0))
   }"

declare strcmp.simps [simp del] strcpy.simps [simp del] strlen_loop.simps [simp del] concat_loop.simps [simp del]

section \<open>Strings in memory\<close>

text \<open>A C string at an address: its bytes, none of them zero, and the terminator.\<close>
fun cstr :: "mem \<Rightarrow> u64 \<Rightarrow> u8 list \<Rightarrow> bool" where
  "cstr m p [] \<longleftrightarrow> m p = 0"
| "cstr m p (c # cs) \<longleftrightarrow> m p = c \<and> c \<noteq> 0 \<and> cstr m (p + 1) cs"

text \<open>The bytes at distance less than \<open>n\<close> from an address.\<close>
definition region :: "u64 \<Rightarrow> nat \<Rightarrow> u64 set" where
  "region p n = (\<lambda>i. p + of_nat i) ` {..<n}"

lemma region_0 [simp]: "region p 0 = {}"
  by (simp add: region_def)

lemma region_Suc: "region p (Suc n) = insert p (region (p + 1) n)"
  by (auto simp: region_def image_iff lessThan_Suc_eq_insert_0 algebra_simps)

lemma region_next: "n < 2 ^ 64 \<Longrightarrow> p \<notin> region (p + 1) n"
proof
  assume n: "n < 2 ^ 64" and "p \<in> region (p + 1) n"
  then obtain i where i: "i < n" "p = p + 1 + of_nat i" by (auto simp: region_def)
  have "p + of_nat (Suc i) = p" using i(2) by (metis add.assoc of_nat_Suc)
  then have "(of_nat (Suc i) :: u64) = 0" by (simp only: add_cancel_left_right)
  then have "2 ^ 64 dvd Suc i" by (simp only: word_of_nat_eq_0_iff) simp
  with i(1) n show False by (auto dest: dvd_imp_le)
qed

lemma region_mem: "i < n \<Longrightarrow> p + of_nat i \<in> region p n"
  by (auto simp: region_def)

lemma cstr_frame: "(\<And>a. a \<in> region p (Suc (length cs)) \<Longrightarrow> m' a = m a) \<Longrightarrow> cstr m' p cs = cstr m p cs"
proof (induction cs arbitrary: p)
  case Nil
  then show ?case by (simp add: region_Suc)
next
  case (Cons c cs)
  have "cstr m' (p + 1) cs = cstr m (p + 1) cs"
    by (rule Cons.IH) (use Cons.prems in \<open>simp add: region_Suc\<close>)
  moreover have "m' p = m p" by (rule Cons.prems) (simp add: region_Suc)
  ultimately show ?case by simp
qed

text \<open>The order \<^verbatim>\<open>strcmp\<close> computes: the first difference decides, a proper prefix comes first.\<close>
fun cmp_bytes :: "u8 list \<Rightarrow> u8 list \<Rightarrow> int" where
  "cmp_bytes [] [] = 0"
| "cmp_bytes [] (d # ds) = - uint d"
| "cmp_bytes (c # cs) [] = uint c"
| "cmp_bytes (c # cs) (d # ds) = (if c = d then cmp_bytes cs ds else uint c - uint d)"

lemma strcmp_cstr: "cstr m p cs \<Longrightarrow> cstr m q ds \<Longrightarrow> strcmp m p q = Some (cmp_bytes cs ds)"
proof (induction cs ds arbitrary: p q rule: cmp_bytes.induct)
  case 1
  then show ?case by (subst strcmp.simps) (simp add: Let_def)
next
  case (2 d ds)
  then show ?case by (subst strcmp.simps) (simp add: Let_def)
next
  case (3 c cs)
  then show ?case by (subst strcmp.simps) (simp add: Let_def)
next
  case (4 c cs d ds)
  then show ?case by (subst strcmp.simps) (auto simp: Let_def)
qed

lemma cmp_bytes_zero: "0 \<notin> set cs \<Longrightarrow> 0 \<notin> set ds \<Longrightarrow> cmp_bytes cs ds = 0 \<longleftrightarrow> cs = ds"
  by (induction cs ds rule: cmp_bytes.induct) (auto simp: uint_0_iff dest: unsigned_word_eqI)

lemma cstr_nonzero: "cstr m p cs \<Longrightarrow> 0 \<notin> set cs"
  by (induction cs arbitrary: p) auto

lemma cstr_at: "cstr m p cs \<Longrightarrow> i < length cs \<Longrightarrow> m (p + of_nat i) = cs ! i \<and> cs ! i \<noteq> 0"
proof (induction cs arbitrary: p i)
  case (Cons c cs)
  then show ?case
  proof (cases i)
    case (Suc j)
    from Cons.IH [of "p + 1" j] Cons.prems Suc show ?thesis by (simp add: algebra_simps)
  qed simp
qed simp

lemma cstr_end: "cstr m p cs \<Longrightarrow> m (p + of_nat (length cs)) = 0"
proof (induction cs arbitrary: p)
  case (Cons c cs)
  from Cons.IH [of "p + 1"] Cons.prems show ?case by (simp add: algebra_simps)
qed simp

lemma strlen_loop_cstr:
  assumes "cstr m p cs" "i \<le> length cs"
  shows "strlen_loop m p (of_nat i) = Some (of_nat (length cs))"
  using assms(2)
proof (induction rule: inc_induct)
  case base
  then show ?case using cstr_end [OF assms(1)] by (subst strlen_loop.simps) simp
next
  case (step i)
  have "m (p + of_nat i) \<noteq> 0" using cstr_at [OF assms(1) step(2)] by simp
  with step(3) show ?case by (subst strlen_loop.simps) (simp add: algebra_simps)
qed

lemma strcpy_cstr:
  assumes "cstr m p cs" "region d (Suc (length cs)) \<inter> region p (Suc (length cs)) = {}" "Suc (length cs) < 2 ^ 64"
  shows "\<exists>m'. strcpy d p m = Some m' \<and> cstr m' d cs \<and> (\<forall>a. a \<notin> region d (Suc (length cs)) \<longrightarrow> m' a = m a)"
  using assms
proof (induction cs arbitrary: d p m)
  case Nil
  then show ?case by (subst strcpy.simps) (auto simp: Let_def region_Suc)
next
  case (Cons c cs)
  let ?m = "m(d := c)"
  have c: "m p = c" "c \<noteq> 0" using Cons.prems by simp_all
  have "cstr ?m (p + 1) cs"
    using Cons.prems by (subst cstr_frame [where m = m]) (auto simp: region_Suc)
  moreover have "region (d + 1) (Suc (length cs)) \<inter> region (p + 1) (Suc (length cs)) = {}"
    using Cons.prems(2) by (auto simp: region_Suc [of d] region_Suc [of p])
  ultimately obtain m' where m': "strcpy (d + 1) (p + 1) ?m = Some m'" "cstr m' (d + 1) cs"
      "\<forall>a. a \<notin> region (d + 1) (Suc (length cs)) \<longrightarrow> m' a = ?m a"
    using Cons.IH [of ?m "p + 1" "d + 1"] Cons.prems(3) by (metis Suc_lessD length_Cons)
  have "strcpy d p m = Some m'" using c m'(1) by (subst strcpy.simps) (simp add: Let_def)
  moreover have "m' d = c" using m'(3) region_next [of "Suc (length cs)" d] Cons.prems(3) by simp
  moreover have "\<forall>a. a \<notin> region d (Suc (length (c # cs))) \<longrightarrow> m' a = m a"
    using m'(3) by (simp add: region_Suc [of d])
  ultimately show ?case using c m'(2) by auto
qed

section \<open>Block copies\<close>

text \<open>Two blocks of \<open>n\<close> bytes with no common address.\<close>
definition apart :: "u64 \<Rightarrow> u64 \<Rightarrow> nat \<Rightarrow> bool" where
  "apart d s n \<longleftrightarrow> (\<forall>a. unat (a - d) < n \<longrightarrow> \<not> unat (a - s) < n)"

lemma apart_mono: "apart d s n \<Longrightarrow> k \<le> n \<Longrightarrow> apart d s k"
  unfolding apart_def by (meson less_le_trans)

lemma unat_offset: "n < 2 ^ 64 \<Longrightarrow> i < n \<Longrightarrow> unat (d + of_nat i - d :: u64) = i"
  by (simp add: unat_of_nat take_bit_nat_eq_self)

lemma eq_offset: "i < 2 ^ 64 \<Longrightarrow> a = d + of_nat i \<longleftrightarrow> unat (a - d :: u64) = i"
proof -
  assume i: "i < 2 ^ 64"
  have "a = d + of_nat i \<longleftrightarrow> a - d = of_nat i" by (auto simp: algebra_simps)
  also have "\<dots> \<longleftrightarrow> unat (a - d) = unat (of_nat i :: u64)" by (rule word_eq_iff_unsigned)
  also have "unat (of_nat i :: u64) = i" using i by (simp add: unat_of_nat take_bit_nat_eq_self)
  finally show ?thesis .
qed

lemma copy_bytes_result:
  assumes "apart d s (i + n)" "i + n < 2 ^ 64"
  shows "copy_bytes d s i n m = (\<lambda>a. if i \<le> unat (a - d) \<and> unat (a - d) < i + n then m (s + (a - d)) else m a)"
  using assms
proof (induction n arbitrary: i m)
  case 0
  have "\<not> (i \<le> unat (a - d) \<and> unat (a - d) < i + 0)" for a by simp
  then show ?case by (simp only: copy_bytes.simps if_False)
next
  case (Suc n)
  let ?m = "m(d + of_nat i := m (s + of_nat i))"
  have "copy_bytes d s (Suc i) n ?m =
      (\<lambda>a. if Suc i \<le> unat (a - d) \<and> unat (a - d) < Suc i + n then ?m (s + (a - d)) else ?m a)"
    by (rule Suc.IH) (use Suc.prems in simp_all)
  moreover have "?m (s + (a - d)) = m (s + (a - d))" if "unat (a - d) < i + Suc n" for a
  proof -
    have "s + (a - d) \<noteq> d + of_nat i"
    proof
      assume e: "s + (a - d) = d + of_nat i"
      have "unat (d + of_nat i - d) < i + Suc n" using unat_offset [of "i + Suc n" i d] Suc.prems(2) by simp
      moreover have "unat (s + (a - d) - s) < i + Suc n" using that by simp
      ultimately show False using Suc.prems(1) e unfolding apart_def by metis
    qed
    then show ?thesis by simp
  qed
  moreover have "a = d + of_nat i \<longleftrightarrow> unat (a - d) = i" for a by (rule eq_offset) (use Suc.prems in simp)
  ultimately show ?case by (auto simp: fun_eq_iff)
qed

lemma copy_bytes_add: "copy_bytes d s i (j + k) m = copy_bytes d s (i + j) k (copy_bytes d s i j m)"
  by (induction j arbitrary: i m) simp_all

lemma copy_word_bytes:
  assumes "apart d s (4 * i + 4)" "4 * i + 4 < 2 ^ 64"
  shows "copy_word (d + 4 * of_nat i) (s + 4 * of_nat i) m = copy_bytes d s (4 * i) 4 m"
proof -
  have w: "(4 :: u64) * of_nat i + 1 = of_nat (4 * i + 1)" "(4 :: u64) * of_nat i + 2 = of_nat (4 * i + 2)"
    "(4 :: u64) * of_nat i + 3 = of_nat (4 * i + 3)" "(4 :: u64) * of_nat i = of_nat (4 * i)" by simp_all
  have eq: "x = d + of_nat j \<longleftrightarrow> unat (x - d) = j" if "j < 4 * i + 4" for x j
    by (rule eq_offset) (use that assms(2) in simp)
  show ?thesis
  proof
    fix x
    let ?k = "unat (x - d)"
    have off: "s + of_nat j = s + (x - d)" if "?k = j" "j < 4 * i + 4" for j
    proof -
      have "x = d + of_nat j" using eq [OF that(2)] that(1) by blast
      then show ?thesis by simp
    qed
    have "copy_word (d + 4 * of_nat i) (s + 4 * of_nat i) m x =
        (if ?k = 4 * i + 3 then m (s + of_nat (4 * i + 3)) else if ?k = 4 * i + 2 then m (s + of_nat (4 * i + 2))
         else if ?k = 4 * i + 1 then m (s + of_nat (4 * i + 1)) else if ?k = 4 * i then m (s + of_nat (4 * i)) else m x)"
      unfolding copy_word_def add.assoc w(1-3) unfolding w(4) by (simp only: fun_upd_apply eq)
    also have "\<dots> = (if 4 * i \<le> ?k \<and> ?k < 4 * i + 4 then m (s + (x - d)) else m x)"
    proof (cases "4 * i \<le> ?k \<and> ?k < 4 * i + 4")
      case True
      then consider "?k = 4 * i" | "?k = 4 * i + 1" | "?k = 4 * i + 2" | "?k = 4 * i + 3" by linarith
      then show ?thesis by cases (simp_all only: off if_True, simp_all)
    next
      case False
      then show ?thesis by auto
    qed
    finally show "copy_word (d + 4 * of_nat i) (s + 4 * of_nat i) m x = copy_bytes d s (4 * i) 4 m x"
      by (simp only: copy_bytes_result [OF assms])
  qed
qed

lemma copy_words_bytes:
  assumes "apart d s (4 * (i + n))" "4 * (i + n) < 2 ^ 64"
  shows "copy_words d s i n m = copy_bytes d s (4 * i) (4 * n) m"
  using assms
proof (induction n arbitrary: i m)
  case (Suc n)
  have "apart d s (4 * i + 4)" using Suc.prems(1) by (rule apart_mono) simp
  then have "copy_word (d + 4 * of_nat i) (s + 4 * of_nat i) m = copy_bytes d s (4 * i) 4 m"
    by (rule copy_word_bytes) (use Suc.prems(2) in simp)
  then show ?case
    using Suc.IH [of "Suc i"] Suc.prems copy_bytes_add [of d s "4 * i" 4 "4 * n" m] by (simp add: algebra_simps)
qed simp

lemma memcpy_result:
  assumes "apart d s (unat n)"
  shows "memcpy d s n m = (\<lambda>a. if unat (a - d) < unat n then m (s + (a - d)) else m a)"
proof -
  have len: "unat n < 2 ^ 64" using unat_lt2p [of n] by simp
  have bytes: "copy_bytes d s 0 (unat n) m = (\<lambda>a. if unat (a - d) < unat n then m (s + (a - d)) else m a)"
    using copy_bytes_result [of d s 0 "unat n" m] assms len by simp
  show ?thesis
  proof (cases "d mod 4 = 0 \<and> s mod 4 = 0 \<and> n mod 4 = 0")
    case True
    then have "unat (n mod 4) = 0" by simp
    then have "unat n mod 4 = 0" by (simp add: unat_mod_distrib)
    then have q: "4 * unat (n div 4) = unat n" by (simp add: unat_div_distrib mod_0_imp_dvd)
    have "copy_words d s 0 (unat (n div 4)) m = copy_bytes d s 0 (unat n) m"
      using copy_words_bytes [of d s 0 "unat (n div 4)" m] assms len q by simp
    moreover have "memcpy d s n m = copy_words d s 0 (unat (n div 4)) m" unfolding memcpy_def using True by (rule if_P)
    ultimately show ?thesis using bytes by simp
  next
    case False
    then have "memcpy d s n m = copy_bytes d s 0 (unat n) m" unfolding memcpy_def by (rule if_not_P)
    with bytes show ?thesis by simp
  qed
qed

section \<open>Properties\<close>

text \<open>\<^verbatim>\<open>memcpy\<close> on blocks that do not overlap copies exactly the requested bytes, whichever of
  its two loops runs: the word-at-a-time path taken for aligned arguments has the same result as
  the byte-at-a-time one, and nothing outside the destination changes.\<close>
theorem memcpy_copies:
  assumes "apart d s (unat n)"
  shows "memcpy d s n m = (\<lambda>a. if unat (a - d) < unat n then m (s + (a - d)) else m a)"
  by (rule memcpy_result [OF assms])

theorem memcpy_copies_witness:
  "memcpy 100 200 8 (\<lambda>a. ucast a) 103 = 203 \<and> memcpy 100 201 8 (\<lambda>a. ucast a) 103 = 204"
proof -
  have far: "\<not> unat (a - s) < 8" if "unat (a - 100) < 8" "s = 200 \<or> s = 201" for a s :: u64
  proof -
    define k where "k = unat (a - 100)"
    then have k: "a - 100 = of_nat k" "k < 8" using that(1) by simp_all
    have "k \<in> {0, 1, 2, 3, 4, 5, 6, 7}" using k(2) by auto
    moreover have "a = 100 + of_nat k" using k(1) by (simp add: algebra_simps)
    ultimately have "a \<in> {100, 101, 102, 103, 104, 105, 106, 107}" by auto
    then show ?thesis using that(2) by auto
  qed
  have "apart 100 200 (unat (8 :: u64))" "apart 100 201 (unat (8 :: u64))"
    using far by (simp_all add: apart_def)
  from memcpy_copies [OF this(1), of "\<lambda>a. ucast a"] memcpy_copies [OF this(2), of "\<lambda>a. ucast a"]
  show ?thesis by simp
qed

text \<open>\<^verbatim>\<open>strcmp\<close> on two terminated strings always returns; the result is \<open>0\<close> exactly for equal
  strings and otherwise has the sign of the first difference.\<close>
theorem strcmp_correct:
  assumes "cstr m p cs" and "cstr m q ds"
  shows "\<exists>r. strcmp m p q = Some r \<and> r = cmp_bytes cs ds \<and> (r = 0 \<longleftrightarrow> cs = ds)"
  using strcmp_cstr [OF assms] cmp_bytes_zero [OF cstr_nonzero [OF assms(1)] cstr_nonzero [OF assms(2)]] by simp

theorem strcmp_correct_witness:
  "\<exists>r. strcmp (\<lambda>a. if a = 0 then 97 else if a = 10 then 97 else if a = 11 then 98 else 0) 0 10 = Some r \<and> r \<noteq> 0"
  using strcmp_correct [of "\<lambda>a. if a = 0 then 97 else if a = 10 then 97 else if a = 11 then 98 else 0" 0 "[97]" 10 "[97, 98]"]
  by simp

text \<open>\<^verbatim>\<open>strlen\<close> and \<^verbatim>\<open>strcpy\<close> on a terminated string: the length is the number of bytes before
  the terminator, and the copy into a disjoint buffer yields the same string and touches nothing
  beyond its terminator.\<close>
theorem strlen_strcpy_correct:
  assumes "cstr m p cs" and "region d (Suc (length cs)) \<inter> region p (Suc (length cs)) = {}" and "Suc (length cs) < 2 ^ 64"
  shows "strlen m p = Some (of_nat (length cs)) \<and>
    (\<exists>m'. strcpy d p m = Some m' \<and> cstr m' d cs \<and> (\<forall>a. a \<notin> region d (Suc (length cs)) \<longrightarrow> m' a = m a))"
  using strlen_loop_cstr [OF assms(1), of 0] strcpy_cstr [OF assms] by (simp add: strlen_def)

theorem strlen_strcpy_correct_witness:
  "\<exists>m'. strcpy 50 0 (\<lambda>a. if a < 2 then 97 else 0) = Some m' \<and> cstr m' 50 [97, 97]"
  using strlen_strcpy_correct [of "\<lambda>a. if a < 2 then 97 else 0" 0 "[97, 97]" 50]
  by (auto simp: region_Suc)

end
