(* ===== verification/KSharedSem.thy ===== *)
theory KSharedSem
  imports KSem
begin

text \<open>
  \<^verbatim>\<open>Kernel/semaphores/sharedSemaphores.c\<close>: the table of semaphores shared by name.  A name is the
  byte list of the C string.  \<^verbatim>\<open>strcpy\<close> into the 32-byte field is not checked by the code: a longer
  name overruns the entry, which the model answers with \<open>None\<close> (no defined outcome).
\<close>

section \<open>Code\<close>

record SharedSem =
  ss_used :: bool
  ss_name :: "u8 list"
  ss_sem :: u64
  ss_refCount :: int

record shared_table =
  sh_table :: "SharedSem list"
  sh_lock :: bool

definition MAX_SHARED_SEMS :: nat where "MAX_SHARED_SEMS = 64"
definition SEM_NAME_MAX :: nat where "SEM_NAME_MAX = 32"

definition findByName :: "u8 list \<Rightarrow> shared_table \<Rightarrow> int" where
  "findByName name t =
     (case List.find (\<lambda>i. ss_used (sh_table t ! i) \<and> ss_name (sh_table t ! i) = name) [0..<MAX_SHARED_SEMS] of
        None \<Rightarrow> -1 | Some i \<Rightarrow> int i)"

definition findFreeSlot :: "shared_table \<Rightarrow> int" where
  "findFreeSlot t =
     (case List.find (\<lambda>i. \<not> ss_used (sh_table t ! i)) [0..<MAX_SHARED_SEMS] of None \<Rightarrow> -1 | Some i \<Rightarrow> int i)"

definition sh_acquire :: "shared_table \<Rightarrow> shared_table option" where
  "sh_acquire t = (if sh_lock t then None else Some (t\<lparr>sh_lock := True\<rparr>))"

definition sh_release :: "shared_table \<Rightarrow> shared_table" where
  "sh_release t = t\<lparr>sh_lock := False\<rparr>"

definition sh_upd :: "int \<Rightarrow> (SharedSem \<Rightarrow> SharedSem) \<Rightarrow> shared_table \<Rightarrow> shared_table" where
  "sh_upd idx f t = t\<lparr>sh_table := (sh_table t)[nat idx := f (sh_table t ! nat idx)]\<rparr>"

definition bad_name :: "u8 list option \<Rightarrow> bool" where
  "bad_name name = (case name of None \<Rightarrow> True | Some n \<Rightarrow> n = [])"

definition sharedSemOpen :: "'m mm_ops \<Rightarrow> u8 list option \<Rightarrow> int \<Rightarrow> shared_table \<times> 'm kst \<Rightarrow>
    ((shared_table \<times> 'm kst) \<times> int) option" where
  "sharedSemOpen mm name initialValue = (\<lambda>(t, s).
     if bad_name name then Some ((t, s), -1)
     else do {
       t \<leftarrow> sh_acquire t;
       (let idx = findByName (the name) t in
        if idx \<ge> 0
        then Some ((sh_release (sh_upd idx (\<lambda>e. e\<lparr>ss_refCount := ss_refCount e + 1\<rparr>) t), s), 0)
        else (let idx = findFreeSlot t in
          if idx < 0 then Some ((sh_release t, s), -1)
          else do {
            (s, sem) \<leftarrow> newSemaphore mm initialValue s;
            if sem = 0 then Some ((sh_release t, s), -1)
            else if length (the name) \<ge> SEM_NAME_MAX then None
            else Some ((sh_release (sh_upd idx
              (\<lambda>e. \<lparr>ss_used = True, ss_name = the name, ss_sem = sem, ss_refCount = 1\<rparr>) t), s), 0)
          }))
     })"

definition sharedSemClose :: "'m mm_ops \<Rightarrow> u8 list option \<Rightarrow> shared_table \<times> 'm kst \<Rightarrow>
    ((shared_table \<times> 'm kst) \<times> int) option" where
  "sharedSemClose mm name = (\<lambda>(t, s).
     if bad_name name then Some ((t, s), -1)
     else do {
       t \<leftarrow> sh_acquire t;
       (let idx = findByName (the name) t in
        if idx < 0 then Some ((sh_release t, s), -1)
        else (let t = sh_upd idx (\<lambda>e. e\<lparr>ss_refCount := ss_refCount e - 1\<rparr>) t in
          if ss_refCount (sh_table t ! nat idx) \<le> 0
          then (let sem = ss_sem (sh_table t ! nat idx);
                    t = sh_release (sh_upd idx (\<lambda>e. e\<lparr>ss_used := False, ss_sem := 0\<rparr>) t) in do {
            s \<leftarrow> freeSemaphore mm sem s;
            Some ((t, s), 0)
          })
          else Some ((sh_release t, s), 0)))
     })"

definition sh_lookup :: "u8 list \<Rightarrow> shared_table \<Rightarrow> u64" where
  "sh_lookup name t = (let idx = findByName name t in if idx \<ge> 0 then ss_sem (sh_table t ! nat idx) else 0)"

definition sharedSemWait :: "'m mm_ops \<Rightarrow> u64 \<Rightarrow> u8 list option \<Rightarrow> shared_table \<times> 'm kst \<Rightarrow>
    ((shared_table \<times> 'm kst) \<times> int \<times> bool) option" where
  "sharedSemWait mm rsp name = (\<lambda>(t, s).
     if bad_name name then Some ((t, s), -1, False)
     else do {
       t \<leftarrow> sh_acquire t;
       (let sem = sh_lookup (the name) t; t = sh_release t in
        if sem = 0 then Some ((t, s), -1, False)
        else do { (s, r, blocked) \<leftarrow> semWait mm rsp sem s; Some ((t, s), r, blocked) })
     })"

definition sharedSemPost :: "'m mm_ops \<Rightarrow> u8 list option \<Rightarrow> shared_table \<times> 'm kst \<Rightarrow>
    ((shared_table \<times> 'm kst) \<times> int) option" where
  "sharedSemPost mm name = (\<lambda>(t, s).
     if bad_name name then Some ((t, s), -1)
     else do {
       t \<leftarrow> sh_acquire t;
       (let sem = sh_lookup (the name) t; t = sh_release t in
        if sem = 0 then Some ((t, s), -1)
        else do { (s, r) \<leftarrow> semPost mm sem s; Some ((t, s), r) })
     })"

section \<open>Invariant\<close>

definition entry :: "shared_table \<Rightarrow> nat \<Rightarrow> u8 list \<Rightarrow> bool" where
  "entry t i n \<longleftrightarrow> i < 64 \<and> ss_used (sh_table t ! i) \<and> ss_name (sh_table t ! i) = n"

text \<open>Names are unique among the used entries; each used entry has a positive count and its own
  live, unlocked semaphore.\<close>
definition shared_inv :: "shared_table \<Rightarrow> 'm kst \<Rightarrow> bool" where
  "shared_inv t s \<longleftrightarrow> length (sh_table t) = 64 \<and> \<not> sh_lock t \<and> locks_free s \<and>
     (\<forall>i j n. entry t i n \<longrightarrow> entry t j n \<longrightarrow> i = j) \<and>
     (\<forall>i<64. ss_used (sh_table t ! i) \<longrightarrow> ss_refCount (sh_table t ! i) > 0 \<and> ss_name (sh_table t ! i) \<noteq> [] \<and>
        length (ss_name (sh_table t ! i)) < 32 \<and>
        ss_sem (sh_table t ! i) \<noteq> 0 \<and> sems s (ss_sem (sh_table t ! i)) \<noteq> None) \<and>
     (\<forall>i<64. \<forall>j<64. ss_used (sh_table t ! i) \<longrightarrow> ss_used (sh_table t ! j) \<longrightarrow>
        ss_sem (sh_table t ! i) = ss_sem (sh_table t ! j) \<longrightarrow> i = j)"

lemma find_upt_Some: "List.find P [0..<n] = Some i \<longleftrightarrow> i < n \<and> P i \<and> (\<forall>j<i. \<not> P j)"
  by (auto simp: find_Some_iff)

lemma find_upt_None: "List.find P [0..<n] = None \<longleftrightarrow> (\<forall>i<n. \<not> P i)"
  by (auto simp: find_None_iff)

lemma findByName_cases:
  obtains (found) i where "findByName n t = int i" "entry t i n"
    | (absent) "findByName n t = -1" "\<And>i. \<not> entry t i n"
proof (cases "List.find (\<lambda>i. ss_used (sh_table t ! i) \<and> ss_name (sh_table t ! i) = n) [0..<MAX_SHARED_SEMS]")
  case None
  then have "findByName n t = -1" by (simp add: findByName_def)
  moreover have "\<not> entry t i n" for i
    using None unfolding find_upt_None by (simp add: entry_def MAX_SHARED_SEMS_def)
  ultimately show thesis by (rule absent)
next
  case (Some i)
  then have "findByName n t = int i" by (simp add: findByName_def)
  moreover have "entry t i n" using Some unfolding find_upt_Some by (simp add: entry_def MAX_SHARED_SEMS_def)
  ultimately show thesis by (rule found)
qed

lemma findFreeSlot_cases:
  obtains (found) i where "findFreeSlot t = int i" "i < 64" "\<not> ss_used (sh_table t ! i)"
    | (full) "findFreeSlot t = -1" "\<And>i. i < 64 \<Longrightarrow> ss_used (sh_table t ! i)"
proof (cases "List.find (\<lambda>i. \<not> ss_used (sh_table t ! i)) [0..<MAX_SHARED_SEMS]")
  case None
  then have "findFreeSlot t = -1" by (simp add: findFreeSlot_def)
  moreover have "ss_used (sh_table t ! i)" if "i < 64" for i
    using None that unfolding find_upt_None by (simp add: MAX_SHARED_SEMS_def)
  ultimately show thesis by (rule full)
next
  case (Some i)
  then have "findFreeSlot t = int i" by (simp add: findFreeSlot_def)
  moreover have "i < 64" "\<not> ss_used (sh_table t ! i)"
    using Some unfolding find_upt_Some by (simp_all add: MAX_SHARED_SEMS_def)
  ultimately show thesis by (rule found)
qed

lemma sh_lookup_entry:
  assumes "shared_inv t s" "entry t i n"
  shows "sh_lookup n t = ss_sem (sh_table t ! i)"
proof (cases rule: findByName_cases [of n t])
  case (found j)
  then have "j = i" using assms unfolding shared_inv_def by blast
  with found show ?thesis by (simp add: sh_lookup_def)
next
  case absent
  with assms show ?thesis by simp
qed

lemma sh_lookup_absent: "(\<And>i. \<not> entry t i n) \<Longrightarrow> sh_lookup n t = 0"
  by (cases rule: findByName_cases [of n t]) (simp_all add: sh_lookup_def)

text \<open>The table with one entry replaced.\<close>
definition sh_put :: "nat \<Rightarrow> SharedSem \<Rightarrow> shared_table \<Rightarrow> shared_table" where
  "sh_put i e t = \<lparr>sh_table = (sh_table t)[i := e], sh_lock = False\<rparr>"

lemma entry_put: "length (sh_table t) = 64 \<Longrightarrow> i < 64 \<Longrightarrow> entry (sh_put i e t) j n \<longleftrightarrow>
    (if j = i then ss_used e \<and> ss_name e = n else entry t j n)"
  by (auto simp: entry_def sh_put_def)

lemma put_nth: "length (sh_table t) = 64 \<Longrightarrow> i < 64 \<Longrightarrow> j < 64 \<Longrightarrow>
    sh_table (sh_put i e t) ! j = (if j = i then e else sh_table t ! j)"
  by (simp add: sh_put_def)

lemma shared_inv_put:
  assumes I: "shared_inv t s" and i: "i < 64"
    and sems: "locks_free s'" "\<And>j. j < 64 \<Longrightarrow> j \<noteq> i \<Longrightarrow> ss_used (sh_table t ! j) \<Longrightarrow> sems s' (ss_sem (sh_table t ! j)) \<noteq> None"
    and e: "ss_used e \<Longrightarrow> ss_refCount e > 0 \<and> ss_name e \<noteq> [] \<and> length (ss_name e) < 32 \<and> ss_sem e \<noteq> 0 \<and>
        sems s' (ss_sem e) \<noteq> None"
    and uniq: "\<And>j. ss_used e \<Longrightarrow> entry t j (ss_name e) \<Longrightarrow> j = i"
      "\<And>j. ss_used e \<Longrightarrow> j < 64 \<Longrightarrow> ss_used (sh_table t ! j) \<Longrightarrow> ss_sem (sh_table t ! j) = ss_sem e \<Longrightarrow> j = i"
  shows "shared_inv (sh_put i e t) s'"
proof -
  have len: "length (sh_table t) = 64" using I by (simp add: shared_inv_def)
  have I1: "\<And>a b n. entry t a n \<Longrightarrow> entry t b n \<Longrightarrow> a = b"
    and I2: "\<And>j. j < 64 \<Longrightarrow> ss_used (sh_table t ! j) \<Longrightarrow> ss_refCount (sh_table t ! j) > 0 \<and> ss_name (sh_table t ! j) \<noteq> [] \<and>
        length (ss_name (sh_table t ! j)) < 32 \<and> ss_sem (sh_table t ! j) \<noteq> 0"
    and I3: "\<And>a b. a < 64 \<Longrightarrow> b < 64 \<Longrightarrow> ss_used (sh_table t ! a) \<Longrightarrow> ss_used (sh_table t ! b) \<Longrightarrow>
        ss_sem (sh_table t ! a) = ss_sem (sh_table t ! b) \<Longrightarrow> a = b"
    using I unfolding shared_inv_def by blast+
  note nth = put_nth [OF len i]
  have "length (sh_table (sh_put i e t)) = 64" "\<not> sh_lock (sh_put i e t)" using len by (simp_all add: sh_put_def)
  moreover have "a = b" if "entry (sh_put i e t) a n" "entry (sh_put i e t) b n" for a b n
  proof -
    have ab: "if a = i then ss_used e \<and> ss_name e = n else entry t a n" "if b = i then ss_used e \<and> ss_name e = n else entry t b n"
      using that unfolding entry_put [OF len i] by simp_all
    consider "a = i" "b = i" | "a = i" "b \<noteq> i" | "a \<noteq> i" "b = i" | "a \<noteq> i" "b \<noteq> i" by blast
    then show ?thesis
    proof cases
      case 2
      then have "ss_used e" "entry t b (ss_name e)" using ab by auto
      from uniq(1) [OF this] 2 show ?thesis by blast
    next
      case 3
      then have "ss_used e" "entry t a (ss_name e)" using ab by auto
      from uniq(1) [OF this] 3 show ?thesis by blast
    next
      case 4
      then have "entry t a n" "entry t b n" using ab by auto
      then show ?thesis by (rule I1)
    qed simp
  qed
  moreover have "ss_refCount (sh_table (sh_put i e t) ! j) > 0 \<and> ss_name (sh_table (sh_put i e t) ! j) \<noteq> [] \<and>
      length (ss_name (sh_table (sh_put i e t) ! j)) < 32 \<and>
      ss_sem (sh_table (sh_put i e t) ! j) \<noteq> 0 \<and> sems s' (ss_sem (sh_table (sh_put i e t) ! j)) \<noteq> None"
    if "j < 64" "ss_used (sh_table (sh_put i e t) ! j)" for j
    using that I2 [of j] e sems(2) [of j] unfolding nth [OF that(1)] by (cases "j = i") simp_all
  moreover have "a = b" if "a < 64" "b < 64" "ss_used (sh_table (sh_put i e t) ! a)" "ss_used (sh_table (sh_put i e t) ! b)"
      "ss_sem (sh_table (sh_put i e t) ! a) = ss_sem (sh_table (sh_put i e t) ! b)" for a b
  proof -
    consider "a = i" "b = i" | "a = i" "b \<noteq> i" | "a \<noteq> i" "b = i" | "a \<noteq> i" "b \<noteq> i" by blast
    then show ?thesis
    proof cases
      case 2
      then have "ss_used e" "b < 64" "ss_used (sh_table t ! b)" "ss_sem (sh_table t ! b) = ss_sem e"
        using that nth by auto
      from uniq(2) [OF this] 2 show ?thesis by blast
    next
      case 3
      then have "ss_used e" "a < 64" "ss_used (sh_table t ! a)" "ss_sem (sh_table t ! a) = ss_sem e"
        using that nth by auto
      from uniq(2) [OF this] 3 show ?thesis by blast
    next
      case 4
      then have "a < 64" "b < 64" "ss_used (sh_table t ! a)" "ss_used (sh_table t ! b)"
          "ss_sem (sh_table t ! a) = ss_sem (sh_table t ! b)"
        using that nth by auto
      then show ?thesis by (rule I3)
    qed simp
  qed
  ultimately show ?thesis using sems(1) unfolding shared_inv_def by blast
qed

lemma upd_release: "sh_release (sh_upd (int i) f (t\<lparr>sh_lock := True\<rparr>)) = sh_put i (f (sh_table t ! i)) t"
  by (simp add: sh_release_def sh_upd_def sh_put_def)

lemma release_acquired: "\<not> sh_lock t \<Longrightarrow> sh_release (t\<lparr>sh_lock := True\<rparr>) = t"
  by (simp add: sh_release_def)

lemma entry_locked [simp]: "entry (t\<lparr>sh_lock := b\<rparr>) i n = entry t i n"
  "sh_lookup n (t\<lparr>sh_lock := b\<rparr>) = sh_lookup n t" "findByName n (t\<lparr>sh_lock := b\<rparr>) = findByName n t"
  "findFreeSlot (t\<lparr>sh_lock := b\<rparr>) = findFreeSlot t"
  by (simp_all add: entry_def sh_lookup_def findByName_def findFreeSlot_def Let_def)

text \<open>The table seen by name.\<close>
definition sh_entry :: "u8 list \<Rightarrow> shared_table \<Rightarrow> SharedSem option" where
  "sh_entry name t = (let idx = findByName name t in if idx \<ge> 0 then Some (sh_table t ! nat idx) else None)"

lemma sh_entry_used:
  assumes "shared_inv t s" "entry t i n"
  shows "sh_entry n t = Some (sh_table t ! i)"
proof (cases rule: findByName_cases [of n t])
  case (found j)
  then have "j = i" using assms unfolding shared_inv_def by blast
  with found show ?thesis by (simp add: sh_entry_def)
qed (use assms in simp)

lemma sh_entry_absent: "(\<And>i. \<not> entry t i n) \<Longrightarrow> sh_entry n t = None"
  by (cases rule: findByName_cases [of n t]) (simp_all add: sh_entry_def)

section \<open>Properties\<close>

text \<open>C40. Opening by name: with a valid name, one that is not empty and fits the 32 bytes of an entry,
  \<^verbatim>\<open>sharedSemOpen\<close> always returns and keeps the table
  well formed (unique names, positive counts, one live semaphore per entry) and the ownership of
  memory.  A name already open keeps its semaphore and its value and gains one reference; a new name
  gets an entry with one reference and a fresh semaphore with the given value and nobody waiting; the
  entries of the other names are not affected.  \<open>-1\<close> is answered only for a new name, when all 64
  entries are in use or the semaphore could not be made, and leaves the table as it was.\<close>
theorem sharedSemOpen_correct:
  assumes I: "shared_inv t s" and mem: "fl_kmem_ok s" and n: "n \<noteq> []" "length n < 32"
  shows "\<exists>t' s' r. sharedSemOpen fl_ops (Some n) v (t, s) = Some ((t', s'), r) \<and> shared_inv t' s' \<and> fl_kmem_ok s' \<and>
    (\<forall>k. k \<noteq> n \<longrightarrow> sh_entry k t' = sh_entry k t) \<and>
    (case sh_entry n t of
       Some e \<Rightarrow> r = 0 \<and> s' = s \<and> sh_entry n t' = Some (e\<lparr>ss_refCount := ss_refCount e + 1\<rparr>)
     | None \<Rightarrow> r = 0 \<and> (\<exists>a c. sh_entry n t' = Some \<lparr>ss_used = True, ss_name = n, ss_sem = a, ss_refCount = 1\<rparr> \<and>
           sems s a = None \<and> sems s' = (sems s)(a \<mapsto> c) \<and> sem_value c = v \<and> waiters c = [])
         \<or> r = -1 \<and> t' = t \<and> s' = s\<lparr>kmem := kmem s'\<rparr> \<and>
           ((\<forall>i<64. ss_used (sh_table t ! i)) \<or> newSemaphore fl_ops v s = Some (s', 0)))"
proof -
  have len: "length (sh_table t) = 64" and unl: "\<not> sh_lock t" and lf: "locks_free s" using I by (simp_all add: shared_inv_def)
  have bn: "\<not> bad_name (Some n)" using n by (simp add: bad_name_def)
  have acq: "sh_acquire t = Some (t\<lparr>sh_lock := True\<rparr>)" using unl by (simp add: sh_acquire_def)
  have other: "sh_entry k (sh_put i e t) = sh_entry k t"
    if inv': "shared_inv (sh_put i e t) s'" and i: "i < 64" and old: "\<not> entry t i k" and new: "\<not> (ss_used e \<and> ss_name e = k)" for i e k s'
  proof (cases "\<exists>j. entry t j k")
    case True
    then obtain j where j: "entry t j k" by blast
    then have "j \<noteq> i" "j < 64" using old by (auto simp: entry_def)
    then have "entry (sh_put i e t) j k" using j by (simp add: entry_put [OF len i])
    from sh_entry_used [OF inv' this] sh_entry_used [OF I j] \<open>j \<noteq> i\<close> \<open>j < 64\<close> show ?thesis
      by (simp add: put_nth [OF len i])
  next
    case False
    then have "\<And>j. \<not> entry (sh_put i e t) j k" using new by (simp add: entry_put [OF len i])
    then show ?thesis using False by (simp add: sh_entry_absent)
  qed
  show ?thesis
  proof (cases rule: findByName_cases [of n t])
    case (found i)
    let ?e = "(sh_table t ! i)\<lparr>ss_refCount := ss_refCount (sh_table t ! i) + 1\<rparr>"
    have i: "i < 64" "ss_used (sh_table t ! i)" "ss_name (sh_table t ! i) = n" using found(2) by (simp_all add: entry_def)
    have ok: "ss_refCount (sh_table t ! i) > 0" "ss_sem (sh_table t ! i) \<noteq> 0" "sems s (ss_sem (sh_table t ! i)) \<noteq> None"
      using I i unfolding shared_inv_def by blast+
    have inv': "shared_inv (sh_put i ?e t) s"
    proof (rule shared_inv_put [OF I i(1) lf])
      show "sems s (ss_sem (sh_table t ! j)) \<noteq> None" if "j < 64" "ss_used (sh_table t ! j)" for j
        using I that unfolding shared_inv_def by blast
      show "j = i" if "entry t j (ss_name ?e)" for j using that I found(2) i(3) unfolding shared_inv_def by simp
      show "j = i" if "j < 64" "ss_used (sh_table t ! j)" "ss_sem (sh_table t ! j) = ss_sem ?e" for j
        using that I i unfolding shared_inv_def by simp
    qed (use ok i n in simp_all)
    have "sharedSemOpen fl_ops (Some n) v (t, s) = Some ((sh_put i ?e t, s), 0)"
      using bn acq found(1) by (simp add: sharedSemOpen_def upd_release)
    moreover have "sh_entry n t = Some (sh_table t ! i)" by (rule sh_entry_used [OF I found(2)])
    moreover have "entry (sh_put i ?e t) i n" using i by (simp add: entry_put [OF len i(1)])
    then have "sh_entry n (sh_put i ?e t) = Some ?e"
      using sh_entry_used [OF inv'] i(1) by (simp add: put_nth [OF len i(1)])
    moreover have "sh_entry k (sh_put i ?e t) = sh_entry k t" if "k \<noteq> n" for k
      by (rule other [OF inv' i(1)]) (use that i in \<open>simp_all add: entry_def\<close>)
    ultimately show ?thesis using inv' mem by auto
  next
    case absent
    have look: "sh_entry n t = None" using absent(2) by (rule sh_entry_absent)
    show ?thesis
    proof (cases rule: findFreeSlot_cases [of t])
      case full
      have "sharedSemOpen fl_ops (Some n) v (t, s) = Some ((t, s), -1)"
        using bn acq absent(1) full(1) unl by (simp add: sharedSemOpen_def release_acquired)
      then show ?thesis using I mem look full(2) by (intro exI [of _ t] exI [of _ s] exI [of _ "-1"]) simp
    next
      case (found i)
      from mem show ?thesis
      proof (cases rule: fl.newSemaphore_spec [where v = v])
        case (failed m')
        have "sharedSemOpen fl_ops (Some n) v (t, s) = Some ((t, s\<lparr>kmem := m'\<rparr>), -1)"
          using bn acq absent(1) found(1) failed(1) unl by (simp add: sharedSemOpen_def release_acquired)
        moreover have "shared_inv t (s\<lparr>kmem := m'\<rparr>)" using I by (simp add: shared_inv_def locks_free_def)
        ultimately show ?thesis using failed(1,2) look
          by (intro exI [of _ t] exI [of _ "s\<lparr>kmem := m'\<rparr>"] exI [of _ "-1"]) simp
      next
        case (made m' a q)
        let ?c = "\<lparr>sem_value = v, sem_blockedQueue = q, sem_lock = False\<rparr>"
        let ?s = "s\<lparr>kmem := m', sems := (sems s)(a \<mapsto> ?c)\<rparr>"
        let ?e = "\<lparr>ss_used = True, ss_name = n, ss_sem = a, ss_refCount = 1\<rparr>"
        have call: "sharedSemOpen fl_ops (Some n) v (t, s) = Some ((sh_put i ?e t, ?s), 0)"
          using bn acq absent(1) found(1) made(1,2) n by (simp add: sharedSemOpen_def upd_release SEM_NAME_MAX_def)
        have inv': "shared_inv (sh_put i ?e t) ?s"
        proof (rule shared_inv_put [OF I found(2)])
          show "locks_free ?s" using lf by (auto simp: locks_free_def)
          show "sems ?s (ss_sem (sh_table t ! j)) \<noteq> None" if "j < 64" "ss_used (sh_table t ! j)" for j
            using I that unfolding shared_inv_def by simp
          show "j = i" if "entry t j (ss_name ?e)" for j using that absent(2) by simp
          show "j = i" if "j < 64" "ss_used (sh_table t ! j)" "ss_sem (sh_table t ! j) = ss_sem ?e" for j
            using that I made(3) unfolding shared_inv_def by auto
        qed (use made n in simp_all)
        have "entry (sh_put i ?e t) i n" by (simp add: entry_put [OF len found(2)])
        from sh_entry_used [OF inv' this] have "sh_entry n (sh_put i ?e t) = Some ?e" by (simp add: put_nth [OF len found(2) found(2)])
        moreover have "sh_entry k (sh_put i ?e t) = sh_entry k t" if "k \<noteq> n" for k
          by (rule other [OF inv' found(2)]) (use that found in \<open>simp_all add: entry_def\<close>)
        moreover have "waiters ?c = []" using made(4) by (simp add: waiters_def kq_elems_def)
        then have "\<exists>c. sems ?s = (sems s)(a \<mapsto> c) \<and> sem_value c = v \<and> waiters c = []" by (intro exI [of _ ?c]) simp
        ultimately show ?thesis using call inv' made(3,5) look
          by (intro exI [of _ "sh_put i ?e t"] exI [of _ ?s] exI [of _ 0]) simp
      qed
    qed
  qed
qed

definition shared_zero :: shared_table where
  "shared_zero = \<lparr>sh_table = replicate 64 \<lparr>ss_used = False, ss_name = [], ss_sem = 0, ss_refCount = 0\<rparr>, sh_lock = False\<rparr>"

lemma shared_zero_inv: "locks_free s \<Longrightarrow> shared_inv shared_zero s"
  by (auto simp: shared_inv_def shared_zero_def entry_def)

lemma demo_locks: "locks_free demo_kst"
  by (auto simp: locks_free_def demo_kst_def demo_sem_def dest!: map_of_SomeD)

theorem sharedSemOpen_correct_witness:
  "\<exists>t' s' r. sharedSemOpen fl_ops (Some [109, 117, 120]) 1 (shared_zero, demo_kst) = Some ((t', s'), r) \<and> shared_inv t' s' \<and>
     (r = 0 \<and> map_option ss_refCount (sh_entry [109, 117, 120] t') = Some 1 \<or> newSemaphore fl_ops 1 demo_kst = Some (s', 0))"
proof -
  have none: "sh_entry [109, 117, 120] shared_zero = None" by (rule sh_entry_absent) (auto simp: entry_def shared_zero_def)
  have free: "\<not> (\<forall>i<64. ss_used (sh_table shared_zero ! i))" by (auto simp: shared_zero_def intro!: exI [of _ 0])
  show ?thesis
    using sharedSemOpen_correct [OF shared_zero_inv [OF demo_locks] demo_kmem, of "[109, 117, 120]" 1] none free by fastforce
qed

end
