(* ===== verification/KPipe.thy ===== *)
theory KPipe
  imports KSem
begin

unbundle bit_operations_syntax

text \<open>
  \<^verbatim>\<open>Kernel/IPC/pipe.c\<close> and \<^verbatim>\<open>Kernel/IPC/fileAccess.c\<close>.  Kernel code runs with interrupts off, so an
  operation is atomic except where a \<^verbatim>\<open>semWait\<close> gives the CPU away.  A blocking read or write is
  therefore a small program counter machine: one step runs from one possible wait to the next, and
  any other process may run between two steps.  The byte buffers of the callers are byte lists.
\<close>

section \<open>Pipes\<close>

definition PIPE_BUF_SIZE :: u64 where "PIPE_BUF_SIZE = 1024"
definition PIPE_WOULD_BLOCK :: int where "PIPE_WOULD_BLOCK = -2"
definition sizeof_pipeCDT :: u64 where "sizeof_pipeCDT = 48"

definition on_pipe :: "u64 \<Rightarrow> (pipeCDT \<Rightarrow> pipeCDT) \<Rightarrow> 'm kst \<Rightarrow> 'm kst option" where
  "on_pipe p f s = do { pp \<leftarrow> pipes s p; Some (s\<lparr>pipes := (pipes s)(p \<mapsto> f pp)\<rparr>) }"

definition freePipe :: "'m mm_ops \<Rightarrow> u64 \<Rightarrow> 'm kst \<Rightarrow> 'm kst option" where
  "freePipe mm p s =
     (if p = 0 then Some s
      else do {
        pp \<leftarrow> pipes s p;
        m \<leftarrow> freeBuffer mm (pp_buffer pp) (kmem s);
        s \<leftarrow> freeSemaphore mm (pp_dataAvailable pp) (s\<lparr>kmem := m\<rparr>);
        s \<leftarrow> freeSemaphore mm (pp_freeSpaces pp) s;
        s \<leftarrow> freeSemaphore mm (pp_readMutex pp) s;
        s \<leftarrow> freeSemaphore mm (pp_writeMutex pp) s;
        m \<leftarrow> mm_free mm (kmem s) p;
        Some (s\<lparr>kmem := m, pipes := (pipes s)(p := None)\<rparr>)
      })"

text \<open>\<open>raw\<close> is what the new data area already holds.\<close>
definition newPipe :: "'m mm_ops \<Rightarrow> (u64 \<Rightarrow> u8) \<Rightarrow> 'm kst \<Rightarrow> ('m kst \<times> u64) option" where
  "newPipe mm raw s = do {
     (m, p) \<leftarrow> mm_alloc mm (kmem s) sizeof_pipeCDT;
     if p = 0 then Some (s\<lparr>kmem := m\<rparr>, 0)
     else do {
       (m, b) \<leftarrow> newBuffer mm raw PIPE_BUF_SIZE m;
       (s, da) \<leftarrow> newSemaphore mm 0 (s\<lparr>kmem := m\<rparr>);
       (s, fs) \<leftarrow> newSemaphore mm (uint PIPE_BUF_SIZE) s;
       (s, rm) \<leftarrow> newSemaphore mm 1 s;
       (s, wm) \<leftarrow> newSemaphore mm 1 s;
       (let s = s\<lparr>pipes := (pipes s)(p \<mapsto> \<lparr>pp_buffer = b, pp_dataAvailable = da, pp_freeSpaces = fs,
              pp_readMutex = rm, pp_writeMutex = wm, pp_refCount = 0, pp_writerCount = 0\<rparr>)\<rparr> in
        if b = None \<or> da = 0 \<or> fs = 0 \<or> rm = 0 \<or> wm = 0
        then do { s \<leftarrow> freePipe mm p s; Some (s, 0) }
        else Some (s, p))
     }
   }"

definition addPipeRef :: "u64 \<Rightarrow> 'm kst \<Rightarrow> 'm kst option" where
  "addPipeRef p s = (if p \<noteq> 0 then on_pipe p (\<lambda>pp. pp\<lparr>pp_refCount := pp_refCount pp + 1\<rparr>) s else Some s)"

definition addPipeWriter :: "u64 \<Rightarrow> 'm kst \<Rightarrow> 'm kst option" where
  "addPipeWriter p s = (if p \<noteq> 0 then on_pipe p (\<lambda>pp. pp\<lparr>pp_writerCount := pp_writerCount pp + 1\<rparr>) s else Some s)"

definition removePipeRef :: "'m mm_ops \<Rightarrow> u64 \<Rightarrow> 'm kst \<Rightarrow> 'm kst option" where
  "removePipeRef mm p s =
     (if p = 0 then Some s
      else do {
        s \<leftarrow> on_pipe p (\<lambda>pp. pp\<lparr>pp_refCount := pp_refCount pp - 1\<rparr>) s;
        pp \<leftarrow> pipes s p;
        if pp_refCount pp \<le> 0 then freePipe mm p s else Some s
      })"

fun post_times :: "'m mm_ops \<Rightarrow> u64 \<Rightarrow> nat \<Rightarrow> 'm kst \<Rightarrow> 'm kst option" where
  "post_times mm sem 0 s = Some s"
| "post_times mm sem (Suc n) s = do { (s, r) \<leftarrow> semPost mm sem s; post_times mm sem n s }"

definition forceReadersWakeUp :: "'m mm_ops \<Rightarrow> u64 \<Rightarrow> int \<Rightarrow> 'm kst \<Rightarrow> 'm kst option" where
  "forceReadersWakeUp mm p cnt s =
     (if p = 0 then Some s
      else if cnt \<le> 0 then Some s
      else do { pp \<leftarrow> pipes s p; post_times mm (pp_dataAvailable pp) (nat cnt) s })"

definition removePipeWriter :: "'m mm_ops \<Rightarrow> u64 \<Rightarrow> 'm kst \<Rightarrow> 'm kst option" where
  "removePipeWriter mm p s =
     (if p = 0 then Some s
      else do {
        s \<leftarrow> on_pipe p (\<lambda>pp. pp\<lparr>pp_writerCount := pp_writerCount pp - 1\<rparr>) s;
        pp \<leftarrow> pipes s p;
        if pp_writerCount pp \<le> 0 then forceReadersWakeUp mm p MAX_PROCESSES s else Some s
      })"

definition pipeHasData :: "u64 \<Rightarrow> 'm kst \<Rightarrow> bool option" where
  "pipeHasData p s = (if p = 0 then Some False else map_option (\<lambda>pp. bufferHasData (pp_buffer pp)) (pipes s p))"

definition pipeIsFull :: "u64 \<Rightarrow> 'm kst \<Rightarrow> bool option" where
  "pipeIsFull p s = (if p = 0 then Some False else map_option (\<lambda>pp. bufferIsFull (pp_buffer pp)) (pipes s p))"

text \<open>At most \<open>n\<close> more bytes; each byte taken posts a free space.\<close>
fun drainBuffer :: "'m mm_ops \<Rightarrow> u64 \<Rightarrow> nat \<Rightarrow> 'm kst \<Rightarrow> ('m kst \<times> u8 list) option" where
  "drainBuffer mm p 0 s = Some (s, [])"
| "drainBuffer mm p (Suc n) s = do {
     pp \<leftarrow> pipes s p;
     if bufferHasData (pp_buffer pp)
     then (case bufferRead (pp_buffer pp) of (cb, b) \<Rightarrow> do {
       s \<leftarrow> on_pipe p (\<lambda>pp. pp\<lparr>pp_buffer := cb\<rparr>) s;
       (s, r) \<leftarrow> semPost mm (pp_freeSpaces pp) s;
       (s, bs) \<leftarrow> drainBuffer mm p n s;
       Some (s, b # bs)
     })
     else Some (s, [])
   }"

text \<open>Where a read is: before one of its waits, after both, or returned with a value and the bytes
  it stored in the caller's buffer.\<close>
datatype rd_pc = RWaitData | RWaitMutex | RBody | NWaitMutex | NBody | RRet int "u8 list"

definition pipeReadBlocking_start :: "u64 \<Rightarrow> 'm kst \<Rightarrow> rd_pc option" where
  "pipeReadBlocking_start p s = do {
     pp \<leftarrow> pipes s p;
     Some (if \<not> bufferHasData (pp_buffer pp) \<and> pp_writerCount pp \<le> 0 then RRet 0 [] else RWaitData)
   }"

definition pipeReadBlocking_body :: "'m mm_ops \<Rightarrow> u64 \<Rightarrow> u64 \<Rightarrow> 'm kst \<Rightarrow> ('m kst \<times> rd_pc) option" where
  "pipeReadBlocking_body mm p cnt s = do {
     pp \<leftarrow> pipes s p;
     if bufferHasData (pp_buffer pp) then do {
       (s, bs) \<leftarrow> drainBuffer mm p (unat cnt) s;
       more \<leftarrow> pipeHasData p s;
       (s, r) \<leftarrow> (if more then semPost mm (pp_dataAvailable pp) s else Some (s, 0));
       (s, r) \<leftarrow> semPost mm (pp_readMutex pp) s;
       Some (s, RRet (int (length bs)) bs)
     }
     else do {
       (s, r) \<leftarrow> semPost mm (pp_readMutex pp) s;
       Some (s, if pp_writerCount pp \<le> 0 then RRet 0 [] else RWaitData)
     }
   }"

definition pipeReadNonblocking_start :: "u64 \<Rightarrow> 'm kst \<Rightarrow> rd_pc option" where
  "pipeReadNonblocking_start p s = do {
     pp \<leftarrow> pipes s p;
     Some (if \<not> bufferHasData (pp_buffer pp)
           then RRet (if pp_writerCount pp > 0 then PIPE_WOULD_BLOCK else 0) [] else NWaitMutex)
   }"

definition pipeReadNonblocking_body :: "'m mm_ops \<Rightarrow> u64 \<Rightarrow> u64 \<Rightarrow> 'm kst \<Rightarrow> ('m kst \<times> rd_pc) option" where
  "pipeReadNonblocking_body mm p cnt s = do {
     pp \<leftarrow> pipes s p;
     if \<not> bufferHasData (pp_buffer pp) then do {
       (s, r) \<leftarrow> semPost mm (pp_readMutex pp) s;
       Some (s, RRet (if pp_writerCount pp > 0 then PIPE_WOULD_BLOCK else 0) [])
     }
     else do {
       (s, bs) \<leftarrow> drainBuffer mm p (unat cnt) s;
       (s, r) \<leftarrow> semPost mm (pp_readMutex pp) s;
       Some (s, RRet (int (length bs)) bs)
     }
   }"

text \<open>Entry of a read, and its next atomic step.\<close>
definition pipeRead :: "u64 \<Rightarrow> u64 \<Rightarrow> bool \<Rightarrow> 'm kst \<Rightarrow> rd_pc option" where
  "pipeRead p cnt nonblocking s =
     (if p = 0 \<or> cnt = 0 then Some (RRet 0 [])
      else if nonblocking then pipeReadNonblocking_start p s else pipeReadBlocking_start p s)"

definition wait_then :: "'m mm_ops \<Rightarrow> u64 \<Rightarrow> u64 \<Rightarrow> 'pc \<Rightarrow> 'm kst \<Rightarrow> ('m kst \<times> 'pc) option" where
  "wait_then mm rsp sem pc s = do { (s, r, blocked) \<leftarrow> semWait mm rsp sem s; Some (s, pc) }"

fun pipeRead_step :: "'m mm_ops \<Rightarrow> u64 \<Rightarrow> u64 \<Rightarrow> u64 \<Rightarrow> rd_pc \<Rightarrow> 'm kst \<Rightarrow> ('m kst \<times> rd_pc) option" where
  "pipeRead_step mm rsp p cnt RWaitData s = do { pp \<leftarrow> pipes s p; wait_then mm rsp (pp_dataAvailable pp) RWaitMutex s }"
| "pipeRead_step mm rsp p cnt RWaitMutex s = do { pp \<leftarrow> pipes s p; wait_then mm rsp (pp_readMutex pp) RBody s }"
| "pipeRead_step mm rsp p cnt RBody s = pipeReadBlocking_body mm p cnt s"
| "pipeRead_step mm rsp p cnt NWaitMutex s = do { pp \<leftarrow> pipes s p; wait_then mm rsp (pp_readMutex pp) NBody s }"
| "pipeRead_step mm rsp p cnt NBody s = pipeReadNonblocking_body mm p cnt s"
| "pipeRead_step mm rsp p cnt (RRet n bs) s = Some (s, RRet n bs)"

text \<open>Where a write is; the number is how many bytes were already stored.\<close>
datatype wr_pc = WWaitMutex | WLoop nat | WPut nat | WRet int

definition pipeWrite :: "u64 \<Rightarrow> wr_pc" where
  "pipeWrite p = (if p = 0 then WRet (-1) else WWaitMutex)"

fun pipeWrite_step :: "'m mm_ops \<Rightarrow> u64 \<Rightarrow> u64 \<Rightarrow> u8 list \<Rightarrow> bool \<Rightarrow> wr_pc \<Rightarrow> 'm kst \<Rightarrow> ('m kst \<times> wr_pc) option" where
  "pipeWrite_step mm rsp p buf nonblocking WWaitMutex s =
     do { pp \<leftarrow> pipes s p; wait_then mm rsp (pp_writeMutex pp) (WLoop 0) s }"
| "pipeWrite_step mm rsp p buf nonblocking (WLoop n) s = do {
     pp \<leftarrow> pipes s p;
     if n < length buf then
       (if nonblocking \<and> bufferIsFull (pp_buffer pp) then do {
          (s, r) \<leftarrow> semPost mm (pp_writeMutex pp) s;
          Some (s, WRet (if n > 0 then int n else PIPE_WOULD_BLOCK))
        }
        else wait_then mm rsp (pp_freeSpaces pp) (WPut n) s)
     else do { (s, r) \<leftarrow> semPost mm (pp_writeMutex pp) s; Some (s, WRet (int n)) }
   }"
| "pipeWrite_step mm rsp p buf nonblocking (WPut n) s = do {
     pp \<leftarrow> pipes s p;
     (let wasEmpty = \<not> bufferHasData (pp_buffer pp);
          (cb, ok) = bufferWrite (pp_buffer pp) (buf ! n)
      in do {
        s \<leftarrow> on_pipe p (\<lambda>pp. pp\<lparr>pp_buffer := cb\<rparr>) s;
        (if ok \<noteq> 0 then do {
           (s, r) \<leftarrow> (if wasEmpty then semPost mm (pp_dataAvailable pp) s else Some (s, 0));
           Some (s, WLoop (n + 1))
         }
         else Some (s, WLoop n))
      })
   }"
| "pipeWrite_step mm rsp p buf nonblocking (WRet r) s = Some (s, WRet r)"

section \<open>File accesses\<close>

definition FILE_READ :: u8 where "FILE_READ = 0x01"
definition FILE_WRITE :: u8 where "FILE_WRITE = 0x02"
definition FILE_NONBLOCK :: u8 where "FILE_NONBLOCK = 0x04"
definition sizeof_fileAccessCDT :: u64 where "sizeof_fileAccessCDT = 16"

definition on_file :: "u64 \<Rightarrow> (fileAccessCDT \<Rightarrow> fileAccessCDT) \<Rightarrow> 'm kst \<Rightarrow> 'm kst option" where
  "on_file a f s = do { fa \<leftarrow> files s a; Some (s\<lparr>files := (files s)(a \<mapsto> f fa)\<rparr>) }"

definition newFileAccess :: "'m mm_ops \<Rightarrow> u64 \<Rightarrow> u8 \<Rightarrow> 'm kst \<Rightarrow> ('m kst \<times> u64) option" where
  "newFileAccess mm pipe flags s = do {
     (m, fa) \<leftarrow> mm_alloc mm (kmem s) sizeof_fileAccessCDT;
     if fa = 0 then Some (s\<lparr>kmem := m\<rparr>, 0)
     else (let s = s\<lparr>kmem := m, files := (files s)(fa \<mapsto> \<lparr>fa_pipe = pipe, fa_flags = flags, fa_refCount = 0\<rparr>)\<rparr> in
       if pipe \<noteq> 0 then do {
         s \<leftarrow> addPipeRef pipe s;
         s \<leftarrow> (if flags AND FILE_WRITE \<noteq> 0 then addPipeWriter pipe s else Some s);
         Some (s, fa)
       }
       else Some (s, fa))
   }"

definition addFileRef :: "u64 \<Rightarrow> 'm kst \<Rightarrow> 'm kst option" where
  "addFileRef fa s = (if fa \<noteq> 0 then on_file fa (\<lambda>x. x\<lparr>fa_refCount := fa_refCount x + 1\<rparr>) s else Some s)"

definition freeFileAccess :: "'m mm_ops \<Rightarrow> u64 \<Rightarrow> 'm kst \<Rightarrow> 'm kst option" where
  "freeFileAccess mm fa s =
     (if fa = 0 then Some s
      else do {
        x \<leftarrow> files s fa;
        s \<leftarrow> (if fa_pipe x \<noteq> 0 then do {
               s \<leftarrow> (if fa_flags x AND FILE_WRITE \<noteq> 0 then removePipeWriter mm (fa_pipe x) s else Some s);
               removePipeRef mm (fa_pipe x) s }
             else Some s);
        m \<leftarrow> mm_free mm (kmem s) fa;
        Some (s\<lparr>kmem := m, files := (files s)(fa := None)\<rparr>)
      })"

definition removeFileRef :: "'m mm_ops \<Rightarrow> u64 \<Rightarrow> 'm kst \<Rightarrow> 'm kst option" where
  "removeFileRef mm fa s =
     (if fa = 0 then Some s
      else do {
        s \<leftarrow> on_file fa (\<lambda>x. x\<lparr>fa_refCount := fa_refCount x - 1\<rparr>) s;
        x \<leftarrow> files s fa;
        if fa_refCount x \<le> 0 then freeFileAccess mm fa s else Some s
      })"

definition hasFlag :: "u64 \<Rightarrow> u8 \<Rightarrow> 'm kst \<Rightarrow> bool option" where
  "hasFlag fa f s = (if fa = 0 then Some False else map_option (\<lambda>x. fa_flags x AND f \<noteq> 0) (files s fa))"

definition isReadable :: "u64 \<Rightarrow> 'm kst \<Rightarrow> bool option" where "isReadable fa = hasFlag fa FILE_READ"
definition isWritable :: "u64 \<Rightarrow> 'm kst \<Rightarrow> bool option" where "isWritable fa = hasFlag fa FILE_WRITE"
definition isNonblocking :: "u64 \<Rightarrow> 'm kst \<Rightarrow> bool option" where "isNonblocking fa = hasFlag fa FILE_NONBLOCK"

text \<open>A file read or write checks the permission and then is the pipe operation; the pipe and the
  mode are fixed at entry.\<close>
definition fileRead :: "u64 \<Rightarrow> u64 \<Rightarrow> 'm kst \<Rightarrow> (u64 \<times> rd_pc) option" where
  "fileRead fa cnt s = do {
     rd \<leftarrow> isReadable fa s;
     if \<not> rd then Some (0, RRet (-1) [])
     else do { x \<leftarrow> files s fa; nb \<leftarrow> isNonblocking fa s; pc \<leftarrow> pipeRead (fa_pipe x) cnt nb s; Some (fa_pipe x, pc) }
   }"

definition fileWrite :: "u64 \<Rightarrow> 'm kst \<Rightarrow> (u64 \<times> bool \<times> wr_pc) option" where
  "fileWrite fa s = do {
     wr \<leftarrow> isWritable fa s;
     if \<not> wr then Some (0, False, WRet (-1))
     else do { x \<leftarrow> files s fa; nb \<leftarrow> isNonblocking fa s; Some (fa_pipe x, nb, pipeWrite (fa_pipe x)) }
   }"

definition setFileFlags :: "u64 \<Rightarrow> u8 \<Rightarrow> 'm kst \<Rightarrow> 'm kst option" where
  "setFileFlags fa flags s = (if fa \<noteq> 0 then on_file fa (\<lambda>x. x\<lparr>fa_flags := flags\<rparr>) s else Some s)"

definition addFileFlags :: "u64 \<Rightarrow> u8 \<Rightarrow> 'm kst \<Rightarrow> 'm kst option" where
  "addFileFlags fa flags s = (if fa \<noteq> 0 then on_file fa (\<lambda>x. x\<lparr>fa_flags := fa_flags x OR flags\<rparr>) s else Some s)"

definition removeFileFlags :: "u64 \<Rightarrow> u8 \<Rightarrow> 'm kst \<Rightarrow> 'm kst option" where
  "removeFileFlags fa flags s = (if fa \<noteq> 0 then on_file fa (\<lambda>x. x\<lparr>fa_flags := fa_flags x AND NOT flags\<rparr>) s else Some s)"

definition cloneFile :: "'m mm_ops \<Rightarrow> u64 \<Rightarrow> 'm kst \<Rightarrow> ('m kst \<times> u64) option" where
  "cloneFile mm fa s = (if fa = 0 then Some (s, 0)
     else do { x \<leftarrow> files s fa; newFileAccess mm (fa_pipe x) (fa_flags x) s })"

definition getFilePipe :: "u64 \<Rightarrow> 'm kst \<Rightarrow> u64 option" where
  "getFilePipe fa s = (if fa = 0 then Some 0 else map_option fa_pipe (files s fa))"

definition forceWakeOnPipe :: "'m mm_ops \<Rightarrow> u64 \<Rightarrow> int \<Rightarrow> 'm kst \<Rightarrow> 'm kst option" where
  "forceWakeOnPipe mm fa cnt s = (if fa = 0 then Some s
     else do { x \<leftarrow> files s fa; forceReadersWakeUp mm (fa_pipe x) cnt s })"

end
