(* ===== verification/KProcess.thy ===== *)
theory KProcess
  imports KPipe
begin

text \<open>
  The rest of \<^verbatim>\<open>process.c\<close> (creation and destruction of a control block, its children, its file
  descriptors) and the initial stack frame of \<^verbatim>\<open>scheduler.c\<close>.  Strings of the caller are byte lists,
  an \<^verbatim>\<open>argv\<close> is a list of possibly \<^verbatim>\<open>NULL\<close> strings.
\<close>

section \<open>Creation\<close>

definition MAX_PROCESS_NAME_LENGTH :: nat where "MAX_PROCESS_NAME_LENGTH = 32"
definition DEFAULT_STACK_SIZE :: u64 where "DEFAULT_STACK_SIZE = 0x8000"
definition sizeof_processCDT :: u64 where "sizeof_processCDT = 272"

fun copy_name :: "nat \<Rightarrow> u8 list \<Rightarrow> u8 list" where
  "copy_name i [] = []"
| "copy_name i (c # cs) = (if i + 1 < MAX_PROCESS_NAME_LENGTH \<and> c \<noteq> 0 then c # copy_name (i + 1) cs else [])"

definition copyProcessName :: "u8 list option \<Rightarrow> u8 list" where
  "copyProcessName name = (case name of None \<Rightarrow> [] | Some n \<Rightarrow> copy_name 0 n)"

text \<open>The entries copied so far are released in order when one copy fails.\<close>
fun free_strs :: "'m mm_ops \<Rightarrow> (u64 \<times> u8 list) option list \<Rightarrow> 'm \<Rightarrow> 'm option" where
  "free_strs mm [] m = Some m"
| "free_strs mm (None # xs) m = free_strs mm xs m"
| "free_strs mm (Some (a, cs) # xs) m = do { m \<leftarrow> mm_free mm m a; free_strs mm xs m }"

fun copy_args :: "'m mm_ops \<Rightarrow> u8 list option list \<Rightarrow> (u64 \<times> u8 list) option list \<Rightarrow> 'm \<Rightarrow>
    ('m \<times> (u64 \<times> u8 list) option list option) option" where
  "copy_args mm [] done m = Some (m, Some done)"
| "copy_args mm (None # as) done m = copy_args mm as (done @ [None]) m"
| "copy_args mm (Some cs # as) done m = do {
     (m, a) \<leftarrow> mm_alloc mm m (of_nat (length cs) + 1);
     if a = 0 then do { m \<leftarrow> free_strs mm done m; Some (m, None) }
     else copy_args mm as (done @ [Some (a, cs)]) m
   }"

definition deepCopyArgv :: "'m mm_ops \<Rightarrow> int \<Rightarrow> u8 list option list option \<Rightarrow> 'm \<Rightarrow> ('m \<times> argvec option) option" where
  "deepCopyArgv mm argc argv m =
     (case argv of None \<Rightarrow> Some (m, None)
      | Some as \<Rightarrow>
        if argc \<le> 0 then Some (m, None)
        else do {
          (m, out) \<leftarrow> mm_alloc mm m (8 * of_int argc);
          if out = 0 then Some (m, None)
          else do {
            (m, strs) \<leftarrow> copy_args mm (take (nat argc) as) [] m;
            (case strs of
               None \<Rightarrow> do { m \<leftarrow> mm_free mm m out; Some (m, None) }
             | Some xs \<Rightarrow> Some (m, Some \<lparr>av_self = out, av_strs = xs\<rparr>))
          }
        })"

definition freeArgv :: "'m mm_ops \<Rightarrow> int \<Rightarrow> argvec option \<Rightarrow> 'm \<Rightarrow> 'm option" where
  "freeArgv mm argc argv m =
     (case argv of None \<Rightarrow> Some m
      | Some a \<Rightarrow> do { m \<leftarrow> free_strs mm (take (nat argc) (av_strs a)) m; mm_free mm m (av_self a) })"

definition newProcess :: "'m mm_ops \<Rightarrow> u64 \<Rightarrow> u8 list option \<Rightarrow> u64 \<Rightarrow> int \<Rightarrow> u8 \<Rightarrow> int \<Rightarrow>
    u8 list option list option \<Rightarrow> 'm kst \<Rightarrow> ('m kst \<times> u64) option" where
  "newProcess mm entryPoint name stackSize pid priorityLevel argc argv s = do {
     (m, p) \<leftarrow> mm_alloc mm (kmem s) sizeof_processCDT;
     if p = 0 then Some (s\<lparr>kmem := m\<rparr>, 0)
     else do {
       (m, sb) \<leftarrow> mm_alloc mm m stackSize;
       if sb = 0 then do { m \<leftarrow> mm_free mm m p; Some (s\<lparr>kmem := m\<rparr>, 0) }
       else do {
         (m, ch) \<leftarrow> kq_new mm m;
         (m, tc) \<leftarrow> kq_new mm m;
         (s, t) \<leftarrow> newSemaphore mm 0 (s\<lparr>kmem := m\<rparr>);
         (s, ct) \<leftarrow> newSemaphore mm 0 s;
         (let hasArgs = (argc > 0 \<and> argv \<noteq> None) in do {
           (m, av) \<leftarrow> (if hasArgs then deepCopyArgv mm argc argv (kmem s) else Some (kmem s, None));
           (let s = s\<lparr>kmem := m\<rparr> in
            if hasArgs \<and> av = None then do {
              m \<leftarrow> kqp_free mm ch (kmem s);
              m \<leftarrow> kqp_free mm tc m;
              s \<leftarrow> freeSemaphore mm t (s\<lparr>kmem := m\<rparr>);
              s \<leftarrow> freeSemaphore mm ct s;
              m \<leftarrow> mm_free mm (kmem s) sb;
              m \<leftarrow> mm_free mm m p;
              Some (s\<lparr>kmem := m\<rparr>, 0)
            }
            else Some (s\<lparr>procs := (procs s)(p \<mapsto>
              \<lparr>p_pid = pid, p_stackBase = sb, p_stackSize = stackSize, p_rsp = sb + stackSize, p_rip = entryPoint,
               p_state = READY, p_name = copyProcessName name, p_priorityLevel = priorityLevel,
               p_remainingQuantums = priorityLevel, p_ppid = INIT_PID, p_children = ch,
               p_terminatedChildren = tc, p_terminated = t, p_childTerminated = ct,
               p_argc = (if hasArgs then argc else 0), p_argv = av,
               p_fdTable = replicate (nat MAX_FDS) 0, p_eofRequests = replicate (nat MAX_FDS) False\<rparr>)\<rparr>, p))
         })
       }
     }
   }"

definition freeProcess :: "'m mm_ops \<Rightarrow> u64 \<Rightarrow> 'm kst \<Rightarrow> 'm kst option" where
  "freeProcess mm p s =
     (if p = 0 then Some s
      else do {
        pr \<leftarrow> procs s p;
        m \<leftarrow> freeArgv mm (p_argc pr) (p_argv pr) (kmem s);
        m \<leftarrow> mm_free mm m (p_stackBase pr);
        m \<leftarrow> kqp_free mm (p_children pr) m;
        m \<leftarrow> kqp_free mm (p_terminatedChildren pr) m;
        s \<leftarrow> freeSemaphore mm (p_terminated pr) (s\<lparr>kmem := m\<rparr>);
        s \<leftarrow> freeSemaphore mm (p_childTerminated pr) s;
        m \<leftarrow> mm_free mm (kmem s) p;
        Some (s\<lparr>kmem := m, procs := (procs s)(p := None)\<rparr>)
      })"

definition getStackMisalignment :: "processCDT \<Rightarrow> u64" where
  "getStackMisalignment pr =
     (if p_stackBase pr = 0 \<or> p_rsp pr = 0 then 0
      else (let offset = p_rsp pr - p_stackBase pr; mis = offset mod 8 in if mis \<noteq> 0 then 8 - mis else 0))"

section \<open>The initial stack frame\<close>

definition KERNEL_CS :: u64 where "KERNEL_CS = 0x8"
definition KERNEL_SS :: u64 where "KERNEL_SS = 0x0"
definition INITIAL_RFLAGS :: u64 where "INITIAL_RFLAGS = 0x202"

text \<open>\<^verbatim>\<open>*(--sp) = v\<close> on 64-bit cells.\<close>
fun push_all :: "u64 list \<Rightarrow> (u64 \<Rightarrow> u64) \<times> u64 \<Rightarrow> (u64 \<Rightarrow> u64) \<times> u64" where
  "push_all [] ms = ms"
| "push_all (v # vs) (m, sp) = push_all vs (m(sp - 8 := v), sp - 8)"

definition prepareStack :: "u64 \<Rightarrow> 'm kst \<Rightarrow> 'm kst option" where
  "prepareStack p s = do {
     pr \<leftarrow> procs s p;
     (let sp = p_rsp pr - getStackMisalignment pr;
          frame = [KERNEL_SS, p_rsp pr, INITIAL_RFLAGS, KERNEL_CS, p_rip pr] @ replicate 5 0 @
                  [ucast (word_of_int (p_argc pr) :: u32),
                   (case p_argv pr of None \<Rightarrow> 0 | Some a \<Rightarrow> av_self a)] @ replicate 8 0;
          (m, sp) = push_all frame (stackmem s, sp)
      in setRSP p sp (s\<lparr>stackmem := m\<rparr>))
   }"

text \<open>What the interrupt return of \<^verbatim>\<open>interrupts.asm\<close> loads: \<^verbatim>\<open>popState\<close> takes r15 to rax, \<^verbatim>\<open>iretq\<close> the
  remaining five cells.\<close>
record cpu_regs =
  r_rsi :: u64
  r_rdi :: u64
  r_rip :: u64
  r_cs :: u64
  r_rflags :: u64
  r_rsp :: u64
  r_ss :: u64

definition popState_iretq :: "(u64 \<Rightarrow> u64) \<Rightarrow> u64 \<Rightarrow> cpu_regs" where
  "popState_iretq m sp = (let pop = (\<lambda>i. m (sp + 8 * of_nat i)) in
     \<lparr>r_rsi = pop 8, r_rdi = pop 9, r_rip = pop 15, r_cs = pop 16, r_rflags = pop 17, r_rsp = pop 18, r_ss = pop 19\<rparr>)"

section \<open>Children\<close>

definition addChild :: "'m mm_ops \<Rightarrow> u64 \<Rightarrow> int \<Rightarrow> 'm kst \<Rightarrow> ('m kst \<times> int) option" where
  "addChild mm parent childPid s = do {
     pr \<leftarrow> procs s parent;
     (m, q, r) \<leftarrow> kqp_enqueue mm childPid (kmem s) (p_children pr);
     s \<leftarrow> on_proc parent (\<lambda>pr. pr\<lparr>p_children := q\<rparr>) (s\<lparr>kmem := m\<rparr>);
     Some (s, r)
   }"

definition removeChild :: "'m mm_ops \<Rightarrow> u64 \<Rightarrow> int \<Rightarrow> 'm kst \<Rightarrow> ('m kst \<times> int) option" where
  "removeChild mm parent childPid s = do {
     pr \<leftarrow> procs s parent;
     (m, q, r) \<leftarrow> kqp_remove mm (\<lambda>y. comparePIDs childPid y = 0) (kmem s) (p_children pr);
     s \<leftarrow> on_proc parent (\<lambda>pr. pr\<lparr>p_children := q\<rparr>) (s\<lparr>kmem := m\<rparr>);
     Some (s, r)
   }"

section \<open>File descriptors\<close>

definition isValidFd :: "int \<Rightarrow> bool" where
  "isValidFd fd \<longleftrightarrow> fd \<ge> 0 \<and> fd < MAX_FDS"

definition isOpenFd :: "processCDT \<Rightarrow> int \<Rightarrow> bool" where
  "isOpenFd pr fd \<longleftrightarrow> isValidFd fd \<and> p_fdTable pr ! nat fd \<noteq> 0"

definition set_fd :: "int \<Rightarrow> u64 \<Rightarrow> processCDT \<Rightarrow> processCDT" where
  "set_fd fd fa pr = pr\<lparr>p_fdTable := (p_fdTable pr)[nat fd := fa],
     p_eofRequests := (p_eofRequests pr)[nat fd := False]\<rparr>"

definition getFd :: "u64 \<Rightarrow> int \<Rightarrow> 'm kst \<Rightarrow> u64 option" where
  "getFd p fd s =
     (if p = 0 \<or> \<not> isValidFd fd then Some 0 else do { pr \<leftarrow> procs s p; Some (p_fdTable pr ! nat fd) })"

definition openFd :: "u64 \<Rightarrow> u64 \<Rightarrow> int \<Rightarrow> 'm kst \<Rightarrow> ('m kst \<times> int) option" where
  "openFd p fa fd s =
     (if p = 0 \<or> fa = 0 \<or> \<not> isValidFd fd then Some (s, -1)
      else do {
        pr \<leftarrow> procs s p;
        if isOpenFd pr fd then Some (s, -1)
        else do {
          s \<leftarrow> on_proc p (set_fd fd fa) s;
          s \<leftarrow> addFileRef fa s;
          Some (s, fd)
        }
      })"

definition addFd :: "u64 \<Rightarrow> u64 \<Rightarrow> 'm kst \<Rightarrow> ('m kst \<times> int) option" where
  "addFd p fa s =
     (if p = 0 \<or> fa = 0 then Some (s, -1)
      else do {
        pr \<leftarrow> procs s p;
        (case List.find (\<lambda>i. p_fdTable pr ! i = 0) [0..<nat MAX_FDS] of
           None \<Rightarrow> Some (s, -1) | Some i \<Rightarrow> openFd p fa (int i) s)
      })"

definition closeFd :: "'m mm_ops \<Rightarrow> u64 \<Rightarrow> int \<Rightarrow> 'm kst \<Rightarrow> ('m kst \<times> int) option" where
  "closeFd mm p fd s =
     (if p = 0 then Some (s, -1)
      else do {
        pr \<leftarrow> procs s p;
        if \<not> isOpenFd pr fd then Some (s, -1)
        else do {
          s \<leftarrow> on_proc p (set_fd fd 0) s;
          s \<leftarrow> removeFileRef mm (p_fdTable pr ! nat fd) s;
          Some (s, 0)
        }
      })"

definition dupFd :: "'m mm_ops \<Rightarrow> u64 \<Rightarrow> int \<Rightarrow> int \<Rightarrow> 'm kst \<Rightarrow> ('m kst \<times> int) option" where
  "dupFd mm p oldFd newFd s =
     (if p = 0 \<or> \<not> isValidFd newFd then Some (s, -1)
      else if oldFd = newFd then Some (s, newFd)
      else do {
        pr \<leftarrow> procs s p;
        if \<not> isOpenFd pr oldFd then do { (s, r) \<leftarrow> closeFd mm p newFd s; Some (s, newFd) }
        else do {
          (let fa = p_fdTable pr ! nat oldFd in do {
            (s, r) \<leftarrow> (if isOpenFd pr newFd then closeFd mm p newFd s else Some (s, 0));
            s \<leftarrow> on_proc p (set_fd newFd fa) s;
            s \<leftarrow> addFileRef fa s;
            Some (s, newFd)
          })
        }
      })"

definition reopenFd :: "'m mm_ops \<Rightarrow> u64 \<Rightarrow> int \<Rightarrow> 'm kst \<Rightarrow> ('m kst \<times> int) option" where
  "reopenFd mm p fd s =
     (if p = 0 then Some (s, -1)
      else do {
        pr \<leftarrow> procs s p;
        if \<not> isOpenFd pr fd then Some (s, -1)
        else do {
          (s, fa) \<leftarrow> cloneFile mm (p_fdTable pr ! nat fd) s;
          if fa = 0 then Some (s, -1)
          else do {
            (s, nfd) \<leftarrow> addFd p fa s;
            s \<leftarrow> (if nfd < 0 then removeFileRef mm fa s else Some s);
            Some (s, nfd)
          }
        }
      })"

text \<open>A descriptor read is the file read, repeated while it brings nothing but zero bytes; zero
  bytes are dropped and a pending end-of-file request is consumed.\<close>
datatype fd_pc = FRead u64 rd_pc | FRet int "u8 list"

definition readFd_enter :: "u64 \<Rightarrow> int \<Rightarrow> u64 \<Rightarrow> 'm kst \<Rightarrow> fd_pc option" where
  "readFd_enter p fd cnt s = do {
     pr \<leftarrow> procs s p;
     (pipe, pc) \<leftarrow> fileRead (p_fdTable pr ! nat fd) cnt s;
     Some (FRead pipe pc)
   }"

definition take_eof :: "u64 \<Rightarrow> int \<Rightarrow> 'm kst \<Rightarrow> ('m kst \<times> bool) option" where
  "take_eof p fd s = do {
     pr \<leftarrow> procs s p;
     s' \<leftarrow> on_proc p (\<lambda>pr. pr\<lparr>p_eofRequests := (p_eofRequests pr)[nat fd := False]\<rparr>) s;
     Some (if p_eofRequests pr ! nat fd then (s', True) else (s, False))
   }"

definition readFd :: "u64 \<Rightarrow> int \<Rightarrow> u64 \<Rightarrow> 'm kst \<Rightarrow> ('m kst \<times> fd_pc) option" where
  "readFd p fd cnt s =
     (if p = 0 then Some (s, FRet (-1) [])
      else do {
        pr \<leftarrow> procs s p;
        if \<not> isOpenFd pr fd then Some (s, FRet (-1) [])
        else do {
          (s, eof) \<leftarrow> take_eof p fd s;
          if eof then Some (s, FRet 0 []) else do { pc \<leftarrow> readFd_enter p fd cnt s; Some (s, pc) }
        }
      })"

fun readFd_step :: "'m mm_ops \<Rightarrow> u64 \<Rightarrow> u64 \<Rightarrow> int \<Rightarrow> u64 \<Rightarrow> fd_pc \<Rightarrow> 'm kst \<Rightarrow> ('m kst \<times> fd_pc) option" where
  "readFd_step mm rsp p fd cnt (FRead pipe (RRet n bs)) s =
     (if n \<le> 0 then Some (s, FRet n bs)
      else (let out = filter (\<lambda>b. b \<noteq> 0) bs in
        if out \<noteq> [] then Some (s, FRet (int (length out)) out)
        else do {
          (s, eof) \<leftarrow> take_eof p fd s;
          if eof then Some (s, FRet 0 []) else do { pc \<leftarrow> readFd_enter p fd cnt s; Some (s, pc) }
        }))"
| "readFd_step mm rsp p fd cnt (FRead pipe pc) s = do {
     (s, pc) \<leftarrow> pipeRead_step mm rsp pipe cnt pc s; Some (s, FRead pipe pc) }"
| "readFd_step mm rsp p fd cnt (FRet n bs) s = Some (s, FRet n bs)"

definition writeFd :: "u64 \<Rightarrow> int \<Rightarrow> 'm kst \<Rightarrow> (u64 \<times> bool \<times> wr_pc) option" where
  "writeFd p fd s =
     (if p = 0 then Some (0, False, WRet (-1))
      else do {
        pr \<leftarrow> procs s p;
        if \<not> isOpenFd pr fd then Some (0, False, WRet (-1)) else fileWrite (p_fdTable pr ! nat fd) s
      })"

definition requestEofOf :: "u64 \<Rightarrow> int \<Rightarrow> 'm kst \<Rightarrow> ('m kst \<times> int) option" where
  "requestEofOf p fd s =
     (if p = 0 then Some (s, -1)
      else do {
        pr \<leftarrow> procs s p;
        if \<not> isOpenFd pr fd then Some (s, -1)
        else do {
          s \<leftarrow> on_proc p (\<lambda>pr. pr\<lparr>p_eofRequests := (p_eofRequests pr)[nat fd := True]\<rparr>) s;
          Some (s, 0)
        }
      })"

fun close_from :: "'m mm_ops \<Rightarrow> u64 \<Rightarrow> int list \<Rightarrow> 'm kst \<Rightarrow> 'm kst option" where
  "close_from mm p [] s = Some s"
| "close_from mm p (fd # fds) s = do {
     pr \<leftarrow> procs s p;
     (s, r) \<leftarrow> (if p_fdTable pr ! nat fd \<noteq> 0 then closeFd mm p fd s else Some (s, 0));
     close_from mm p fds s
   }"

definition closeAllFDs :: "'m mm_ops \<Rightarrow> u64 \<Rightarrow> 'm kst \<Rightarrow> 'm kst option" where
  "closeAllFDs mm p s = (if p = 0 then Some s else close_from mm p [0..MAX_FDS - 1] s)"

fun copy_fds :: "'m mm_ops \<Rightarrow> u64 \<Rightarrow> u64 \<Rightarrow> int list \<Rightarrow> 'm kst \<Rightarrow> 'm kst option" where
  "copy_fds mm target source [] s = Some s"
| "copy_fds mm target source (fd # fds) s = do {
     pt \<leftarrow> procs s target;
     (s, r) \<leftarrow> (if p_fdTable pt ! nat fd \<noteq> 0 then closeFd mm target fd s else Some (s, 0));
     ps \<leftarrow> procs s source;
     (s, r) \<leftarrow> (if p_fdTable ps ! nat fd \<noteq> 0 then openFd target (p_fdTable ps ! nat fd) fd s else Some (s, 0));
     copy_fds mm target source fds s
   }"

definition copyFdTable :: "'m mm_ops \<Rightarrow> u64 \<Rightarrow> u64 \<Rightarrow> 'm kst \<Rightarrow> 'm kst option" where
  "copyFdTable mm target source s =
     (if target = 0 \<or> source = 0 then Some s else copy_fds mm target source [0..MAX_FDS - 1] s)"

section \<open>Properties\<close>

subsection \<open>The first dispatch\<close>

lemma push_all_append: "push_all (xs @ ys) ms = push_all ys (push_all xs ms)"
  by (induction xs ms rule: push_all.induct) simp_all

lemma push_all_sp: "snd (push_all vs (m, sp)) = sp - 8 * of_nat (length vs)"
proof (induction vs arbitrary: m sp)
  case (Cons v vs)
  then show ?case by (simp only: push_all.simps list.size of_nat_add of_nat_Suc) (simp add: distrib_left)
qed simp

lemma cell_distinct:
  assumes "i < 32" "j < 32" "i \<noteq> j" shows "(sp :: u64) - 8 * of_nat i \<noteq> sp - 8 * of_nat j"
proof
  assume "sp - 8 * of_nat i = sp - 8 * of_nat j"
  then have "(of_nat (8 * i) :: u64) = of_nat (8 * j)" by simp
  then have "unat (of_nat (8 * i) :: u64) = unat (of_nat (8 * j) :: u64)" by simp
  with assms show False by (simp add: unat_of_nat take_bit_nat_eq_self del: of_nat_mult)
qed

lemma push_all_other:
  assumes "\<And>i. i < length vs \<Longrightarrow> a \<noteq> sp - 8 * (of_nat i + 1)"
  shows "fst (push_all vs (m, sp)) a = m a"
  using assms
proof (induction vs arbitrary: m sp)
  case (Cons v vs)
  have "a \<noteq> (sp - 8) - 8 * (of_nat i + 1)" if "i < length vs" for i
    using Cons.prems [of "Suc i"] that by (simp add: algebra_simps)
  moreover have "a \<noteq> sp - 8" using Cons.prems [of 0] by simp
  moreover from calculation(1) have "fst (push_all vs (m(sp - 8 := v), sp - 8)) a = (m(sp - 8 := v)) a"
    by (rule Cons.IH)
  ultimately show ?case by simp
qed simp

text \<open>Cell \<open>j\<close> counted from the top holds the \<open>j\<close>-th pushed value.\<close>
lemma push_all_nth:
  assumes "j < length vs" "length vs < 32"
  shows "fst (push_all vs (m, sp)) (sp - 8 * (of_nat j + 1)) = vs ! j"
  using assms
proof (induction vs arbitrary: m sp j)
  case (Cons v vs)
  show ?case
  proof (cases j)
    case 0
    have "sp - 8 \<noteq> (sp - 8) - 8 * (of_nat i + 1)" if "i < length vs" for i
      using cell_distinct [of 0 "Suc i" "sp - 8"] that Cons.prems by (simp add: algebra_simps)
    then have "fst (push_all vs (m(sp - 8 := v), sp - 8)) (sp - 8) = (m(sp - 8 := v)) (sp - 8)"
      by (intro push_all_other) simp
    with 0 show ?thesis by simp
  next
    case (Suc k)
    have "sp - 8 * (of_nat j + 1) = (sp - 8) - 8 * (of_nat k + 1)" using Suc by (simp add: algebra_simps)
    moreover have "fst (push_all vs (m(sp - 8 := v), sp - 8)) ((sp - 8) - 8 * (of_nat k + 1)) = vs ! k"
      using Suc Cons.prems by (intro Cons.IH) simp_all
    ultimately show ?thesis using Suc by (simp only: push_all.simps nth_Cons_Suc)
  qed
qed simp

definition stack_top :: "processCDT \<Rightarrow> u64" where
  "stack_top pr = p_rsp pr - getStackMisalignment pr"

definition initial_frame :: "processCDT \<Rightarrow> u64 list" where
  "initial_frame pr = [KERNEL_SS, p_rsp pr, INITIAL_RFLAGS, KERNEL_CS, p_rip pr] @ replicate 5 0 @
     [ucast (word_of_int (p_argc pr) :: u32), (case p_argv pr of None \<Rightarrow> 0 | Some a \<Rightarrow> av_self a)] @ replicate 8 0"

lemma initial_frame_length [simp]: "length (initial_frame pr) = 20"
  by (simp add: initial_frame_def)

lemma prepareStack_eq:
  assumes "procs s p = Some pr"
  shows "prepareStack p s = Some (s\<lparr>stackmem := fst (push_all (initial_frame pr) (stackmem s, stack_top pr)),
    procs := (procs s)(p \<mapsto> pr\<lparr>p_rsp := stack_top pr - 160\<rparr>)\<rparr>)"
proof -
  have "prepareStack p s = (case push_all (initial_frame pr) (stackmem s, stack_top pr) of (m, sp) \<Rightarrow> setRSP p sp (s\<lparr>stackmem := m\<rparr>))"
    using assms by (simp only: prepareStack_def initial_frame_def stack_top_def Let_def option.simps bind.simps)
  then show ?thesis
    using assms push_all_sp [of "initial_frame pr" "stackmem s" "stack_top pr"] by (simp add: setRSP_def case_prod_unfold)
qed

lemma frame_cell:
  assumes "i < 20"
  shows "fst (push_all (initial_frame pr) (m, sp)) (sp - 160 + 8 * of_nat i) = initial_frame pr ! (19 - i)"
proof -
  have "sp - 160 + 8 * of_nat i = sp - 8 * (of_nat (19 - i) + 1)" using assms by (simp add: of_nat_diff)
  moreover have "fst (push_all (initial_frame pr) (m, sp)) (sp - 8 * (of_nat (19 - i) + 1)) = initial_frame pr ! (19 - i)"
    using assms by (intro push_all_nth) simp_all
  ultimately show ?thesis by (simp only:)
qed

text \<open>C26. The first dispatch enters the program: after \<^verbatim>\<open>prepareStack\<close>, the interrupt return that
  switches to the new process (\<^verbatim>\<open>popState\<close> and \<^verbatim>\<open>iretq\<close> at the saved stack pointer) starts it at its
  entry point with \<^verbatim>\<open>argc\<close> and \<^verbatim>\<open>argv\<close> in the argument registers, the full stack, the kernel
  selectors and interrupts enabled; only the twenty cells below the top of the stack and the saved
  stack pointer change.\<close>
theorem first_dispatch:
  assumes "procs s p = Some pr"
  shows "\<exists>s' sp. prepareStack p s = Some s' \<and> getRSP p s' = Some sp \<and> sp = stack_top pr - 160 \<and>
    popState_iretq (stackmem s') sp =
      \<lparr>r_rsi = (case p_argv pr of None \<Rightarrow> 0 | Some a \<Rightarrow> av_self a), r_rdi = ucast (word_of_int (p_argc pr) :: u32),
       r_rip = p_rip pr, r_cs = 8, r_rflags = 0x202, r_rsp = p_rsp pr, r_ss = 0\<rparr> \<and>
    (\<forall>a. (\<forall>i < 20. a \<noteq> sp + 8 * of_nat i) \<longrightarrow> stackmem s' a = stackmem s a) \<and>
    s' = s\<lparr>stackmem := stackmem s', procs := (procs s)(p \<mapsto> pr\<lparr>p_rsp := sp\<rparr>)\<rparr>"
proof -
  define m where "m = fst (push_all (initial_frame pr) (stackmem s, stack_top pr))"
  define sp where "sp = stack_top pr - 160"
  have cell: "m (sp + 8 * of_nat i) = initial_frame pr ! (19 - i)" if "i < 20" for i
    using frame_cell [OF that] by (simp add: m_def sp_def)
  have regs: "popState_iretq m sp = \<lparr>r_rsi = (case p_argv pr of None \<Rightarrow> 0 | Some a \<Rightarrow> av_self a),
      r_rdi = ucast (word_of_int (p_argc pr) :: u32), r_rip = p_rip pr, r_cs = 8, r_rflags = 0x202,
      r_rsp = p_rsp pr, r_ss = 0\<rparr>"
    using cell [of 8] cell [of 9] cell [of 15] cell [of 16] cell [of 17] cell [of 18] cell [of 19]
    by (simp add: popState_iretq_def initial_frame_def KERNEL_CS_def KERNEL_SS_def INITIAL_RFLAGS_def nth_append nth_Cons')
  have "m a = stackmem s a" if out: "\<forall>i < 20. a \<noteq> sp + 8 * of_nat i" for a
    unfolding m_def
  proof (rule push_all_other)
    fix i assume i: "i < length (initial_frame pr)"
    then have "stack_top pr - 8 * (of_nat i + 1) = sp + 8 * of_nat (19 - i)" by (simp add: sp_def of_nat_diff)
    moreover have "a \<noteq> sp + 8 * of_nat (19 - i)" by (rule out [rule_format]) simp
    ultimately show "a \<noteq> stack_top pr - 8 * (of_nat i + 1)" by (simp only:) simp
  qed
  with regs prepareStack_eq [OF assms] show ?thesis by (simp add: getRSP_def flip: m_def sp_def)
qed

theorem first_dispatch_witness:
  "\<exists>s' sp. prepareStack (demo_ptr 0) demo_kst = Some s' \<and> getRSP (demo_ptr 0) s' = Some sp \<and>
    r_rip (popState_iretq (stackmem s') sp) = 0x400000 \<and> r_rflags (popState_iretq (stackmem s') sp) = 0x202"
proof -
  have "procs demo_kst (demo_ptr 0) = Some (demo_proc 0 READY)" by (simp add: demo_kst_def)
  from first_dispatch [OF this] show ?thesis by (auto simp: demo_proc_def)
qed

end
