(* ===== verification/KLifecycle.thy ===== *)
theory KLifecycle
  imports KProcess
begin

text \<open>
  The rest of \<^verbatim>\<open>scheduler.c\<close>: creating processes, ending and killing them, waiting for them, and the
  descriptor calls on the current process or on a pid.  \<^verbatim>\<open>wait_pid\<close> and \<^verbatim>\<open>wait_any\<close> have one wait
  inside, so they are split into the part before it and the part after it.
\<close>

section \<open>Creation\<close>

definition startNewProcessWithPid :: "'m mm_ops \<Rightarrow> u64 \<Rightarrow> u8 list option \<Rightarrow> u8 \<Rightarrow> int \<Rightarrow> int \<Rightarrow>
    u8 list option list option \<Rightarrow> 'm kst \<Rightarrow> ('m kst \<times> int) option" where
  "startNewProcessWithPid mm entryPoint name priorityLevel pid argc argv s =
     (case ptab s pid of None \<Rightarrow> Some (s, -1)
      | Some old \<Rightarrow>
        if old \<noteq> 0 then Some (s, -1)
        else do {
          (s, p) \<leftarrow> newProcess mm entryPoint name DEFAULT_STACK_SIZE pid priorityLevel argc argv s;
          if p = 0 then Some (s, -1)
          else do {
            cur \<leftarrow> getCurrentPID s;
            s \<leftarrow> (if currentProcess s \<noteq> 0 \<and> cur \<noteq> IDLE_PID then do {
                   s \<leftarrow> setPPID p cur s;
                   (s, r) \<leftarrow> addChild mm (currentProcess s) pid s;
                   copyFdTable mm p (currentProcess s) s }
                 else setPPID p INIT_PID s);
            s \<leftarrow> prepareStack p s;
            s \<leftarrow> setState p READY s;
            (let s = s\<lparr>processTable := (processTable s)[nat pid := p]\<rparr> in do {
              (m, q, r) \<leftarrow> kqp_enqueue mm pid (kmem s) (readyQueue s);
              Some (s\<lparr>kmem := m, readyQueue := q\<rparr>, pid)
            })
          }
        })"

text \<open>\<open>idle\<close> is the address of \<^verbatim>\<open>idleProcessEntry\<close>; the names are the byte strings of the source.\<close>
definition initializeScheduler :: "'m mm_ops \<Rightarrow> u64 \<Rightarrow> u64 \<Rightarrow> 'm kst \<Rightarrow> 'm kst option" where
  "initializeScheduler mm idle initProcessEntry s =
     (let s = s\<lparr>processTable := replicate (nat MAX_PROCESSES) 0, foregroundSet := replicate (nat MAX_PROCESSES) False\<rparr> in do {
       (m, q) \<leftarrow> kq_new mm (kmem s);
       (let s = s\<lparr>kmem := m, readyQueue := q, currentProcess := 0, schedulerEnabled := False\<rparr> in do {
         (s, r) \<leftarrow> startNewProcessWithPid mm idle (Some [105, 100, 108, 101]) 1 IDLE_PID 0 None s;
         (s, r) \<leftarrow> startNewProcessWithPid mm initProcessEntry (Some [105, 110, 105, 116]) 1 INIT_PID 0 None s;
         Some s
       })
     })"

definition startNewProcess :: "'m mm_ops \<Rightarrow> u64 \<Rightarrow> u8 list option \<Rightarrow> u8 \<Rightarrow> int \<Rightarrow> u8 list option list option \<Rightarrow>
    'm kst \<Rightarrow> ('m kst \<times> int) option" where
  "startNewProcess mm entryPoint name priorityLevel argc argv s =
     (let pid = findFreePid s in
      if pid < 0 then Some (s, -1)
      else startNewProcessWithPid mm entryPoint name priorityLevel pid argc argv s)"

record fd_override_t =
  affectedFd :: int
  targetFd :: int

fun apply_overrides :: "'m mm_ops \<Rightarrow> u64 \<Rightarrow> fd_override_t list \<Rightarrow> 'm kst \<Rightarrow> 'm kst option" where
  "apply_overrides mm child [] s = Some s"
| "apply_overrides mm child (ov # ovs) s = do {
     (s, r) \<leftarrow> (if targetFd ov = -1 then closeFd mm child (affectedFd ov) s
               else dupFd mm child (targetFd ov) (affectedFd ov) s);
     apply_overrides mm child ovs s
   }"

definition startNewProcessWithFds :: "'m mm_ops \<Rightarrow> u64 \<Rightarrow> u8 list option \<Rightarrow> u8 \<Rightarrow> int \<Rightarrow> u8 list option list option \<Rightarrow>
    fd_override_t list option \<Rightarrow> 'm kst \<Rightarrow> ('m kst \<times> int) option" where
  "startNewProcessWithFds mm entryPoint name priorityLevel argc argv overrides s = do {
     (s, pid) \<leftarrow> startNewProcess mm entryPoint name priorityLevel argc argv s;
     (case overrides of None \<Rightarrow> Some (s, pid)
      | Some ovs \<Rightarrow>
        if pid < 0 then Some (s, pid)
        else do {
          child \<leftarrow> ptab s pid;
          if child = 0 then Some (s, pid)
          else do { s \<leftarrow> apply_overrides mm child ovs s; Some (s, pid) }
        })
   }"

record ProcessInfo =
  pi_pid :: int
  pi_ppid :: int
  pi_state :: State
  pi_name :: "u8 list"
  pi_priority :: u8
  pi_inForeground :: bool
  pi_rsp :: u64
  pi_stackBase :: u64

text \<open>The rows for the table indices \<open>is\<close>, at most \<open>maxCount\<close> of them.\<close>
fun info_rows :: "'m kst \<Rightarrow> nat list \<Rightarrow> int \<Rightarrow> ProcessInfo list option" where
  "info_rows s [] maxCount = Some []"
| "info_rows s (i # is) maxCount =
     (if maxCount \<le> 0 then Some []
      else if processTable s ! i = 0 then info_rows s is maxCount
      else do {
        pr \<leftarrow> procs s (processTable s ! i);
        rest \<leftarrow> info_rows s is (maxCount - 1);
        Some (\<lparr>pi_pid = p_pid pr, pi_ppid = p_ppid pr, pi_state = p_state pr, pi_name = p_name pr,
               pi_priority = p_priorityLevel pr, pi_inForeground = foregroundSet s ! i, pi_rsp = p_rsp pr,
               pi_stackBase = p_stackBase pr\<rparr> # rest)
      })"

definition getProcessInfo :: "int \<Rightarrow> 'm kst \<Rightarrow> ProcessInfo list option" where
  "getProcessInfo maxCount s = info_rows s [0..<nat MAX_PROCESSES] maxCount"

section \<open>Termination\<close>

definition reapProcess :: "'m mm_ops \<Rightarrow> int \<Rightarrow> 'm kst \<Rightarrow> 'm kst option" where
  "reapProcess mm pid s =
     (case ptab s pid of None \<Rightarrow> Some s
      | Some p \<Rightarrow>
        if p = 0 then Some s
        else do {
          s \<leftarrow> freeProcess mm p s;
          Some (s\<lparr>processTable := (processTable s)[nat pid := 0], foregroundSet := (foregroundSet s)[nat pid := False]\<rparr>)
        })"

definition enqueue_terminated :: "'m mm_ops \<Rightarrow> u64 \<Rightarrow> int \<Rightarrow> 'm kst \<Rightarrow> 'm kst option" where
  "enqueue_terminated mm parent pid s = do {
     pr \<leftarrow> procs s parent;
     (m, q, r) \<leftarrow> kqp_enqueue mm pid (kmem s) (p_terminatedChildren pr);
     on_proc parent (\<lambda>pr. pr\<lparr>p_terminatedChildren := q\<rparr>) (s\<lparr>kmem := m\<rparr>)
   }"

text \<open>One orphan moves to init; a zombie is announced to it.\<close>
definition adopt_orphan :: "'m mm_ops \<Rightarrow> u64 \<Rightarrow> int \<Rightarrow> 'm kst \<Rightarrow> 'm kst option" where
  "adopt_orphan mm initProc childPid s =
     (case ptab s childPid of None \<Rightarrow> Some s
      | Some child \<Rightarrow>
        if child = 0 then Some s
        else do {
          (s, r) \<leftarrow> addChild mm initProc childPid s;
          s \<leftarrow> setPPID child INIT_PID s;
          st \<leftarrow> getState child s;
          if st = ZOMBIE then do {
            s \<leftarrow> enqueue_terminated mm initProc childPid s;
            pr \<leftarrow> procs s initProc;
            (s, r) \<leftarrow> semPost mm (p_childTerminated pr) s;
            Some s
          }
          else Some s
        })"

partial_function (option) orphan_loop :: "'m mm_ops \<Rightarrow> u64 \<Rightarrow> u64 \<Rightarrow> 'm kst \<Rightarrow> 'm kst option" where
  "orphan_loop mm process initProc s = Option.bind (procs s process) (\<lambda>pr.
     if kqp_empty (p_children pr) then Some s
     else Option.bind (kqp_poll mm (kmem s) (p_children pr)) (\<lambda>(m, q, r).
       Option.bind (on_proc process (\<lambda>pr. pr\<lparr>p_children := q\<rparr>) (s\<lparr>kmem := m\<rparr>)) (\<lambda>s.
         Option.bind (adopt_orphan mm initProc (pid_of_poll r) s) (\<lambda>s.
           orphan_loop mm process initProc s))))"

definition transferOrphanChildren :: "'m mm_ops \<Rightarrow> u64 \<Rightarrow> 'm kst \<Rightarrow> 'm kst option" where
  "transferOrphanChildren mm process s = do {
     initProc \<leftarrow> ptab s INIT_PID;
     if initProc = 0 then Some s else orphan_loop mm process initProc s
   }"

definition notifyTermination :: "'m mm_ops \<Rightarrow> u64 \<Rightarrow> u64 \<Rightarrow> int \<Rightarrow> 'm kst \<Rightarrow> 'm kst option" where
  "notifyTermination mm process parent pid s = do {
     s \<leftarrow> setState process ZOMBIE s;
     (m, q, r) \<leftarrow> kqp_remove mm (\<lambda>y. comparePIDs pid y = 0) (kmem s) (readyQueue s);
     (let s = s\<lparr>kmem := m, readyQueue := q\<rparr> in do {
       pr \<leftarrow> procs s process;
       (s, r) \<leftarrow> semPost mm (p_terminated pr) s;
       pp \<leftarrow> procs s parent;
       (s, r) \<leftarrow> semPost mm (p_childTerminated pp) s;
       enqueue_terminated mm parent pid s
     })
   }"

definition closeFdsOf :: "'m mm_ops \<Rightarrow> int \<Rightarrow> 'm kst \<Rightarrow> 'm kst option" where
  "closeFdsOf mm pid s = (case ptab s pid of None \<Rightarrow> Some s | Some p \<Rightarrow> closeAllFDs mm p s)"

text \<open>The common body of \<^verbatim>\<open>terminateProcess\<close> and \<^verbatim>\<open>killFromIsr\<close>; the flag says whether the guards let
  it through.\<close>
definition end_process :: "'m mm_ops \<Rightarrow> int \<Rightarrow> 'm kst \<Rightarrow> ('m kst \<times> bool) option" where
  "end_process mm pid s =
     (case ptab s pid of None \<Rightarrow> Some (s, False)
      | Some process \<Rightarrow>
        if isUnkillable pid \<or> process = 0 then Some (s, False)
        else do {
          ppid \<leftarrow> getPPID process s;
          (case ptab s ppid of None \<Rightarrow> Some (s, False)
           | Some parent \<Rightarrow>
             if parent = 0 then Some (s, False)
             else do {
               s \<leftarrow> closeFdsOf mm pid s;
               s \<leftarrow> notifyTermination mm process parent pid (s\<lparr>foregroundSet := (foregroundSet s)[nat pid := False]\<rparr>);
               s \<leftarrow> transferOrphanChildren mm process s;
               Some (s, True)
             })
        })"

definition terminateProcess :: "'m mm_ops \<Rightarrow> u64 \<Rightarrow> int \<Rightarrow> 'm kst \<Rightarrow> ('m kst \<times> int) option" where
  "terminateProcess mm rsp pid s = do {
     (s, done) \<leftarrow> end_process mm pid s;
     if \<not> done then Some (s, -1)
     else do {
       cur \<leftarrow> getCurrentPID s;
       s \<leftarrow> (if currentProcess s \<noteq> 0 \<and> cur = pid then forceSchedulerCall mm rsp s else Some s);
       Some (s, 0)
     }
   }"

definition killFromIsr :: "'m mm_ops \<Rightarrow> int \<Rightarrow> 'm kst \<Rightarrow> 'm kst option" where
  "killFromIsr mm pid s = do { (s, done) \<leftarrow> end_process mm pid s; Some s }"

fun kill_listed :: "'m mm_ops \<Rightarrow> nat list \<Rightarrow> 'm kst \<Rightarrow> 'm kst option" where
  "kill_listed mm [] s = Some s"
| "kill_listed mm (i # is) s = do {
     s \<leftarrow> (if foregroundSet s ! i then killFromIsr mm (int i) s else Some s);
     kill_listed mm is s
   }"

text \<open>\<^verbatim>\<open>forEachInFG(killFromIsr)\<close>, the action Ctrl+C runs.\<close>
definition killForeground :: "'m mm_ops \<Rightarrow> 'm kst \<Rightarrow> 'm kst option" where
  "killForeground mm s = kill_listed mm [0..<nat MAX_PROCESSES] s"

section \<open>Waiting\<close>

text \<open>Before the wait \<^verbatim>\<open>wait_pid\<close> fixes the process and its parent; afterwards it uses them as they
  were.\<close>
datatype wp_pc = WPWait u64 u64 | WPReap u64 | WPDone

definition wait_pid :: "int \<Rightarrow> 'm kst \<Rightarrow> wp_pc option" where
  "wait_pid pid s =
     (case ptab s pid of None \<Rightarrow> Some WPDone
      | Some process \<Rightarrow>
        if process = 0 then Some WPDone
        else do {
          ppid \<leftarrow> getPPID process s;
          Some (WPWait process (case ptab s ppid of None \<Rightarrow> 0 | Some parent \<Rightarrow> parent))
        })"

definition wait_pid_reap :: "'m mm_ops \<Rightarrow> int \<Rightarrow> u64 \<Rightarrow> 'm kst \<Rightarrow> 'm kst option" where
  "wait_pid_reap mm pid parent s = do {
     s \<leftarrow> (if parent \<noteq> 0 then do {
            pp \<leftarrow> procs s parent;
            (s, r) \<leftarrow> semTryWait (p_childTerminated pp) s;
            pp \<leftarrow> procs s parent;
            (m, q, r) \<leftarrow> kqp_remove mm (\<lambda>y. comparePIDs pid y = 0) (kmem s) (p_terminatedChildren pp);
            s \<leftarrow> on_proc parent (\<lambda>pr. pr\<lparr>p_terminatedChildren := q\<rparr>) (s\<lparr>kmem := m\<rparr>);
            (s, r) \<leftarrow> removeChild mm parent pid s;
            Some s }
          else Some s);
     reapProcess mm pid s
   }"

fun wait_pid_step :: "'m mm_ops \<Rightarrow> u64 \<Rightarrow> int \<Rightarrow> wp_pc \<Rightarrow> 'm kst \<Rightarrow> ('m kst \<times> wp_pc) option" where
  "wait_pid_step mm rsp pid (WPWait process parent) s = do {
     pr \<leftarrow> procs s process; wait_then mm rsp (p_terminated pr) (WPReap parent) s }"
| "wait_pid_step mm rsp pid (WPReap parent) s = do { s \<leftarrow> wait_pid_reap mm pid parent s; Some (s, WPDone) }"
| "wait_pid_step mm rsp pid WPDone s = Some (s, WPDone)"

datatype wa_pc = WAWait | WAReap | WADone

text \<open>The part of \<^verbatim>\<open>wait_any\<close> and of the loop of \<^verbatim>\<open>reap_zombies\<close> after the semaphore was taken.\<close>
definition reap_next :: "'m mm_ops \<Rightarrow> 'm kst \<Rightarrow> 'm kst option" where
  "reap_next mm s = do {
     cur \<leftarrow> procs s (currentProcess s);
     (m, q, r) \<leftarrow> kqp_poll mm (kmem s) (p_terminatedChildren cur);
     s \<leftarrow> on_proc (currentProcess s) (\<lambda>pr. pr\<lparr>p_terminatedChildren := q\<rparr>) (s\<lparr>kmem := m\<rparr>);
     (let pid = pid_of_poll r in
      if pid < 0 \<or> pid \<ge> MAX_PROCESSES then Some s
      else do {
        (s, r) \<leftarrow> removeChild mm (currentProcess s) pid s;
        reapProcess mm pid s
      })
   }"

fun wait_any_step :: "'m mm_ops \<Rightarrow> u64 \<Rightarrow> wa_pc \<Rightarrow> 'm kst \<Rightarrow> ('m kst \<times> wa_pc) option" where
  "wait_any_step mm rsp WAWait s =
     (if currentProcess s = 0 then Some (s, WADone)
      else do { cur \<leftarrow> procs s (currentProcess s); wait_then mm rsp (p_childTerminated cur) WAReap s })"
| "wait_any_step mm rsp WAReap s = do { s \<leftarrow> reap_next mm s; Some (s, WADone) }"
| "wait_any_step mm rsp WADone s = Some (s, WADone)"

partial_function (option) reap_loop :: "'m mm_ops \<Rightarrow> 'm kst \<Rightarrow> 'm kst option" where
  "reap_loop mm s = Option.bind (procs s (currentProcess s)) (\<lambda>cur.
     Option.bind (semTryWait (p_childTerminated cur) s) (\<lambda>(s, r).
       if r = 0 then Option.bind (reap_next mm s) (\<lambda>s. reap_loop mm s) else Some s))"

definition reap_zombies :: "'m mm_ops \<Rightarrow> 'm kst \<Rightarrow> 'm kst option" where
  "reap_zombies mm s = (if currentProcess s = 0 then Some s else reap_loop mm s)"

declare orphan_loop.simps [simp del] reap_loop.simps [simp del]

section \<open>Descriptors of the current process and of a pid\<close>

definition getCurrentFd :: "int \<Rightarrow> 'm kst \<Rightarrow> u64 option" where
  "getCurrentFd fd s = (if currentProcess s = 0 then Some 0 else getFd (currentProcess s) fd s)"

definition addCurrentFd :: "u64 \<Rightarrow> 'm kst \<Rightarrow> ('m kst \<times> int) option" where
  "addCurrentFd fa s = (if currentProcess s = 0 then Some (s, -1) else addFd (currentProcess s) fa s)"

definition openCurrentFd :: "u64 \<Rightarrow> int \<Rightarrow> 'm kst \<Rightarrow> ('m kst \<times> int) option" where
  "openCurrentFd fa fd s = (if currentProcess s = 0 then Some (s, -1) else openFd (currentProcess s) fa fd s)"

definition closeCurrentFd :: "'m mm_ops \<Rightarrow> int \<Rightarrow> 'm kst \<Rightarrow> ('m kst \<times> int) option" where
  "closeCurrentFd mm fd s = (if currentProcess s = 0 then Some (s, -1) else closeFd mm (currentProcess s) fd s)"

definition dupCurrentFd :: "'m mm_ops \<Rightarrow> int \<Rightarrow> int \<Rightarrow> 'm kst \<Rightarrow> ('m kst \<times> int) option" where
  "dupCurrentFd mm oldFd newFd s = (if currentProcess s = 0 then Some (s, -1) else dupFd mm (currentProcess s) oldFd newFd s)"

definition reopenCurrentFd :: "'m mm_ops \<Rightarrow> int \<Rightarrow> 'm kst \<Rightarrow> ('m kst \<times> int) option" where
  "reopenCurrentFd mm fd s = (if currentProcess s = 0 then Some (s, -1) else reopenFd mm (currentProcess s) fd s)"

definition readFdOnPID :: "int \<Rightarrow> int \<Rightarrow> u64 \<Rightarrow> 'm kst \<Rightarrow> ('m kst \<times> fd_pc) option" where
  "readFdOnPID pid fd cnt s = (case ptab s pid of None \<Rightarrow> Some (s, FRet (-1) []) | Some p \<Rightarrow> readFd p fd cnt s)"

definition writeFdOnPID :: "int \<Rightarrow> int \<Rightarrow> 'm kst \<Rightarrow> (u64 \<times> bool \<times> wr_pc) option" where
  "writeFdOnPID pid fd s = (case ptab s pid of None \<Rightarrow> Some (0, False, WRet (-1)) | Some p \<Rightarrow> writeFd p fd s)"

definition requestEofOnPID :: "int \<Rightarrow> int \<Rightarrow> 'm kst \<Rightarrow> ('m kst \<times> int) option" where
  "requestEofOnPID pid fd s = (case ptab s pid of None \<Rightarrow> Some (s, -1) | Some p \<Rightarrow> requestEofOf p fd s)"

definition getFdOnPID :: "int \<Rightarrow> int \<Rightarrow> 'm kst \<Rightarrow> u64 option" where
  "getFdOnPID pid fd s = (case ptab s pid of None \<Rightarrow> Some 0 | Some p \<Rightarrow> getFd p fd s)"

definition addFdToPID :: "int \<Rightarrow> u64 \<Rightarrow> 'm kst \<Rightarrow> ('m kst \<times> int) option" where
  "addFdToPID pid fa s = (case ptab s pid of None \<Rightarrow> Some (s, -1) | Some p \<Rightarrow> addFd p fa s)"

definition closeFdOnPID :: "'m mm_ops \<Rightarrow> int \<Rightarrow> int \<Rightarrow> 'm kst \<Rightarrow> ('m kst \<times> int) option" where
  "closeFdOnPID mm pid fd s = (case ptab s pid of None \<Rightarrow> Some (s, -1) | Some p \<Rightarrow> closeFd mm p fd s)"

definition dupFdOnPID :: "'m mm_ops \<Rightarrow> int \<Rightarrow> int \<Rightarrow> int \<Rightarrow> 'm kst \<Rightarrow> ('m kst \<times> int) option" where
  "dupFdOnPID mm pid oldFd newFd s = (case ptab s pid of None \<Rightarrow> Some (s, -1) | Some p \<Rightarrow> dupFd mm p oldFd newFd s)"

text \<open>\<^verbatim>\<open>read\<close> and \<^verbatim>\<open>write\<close> of the current process.\<close>
definition kread :: "int \<Rightarrow> u64 \<Rightarrow> 'm kst \<Rightarrow> ('m kst \<times> fd_pc) option" where
  "kread fd cnt s = do {
     pid \<leftarrow> getCurrentPID s;
     if pid < 0 then Some (s, FRet (-1) []) else readFdOnPID pid fd cnt s
   }"

definition kwrite :: "int \<Rightarrow> 'm kst \<Rightarrow> (u64 \<times> bool \<times> wr_pc) option" where
  "kwrite fd s = do {
     pid \<leftarrow> getCurrentPID s;
     if pid < 0 then Some (0, False, WRet (-1)) else writeFdOnPID pid fd s
   }"

end
