(* ===== verification/KKeyboard.thy ===== *)
theory KKeyboard
  imports KLifecycle
begin

unbundle bit_operations_syntax

text \<open>
  \<^verbatim>\<open>Kernel/Drivers/keyboardDriver.c\<close>: scancode decoding with its modifier state, and what the
  interrupt does with the decoded key.  The two bytes read from the controller are inputs.  A key
  that goes into the keyboard pipe is a pipe write of one byte, which the interrupted context
  then carries out step by step (it may have to wait).
\<close>

section \<open>Decoding\<close>

record kb_state =
  keyboardStatus :: "u8 \<Rightarrow> bool"
  multiByteFlag :: bool
  capsLockActive :: bool
  keyboardBuffer :: u64
  snapshotRequests :: nat

definition MULTI_BYTE_SCANCODE :: u8 where "MULTI_BYTE_SCANCODE = 0xE0"
definition KEYCODE_SHIFT :: u8 where "KEYCODE_SHIFT = 0x7F"
definition LSHIFT :: u8 where "LSHIFT = 0x2A"
definition RSHIFT :: u8 where "RSHIFT = 0x36"
definition CAPSLOCK :: u8 where "CAPSLOCK = 0x3A"
definition LCONTROL :: u8 where "LCONTROL = 0x1D"
definition PRESS_C :: u8 where "PRESS_C = 0x2E"
definition PRESS_D :: u8 where "PRESS_D = 0x20"
definition END_OF_TEXT :: u8 where "END_OF_TEXT = 0x03"
definition END_OF_TRANSMISSION :: u8 where "END_OF_TRANSMISSION = 0x04"
definition SNAPSHOT_SCANCODE :: u8 where "SNAPSHOT_SCANCODE = 0x40"
definition KBD_STDIN :: int where "KBD_STDIN = 0"

lemmas kb_consts = MULTI_BYTE_SCANCODE_def KEYCODE_SHIFT_def LSHIFT_def RSHIFT_def CAPSLOCK_def LCONTROL_def
  PRESS_C_def PRESS_D_def END_OF_TEXT_def END_OF_TRANSMISSION_def SNAPSHOT_SCANCODE_def

definition scancodeToAscii :: "u8 list" where
  "scancodeToAscii = [
     0, 0, 49, 50, 51, 52, 53, 54, 55, 56, 57, 48, 45, 61, 8, 9, 113, 119, 101, 114, 116,
     121, 117, 105, 111, 112, 91, 93, 10, 0, 97, 115, 100, 102, 103, 104, 106, 107, 108, 59,
     39, 96, 0, 92, 122, 120, 99, 118, 98, 110, 109, 44, 46, 47, 0, 42, 0, 32, 0]"

definition shiftedScancodeToAscii :: "u8 list" where
  "shiftedScancodeToAscii = [
     0, 0, 33, 34, 35, 36, 37, 94, 38, 42, 40, 41, 95, 43, 8, 9, 81, 87, 69, 82, 84, 89, 85,
     73, 79, 80, 123, 125, 10, 0, 65, 83, 68, 70, 71, 72, 74, 75, 76, 58, 64, 126, 0, 124,
     90, 88, 67, 86, 66, 78, 77, 60, 62, 63, 0, 42, 0, 32, 0]"

definition isPressed :: "u8 \<Rightarrow> kb_state \<Rightarrow> bool" where
  "isPressed keycode k = keyboardStatus k keycode"

definition isAlpha :: "u8 \<Rightarrow> bool" where
  "isAlpha scancode =
     (if unat scancode \<ge> length scancodeToAscii then False
      else (let ascii = scancodeToAscii ! unat scancode in 97 \<le> ascii \<and> ascii \<le> 122))"

definition shouldShift :: "u8 \<Rightarrow> kb_state \<Rightarrow> bool" where
  "shouldShift scancode k =
     ((keyboardStatus k LSHIFT \<or> keyboardStatus k RSHIFT) \<noteq> (capsLockActive k \<and> isAlpha scancode))"

definition getKeyPress :: "u8 \<Rightarrow> kb_state \<Rightarrow> kb_state \<times> u8" where
  "getKeyPress scancode k =
     (let released = (scancode AND 0x80 \<noteq> 0);
          code = scancode AND 0x7F;
          (code, k) = (if multiByteFlag k then (code + KEYCODE_SHIFT, k\<lparr>multiByteFlag := False\<rparr>) else (code, k));
          k = k\<lparr>keyboardStatus := (keyboardStatus k)(code := \<not> released)\<rparr>
      in if released then (k, 0)
         else if code = CAPSLOCK then (k\<lparr>capsLockActive := \<not> capsLockActive k\<rparr>, 0)
         else if unat code < length scancodeToAscii
         then (k, (if shouldShift code k then shiftedScancodeToAscii else scancodeToAscii) ! unat code)
         else if code \<ge> KEYCODE_SHIFT then (k, code)
         else (k, 0))"

definition processControl :: "u8 \<Rightarrow> kb_state \<Rightarrow> u8" where
  "processControl scancode k =
     (if \<not> isPressed LCONTROL k then 0
      else if scancode = PRESS_C then END_OF_TEXT
      else if scancode = PRESS_D then END_OF_TRANSMISSION
      else 0)"

section \<open>The interrupt\<close>

definition initializeKeyboardDriver :: "u64 \<Rightarrow> kb_state \<times> 'm kst \<Rightarrow> (kb_state \<times> 'm kst) option" where
  "initializeKeyboardDriver kbdWriteEnd = (\<lambda>(k, s). do {
     w \<leftarrow> isWritable kbdWriteEnd s;
     if \<not> w then Some (k, s)
     else do { s \<leftarrow> addFileRef kbdWriteEnd s; Some (k\<lparr>keyboardBuffer := kbdWriteEnd\<rparr>, s) }
   })"

definition getKeyboardPipe :: "kb_state \<Rightarrow> 'm kst \<Rightarrow> u64 option" where
  "getKeyboardPipe k s = getFilePipe (keyboardBuffer k) s"

definition requestEofOnKbdFg :: "kb_state \<Rightarrow> int \<Rightarrow> 'm kst \<Rightarrow> 'm kst option" where
  "requestEofOnKbdFg k pid s = do {
     fa \<leftarrow> getFdOnPID pid KBD_STDIN s;
     if fa = 0 then Some s
     else do {
       rd \<leftarrow> isReadable fa s;
       if \<not> rd then Some s
       else do {
         p \<leftarrow> getFilePipe fa s;
         kp \<leftarrow> getKeyboardPipe k s;
         if p \<noteq> kp then Some s
         else do { (s, r) \<leftarrow> requestEofOnPID pid KBD_STDIN s; Some s }
       }
     }
   }"

fun eof_listed :: "kb_state \<Rightarrow> nat list \<Rightarrow> 'm kst \<Rightarrow> 'm kst option" where
  "eof_listed k [] s = Some s"
| "eof_listed k (i # is) s = do {
     s \<leftarrow> (if foregroundSet s ! i then requestEofOnKbdFg k (int i) s else Some s);
     eof_listed k is s
   }"

text \<open>The pipe write the interrupt starts: the pipe, its mode, where it is and the byte.\<close>
type_synonym kb_write = "u64 \<times> bool \<times> wr_pc \<times> u8"

definition keyboardInterrupt :: "'m mm_ops \<Rightarrow> u8 \<Rightarrow> u8 \<Rightarrow> kb_state \<times> 'm kst \<Rightarrow>
    ((kb_state \<times> 'm kst) \<times> kb_write option) option" where
  "keyboardInterrupt mm status scancode = (\<lambda>(k, s).
     if status AND 1 = 0 then Some ((k, s), None)
     else if scancode = MULTI_BYTE_SCANCODE then Some ((k\<lparr>multiByteFlag := True\<rparr>, s), None)
     else (let k = (if scancode = SNAPSHOT_SCANCODE then k\<lparr>snapshotRequests := snapshotRequests k + 1\<rparr> else k);
               ctrl = processControl scancode k;
               (k, key) = (if ctrl \<noteq> 0 then (k, ctrl) else getKeyPress scancode k)
       in if key = 0 then Some ((k, s), None)
          else if key = END_OF_TEXT then do { s \<leftarrow> killForeground mm s; Some ((k, s), None) }
          else if key = END_OF_TRANSMISSION then do {
            s \<leftarrow> eof_listed k [0..<nat MAX_PROCESSES] s;
            (p, nb, pc) \<leftarrow> fileWrite (keyboardBuffer k) s;
            Some ((k, s), Some (p, nb, pc, 0))
          }
          else do {
            (p, nb, pc) \<leftarrow> fileWrite (keyboardBuffer k) s;
            Some ((k, s), Some (p, nb, pc, key))
          }))"

section \<open>Properties\<close>

lemma table_lengths: "length scancodeToAscii = 59" "length shiftedScancodeToAscii = 59"
  by (simp_all add: scancodeToAscii_def shiftedScancodeToAscii_def)

lemma letters_shift: "\<forall>i \<in> set [0..<59]. 97 \<le> scancodeToAscii ! i \<and> scancodeToAscii ! i \<le> 122 \<longrightarrow>
    shiftedScancodeToAscii ! i = scancodeToAscii ! i - 32"
  by code_simp

lemma letter_codes: "isAlpha c \<Longrightarrow> unat c < 59 \<and> shiftedScancodeToAscii ! unat c = scancodeToAscii ! unat c - 32"
  using letters_shift by (auto simp: isAlpha_def table_lengths Let_def split: if_splits)

lemma not_letters: "\<not> isAlpha LSHIFT" "\<not> isAlpha RSHIFT" "\<not> isAlpha CAPSLOCK"
  by (simp_all add: isAlpha_def table_lengths kb_consts scancodeToAscii_def)

lemma code_low: "unat (c :: u8) < 59 \<Longrightarrow> c AND 0x80 = 0 \<and> c AND 0x7F = c"
proof -
  assume c: "unat c < 59"
  have "\<forall>i \<in> set [0..<59]. (of_nat i :: u8) AND 0x80 = 0 \<and> (of_nat i :: u8) AND 0x7F = of_nat i" by code_simp
  moreover have "unat c \<in> set [0..<59]" using c by simp
  ultimately have "(of_nat (unat c) :: u8) AND 0x80 = 0 \<and> (of_nat (unat c) :: u8) AND 0x7F = of_nat (unat c)"
    by (rule bspec)
  then show ?thesis by simp
qed

text \<open>Letter keys: pressing a letter answers the capital exactly when one of Shift and CapsLock,
  but not both, is active, the small letter otherwise; the table lookups stay in range and the
  press records the key without touching the Shift keys or CapsLock.\<close>
theorem letter_case:
  assumes "isAlpha c" and "\<not> multiByteFlag k"
  shows "getKeyPress c k = (k\<lparr>keyboardStatus := (keyboardStatus k)(c := True)\<rparr>,
    if (isPressed LSHIFT k \<or> isPressed RSHIFT k) \<noteq> capsLockActive k
    then scancodeToAscii ! unat c - 32 else scancodeToAscii ! unat c) \<and> unat c < length scancodeToAscii"
proof -
  note lc = letter_codes [OF assms(1)]
  note low = code_low [OF lc [THEN conjunct1]]
  have ne: "c \<noteq> LSHIFT" "c \<noteq> RSHIFT" "c \<noteq> CAPSLOCK" using assms(1) not_letters by auto
  show ?thesis
    using assms lc low ne by (simp add: getKeyPress_def Let_def shouldShift_def isPressed_def table_lengths)
qed

definition kb_zero :: kb_state where
  "kb_zero = \<lparr>keyboardStatus = (\<lambda>_. False), multiByteFlag = False, capsLockActive = False, keyboardBuffer = 0,
    snapshotRequests = 0\<rparr>"

theorem letter_case_witness:
  "snd (getKeyPress 0x1E kb_zero) = 97 \<and> snd (getKeyPress 0x1E (kb_zero\<lparr>capsLockActive := True\<rparr>)) = 65"
  using letter_case [of "0x1E" kb_zero] letter_case [of "0x1E" "kb_zero\<lparr>capsLockActive := True\<rparr>"]
  by (simp add: isAlpha_def scancodeToAscii_def kb_zero_def isPressed_def)

end
