(* ===== verification/KMachine.thy ===== *)
theory KMachine
  imports KLib
begin

unbundle bit_operations_syntax

text \<open>
  The small machine-facing parts of the kernel: the register dump (\<^verbatim>\<open>registers.c\<close>), the clock
  (\<^verbatim>\<open>dateTime.c\<close>), the interrupt descriptors (\<^verbatim>\<open>idtLoader.c\<close>), the module loader
  (\<^verbatim>\<open>moduleLoader.c\<close>) and the exception message (\<^verbatim>\<open>exceptions.c\<close>).  What the RTC answers, the
  handler addresses and the payload are inputs.
\<close>

section \<open>Register dump\<close>

record StackFrame =
  f_r15 :: u64
  f_r14 :: u64
  f_r13 :: u64
  f_r12 :: u64
  f_r11 :: u64
  f_r10 :: u64
  f_r9 :: u64
  f_r8 :: u64
  f_rsi :: u64
  f_rdi :: u64
  f_rbp :: u64
  f_rdx :: u64
  f_rcx :: u64
  f_rbx :: u64
  f_rax :: u64
  f_rip :: u64
  f_cs :: u64
  f_rflags :: u64
  f_rsp :: u64
  f_ss :: u64

definition add_register_to_buffer :: "u8 list \<Rightarrow> string \<Rightarrow> u64 \<Rightarrow> u8 list" where
  "add_register_to_buffer out reg_name value = out @ bytes reg_name @ uint64ToHex value @ [10]"

text \<open>The bytes \<^verbatim>\<open>print_registers\<close> puts into its 600-byte buffer before the terminator and writes to
  standard output.\<close>
definition print_registers :: "StackFrame \<Rightarrow> u8 list" where
  "print_registers fr =
     (let out = [10] @ bytes ''=== REGISTER DUMP ==='' @ [10];
          out = add_register_to_buffer out ''RAX: '' (f_rax fr);
          out = add_register_to_buffer out ''RBX: '' (f_rbx fr);
          out = add_register_to_buffer out ''RCX: '' (f_rcx fr);
          out = add_register_to_buffer out ''RDX: '' (f_rdx fr);
          out = add_register_to_buffer out ''RSI: '' (f_rsi fr);
          out = add_register_to_buffer out ''RDI: '' (f_rdi fr);
          out = add_register_to_buffer out ''RBP: '' (f_rbp fr);
          out = add_register_to_buffer out ''RSP: '' (f_rsp fr);
          out = add_register_to_buffer out ''R8:  '' (f_r8 fr);
          out = add_register_to_buffer out ''R9:  '' (f_r9 fr);
          out = add_register_to_buffer out ''R10: '' (f_r10 fr);
          out = add_register_to_buffer out ''R11: '' (f_r11 fr);
          out = add_register_to_buffer out ''R12: '' (f_r12 fr);
          out = add_register_to_buffer out ''R13: '' (f_r13 fr);
          out = add_register_to_buffer out ''R14: '' (f_r14 fr);
          out = add_register_to_buffer out ''R15: '' (f_r15 fr);
          out = add_register_to_buffer out ''RIP: '' (f_rip fr);
          out = add_register_to_buffer out ''RFLAGS: '' (f_rflags fr);
          out = add_register_to_buffer out ''CS:  '' (f_cs fr);
          out = add_register_to_buffer out ''SS:  '' (f_ss fr)
      in out @ bytes ''=================='' @ [10, 10])"

record snapshot_state =
  snapshot :: StackFrame
  savedSnapshot :: StackFrame
  snapshotTaken :: bool

definition createRegisterSnapshot :: "StackFrame \<Rightarrow> snapshot_state \<Rightarrow> snapshot_state" where
  "createRegisterSnapshot fr st = st\<lparr>snapshot := fr\<rparr>"

definition saveRegisterSnapshot :: "snapshot_state \<Rightarrow> snapshot_state" where
  "saveRegisterSnapshot st = st\<lparr>snapshotTaken := True, savedSnapshot := snapshot st\<rparr>"

text \<open>The text to print, if a snapshot was taken, and the returned flag.\<close>
definition printSnapshot :: "snapshot_state \<Rightarrow> u8 list option \<times> int" where
  "printSnapshot st = (if \<not> snapshotTaken st then (None, 0) else (Some (print_registers (savedSnapshot st)), 1))"

section \<open>Clock\<close>

definition bcdToDecimal :: "u8 \<Rightarrow> u8" where
  "bcdToDecimal bcd = drop_bit 4 (bcd AND 0xF0) * 10 + (bcd AND 0x0F)"

text \<open>\<open>rtc\<close> is what the clock's registers hold: hours, minutes, seconds; weekday, day, month, year.\<close>
definition getCurrentTime :: "u8 \<times> u8 \<times> u8 \<Rightarrow> u8 \<times> u8 \<times> u8" where
  "getCurrentTime rtc = (case rtc of (h, m, s) \<Rightarrow> (bcdToDecimal h, bcdToDecimal m, bcdToDecimal s))"

definition getCurrentDate :: "u8 \<times> u8 \<times> u8 \<times> u8 \<Rightarrow> u8 \<times> u8 \<times> u8 \<times> u8" where
  "getCurrentDate rtc = (case rtc of (w, d, m, y) \<Rightarrow> (bcdToDecimal w, bcdToDecimal d, bcdToDecimal m, bcdToDecimal y))"

section \<open>Interrupt descriptors\<close>

record DESCR_INT =
  offset_l :: u16
  selector :: u16
  cero :: u8
  access :: u8
  offset_m :: u16
  offset_h :: u32
  other_cero :: u32

definition ACS_INT :: u8 where "ACS_INT = 0x8E"

definition setup_IDT_entry :: "u8 \<Rightarrow> u64 \<Rightarrow> (u8 \<Rightarrow> DESCR_INT) \<Rightarrow> u8 \<Rightarrow> DESCR_INT" where
  "setup_IDT_entry index offset idt = idt(index :=
     \<lparr>offset_l = ucast (offset AND 0xFFFF), selector = 0x08, cero = 0, access = ACS_INT,
      offset_m = ucast (drop_bit 16 offset AND 0xFFFF), offset_h = ucast (drop_bit 32 offset AND 0xFFFFFFFF),
      other_cero = 0\<rparr>)"

text \<open>The handler addresses in the order timer, keyboard, system call, division, opcode.\<close>
definition load_idt :: "u64 \<Rightarrow> u64 \<Rightarrow> u64 \<Rightarrow> u64 \<Rightarrow> u64 \<Rightarrow> (u8 \<Rightarrow> DESCR_INT) \<Rightarrow> u8 \<Rightarrow> DESCR_INT" where
  "load_idt irq00 irq01 syscall ex0 ex6 idt =
     setup_IDT_entry 0x06 ex6 (setup_IDT_entry 0x00 ex0 (setup_IDT_entry 0x80 syscall
       (setup_IDT_entry 0x21 irq01 (setup_IDT_entry 0x20 irq00 idt))))"

text \<open>The masks of the two interrupt controllers and whether interrupts are on.\<close>
record pic_state =
  masterMask :: u8
  slaveMask :: u8
  interrupts_on :: bool

text \<open>The end of \<^verbatim>\<open>load_idt\<close>: only the timer and the keyboard of the first controller are let through.\<close>
definition load_pic :: "pic_state \<Rightarrow> pic_state" where
  "load_pic p = p\<lparr>masterMask := 0xFC, slaveMask := 0xFF, interrupts_on := True\<rparr>"

text \<open>The table of interrupt handlers; \<open>None\<close> is a null pointer.\<close>
definition irqHandlers :: "('s \<Rightarrow> 's) \<Rightarrow> ('s \<Rightarrow> 's) \<Rightarrow> ('s \<Rightarrow> 's) option list" where
  "irqHandlers timer keyboard = [Some timer, Some keyboard] @ replicate 14 None"

text \<open>\<open>None\<close> where the code calls the null pointer or reads past the table.\<close>
definition irqDispatcher :: "('s \<Rightarrow> 's) \<Rightarrow> ('s \<Rightarrow> 's) \<Rightarrow> u64 \<Rightarrow> 's \<Rightarrow> 's option" where
  "irqDispatcher timer keyboard irq s =
     (if unat irq \<ge> length (irqHandlers timer keyboard) then None
      else map_option (\<lambda>h. h s) (irqHandlers timer keyboard ! unat irq))"

text \<open>The address the CPU reads from a gate.\<close>
definition gate_offset :: "DESCR_INT \<Rightarrow> u64" where
  "gate_offset d = ucast (offset_l d) OR push_bit 16 (ucast (offset_m d)) OR push_bit 32 (ucast (offset_h d))"

section \<open>Module loader\<close>

definition readUint32 :: "mem \<Rightarrow> u64 \<Rightarrow> u32" where
  "readUint32 m a = ucast (m a) OR push_bit 8 (ucast (m (a + 1))) OR push_bit 16 (ucast (m (a + 2))) OR
     push_bit 24 (ucast (m (a + 3)))"

definition loadModule :: "u64 \<Rightarrow> u64 \<Rightarrow> mem \<Rightarrow> mem \<times> u64" where
  "loadModule module target m =
     (let size = readUint32 m module; module = module + 4
      in (memcpy target module (ucast size) m, module + ucast size))"

text \<open>The loop over the modules; the targets run out only if the payload has more modules than the
  kernel has addresses for, where C reads past the array.\<close>
fun load_loop :: "nat \<Rightarrow> u64 \<Rightarrow> u64 list \<Rightarrow> mem \<Rightarrow> mem option" where
  "load_loop 0 cur targets m = Some m"
| "load_loop (Suc n) cur [] m = None"
| "load_loop (Suc n) cur (t # ts) m = (case loadModule cur t m of (m, cur) \<Rightarrow> load_loop n cur ts m)"

definition loadModules :: "u64 \<Rightarrow> u64 list \<Rightarrow> mem \<Rightarrow> mem option" where
  "loadModules payloadStart targets m = load_loop (unat (readUint32 m payloadStart)) (payloadStart + 4) targets m"

section \<open>Bytes in memory\<close>

text \<open>A 32-bit integer as it lies in memory and in a file.\<close>
definition le32 :: "u32 \<Rightarrow> u8 list" where
  "le32 w = map (\<lambda>i. ucast (drop_bit (8 * i) w)) [0..<4]"

definition bytes_at :: "mem \<Rightarrow> u64 \<Rightarrow> u8 list \<Rightarrow> bool" where
  "bytes_at m p bs \<longleftrightarrow> (\<forall>i < length bs. m (p + of_nat i) = bs ! i)"

lemma all_less_add: "(\<forall>i < a + b. P i) \<longleftrightarrow> (\<forall>i < a. P i) \<and> (\<forall>i < b. P (a + i))" for a b :: nat
proof -
  have "P i" if "\<forall>i < a. P i" "\<forall>i < b. P (a + i)" "i < a + b" for i
    using that(1) that(2) [rule_format, of "i - a"] that(3) by (cases "i < a") simp_all
  then show ?thesis by auto
qed

lemma bytes_at_append: "bytes_at m p (xs @ ys) \<longleftrightarrow> bytes_at m p xs \<and> bytes_at m (p + of_nat (length xs)) ys"
  by (simp add: bytes_at_def all_less_add nth_append add.assoc)

lemma bytes_at_frame:
  assumes "bytes_at m p bs" and "\<And>a. a \<in> region p (length bs) \<Longrightarrow> m' a = m a"
  shows "bytes_at m' p bs"
  unfolding bytes_at_def
proof (intro allI impI)
  fix i assume "i < length bs"
  then show "m' (p + of_nat i) = bs ! i" using assms(1) assms(2) [OF region_mem, of i] by (simp add: bytes_at_def)
qed

lemma bytes_at_simps [simp]: "bytes_at m p []" "bytes_at m p (b # bs) \<longleftrightarrow> m p = b \<and> bytes_at m (p + 1) bs"
  using bytes_at_append [of m p "[b]" bs] by (simp_all add: bytes_at_def)

lemma length_le32 [simp]: "length (le32 w) = 4"
  by (simp add: le32_def)

lemma readUint32_le32: "bytes_at m p (le32 w) \<Longrightarrow> readUint32 m p = w"
proof -
  assume b: "bytes_at m p (le32 w)"
  have "m (p + of_nat i) = ucast (drop_bit (8 * i) w)" if "i < 4" for i
    using b that by (simp add: bytes_at_def le32_def)
  from this [of 0] this [of 1] this [of 2] this [of 3]
  have "readUint32 m p = ucast (ucast w :: u8) OR push_bit 8 (ucast (ucast (drop_bit 8 w) :: u8)) OR
      push_bit 16 (ucast (ucast (drop_bit 16 w) :: u8)) OR push_bit 24 (ucast (ucast (drop_bit 24 w) :: u8))"
    by (simp add: readUint32_def)
  also have "\<dots> = w"
  proof (rule bit_word_eqI)
    fix n assume "n < LENGTH(32)"
    then consider "n < 8" | "8 \<le> n" "n < 16" | "16 \<le> n" "n < 24" | "24 \<le> n" "n < 32" by fastforce
    then show "bit (ucast (ucast w :: u8) OR push_bit 8 (ucast (ucast (drop_bit 8 w) :: u8)) OR
      push_bit 16 (ucast (ucast (drop_bit 16 w) :: u8)) OR push_bit 24 (ucast (ucast (drop_bit 24 w) :: u8)) :: u32) n = bit w n"
      by cases (auto simp: bit_simps)
  qed
  finally show ?thesis .
qed

section \<open>Exception message\<close>

definition exception_messages :: "string list" where
  "exception_messages = [''Error: Zero division.'', [], [], [], [], [], ''Error: Invalid opcode.'']"

text \<open>The line drawn while the counter stands at \<open>counter\<close>.\<close>
definition exception_line :: "nat \<Rightarrow> u8 \<Rightarrow> u8 list" where
  "exception_line exc counter =
     (let msg = bytes (exception_messages ! exc) @ bytes '' Restarting in 3...''
      in msg[length (exception_messages ! exc) + 15 := counter + 48])"

section \<open>Properties\<close>

lemma length_hex [simp]: "length (uint64ToHex v) = 18"
  by (simp add: uint64ToHex_def)

text \<open>The register dump fits its buffer: whatever the register values are, exactly 526 bytes are
  stored, so with the terminator the 600-byte array on the stack is never overrun.\<close>
theorem register_dump_fits:
  "length (print_registers fr) = 526 \<and> length (print_registers fr) + 1 \<le> 600"
  by (simp add: print_registers_def add_register_to_buffer_def Let_def)

text \<open>Reading a dumped value back.\<close>
definition hex_digit :: "u8 \<Rightarrow> nat" where
  "hex_digit c = (if c \<le> 57 then unat c - 48 else unat c - 55)"

definition hex_value :: "u8 list \<Rightarrow> nat" where
  "hex_value cs = foldl (\<lambda>a d. 16 * a + hex_digit d) 0 cs"

lemma hex_digits: "\<forall>n \<in> set [0..<16]. hex_digit (hexChars ! n) = n"
  by code_simp

lemma nibble: "unat (drop_bit k (v :: u64) AND 0xF) = unat v div 2 ^ k mod 16"
proof -
  have "drop_bit k v AND 0xF = take_bit 4 (drop_bit k v)" by (simp add: take_bit_eq_mask mask_eq_exp_minus_1)
  then have "unat (drop_bit k v AND 0xF) = take_bit 4 (unat (drop_bit k v))" by (simp add: unsigned_take_bit_eq)
  then show ?thesis by (simp add: unat_drop_bit_eq take_bit_eq_mod drop_bit_eq_div [where 'a = nat] del: drop_bit_eq_div)
qed

text \<open>The hexadecimal text is faithful: \<^verbatim>\<open>uint64ToHex\<close> writes \<^verbatim>\<open>0x\<close> and sixteen digits whose
  value is the argument.\<close>
theorem uint64ToHex_roundtrip:
  "take 2 (uint64ToHex v) = bytes ''0x'' \<and> length (uint64ToHex v) = 18 \<and> hex_value (drop 2 (uint64ToHex v)) = unat v"
proof -
  have dig: "hex_digit (hexChars ! (x mod 16)) = x mod 16" for x
    using hex_digits by simp
  have pow: "(2 :: nat) ^ ((15 - i) * 4) = 16 ^ (16 - 1 - i)" for i
    using power_mult [of "2 :: nat" 4 "15 - i"] by (simp add: mult.commute)
  have "hex_value (drop 2 (uint64ToHex v)) =
      foldl (\<lambda>a d. 16 * a + d) 0 (map (\<lambda>i. unat v div 16 ^ (16 - 1 - i) mod 16) [0..<16])"
    unfolding hex_value_def uint64ToHex_def nibble pow by (simp add: foldl_map comp_def dig)
  also have "\<dots> = unat v mod 16 ^ 16" by (rule nibbles)
  also have "\<dots> = unat v" using unat_lt2p [of v] by simp
  finally show ?thesis by (simp add: uint64ToHex_def bytes_def)
qed

text \<open>A clock register in packed decimal is converted to the number its two digits spell, for
  all hundred two-digit values.\<close>
theorem bcdToDecimal_correct:
  assumes "t < 10" and "u < 10"
  shows "bcdToDecimal (of_nat (16 * t + u)) = of_nat (10 * t + u)"
proof -
  have "\<forall>t \<in> set [0..<10]. \<forall>u \<in> set [0..<10]. bcdToDecimal (of_nat (16 * t + u)) = of_nat (10 * t + u)"
    by code_simp
  with assms show ?thesis by simp
qed

theorem bcdToDecimal_correct_witness: "bcdToDecimal 0x59 = 59"
  using bcdToDecimal_correct [of 5 9] by simp

text \<open>The interrupt gates point where they should: after \<^verbatim>\<open>load_idt\<close> the timer, keyboard, system
  call and exception vectors hold present interrupt gates of the kernel code segment whose split
  offset fields reassemble to exactly the handler's address; other vectors are untouched.\<close>
theorem load_idt_gates:
  "gate_offset (load_idt a b c d e idt 0x20) = a \<and> gate_offset (load_idt a b c d e idt 0x21) = b \<and>
   gate_offset (load_idt a b c d e idt 0x80) = c \<and> gate_offset (load_idt a b c d e idt 0x00) = d \<and>
   gate_offset (load_idt a b c d e idt 0x06) = e \<and>
   (\<lambda>v. (access (load_idt a b c d e idt v), selector (load_idt a b c d e idt v))) ` {0x20, 0x21, 0x80, 0x00, 0x06} =
     {(0x8E, 8)} \<and>
   (\<forall>v. v \<notin> {0x20, 0x21, 0x80, 0x00, 0x06} \<longrightarrow> load_idt a b c d e idt v = idt v)"
proof -
  have m: "(0xFFFF :: u64) = mask 16" "(0xFFFFFFFF :: u64) = mask 32" by (simp_all add: mask_eq_exp_minus_1)
  have g: "gate_offset (setup_IDT_entry i x t i) = x" for i x t
  proof (rule bit_word_eqI)
    fix n assume "n < LENGTH(64)"
    then show "bit (gate_offset (setup_IDT_entry i x t i)) n = bit x n"
      by (cases "n < 32") (auto simp: gate_offset_def setup_IDT_entry_def m bit_simps)
  qed
  have o: "setup_IDT_entry i x t j = t j" if "i \<noteq> j" for i j x t
    using that by (simp add: setup_IDT_entry_def)
  have f: "access (setup_IDT_entry i x t i) = 0x8E" "selector (setup_IDT_entry i x t i) = 8" for i x t
    by (simp_all add: setup_IDT_entry_def ACS_INT_def)
  show ?thesis unfolding load_idt_def by (simp add: g o f)
qed

theorem load_idt_gates_witness:
  "gate_offset (load_idt 1 2 0xFFFFFFFF12345678 4 5 (\<lambda>v. \<lparr>offset_l = 7, selector = 0, cero = 0, access = 0, offset_m = 0,
      offset_h = 0, other_cero = 0\<rparr>) 0x80) = 0xFFFFFFFF12345678 \<and>
   offset_l (load_idt 1 2 0xFFFFFFFF12345678 4 5 (\<lambda>v. \<lparr>offset_l = 7, selector = 0, cero = 0, access = 0, offset_m = 0,
      offset_h = 0, other_cero = 0\<rparr>) 0x81) = 7"
  using load_idt_gates [of 1 2 "0xFFFFFFFF12345678" 4 5 "\<lambda>v. \<lparr>offset_l = 7, selector = 0, cero = 0, access = 0, offset_m = 0,
      offset_h = 0, other_cero = 0\<rparr>"] by simp

text \<open>Every interrupt the masks let through has a handler: with the masks of \<^verbatim>\<open>load_idt\<close> only the lines 0
  and 1 can be raised, which the dispatcher serves; any other line would call a null pointer.\<close>
lemma irqDispatcher_masked:
  "(\<exists>s'. irqDispatcher timer keyboard irq s = Some s') \<longleftrightarrow> irq < 2"
  "n < 8 \<Longrightarrow> \<not> bit (masterMask (load_pic p)) n \<longleftrightarrow> n < 2"
  "n < 8 \<Longrightarrow> bit (slaveMask (load_pic p)) n"
proof -
  have "unat irq = 0 \<or> unat irq = 1 \<or> 2 \<le> unat irq" by arith
  then show "(\<exists>s'. irqDispatcher timer keyboard irq s = Some s') \<longleftrightarrow> irq < 2"
    by (auto simp: irqDispatcher_def irqHandlers_def word_less_nat_alt nth_Cons' )
  have all: "\<forall>n \<in> set [0..<8]. (\<not> bit (0xFC :: u8) n \<longleftrightarrow> n < 2) \<and> bit (0xFF :: u8) n" by code_simp
  show "n < 8 \<Longrightarrow> \<not> bit (masterMask (load_pic p)) n \<longleftrightarrow> n < 2" "n < 8 \<Longrightarrow> bit (slaveMask (load_pic p)) n"
    using all by (simp_all add: load_pic_def)
qed

end
