(* ===== verification/KBuddy.thy ===== *)
theory KBuddy
  imports KAllocator
begin

text \<open>
  The buddy memory manager \<^verbatim>\<open>Kernel/memory/memoryManagerBuddy.c\<close>, the second implementation of the
  interface in \<^verbatim>\<open>memoryManager.h\<close>: a binary tree of blocks in a static array of nodes, whose unused
  slots form a list linked through \<^verbatim>\<open>leftChild\<close>.  The array is a function from indices; the invariant
  of the next theory keeps every index the code follows below \<^verbatim>\<open>nodeCount\<close>.  The recursive walks are
  partial functions: \<open>None\<close> is a walk that never ends.
\<close>

section \<open>State\<close>

definition MIN_ORDER :: nat where "MIN_ORDER = 4"
definition MAX_NODES :: int where "MAX_NODES = 8192"

record BuddyNode =
  bn_isFree :: bool
  bn_order :: nat
  bn_offset :: u64
  bn_leftChild :: int
  bn_rightChild :: int
  bn_parent :: int

record buddy =
  minAddress :: u64
  totalSize :: u64
  maxOrder :: nat
  nodes :: "int \<Rightarrow> BuddyNode"
  nodeCount :: int
  rootIndex :: int
  firstFreeNode :: int

definition set_node :: "int \<Rightarrow> (BuddyNode \<Rightarrow> BuddyNode) \<Rightarrow> buddy \<Rightarrow> buddy" where
  "set_node i f s = s\<lparr>nodes := (nodes s)(i := f (nodes s i))\<rparr>"

section \<open>Node pool\<close>

function log2_loop :: "u64 \<Rightarrow> nat \<Rightarrow> nat" where
  "log2_loop n r = (if n > 1 then log2_loop (drop_bit 1 n) (r + 1) else r)"
  by auto

termination log2_loop
  by (relation "measure (unat \<circ> fst)") (auto simp: word_less_nat_alt drop_bit_eq_div unat_div_distrib)

declare log2_loop.simps [simp del]

definition log2Int :: "u64 \<Rightarrow> nat" where
  "log2Int n = log2_loop n 0"

definition createNode :: "nat \<Rightarrow> u64 \<Rightarrow> int \<Rightarrow> buddy \<Rightarrow> int \<times> buddy" where
  "createNode order offset parentIdx s =
     (let new = \<lparr>bn_isFree = True, bn_order = order, bn_offset = offset, bn_leftChild = -1, bn_rightChild = -1, bn_parent = parentIdx\<rparr> in
      if firstFreeNode s \<noteq> -1 then
        (let idx = firstFreeNode s
         in (idx, set_node idx (\<lambda>_. new) (s\<lparr>firstFreeNode := bn_leftChild (nodes s idx)\<rparr>)))
      else if nodeCount s \<ge> MAX_NODES then (-1, s)
      else (let idx = nodeCount s in (idx, set_node idx (\<lambda>_. new) (s\<lparr>nodeCount := nodeCount s + 1\<rparr>))))"

text \<open>Give a slot back to the list.\<close>
definition recycle :: "int \<Rightarrow> buddy \<Rightarrow> buddy" where
  "recycle i s = (set_node i (\<lambda>n. n\<lparr>bn_parent := -1, bn_leftChild := firstFreeNode s\<rparr>) s)\<lparr>firstFreeNode := i\<rparr>"

definition splitNode :: "int \<Rightarrow> buddy \<Rightarrow> int \<times> buddy" where
  "splitNode nodeIdx s =
     (if nodeIdx < 0 \<or> nodeIdx \<ge> nodeCount s then (-1, s)
      else if bn_order (nodes s nodeIdx) \<le> MIN_ORDER then (-1, s)
      else if bn_leftChild (nodes s nodeIdx) \<noteq> -1 then (0, s)
      else (let childOrder = bn_order (nodes s nodeIdx) - 1; childSize = push_bit childOrder 1;
                offset = bn_offset (nodes s nodeIdx);
                (leftIdx, s) = createNode childOrder offset nodeIdx s
            in if leftIdx < 0 then (-1, s)
               else (let (rightIdx, s) = createNode childOrder (offset + childSize) nodeIdx s
                     in if rightIdx < 0 then (-1, recycle leftIdx s)
                        else (0, set_node nodeIdx (\<lambda>n. n\<lparr>bn_leftChild := leftIdx, bn_rightChild := rightIdx\<rparr>) s))))"

section \<open>Initialisation and sizes\<close>

function init_order :: "u64 \<Rightarrow> nat \<Rightarrow> nat \<Rightarrow> nat" where
  "init_order sz capacity order =
     (if push_bit (order + 1) 1 \<le> sz \<and> order < capacity then init_order sz capacity (order + 1) else order)"
  by auto

termination init_order
  by (relation "measure (\<lambda>(sz, capacity, order). capacity - order)") auto

declare init_order.simps [simp del]

definition buddy_mem_init :: "u64 \<Rightarrow> u64 \<Rightarrow> buddy \<Rightarrow> buddy" where
  "buddy_mem_init startInclusive sz s =
     (let order = init_order sz (log2Int sz) MIN_ORDER;
          s = s\<lparr>minAddress := startInclusive, totalSize := sz, maxOrder := order, nodeCount := 0, firstFreeNode := -1\<rparr>;
          (root, s) = createNode order 0 (-1) s
      in s\<lparr>rootIndex := root\<rparr>)"

function order_loop :: "u64 \<Rightarrow> nat \<Rightarrow> nat \<Rightarrow> nat" where
  "order_loop sz cap order = (if push_bit order 1 < sz \<and> order < cap then order_loop sz cap (order + 1) else order)"
  by auto

termination order_loop
  by (relation "measure (\<lambda>(sz, cap, order). cap - order)") auto

declare order_loop.simps [simp del]

definition getOrder :: "u64 \<Rightarrow> buddy \<Rightarrow> nat" where
  "getOrder sz s = order_loop sz (maxOrder s) MIN_ORDER"

section \<open>Allocation\<close>

definition updateNodeStatus :: "int \<Rightarrow> buddy \<Rightarrow> buddy" where
  "updateNodeStatus nodeIdx s =
     (if nodeIdx < 0 \<or> nodeIdx \<ge> nodeCount s then s
      else if bn_leftChild (nodes s nodeIdx) = -1 then s
      else (let leftIdx = bn_leftChild (nodes s nodeIdx); rightIdx = bn_rightChild (nodes s nodeIdx)
            in set_node nodeIdx (\<lambda>n. n\<lparr>bn_isFree := bn_isFree (nodes s leftIdx) \<and> bn_isFree (nodes s rightIdx)\<rparr>) s))"

definition tryAllocateExactSize :: "int \<Rightarrow> nat \<Rightarrow> buddy \<Rightarrow> int \<times> buddy" where
  "tryAllocateExactSize nodeIdx requiredOrder s =
     (if bn_order (nodes s nodeIdx) = requiredOrder \<and> bn_leftChild (nodes s nodeIdx) = -1
      then if \<not> bn_isFree (nodes s nodeIdx) then (-1, s)
           else (nodeIdx, set_node nodeIdx (\<lambda>n. n\<lparr>bn_isFree := False\<rparr>) s)
      else (-1, s))"

text \<open>The two recursive calls, on the left child and then on the right one; \<open>call\<close> is
  \<^verbatim>\<open>findAndAllocate\<close>.\<close>
definition alloc_children :: "(int \<Rightarrow> nat \<Rightarrow> buddy \<Rightarrow> (int \<times> buddy) option) \<Rightarrow> int \<Rightarrow> nat \<Rightarrow> buddy \<Rightarrow> (int \<times> buddy) option" where
  "alloc_children call nodeIdx requiredOrder s =
     Option.bind (call (bn_leftChild (nodes s nodeIdx)) requiredOrder s) (\<lambda>(result, s).
       if result \<noteq> -1 then Some (result, updateNodeStatus nodeIdx s)
       else Option.bind (call (bn_rightChild (nodes s nodeIdx)) requiredOrder s) (\<lambda>(result, s).
         Some (result, if result \<noteq> -1 then updateNodeStatus nodeIdx s else s)))"

definition trySplitAndAllocate :: "(int \<Rightarrow> nat \<Rightarrow> buddy \<Rightarrow> (int \<times> buddy) option) \<Rightarrow> int \<Rightarrow> nat \<Rightarrow> buddy \<Rightarrow> (int \<times> buddy) option" where
  "trySplitAndAllocate call nodeIdx requiredOrder s =
     (if \<not> bn_isFree (nodes s nodeIdx) then Some (-1, s)
      else (case splitNode nodeIdx s of (c, s) \<Rightarrow>
        if c < 0 then Some (-1, s) else alloc_children call nodeIdx requiredOrder s))"

lemma alloc_children_mono [partial_function_mono]:
  assumes "\<And>i r s. mono_option (\<lambda>f. F f i r s)"
  shows "mono_option (\<lambda>f. alloc_children (F f) i r s)"
  unfolding alloc_children_def case_prod_unfold
  by (intro bind_mono assms option.const_mono partial_function_mono)

lemma trySplit_mono [partial_function_mono]:
  assumes "\<And>i r s. mono_option (\<lambda>f. F f i r s)"
  shows "mono_option (\<lambda>f. trySplitAndAllocate (F f) i r s)"
  unfolding trySplitAndAllocate_def case_prod_unfold
  by (intro partial_function_mono assms)

partial_function (option) findAndAllocate :: "int \<Rightarrow> nat \<Rightarrow> buddy \<Rightarrow> (int \<times> buddy) option" where
  "findAndAllocate nodeIdx requiredOrder s =
     (if nodeIdx < 0 \<or> nodeIdx \<ge> nodeCount s then Some (-1, s)
      else if bn_order (nodes s nodeIdx) < requiredOrder then Some (-1, s)
      else (case tryAllocateExactSize nodeIdx requiredOrder s of (exactResult, s) \<Rightarrow>
        if exactResult \<noteq> -1 then Some (exactResult, s)
        else if bn_leftChild (nodes s nodeIdx) = -1 then trySplitAndAllocate findAndAllocate nodeIdx requiredOrder s
        else alloc_children findAndAllocate nodeIdx requiredOrder s))"

definition buddy_mem_alloc :: "buddy \<Rightarrow> u64 \<Rightarrow> (buddy \<times> u64) option" where
  "buddy_mem_alloc s sz =
     (if sz = 0 then Some (s, 0)
      else Option.bind (findAndAllocate (rootIndex s) (getOrder sz s) s) (\<lambda>(nodeIdx, s).
        Some (s, if nodeIdx < 0 then 0 else minAddress s + bn_offset (nodes s nodeIdx))))"

section \<open>Release\<close>

definition findNodeByAddress :: "u64 \<Rightarrow> buddy \<Rightarrow> int" where
  "findNodeByAddress address s =
     (if address < minAddress s \<or> address \<ge> minAddress s + totalSize s then -1
      else (let offset = address - minAddress s
            in case List.find (\<lambda>i. bn_offset (nodes s i) = offset \<and> \<not> bn_isFree (nodes s i) \<and> bn_leftChild (nodes s i) = -1)
                      [0..nodeCount s - 1] of
                 Some i \<Rightarrow> i | None \<Rightarrow> -1))"

definition recycleChildNodes :: "int \<Rightarrow> int \<Rightarrow> buddy \<Rightarrow> buddy" where
  "recycleChildNodes leftIdx rightIdx s = recycle rightIdx (recycle leftIdx s)"

text \<open>\<open>merge\<close> is \<^verbatim>\<open>tryMerge\<close>.\<close>
definition mergeBuddies :: "(int \<Rightarrow> buddy \<Rightarrow> buddy option) \<Rightarrow> int \<Rightarrow> int \<Rightarrow> int \<Rightarrow> buddy \<Rightarrow> buddy option" where
  "mergeBuddies merge parentIdx leftIdx rightIdx s =
     (if bn_isFree (nodes s leftIdx) \<and> bn_isFree (nodes s rightIdx) \<and>
         bn_leftChild (nodes s leftIdx) = -1 \<and> bn_leftChild (nodes s rightIdx) = -1
      then (let s = set_node parentIdx (\<lambda>n. n\<lparr>bn_isFree := True\<rparr>) s;
                s = recycleChildNodes leftIdx rightIdx s;
                s = set_node parentIdx (\<lambda>n. n\<lparr>bn_leftChild := -1, bn_rightChild := -1\<rparr>) s
            in merge parentIdx s)
      else Some s)"

lemma mergeBuddies_mono [partial_function_mono]:
  assumes "\<And>i s. mono_option (\<lambda>f. F f i s)"
  shows "mono_option (\<lambda>f. mergeBuddies (F f) p l r s)"
  unfolding mergeBuddies_def Let_def by (intro partial_function_mono assms)

partial_function (option) tryMerge :: "int \<Rightarrow> buddy \<Rightarrow> buddy option" where
  "tryMerge nodeIdx s =
     (if nodeIdx < 0 \<or> nodeIdx \<ge> nodeCount s then Some s
      else (let parentIdx = bn_parent (nodes s nodeIdx)
            in if parentIdx < 0 then Some s
               else (let leftChild = bn_leftChild (nodes s parentIdx); rightChild = bn_rightChild (nodes s parentIdx)
                     in if leftChild \<ge> 0 \<and> rightChild \<ge> 0 then mergeBuddies tryMerge parentIdx leftChild rightChild s
                        else Some s)))"

definition buddy_mem_free :: "buddy \<Rightarrow> u64 \<Rightarrow> buddy option" where
  "buddy_mem_free s chunkStart =
     (if chunkStart = 0 then Some s
      else (let nodeIdx = findNodeByAddress chunkStart s
            in if nodeIdx < 0 then Some s
               else (let s = set_node nodeIdx (\<lambda>n. n\<lparr>bn_isFree := True\<rparr>) s;
                         parentIdx = bn_parent (nodes s nodeIdx);
                         s = (if parentIdx \<ge> 0 then updateNodeStatus parentIdx s else s)
                     in tryMerge nodeIdx s)))"

section \<open>Status\<close>

record leaf_counts =
  lc_allocated :: u64
  lc_allocatedMemory :: u64
  lc_free :: u64
  lc_freeMemory :: u64

partial_function (option) countLeafNodes :: "int \<Rightarrow> buddy \<Rightarrow> leaf_counts \<Rightarrow> leaf_counts option" where
  "countLeafNodes nodeIdx s c =
     (if nodeIdx < 0 \<or> nodeIdx \<ge> nodeCount s then Some c
      else if bn_parent (nodes s nodeIdx) = -1 \<and> nodeIdx \<noteq> rootIndex s then Some c
      else if bn_leftChild (nodes s nodeIdx) = -1 then
        (let blockSize = push_bit (bn_order (nodes s nodeIdx)) 1
         in if bn_isFree (nodes s nodeIdx) then Some (c\<lparr>lc_free := lc_free c + 1, lc_freeMemory := lc_freeMemory c + blockSize\<rparr>)
            else Some (c\<lparr>lc_allocated := lc_allocated c + 1, lc_allocatedMemory := lc_allocatedMemory c + blockSize\<rparr>))
      else Option.bind (countLeafNodes (bn_leftChild (nodes s nodeIdx)) s c) (countLeafNodes (bn_rightChild (nodes s nodeIdx)) s))"

definition buddy_mem_status :: "buddy \<Rightarrow> MemoryInfo option" where
  "buddy_mem_status s =
     map_option (\<lambda>c. \<lparr>mi_total = totalSize s, mi_occupied = lc_allocatedMemory c, mi_free = lc_freeMemory c, mi_fragments = lc_free c\<rparr>)
       (countLeafNodes (rootIndex s) s \<lparr>lc_allocated = 0, lc_allocatedMemory = 0, lc_free = 0, lc_freeMemory = 0\<rparr>)"

end
