(* ===== verification/KBuddyInv.thy ===== *)
theory KBuddyInv
  imports KBuddy KLib
begin

text \<open>
  The buddy manager keeps a well-formed tree.  The array is related to a tree of blocks; the slots
  outside it are the pool.  Allocation and release are described on the tree, the manager is shown
  to satisfy the contract \<open>allocator\<close>, and the properties follow.
\<close>

section \<open>Trees of blocks\<close>

text \<open>A block that is whole, free or not, or a block split in two halves; each with its slot.\<close>
datatype btree = BLeaf int bool | BNode int btree btree

fun root_of :: "btree \<Rightarrow> int" where
  "root_of (BLeaf i f) = i"
| "root_of (BNode i l r) = i"

fun idxs :: "btree \<Rightarrow> int set" where
  "idxs (BLeaf i f) = {i}"
| "idxs (BNode i l r) = insert i (idxs l \<union> idxs r)"

text \<open>No slot is used twice.\<close>
fun tree_distinct :: "btree \<Rightarrow> bool" where
  "tree_distinct (BLeaf i f) = True"
| "tree_distinct (BNode i l r) \<longleftrightarrow> i \<notin> idxs l \<union> idxs r \<and> idxs l \<inter> idxs r = {} \<and> tree_distinct l \<and> tree_distinct r"

text \<open>The live blocks below a block of order \<open>k\<close> at offset \<open>off\<close>: from offsets to orders.\<close>
fun blk :: "nat \<Rightarrow> nat \<Rightarrow> btree \<Rightarrow> nat \<rightharpoonup> nat" where
  "blk k off (BLeaf i f) = (if f then Map.empty else [off \<mapsto> k])"
| "blk k off (BNode i l r) = blk (k - 1) off l ++ blk (k - 1) (off + 2 ^ (k - 1)) r"

text \<open>Slot \<open>i\<close> of the array holds the tree.\<close>
fun tree_at :: "(int \<Rightarrow> BuddyNode) \<Rightarrow> int \<Rightarrow> nat \<Rightarrow> nat \<Rightarrow> btree \<Rightarrow> bool" where
  "tree_at ns par k off (BLeaf i f) \<longleftrightarrow>
     ns i = \<lparr>bn_isFree = f, bn_order = k, bn_offset = of_nat off, bn_leftChild = -1, bn_rightChild = -1, bn_parent = par\<rparr> \<and>
     0 \<le> i \<and> MIN_ORDER \<le> k"
| "tree_at ns par k off (BNode i l r) \<longleftrightarrow>
     bn_order (ns i) = k \<and> bn_offset (ns i) = of_nat off \<and> bn_leftChild (ns i) = root_of l \<and> bn_rightChild (ns i) = root_of r \<and>
     bn_parent (ns i) = par \<and> 0 \<le> i \<and> MIN_ORDER < k \<and>
     tree_at ns i (k - 1) off l \<and> tree_at ns i (k - 1) (off + 2 ^ (k - 1)) r"

lemma root_in_idxs [simp]: "root_of t \<in> idxs t"
  by (cases t) auto

lemma tree_at_frame: "tree_at ns par k off t \<Longrightarrow> (\<And>j. j \<in> idxs t \<Longrightarrow> ns' j = ns j) \<Longrightarrow> tree_at ns' par k off t"
  by (induction t arbitrary: par k off) auto

lemma tree_at_nonneg: "tree_at ns par k off t \<Longrightarrow> j \<in> idxs t \<Longrightarrow> 0 \<le> j"
  by (induction t arbitrary: par k off) auto

lemma tree_at_order: "tree_at ns par k off t \<Longrightarrow> MIN_ORDER \<le> k"
  by (cases t) auto

lemma tree_at_root:
  assumes "tree_at ns par k off t"
  shows "bn_order (ns (root_of t)) = k" "bn_offset (ns (root_of t)) = of_nat off" "bn_parent (ns (root_of t)) = par" "0 \<le> root_of t"
  using assms by (cases t; simp)+

lemma halves: "0 < k \<Longrightarrow> (2 :: nat) ^ (k - 1) + 2 ^ (k - 1) = 2 ^ k"
  by (cases k) auto

lemma blk_dom: "tree_at ns par k off t \<Longrightarrow> blk k off t q = Some m \<Longrightarrow> off \<le> q \<and> q + 2 ^ m \<le> off + 2 ^ k"
proof (induction t arbitrary: par k off)
  case (BNode i l r)
  then have "2 ^ (k - 1) + 2 ^ (k - 1) = (2 :: nat) ^ k" by (intro halves) auto
  then show ?case using BNode by (fastforce simp: map_add_Some_iff)
qed (auto split: if_splits)

lemma blk_halves_disjoint:
  assumes "tree_at ns i (k - 1) off l" "tree_at ns i (k - 1) (off + 2 ^ (k - 1)) r"
  shows "dom (blk (k - 1) off l) \<inter> dom (blk (k - 1) (off + 2 ^ (k - 1)) r) = {}"
proof -
  have False if "blk (k - 1) off l q = Some m" "blk (k - 1) (off + 2 ^ (k - 1)) r q = Some n" for q m n
    using blk_dom [OF assms(1) that(1)] blk_dom [OF assms(2) that(2)] zero_less_power [of "2 :: nat" m] by linarith
  then show ?thesis by (auto simp: dom_def)
qed

text \<open>Live blocks do not overlap, and each is aligned to its size.\<close>
lemma blk_disjoint:
  assumes "tree_at ns par k off t" "blk k off t p = Some m" "blk k off t q = Some n" "p \<noteq> q"
  shows "p + 2 ^ m \<le> q \<or> q + 2 ^ n \<le> p"
  using assms
proof (induction t arbitrary: par k off)
  case (BNode i l r)
  let ?l = "blk (k - 1) off l" and ?r = "blk (k - 1) (off + 2 ^ (k - 1)) r"
  have t: "tree_at ns i (k - 1) off l" "tree_at ns i (k - 1) (off + 2 ^ (k - 1)) r" using BNode.prems by simp_all
  have pq: "?r p = Some m \<or> ?l p = Some m" "?r q = Some n \<or> ?l q = Some n" using BNode.prems by (auto simp: map_add_Some_iff)
  then consider "?l p = Some m" "?l q = Some n" | "?r p = Some m" "?r q = Some n"
    | "?l p = Some m" "?r q = Some n" | "?r p = Some m" "?l q = Some n" by blast
  then show ?case
    using BNode.IH(1) [OF t(1) _ _ BNode.prems(4)] BNode.IH(2) [OF t(2) _ _ BNode.prems(4)] blk_dom [OF t(1)] blk_dom [OF t(2)]
    by cases fastforce+
qed (auto split: if_splits)

lemma blk_aligned: "tree_at ns par k off t \<Longrightarrow> 2 ^ k dvd off \<Longrightarrow> blk k off t q = Some m \<Longrightarrow> 2 ^ m dvd q"
proof (induction t arbitrary: par k off)
  case (BNode i l r)
  have "(2 :: nat) ^ (k - 1) dvd 2 ^ k" by (intro le_imp_power_dvd) simp
  then have "2 ^ (k - 1) dvd off" "2 ^ (k - 1) dvd off + 2 ^ (k - 1)" using BNode.prems(2) dvd_trans by auto
  then show ?case using BNode by (auto simp: map_add_Some_iff)
qed (auto split: if_splits)

section \<open>The pool of slots\<close>

text \<open>The list of recycled slots, and the slots a new node may take.\<close>
fun chain :: "(int \<Rightarrow> BuddyNode) \<Rightarrow> int \<Rightarrow> int list \<Rightarrow> bool" where
  "chain ns i [] \<longleftrightarrow> i = -1"
| "chain ns i (j # js) \<longleftrightarrow> i = j \<and> 0 \<le> j \<and> bn_isFree (ns j) \<and> chain ns (bn_leftChild (ns j)) js"

definition pool :: "buddy \<Rightarrow> int list \<Rightarrow> bool" where
  "pool s fs \<longleftrightarrow> chain (nodes s) (firstFreeNode s) fs \<and> distinct fs \<and> set fs \<subseteq> {0..<nodeCount s} \<and>
     0 \<le> nodeCount s \<and> nodeCount s \<le> MAX_NODES"

definition avail :: "buddy \<Rightarrow> int list \<Rightarrow> int set" where
  "avail s fs = set fs \<union> {nodeCount s..}"

definition room :: "buddy \<Rightarrow> int list \<Rightarrow> nat" where
  "room s fs = length fs + nat (MAX_NODES - nodeCount s)"

text \<open>What the operations on nodes never change.\<close>
definition same_heap :: "buddy \<Rightarrow> buddy \<Rightarrow> bool" where
  "same_heap s s' \<longleftrightarrow> minAddress s' = minAddress s \<and> totalSize s' = totalSize s \<and> maxOrder s' = maxOrder s \<and>
     rootIndex s' = rootIndex s \<and> nodeCount s \<le> nodeCount s'"

lemma same_heap_refl [simp]: "same_heap s s"
  by (simp add: same_heap_def)

lemma same_heap_trans: "same_heap s s' \<Longrightarrow> same_heap s' s'' \<Longrightarrow> same_heap s s''"
  by (simp add: same_heap_def)

lemma chain_frame: "chain ns i fs \<Longrightarrow> (\<And>j. j \<in> set fs \<Longrightarrow> ns' j = ns j) \<Longrightarrow> chain ns' i fs"
  by (induction fs arbitrary: i) auto

text \<open>An update of a slot that is in use keeps the pool.\<close>
lemma pool_set_node:
  "pool s fs \<Longrightarrow> i \<notin> avail s fs \<Longrightarrow> pool (set_node i f s) fs"
  by (auto simp: pool_def avail_def set_node_def intro: chain_frame)

lemma set_node_simps [simp]:
  "nodes (set_node i f s) = (nodes s)(i := f (nodes s i))" "avail (set_node i f s) fs = avail s fs" "room (set_node i f s) fs = room s fs"
  "same_heap s' (set_node i f s) = same_heap s' s" "nodeCount (set_node i f s) = nodeCount s" "firstFreeNode (set_node i f s) = firstFreeNode s"
  "rootIndex (set_node i f s) = rootIndex s" "maxOrder (set_node i f s) = maxOrder s" "minAddress (set_node i f s) = minAddress s"
  "totalSize (set_node i f s) = totalSize s"
  by (simp_all add: set_node_def avail_def room_def same_heap_def)

abbreviation new_node :: "nat \<Rightarrow> u64 \<Rightarrow> int \<Rightarrow> BuddyNode" where
  "new_node k off par \<equiv> \<lparr>bn_isFree = True, bn_order = k, bn_offset = off, bn_leftChild = -1, bn_rightChild = -1, bn_parent = par\<rparr>"

lemma createNode_pool:
  assumes "pool s fs"
  shows "createNode k off par s = (-1, s) \<and> room s fs = 0 \<or>
    (\<exists>i s' fs'. createNode k off par s = (i, s') \<and> i \<in> avail s fs \<and> 0 \<le> i \<and> i < nodeCount s' \<and> same_heap s s' \<and>
      nodes s' = (nodes s)(i := new_node k off par) \<and>
      pool s' fs' \<and> avail s' fs' = avail s fs - {i} \<and> Suc (room s' fs') = room s fs)"
proof (cases fs)
  case Nil
  then have f: "firstFreeNode s = -1" using assms by (simp add: pool_def)
  show ?thesis
  proof (cases "nodeCount s < MAX_NODES")
    case True
    let ?s = "set_node (nodeCount s) (\<lambda>_. new_node k off par) (s\<lparr>nodeCount := nodeCount s + 1\<rparr>)"
    have "createNode k off par s = (nodeCount s, ?s)" using f True by (simp add: createNode_def Let_def)
    moreover have "pool ?s []" "avail ?s [] = avail s fs - {nodeCount s}" "Suc (room ?s []) = room s fs" "0 \<le> nodeCount s"
      using Nil True assms by (auto simp: pool_def avail_def room_def set_node_def)
    ultimately show ?thesis by (intro disjI2 exI [of _ "nodeCount s"] exI [of _ ?s] exI [of _ "[]"]) (simp add: avail_def same_heap_def)
  next
    case False
    then show ?thesis using Nil f assms by (auto simp: createNode_def Let_def room_def)
  qed
next
  case (Cons j js)
  let ?s = "set_node j (\<lambda>_. new_node k off par) (s\<lparr>firstFreeNode := bn_leftChild (nodes s j)\<rparr>)"
  have f: "firstFreeNode s = j" "0 \<le> j" "chain (nodes s) (bn_leftChild (nodes s j)) js" "j \<notin> set js" "j < nodeCount s"
    using assms Cons by (auto simp: pool_def)
  then have c: "createNode k off par s = (j, ?s)" by (simp add: createNode_def Let_def)
  have "chain ((nodes s)(j := n)) (bn_leftChild (nodes s j)) js" for n
    using f(3) by (rule chain_frame) (use f(4) in auto)
  then have "pool ?s js" "avail ?s js = avail s fs - {j}" "Suc (room ?s js) = room s fs"
    using Cons assms f by (auto simp: pool_def avail_def room_def set_node_def)
  then show ?thesis using c f Cons by (intro disjI2 exI [of _ j] exI [of _ ?s] exI [of _ js]) (simp add: avail_def same_heap_def)
qed

lemma createNode_cases:
  assumes "pool s fs"
  obtains (none) "createNode k off par s = (-1, s)" "room s fs = 0"
    | (new) i s' fs' where "createNode k off par s = (i, s')" "i \<in> avail s fs" "0 \<le> i" "i < nodeCount s'" "same_heap s s'"
      "nodes s' = (nodes s)(i := new_node k off par)" "pool s' fs'" "avail s' fs' = avail s fs - {i}" "Suc (room s' fs') = room s fs"
  using createNode_pool [OF assms, of k off par]
  by (elim disjE exE conjE) (erule (1) that(1), erule (8) that(2))

text \<open>A slot that leaves the tree goes to the front of the list.\<close>
lemma recycle_pool:
  assumes "pool s fs" "i \<notin> avail s fs" "0 \<le> i" "bn_isFree (nodes s i)"
  shows "pool (recycle i s) (i # fs)" "avail (recycle i s) (i # fs) = insert i (avail s fs)" "same_heap s (recycle i s)"
    "nodes (recycle i s) = (nodes s)(i := (nodes s i)\<lparr>bn_parent := -1, bn_leftChild := firstFreeNode s\<rparr>)"
    "room (recycle i s) (i # fs) = Suc (room s fs)"
proof -
  have "chain ((nodes s)(i := n)) (firstFreeNode s) fs" for n
    by (rule chain_frame [of "nodes s"]) (use assms in \<open>auto simp: pool_def avail_def\<close>)
  then show "pool (recycle i s) (i # fs)" using assms by (auto simp: pool_def avail_def recycle_def set_node_def)
qed (use assms in \<open>auto simp: recycle_def avail_def room_def same_heap_def set_node_def\<close>)

text \<open>Splitting a free block: nothing but the pool's order changes when two slots are not available.\<close>
lemma splitNode_leaf:
  assumes p: "pool s fs" and t: "tree_at (nodes s) par k off (BLeaf i True)" and i: "i \<notin> avail s fs" and k: "MIN_ORDER < k"
  shows "(\<exists>s' fs'. splitNode i s = (-1, s') \<and> pool s' fs' \<and> avail s' fs' = avail s fs \<and> same_heap s s' \<and>
        (\<forall>j. j \<notin> avail s fs \<longrightarrow> nodes s' j = nodes s j) \<and> room s fs < 2) \<or>
    (\<exists>s' fs' a b. splitNode i s = (0, s') \<and> pool s' fs' \<and> a \<in> avail s fs \<and> b \<in> avail s fs \<and> a \<noteq> b \<and> 0 \<le> a \<and> 0 \<le> b \<and>
        avail s' fs' = avail s fs - {a, b} \<and> same_heap s s' \<and> a < nodeCount s' \<and> b < nodeCount s' \<and>
        (\<forall>j. j \<notin> avail s fs \<and> j \<noteq> i \<longrightarrow> nodes s' j = nodes s j) \<and> room s fs = room s' fs' + 2 \<and>
        tree_at (nodes s') par k off (BNode i (BLeaf a True) (BLeaf b True)))"
proof -
  let ?o = "k - 1" and ?off = "of_nat off :: u64" and ?off2 = "of_nat off + push_bit (k - 1) 1 :: u64"
  have n: "nodes s i = \<lparr>bn_isFree = True, bn_order = k, bn_offset = of_nat off, bn_leftChild = -1, bn_rightChild = -1, bn_parent = par\<rparr>"
    and i0: "0 \<le> i" "i < nodeCount s" using t i by (auto simp: avail_def)
  have off2: "?off2 = of_nat (off + 2 ^ (k - 1))" by (simp add: push_bit_eq_mult)
  from p show ?thesis
  proof (cases rule: createNode_cases [where k = ?o and off = ?off and par = i])
    case none
    then show ?thesis using n i0 k p by (intro disjI1 exI [of _ s] exI [of _ fs]) (simp add: splitNode_def Let_def)
  next
    case left: (new a s1 fs1)
    from left(7) show ?thesis
    proof (cases rule: createNode_cases [where k = ?o and off = ?off2 and par = i])
      case none
      have sp: "splitNode i s = (-1, recycle a s1)"
        using n i0 k left(1,3) none(1) by (simp add: splitNode_def Let_def)
      have rec: "bn_isFree (nodes s1 a)" "a \<notin> avail s1 fs1" using left by simp_all
      note r = recycle_pool [OF left(7) rec(2) left(3) rec(1)]
      show ?thesis
      proof (intro disjI1 exI conjI)
        show "splitNode i s = (-1, recycle a s1)" by (rule sp)
        show "pool (recycle a s1) (a # fs1)" by (rule r)
        show "avail (recycle a s1) (a # fs1) = avail s fs" using r(2) left(2,8) by auto
        show "same_heap s (recycle a s1)" using same_heap_trans [OF left(5) r(3)] .
        show "\<forall>j. j \<notin> avail s fs \<longrightarrow> nodes (recycle a s1) j = nodes s j" using r(4) left(2,6) by auto
        show "room s fs < 2" using none(2) left(9) by simp
      qed
    next
      case right: (new b s2 fs2)
      let ?s = "set_node i (\<lambda>n. n\<lparr>bn_leftChild := a, bn_rightChild := b\<rparr>) s2"
      have sp: "splitNode i s = (0, ?s)"
        using n i0 k left(1,3) right(1,3) by (simp add: splitNode_def Let_def)
      have ne: "a \<noteq> i" "b \<noteq> i" "a \<noteq> b" "b \<in> avail s fs" using left right i by auto
      show ?thesis
      proof (intro disjI2 exI conjI)
        show "splitNode i s = (0, ?s)" by (rule sp)
        show "pool ?s fs2" by (rule pool_set_node [OF right(7)]) (use right(8) left(8) i in auto)
        show "avail ?s fs2 = avail s fs - {a, b}" using right(8) left(8) by auto
        show "same_heap s ?s" using same_heap_trans [OF left(5) right(5)] by simp
        show "\<forall>j. j \<notin> avail s fs \<and> j \<noteq> i \<longrightarrow> nodes ?s j = nodes s j" using left(2,6) right(6) ne by auto
        show "room s fs = room ?s fs2 + 2" using left(9) right(9) by simp
        show "a < nodeCount ?s" using left(4) right(5) by (simp add: same_heap_def)
        show "tree_at (nodes ?s) par k off (BNode i (BLeaf a True) (BLeaf b True))"
          using n i0 k ne left(3,6) right(3,6) off2 by simp
      qed (use left right ne in simp_all)
    qed
  qed
qed

section \<open>Allocation\<close>

text \<open>A tree in the array beside its pool.\<close>
definition holds :: "buddy \<Rightarrow> int list \<Rightarrow> int \<Rightarrow> nat \<Rightarrow> nat \<Rightarrow> btree \<Rightarrow> bool" where
  "holds s fs par k off t \<longleftrightarrow> pool s fs \<and> tree_at (nodes s) par k off t \<and> tree_distinct t \<and> idxs t \<inter> avail s fs = {}"

lemma holds_index: "holds s fs par k off t \<Longrightarrow> j \<in> idxs t \<Longrightarrow> 0 \<le> j \<and> j < nodeCount s"
  using tree_at_nonneg [of "nodes s" par k off t j] by (fastforce simp: holds_def avail_def)

text \<open>\<open>s'\<close> differs from \<open>s\<close> in the slots \<open>A\<close> only.\<close>
definition only :: "int set \<Rightarrow> buddy \<Rightarrow> buddy \<Rightarrow> bool" where
  "only A s s' \<longleftrightarrow> same_heap s s' \<and> (\<forall>j. j \<notin> A \<longrightarrow> nodes s' j = nodes s j)"

lemma only_trans: "only A s s' \<Longrightarrow> only B s' s'' \<Longrightarrow> A \<union> B \<subseteq> C \<Longrightarrow> only C s s''"
  unfolding only_def by (metis Un_iff same_heap_trans subsetD)

lemma replace_left:
  assumes h: "holds s fs par k off (BNode i l r)" and h': "holds s' fs' i (k - 1) off l'" and root: "root_of l' = root_of l"
    and o: "only (idxs l \<union> avail s fs) s s'" and eq: "idxs l' \<union> avail s' fs' = idxs l \<union> avail s fs"
  shows "holds s' fs' par k off (BNode i l' r)"
proof -
  have dis: "i \<notin> idxs l \<union> avail s fs" "idxs r \<inter> (idxs l \<union> avail s fs) = {}" "i \<notin> idxs r"
    using h by (auto simp: holds_def)
  have "tree_at (nodes s') i (k - 1) (off + 2 ^ (k - 1)) r"
    by (rule tree_at_frame [of "nodes s"]) (use h o dis in \<open>auto simp: holds_def only_def\<close>)
  moreover have "nodes s' i = nodes s i" using o dis by (auto simp: only_def)
  moreover have "i \<notin> idxs l' \<union> avail s' fs'" "idxs r \<inter> (idxs l' \<union> avail s' fs') = {}" using dis eq by auto
  ultimately show ?thesis using h h' root dis(3) by (auto simp: holds_def)
qed

lemma replace_right:
  assumes h: "holds s fs par k off (BNode i l r)" and h': "holds s' fs' i (k - 1) (off + 2 ^ (k - 1)) r'" and root: "root_of r' = root_of r"
    and o: "only (idxs r \<union> avail s fs) s s'" and eq: "idxs r' \<union> avail s' fs' = idxs r \<union> avail s fs"
  shows "holds s' fs' par k off (BNode i l r')"
proof -
  have dis: "i \<notin> idxs r \<union> avail s fs" "idxs l \<inter> (idxs r \<union> avail s fs) = {}" "i \<notin> idxs l"
    using h by (auto simp: holds_def)
  have "tree_at (nodes s') i (k - 1) off l"
    by (rule tree_at_frame [of "nodes s"]) (use h o dis in \<open>auto simp: holds_def only_def\<close>)
  moreover have "nodes s' i = nodes s i" using o dis by (auto simp: only_def)
  moreover have "i \<notin> idxs r' \<union> avail s' fs'" "idxs l \<inter> (idxs r' \<union> avail s' fs') = {}" using dis eq by auto
  ultimately show ?thesis using h h' root dis(3) by (auto simp: holds_def)
qed

text \<open>The status of a split block is only a summary: the tree does not depend on it.\<close>
lemma updateNodeStatus_eq: "\<exists>b. updateNodeStatus i s = set_node i (\<lambda>n. n\<lparr>bn_isFree := b\<rparr>) s"
proof (cases "i < 0 \<or> i \<ge> nodeCount s \<or> bn_leftChild (nodes s i) = -1")
  case True
  then have "updateNodeStatus i s = s" by (auto simp: updateNodeStatus_def)
  moreover have "set_node i (\<lambda>n. n\<lparr>bn_isFree := bn_isFree (nodes s i)\<rparr>) s = s" by (simp add: set_node_def)
  ultimately show ?thesis by metis
next
  case False
  then show ?thesis by (simp add: updateNodeStatus_def Let_def) (rule exI, rule refl)
qed

lemma holds_status:
  assumes "holds s fs par k off (BNode i l r)"
  shows "holds (updateNodeStatus i s) fs par k off (BNode i l r)" "only A s (updateNodeStatus i s) \<longleftrightarrow> i \<in> A \<or> nodes (updateNodeStatus i s) i = nodes s i"
    "avail (updateNodeStatus i s) fs = avail s fs"
proof -
  obtain b where b: "updateNodeStatus i s = set_node i (\<lambda>n. n\<lparr>bn_isFree := b\<rparr>) s" using updateNodeStatus_eq by blast
  have dis: "i \<notin> idxs l" "i \<notin> idxs r" "i \<notin> avail s fs" using assms by (auto simp: holds_def)
  have "tree_at ((nodes s)(i := n)) i (k - 1) off l" "tree_at ((nodes s)(i := n)) i (k - 1) (off + 2 ^ (k - 1)) r" for n
    by (rule tree_at_frame [of "nodes s"]; use assms dis in \<open>auto simp: holds_def\<close>)+
  then show "holds (updateNodeStatus i s) fs par k off (BNode i l r)"
    using assms dis pool_set_node [of s fs i] by (auto simp: b holds_def)
qed (auto simp: only_def updateNodeStatus_def Let_def)

fun has_free :: "nat \<Rightarrow> nat \<Rightarrow> btree \<Rightarrow> bool" where
  "has_free r k (BLeaf i f) \<longleftrightarrow> f \<and> r \<le> k"
| "has_free r k (BNode i a b) \<longleftrightarrow> has_free r (k - 1) a \<or> has_free r (k - 1) b"

fun free_leaf :: "btree \<Rightarrow> bool" where
  "free_leaf (BLeaf i f) = f"
| "free_leaf (BNode i l r) = False"

text \<open>No two halves of a block are both whole and free.\<close>
fun coalesced :: "btree \<Rightarrow> bool" where
  "coalesced (BLeaf i f) = True"
| "coalesced (BNode i l r) \<longleftrightarrow> coalesced l \<and> coalesced r \<and> \<not> (free_leaf l \<and> free_leaf r)"

text \<open>The same of the halves alone.\<close>
fun coalesced_halves :: "btree \<Rightarrow> bool" where
  "coalesced_halves (BLeaf i f) = True"
| "coalesced_halves (BNode i l r) \<longleftrightarrow> coalesced l \<and> coalesced r"

lemma coalesced_imp_halves: "coalesced t \<Longrightarrow> coalesced_halves t"
  by (cases t) auto

text \<open>What a search for a block of order \<open>r\<close> in a tree leaves; with \<open>need\<close> free slots in the pool it
  finds a block whenever there is one large enough.\<close>
definition find_post :: "nat \<Rightarrow> nat \<Rightarrow> buddy \<Rightarrow> int list \<Rightarrow> int \<Rightarrow> nat \<Rightarrow> nat \<Rightarrow> btree \<Rightarrow> int \<Rightarrow> buddy \<Rightarrow> int list \<Rightarrow> btree \<Rightarrow> bool" where
  "find_post need r s fs par k off t res s' fs' t' \<longleftrightarrow>
     holds s' fs' par k off t' \<and> root_of t' = root_of t \<and> only (idxs t \<union> avail s fs) s s' \<and>
     idxs t' \<union> avail s' fs' = idxs t \<union> avail s fs \<and>
     (if res = -1 then blk k off t' = blk k off t \<and> (need \<le> room s fs \<longrightarrow> s' = s \<and> fs' = fs \<and> t' = t \<and> \<not> has_free r k t)
      else res \<in> idxs t' \<and> has_free r k t \<and> \<not> free_leaf t' \<and> (need \<le> room s fs \<and> coalesced_halves t \<longrightarrow> coalesced t') \<and>
        (\<exists>q. bn_offset (nodes s' res) = of_nat q \<and> blk k off t q = None \<and> blk k off t' = (blk k off t)(q \<mapsto> r)))"

lemma alloc_children_post:
  assumes h: "holds s fs par k off (BNode i a b)"
    and IH: "\<And>s fs off t. holds s fs i (k - 1) off t \<Longrightarrow>
      \<exists>res s' fs' t'. findAndAllocate (root_of t) r s = Some (res, s') \<and> find_post need r s fs i (k - 1) off t res s' fs' t'"
  shows "\<exists>res s' fs' t'. alloc_children findAndAllocate i r s = Some (res, s') \<and>
    find_post need r s fs par k off (BNode i a b) res s' fs' t'"
proof -
  have ha: "holds s fs i (k - 1) off a" and la: "bn_leftChild (nodes s i) = root_of a"
    and ne: "i \<notin> idxs a \<union> idxs b \<union> avail s fs" "idxs a \<inter> idxs b = {}"
    using h by (auto simp: holds_def)
  obtain res s1 fs1 a' where f1: "findAndAllocate (root_of a) r s = Some (res, s1)"
    and p1: "find_post need r s fs i (k - 1) off a res s1 fs1 a'" using IH [OF ha] by blast
  have h1: "holds s1 fs1 par k off (BNode i a' b)"
    using p1 by (intro replace_left [OF h]) (auto simp: find_post_def)
  have o1: "only (idxs a \<union> avail s fs) s s1" and i1: "idxs a' \<union> avail s1 fs1 = idxs a \<union> avail s fs"
    using p1 by (simp_all add: find_post_def)
  show ?thesis
  proof (cases "res = -1")
    case False
    let ?s = "updateNodeStatus i s1"
    obtain q where q: "bn_offset (nodes s1 res) = of_nat q" "blk (k - 1) off a q = None" "blk (k - 1) off a' = (blk (k - 1) off a)(q \<mapsto> r)"
      and more: "res \<in> idxs a'" "has_free r (k - 1) a" "\<not> free_leaf a'" "need \<le> room s fs \<and> coalesced a \<longrightarrow> coalesced a'"
      using p1 False by (auto simp: find_post_def intro: coalesced_imp_halves)
    have o2: "only {i} s1 ?s" by (simp add: holds_status(2) [OF h1])
    have "i \<notin> idxs a'" using h1 by (simp add: holds_def)
    then have off: "bn_offset (nodes ?s res) = of_nat q" using q(1) o2 more(1) by (metis only_def singletonD)
    have "q \<notin> dom (blk (k - 1) (off + 2 ^ (k - 1)) b)"
      using blk_halves_disjoint [of "nodes s1" i k off a' b] h1 q(3) by (auto simp: holds_def)
    moreover have "only (idxs (BNode i a b) \<union> avail s fs) s ?s" by (rule only_trans [OF o1 o2]) auto
    ultimately have "find_post need r s fs par k off (BNode i a b) res ?s fs1 (BNode i a' b)"
      unfolding find_post_def
      using holds_status(1,3) [OF h1] i1 False more q(2,3) off
      by (auto simp: map_add_upd_left map_add_None)
    then show ?thesis using f1 la False by (auto simp: alloc_children_def)
  next
    case True
    have hb: "holds s1 fs1 i (k - 1) (off + 2 ^ (k - 1)) b" and rb: "bn_rightChild (nodes s1 i) = root_of b"
      using h1 by (auto simp: holds_def)
    obtain res2 s2 fs2 b' where f2: "findAndAllocate (root_of b) r s1 = Some (res2, s2)"
      and p2: "find_post need r s1 fs1 i (k - 1) (off + 2 ^ (k - 1)) b res2 s2 fs2 b'" using IH [OF hb] by blast
    have h2: "holds s2 fs2 par k off (BNode i a' b')"
      using p2 by (intro replace_right [OF h1]) (auto simp: find_post_def)
    have o2: "only (idxs b \<union> avail s1 fs1) s1 s2" and i2: "idxs b' \<union> avail s2 fs2 = idxs b \<union> avail s1 fs1"
      using p2 by (simp_all add: find_post_def)
    have o: "only (idxs a \<union> idxs b \<union> avail s fs) s s2" by (rule only_trans [OF o1 o2]) (use i1 in auto)
    have same: "blk (k - 1) off a' = blk (k - 1) off a" "need \<le> room s fs \<longrightarrow> s1 = s \<and> fs1 = fs \<and> a' = a \<and> \<not> has_free r (k - 1) a"
      using p1 True by (simp_all add: find_post_def)
    have ix: "idxs (BNode i a' b') \<union> avail s2 fs2 = idxs (BNode i a b) \<union> avail s fs" using i1 i2 by auto
    show ?thesis
    proof (cases "res2 = -1")
      case no: True
      have "only (idxs (BNode i a b) \<union> avail s fs) s s2" using o by (auto simp: only_def)
      then have "find_post need r s fs par k off (BNode i a b) (-1) s2 fs2 (BNode i a' b')"
        unfolding find_post_def using h2 ix same p2 no by (auto simp: find_post_def)
      then show ?thesis using f1 f2 la rb True no by (auto simp: alloc_children_def)
    next
      case False
      let ?s = "updateNodeStatus i s2"
      obtain q where q: "bn_offset (nodes s2 res2) = of_nat q" "blk (k - 1) (off + 2 ^ (k - 1)) b q = None"
          "blk (k - 1) (off + 2 ^ (k - 1)) b' = (blk (k - 1) (off + 2 ^ (k - 1)) b)(q \<mapsto> r)"
        and more: "res2 \<in> idxs b'" "has_free r (k - 1) b" "\<not> free_leaf b'" "need \<le> room s1 fs1 \<and> coalesced b \<longrightarrow> coalesced b'"
        using p2 False by (auto simp: find_post_def intro: coalesced_imp_halves)
      have o3: "only {i} s2 ?s" by (simp add: holds_status(2) [OF h2])
      have "i \<notin> idxs b'" using h2 by (simp add: holds_def)
      then have off: "bn_offset (nodes ?s res2) = of_nat q" using q(1) o3 more(1) by (metis only_def singletonD)
      have "q \<notin> dom (blk (k - 1) off a')"
        using blk_halves_disjoint [of "nodes s2" i k off a' b'] h2 q(3) by (auto simp: holds_def)
      moreover have "only (idxs (BNode i a b) \<union> avail s fs) s ?s" by (rule only_trans [OF o o3]) auto
      ultimately have "find_post need r s fs par k off (BNode i a b) res2 ?s fs2 (BNode i a' b')"
        unfolding find_post_def
        using holds_status(1,3) [OF h2] ix False more q(2,3) off same
        by (auto simp: map_add_None)
      then show ?thesis using f1 f2 la rb True False by (auto simp: alloc_children_def)
    qed
  qed
qed

lemma has_free_le: "has_free r k t \<Longrightarrow> r \<le> k"
  by (induction t arbitrary: k) fastforce+

lemma find_post_none: "holds s fs par k off t \<Longrightarrow> \<not> has_free r k t \<Longrightarrow> find_post need r s fs par k off t (-1) s fs t"
  by (simp add: find_post_def only_def)

lemma find_post_mono: "find_post need r s fs par k off t res s' fs' t' \<Longrightarrow> need \<le> need' \<Longrightarrow> find_post need' r s fs par k off t res s' fs' t'"
  by (auto simp: find_post_def)

lemma find_exact:
  assumes h: "holds s fs par k off (BLeaf i True)"
  shows "find_post need k s fs par k off (BLeaf i True) i (set_node i (\<lambda>n. n\<lparr>bn_isFree := False\<rparr>) s) fs (BLeaf i False)"
proof -
  have "i \<notin> avail s fs" "0 \<le> i" using h by (auto simp: holds_def)
  then show ?thesis using h pool_set_node [of s fs i] by (auto simp: find_post_def holds_def only_def)
qed

lemma find_in_split:
  assumes h: "holds s fs par k off (BLeaf i True)" and k: "MIN_ORDER < k" "r < k" and r: "MIN_ORDER \<le> r"
    and IH: "\<And>s fs off t. holds s fs i (k - 1) off t \<Longrightarrow>
      \<exists>res s' fs' t'. findAndAllocate (root_of t) r s = Some (res, s') \<and> find_post (2 * (k - 1 - r)) r s fs i (k - 1) off t res s' fs' t'"
  shows "\<exists>res s' fs' t'. trySplitAndAllocate findAndAllocate i r s = Some (res, s') \<and>
    find_post (2 * (k - r)) r s fs par k off (BLeaf i True) res s' fs' t'"
proof -
  have p: "pool s fs" and t: "tree_at (nodes s) par k off (BLeaf i True)" and i: "i \<notin> avail s fs" and fr: "bn_isFree (nodes s i)"
    using h by (auto simp: holds_def)
  show ?thesis
    using splitNode_leaf [OF p t i k(1)]
  proof (elim disjE exE conjE)
    fix s1 fs1 assume sp: "splitNode i s = (-1, s1)" and p1: "pool s1 fs1" and a1: "avail s1 fs1 = avail s fs" and sh: "same_heap s s1"
      and fm: "\<forall>j. j \<notin> avail s fs \<longrightarrow> nodes s1 j = nodes s j" and rm: "room s fs < 2"
    have "tree_at (nodes s1) par k off (BLeaf i True)" by (rule tree_at_frame [OF t]) (use fm i in auto)
    then have "find_post (2 * (k - r)) r s fs par k off (BLeaf i True) (-1) s1 fs1 (BLeaf i True)"
      using p1 a1 sh fm rm i k by (auto simp: find_post_def holds_def only_def)
    then show ?thesis using sp fr by (auto simp: trySplitAndAllocate_def)
  next
    fix s1 fs1 a b assume sp: "splitNode i s = (0, s1)" and p1: "pool s1 fs1" and ab: "a \<in> avail s fs" "b \<in> avail s fs" "a \<noteq> b"
      and a1: "avail s1 fs1 = avail s fs - {a, b}" and sh: "same_heap s s1"
      and fm: "\<forall>j. j \<notin> avail s fs \<and> j \<noteq> i \<longrightarrow> nodes s1 j = nodes s j" and rm: "room s fs = room s1 fs1 + 2"
      and t1: "tree_at (nodes s1) par k off (BNode i (BLeaf a True) (BLeaf b True))"
    let ?t = "BNode i (BLeaf a True) (BLeaf b True)"
    have h1: "holds s1 fs1 par k off ?t" unfolding holds_def by (intro conjI p1 t1) (use a1 ab i in auto)
    have "\<exists>res s' fs' t'. alloc_children findAndAllocate i r s1 = Some (res, s') \<and>
        find_post (2 * (k - 1 - r)) r s1 fs1 par k off ?t res s' fs' t'"
      by (rule alloc_children_post [OF h1]) (rule IH)
    then obtain res s' fs' t' where ac: "alloc_children findAndAllocate i r s1 = Some (res, s')"
      and post: "find_post (2 * (k - 1 - r)) r s1 fs1 par k off ?t res s' fs' t'" by (elim exE conjE)
    have o1: "only (idxs ?t \<union> avail s1 fs1) s1 s'" using post by (simp add: find_post_def)
    have o0: "only (insert i (avail s fs)) s s1" using sh fm by (auto simp: only_def)
    have o: "only (idxs (BLeaf i True) \<union> avail s fs) s s'" by (rule only_trans [OF o0 o1]) (use a1 ab in auto)
    have ix: "idxs t' \<union> avail s' fs' = idxs (BLeaf i True) \<union> avail s fs" using post a1 ab by (auto simp: find_post_def)
    have "has_free r k ?t" using k by simp
    then have "find_post (2 * (k - r)) r s fs par k off (BLeaf i True) res s' fs' t'"
      using post o ix rm k by (auto simp: find_post_def)
    then show ?thesis using sp fr ac by (auto simp: trySplitAndAllocate_def)
  qed
qed

lemma find_correct:
  assumes "holds s fs par k off t" and r: "MIN_ORDER \<le> r"
  shows "\<exists>res s' fs' t'. findAndAllocate (root_of t) r s = Some (res, s') \<and> find_post (2 * (k - r)) r s fs par k off t res s' fs' t'"
  using assms(1)
proof (induction k arbitrary: s fs par off t rule: less_induct)
  case (less k)
  note h = less.prems
  have in_range: "0 \<le> root_of t" "root_of t < nodeCount s" and ord: "bn_order (nodes s (root_of t)) = k"
    using holds_index [OF h root_in_idxs] h tree_at_root(1) by (auto simp: holds_def)
  show ?case
  proof (cases "k < r")
    case True
    then have "findAndAllocate (root_of t) r s = Some (-1, s)" using in_range ord by (simp add: findAndAllocate.simps)
    then show ?thesis using find_post_none [OF h] has_free_le [of r k t] True by (meson not_le)
  next
    case False
    show ?thesis
    proof (cases t)
      case (BLeaf i f)
      then have n: "nodes s i = \<lparr>bn_isFree = f, bn_order = k, bn_offset = of_nat off, bn_leftChild = -1, bn_rightChild = -1, bn_parent = par\<rparr>"
        using h by (simp add: holds_def)
      show ?thesis
      proof (cases "f \<and> k \<noteq> r")
        case True
        then have k: "MIN_ORDER < k" "r < k" using False r by auto
        have "findAndAllocate i r s = trySplitAndAllocate findAndAllocate i r s"
          using in_range BLeaf False True n by (simp add: findAndAllocate.simps [of i] tryAllocateExactSize_def)
        moreover have "holds s fs par k off (BLeaf i True)" using h BLeaf True by simp
        ultimately show ?thesis
          using find_in_split [OF _ k r less.IH [of "k - 1"]] k BLeaf True by simp
      next
        case False
        show ?thesis
        proof (cases f)
          case True
          then have "k = r" using False by simp
          moreover from this have "findAndAllocate i r s = Some (i, set_node i (\<lambda>n. n\<lparr>bn_isFree := False\<rparr>) s)"
            using in_range BLeaf True n by (simp add: findAndAllocate.simps [of i] tryAllocateExactSize_def)
          ultimately show ?thesis using find_exact [of s fs par k off i "2 * (k - r)"] h BLeaf True by auto
        next
          case nf: False
          have "findAndAllocate i r s = Some (-1, s)"
            using in_range BLeaf \<open>\<not> k < r\<close> nf n by (simp add: findAndAllocate.simps [of i] tryAllocateExactSize_def trySplitAndAllocate_def)
          moreover have "\<not> has_free r k t" using BLeaf nf by simp
          ultimately show ?thesis using find_post_none [OF h] BLeaf by auto
        qed
      qed
    next
      case (BNode i a b)
      then have k: "MIN_ORDER < k" and l: "bn_leftChild (nodes s i) = root_of a" "root_of a \<noteq> -1"
        using h tree_at_root(4) [of "nodes s" i "k - 1" off a] by (auto simp: holds_def)
      have "findAndAllocate i r s = alloc_children findAndAllocate i r s"
        using in_range ord l BNode False by (simp add: findAndAllocate.simps [of i] tryAllocateExactSize_def)
      moreover have "\<exists>res s' fs' t'. alloc_children findAndAllocate i r s = Some (res, s') \<and>
          find_post (2 * (k - 1 - r)) r s fs par k off (BNode i a b) res s' fs' t'"
        by (rule alloc_children_post) (use h BNode k less.IH [of "k - 1"] in auto)
      moreover have "2 * (k - 1 - r) \<le> 2 * (k - r)" by simp
      ultimately show ?thesis using BNode find_post_mono by (metis root_of.simps(2))
    qed
  qed
qed

section \<open>Live blocks and the scan for an address\<close>

text \<open>The live blocks with their slots: slot, offset and order.\<close>
fun live :: "nat \<Rightarrow> nat \<Rightarrow> btree \<Rightarrow> (int \<times> nat \<times> nat) set" where
  "live k off (BLeaf i f) = (if f then {} else {(i, off, k)})"
| "live k off (BNode i l r) = live (k - 1) off l \<union> live (k - 1) (off + 2 ^ (k - 1)) r"

lemma live_dom: "(i, q, m) \<in> live k off t \<Longrightarrow> tree_at ns par k off t \<Longrightarrow> off \<le> q \<and> q + 2 ^ m \<le> off + 2 ^ k"
proof (induction t arbitrary: par k off)
  case (BNode j l r)
  then have "2 ^ (k - 1) + 2 ^ (k - 1) = (2 :: nat) ^ k" by (intro halves) auto
  then show ?case using BNode by fastforce
qed (auto split: if_splits)

lemma live_halves:
  assumes "tree_at ns i (k - 1) off l" "tree_at ns i (k - 1) (off + 2 ^ (k - 1)) r"
    "(a, q, m) \<in> live (k - 1) off l" "(b, q, n) \<in> live (k - 1) (off + 2 ^ (k - 1)) r"
  shows False
  using live_dom [OF assms(3,1)] live_dom [OF assms(4,2)] zero_less_power [of "2 :: nat" m] by linarith

lemma live_unique: "tree_at ns par k off t \<Longrightarrow> (i, q, m) \<in> live k off t \<Longrightarrow> (j, q, n) \<in> live k off t \<Longrightarrow> i = j \<and> m = n"
proof (induction t arbitrary: par k off)
  case (BNode a l r)
  have t: "tree_at ns a (k - 1) off l" "tree_at ns a (k - 1) (off + 2 ^ (k - 1)) r" using BNode.prems by simp_all
  have "(i, q, m) \<in> live (k - 1) off l \<and> (j, q, n) \<in> live (k - 1) off l \<or>
      (i, q, m) \<in> live (k - 1) (off + 2 ^ (k - 1)) r \<and> (j, q, n) \<in> live (k - 1) (off + 2 ^ (k - 1)) r"
    using BNode.prems(2,3) live_halves [OF t] by (simp only: live.simps Un_iff) blast
  then show ?case using BNode.IH(1) [OF t(1)] BNode.IH(2) [OF t(2)] by blast
qed (simp split: if_splits)

lemma live_blk: "tree_at ns par k off t \<Longrightarrow> blk k off t q = Some m \<longleftrightarrow> (\<exists>i. (i, q, m) \<in> live k off t)"
proof (induction t arbitrary: par k off)
  case (BNode a l r)
  have t: "tree_at ns a (k - 1) off l" "tree_at ns a (k - 1) (off + 2 ^ (k - 1)) r" using BNode.prems by simp_all
  note IH = BNode.IH(1) [OF t(1)] BNode.IH(2) [OF t(2)]
  show ?case
  proof
    assume "blk k off (BNode a l r) q = Some m"
    then show "\<exists>i. (i, q, m) \<in> live k off (BNode a l r)" using IH by (auto simp: map_add_Some_iff)
  next
    assume "\<exists>i. (i, q, m) \<in> live k off (BNode a l r)"
    then consider i where "(i, q, m) \<in> live (k - 1) off l" | i where "(i, q, m) \<in> live (k - 1) (off + 2 ^ (k - 1)) r" by auto
    then show "blk k off (BNode a l r) q = Some m"
    proof cases
      case 1
      then have "blk (k - 1) off l q = Some m" using IH(1) by blast
      moreover from this have "blk (k - 1) (off + 2 ^ (k - 1)) r q = None" using blk_halves_disjoint [OF t] by blast
      ultimately show ?thesis by (simp add: map_add_def)
    next
      case 2
      then show ?thesis using IH(2) by (auto simp: map_add_Some_iff)
    qed
  qed
qed (auto split: if_splits)

lemma live_node:
  "tree_at ns par k off t \<Longrightarrow> (i, q, m) \<in> live k off t \<Longrightarrow>
    i \<in> idxs t \<and> \<not> bn_isFree (ns i) \<and> bn_leftChild (ns i) = -1 \<and> bn_order (ns i) = m \<and> bn_offset (ns i) = of_nat q"
proof (induction t arbitrary: par k off)
  case (BNode a l r)
  have t: "tree_at ns a (k - 1) off l" "tree_at ns a (k - 1) (off + 2 ^ (k - 1)) r" using BNode.prems(1) by simp_all
  then show ?case using BNode.IH(1) [OF t(1)] BNode.IH(2) [OF t(2)] BNode.prems(2) by (simp only: live.simps idxs.simps Un_iff insert_iff) blast
qed (auto split: if_splits)

lemma node_live:
  "tree_at ns par k off t \<Longrightarrow> i \<in> idxs t \<Longrightarrow> \<not> bn_isFree (ns i) \<Longrightarrow> bn_leftChild (ns i) = -1 \<Longrightarrow> \<exists>q m. (i, q, m) \<in> live k off t"
proof (induction t arbitrary: par k off)
  case (BNode j l r)
  have "root_of l \<noteq> -1" using tree_at_root(4) [of ns j "k - 1" off l] BNode.prems(1) by auto
  then show ?case using BNode by auto blast+
qed auto

text \<open>The heap: the tree of the whole pool of memory, and every slot either in it or available.\<close>
definition bd_rep :: "buddy \<Rightarrow> int list \<Rightarrow> btree \<Rightarrow> bool" where
  "bd_rep s fs t \<longleftrightarrow> holds s fs (-1) (maxOrder s) 0 t \<and> root_of t = rootIndex s \<and> idxs t \<union> avail s fs = {0..} \<and>
     maxOrder s < 64 \<and> 2 ^ maxOrder s \<le> unat (totalSize s) \<and> minAddress s \<noteq> 0 \<and> unat (minAddress s) + unat (totalSize s) < 2 ^ 64"

definition bd_inv :: "buddy \<Rightarrow> bool" where
  "bd_inv s \<longleftrightarrow> (\<exists>fs t. bd_rep s fs t)"

lemma bd_rep_tree: "bd_rep s fs t \<Longrightarrow> tree_at (nodes s) (-1) (maxOrder s) 0 t"
  by (simp add: bd_rep_def holds_def)

text \<open>Offsets of live blocks as addresses.\<close>
lemma bd_address:
  assumes "bd_rep s fs t" "q < 2 ^ maxOrder s"
  shows "unat (minAddress s + of_nat q) = unat (minAddress s) + q" "minAddress s + of_nat q - minAddress s = of_nat q"
    "unat (of_nat q :: u64) = q" "minAddress s + of_nat q \<noteq> 0"
    "\<not> (minAddress s + of_nat q < minAddress s \<or> minAddress s + of_nat q \<ge> minAddress s + totalSize s)"
proof -
  have b: "unat (minAddress s) + unat (totalSize s) < 2 ^ 64" "q < unat (totalSize s)" "minAddress s \<noteq> 0"
    using assms by (auto simp: bd_rep_def)
  then show u: "unat (of_nat q :: u64) = q" by (intro unat_of_nat_u64) simp
  then show a: "unat (minAddress s + of_nat q) = unat (minAddress s) + q"
    using b unat_add_lem [of "minAddress s" "of_nat q"] by simp
  show "minAddress s + of_nat q \<noteq> 0" using a b by (metis add_is_0 unat_0 unat_eq_zero)
  have "unat (minAddress s + totalSize s) = unat (minAddress s) + unat (totalSize s)"
    using b(1) unat_add_lem [of "minAddress s" "totalSize s"] by simp
  then show "\<not> (minAddress s + of_nat q < minAddress s \<or> minAddress s + of_nat q \<ge> minAddress s + totalSize s)"
    using a b(2) by (simp add: word_less_nat_alt word_le_nat_alt)
qed simp

lemma find_SomeD: "List.find P xs = Some x \<Longrightarrow> P x \<and> x \<in> set xs"
  by (induction xs) (auto split: if_splits)

lemma chain_free: "chain ns i fs \<Longrightarrow> j \<in> set fs \<Longrightarrow> bn_isFree (ns j)"
  by (induction fs arbitrary: i) auto

text \<open>A slot that the scan accepts is the slot of a live block.\<close>
lemma scan_live:
  assumes "bd_rep s fs t" "i \<in> {0..<nodeCount s}" "\<not> bn_isFree (nodes s i)" "bn_leftChild (nodes s i) = -1"
  shows "\<exists>q m. (i, q, m) \<in> live (maxOrder s) 0 t \<and> bn_offset (nodes s i) = of_nat q \<and> q < 2 ^ maxOrder s"
proof -
  have "i \<in> idxs t \<union> avail s fs" using assms(1,2) by (auto simp: bd_rep_def)
  moreover have "i \<notin> avail s fs"
    using assms chain_free [of "nodes s" "firstFreeNode s" fs i] by (auto simp: avail_def bd_rep_def holds_def pool_def)
  ultimately obtain q m where l: "(i, q, m) \<in> live (maxOrder s) 0 t"
    using node_live [OF bd_rep_tree [OF assms(1)]] assms(3,4) by blast
  have "q < 2 ^ maxOrder s"
    using live_dom [OF l bd_rep_tree [OF assms(1)]] zero_less_power [of "2 :: nat" m] by linarith
  then show ?thesis using l live_node [OF bd_rep_tree [OF assms(1)] l] by blast
qed

lemma findNodeByAddress_live:
  assumes rep: "bd_rep s fs t" and l: "(i, q, m) \<in> live (maxOrder s) 0 t"
  shows "findNodeByAddress (minAddress s + of_nat q) s = i" "0 \<le> i"
proof -
  let ?P = "\<lambda>i. bn_offset (nodes s i) = of_nat q \<and> \<not> bn_isFree (nodes s i) \<and> bn_leftChild (nodes s i) = -1"
  note tr = bd_rep_tree [OF rep]
  have q: "q < 2 ^ maxOrder s" using live_dom [OF l tr] zero_less_power [of "2 :: nat" m] by linarith
  have n: "i \<in> idxs t" "?P i" using live_node [OF tr l] by simp_all
  then have i: "i \<in> {0..<nodeCount s}" using holds_index [of s fs "-1" "maxOrder s" 0 t i] rep by (auto simp: bd_rep_def)
  have uniq: "j = i" if P: "?P j" and J: "j \<in> {0..<nodeCount s}" for j
  proof -
    obtain q' m' where j: "(j, q', m') \<in> live (maxOrder s) 0 t" "bn_offset (nodes s j) = of_nat q'" "q' < 2 ^ maxOrder s"
      using scan_live [OF rep J] P by blast
    then have "q' = q" using bd_address(3) [OF rep q] bd_address(3) [OF rep j(3)] P by metis
    then show "j = i" using live_unique [OF tr j(1)] l by blast
  qed
  have "List.find ?P [0..nodeCount s - 1] = Some i"
  proof (cases "List.find ?P [0..nodeCount s - 1]")
    case None
    then show ?thesis using n(2) i by (auto simp: find_None_iff)
  next
    case (Some j)
    then have "?P j" "j \<in> {0..<nodeCount s}" by (auto dest!: find_SomeD)
    then show ?thesis using Some uniq by blast
  qed
  then show "findNodeByAddress (minAddress s + of_nat q) s = i"
    using bd_address(2,5) [OF rep q] by (simp add: findNodeByAddress_def)
  show "0 \<le> i" using i by simp
qed

lemma findNodeByAddress_none:
  assumes rep: "bd_rep s fs t" and none: "\<And>i m. (i, unat (a - minAddress s), m) \<notin> live (maxOrder s) 0 t"
  shows "findNodeByAddress a s = -1"
proof (rule ccontr)
  let ?P = "\<lambda>i. bn_offset (nodes s i) = a - minAddress s \<and> \<not> bn_isFree (nodes s i) \<and> bn_leftChild (nodes s i) = -1"
  assume "findNodeByAddress a s \<noteq> -1"
  then obtain j where "List.find ?P [0..nodeCount s - 1] = Some j"
    by (auto simp: findNodeByAddress_def Let_def split: if_splits option.splits)
  then have "?P j" "j \<in> {0..<nodeCount s}" by (auto dest!: find_SomeD)
  then obtain q m where q: "(j, q, m) \<in> live (maxOrder s) 0 t" "a - minAddress s = of_nat q" "q < 2 ^ maxOrder s"
    using scan_live [OF rep] by metis
  then have "unat (a - minAddress s) = q" using bd_address(3) [OF rep] by simp
  then show False using none q(1) by blast
qed

text \<open>The live blocks of the heap, by address, with their sizes.\<close>
definition bd_blocks :: "buddy \<Rightarrow> u64 \<rightharpoonup> nat" where
  "bd_blocks s a = (let i = findNodeByAddress a s in if i = -1 then None else Some (2 ^ bn_order (nodes s i)))"

lemma bd_blocks_blk:
  assumes rep: "bd_rep s fs t"
  shows "bd_blocks s a = map_option (\<lambda>m. 2 ^ m) (blk (maxOrder s) 0 t (unat (a - minAddress s)))"
proof (cases "blk (maxOrder s) 0 t (unat (a - minAddress s))")
  case None
  then have "(i, unat (a - minAddress s), m) \<notin> live (maxOrder s) 0 t" for i m
    using live_blk [OF bd_rep_tree [OF rep]] by (metis option.distinct(1))
  then show ?thesis using findNodeByAddress_none [OF rep] None by (simp add: bd_blocks_def)
next
  case (Some m)
  then obtain i where l: "(i, unat (a - minAddress s), m) \<in> live (maxOrder s) 0 t"
    using live_blk [OF bd_rep_tree [OF rep]] by blast
  have "minAddress s + of_nat (unat (a - minAddress s)) = a" by simp
  then have "findNodeByAddress a s = i" "0 \<le> i" using findNodeByAddress_live [OF rep l] by metis+
  then show ?thesis using Some live_node [OF bd_rep_tree [OF rep] l] by (simp add: bd_blocks_def)
qed

end
