(* ===== verification/KBuddyHeap.thy ===== *)
theory KBuddyHeap
  imports KBuddyInv
begin

text \<open>
  The buddy manager as a memory manager: allocation, release with merging, the contract \<open>allocator\<close>,
  and the properties of the manager.
\<close>

section \<open>Orders\<close>

lemma unat_pow2: "k < 64 \<Longrightarrow> unat (push_bit k 1 :: u64) = 2 ^ k"
  using unat_of_nat_u64 [of "2 ^ k"] power_strict_increasing [of k 64 "2 :: nat"] by (simp add: push_bit_eq_mult)

lemma order_loop_spec:
  "k \<le> cap \<Longrightarrow> cap < 64 \<Longrightarrow> k = MIN_ORDER \<or> 2 ^ (k - 1) < unat n \<Longrightarrow>
    k \<le> order_loop n cap k \<and> order_loop n cap k \<le> cap \<and> (unat n \<le> 2 ^ cap \<longrightarrow> unat n \<le> 2 ^ order_loop n cap k) \<and>
    (order_loop n cap k = MIN_ORDER \<or> 2 ^ (order_loop n cap k - 1) < unat n)"
proof (induction n cap k rule: order_loop.induct)
  case (1 n cap k)
  have w: "(push_bit k 1 < n) \<longleftrightarrow> 2 ^ k < unat n" using "1.prems" unat_pow2 [of k] by (simp only: word_less_nat_alt)
  show ?case
  proof (cases "2 ^ k < unat n \<and> k < cap")
    case True
    then have "order_loop n cap k = order_loop n cap (k + 1)" using w by (simp add: order_loop.simps [of n cap k])
    then show ?thesis using "1.IH" w True "1.prems" by simp
  next
    case False
    then have "order_loop n cap k = k" using w by (subst order_loop.simps) auto
    then show ?thesis using False "1.prems" by (auto simp: not_less)
  qed
qed

lemma getOrder_spec:
  assumes "bd_rep s fs t"
  shows "MIN_ORDER \<le> getOrder n s" "getOrder n s \<le> maxOrder s" "unat n \<le> 2 ^ maxOrder s \<Longrightarrow> unat n \<le> 2 ^ getOrder n s"
    "getOrder n s = MIN_ORDER \<or> 2 ^ (getOrder n s - 1) < unat n"
  using order_loop_spec [of MIN_ORDER "maxOrder s" n] tree_at_order [OF bd_rep_tree [OF assms]] assms
  by (simp_all add: getOrder_def bd_rep_def)

section \<open>Allocation\<close>

lemma bd_rep_change:
  assumes "bd_rep s fs t" "holds s' fs' (-1) (maxOrder s) 0 t'" "root_of t' = root_of t" "same_heap s s'"
    "idxs t' \<union> avail s' fs' = idxs t \<union> avail s fs"
  shows "bd_rep s' fs' t'"
  using assms by (auto simp: bd_rep_def same_heap_def)

lemma bd_alloc_cases:
  assumes rep: "bd_rep s fs t" and n: "n \<noteq> 0"
  obtains (null) s' fs' t' where "buddy_mem_alloc s n = Some (s', 0)" "bd_rep s' fs' t'" "same_heap s s'"
      "blk (maxOrder s) 0 t' = blk (maxOrder s) 0 t"
      "2 * (maxOrder s - getOrder n s) \<le> room s fs \<Longrightarrow> s' = s \<and> t' = t \<and> \<not> has_free (getOrder n s) (maxOrder s) t"
    | (block) s' fs' t' q where "buddy_mem_alloc s n = Some (s', minAddress s + of_nat q)" "bd_rep s' fs' t'" "same_heap s s'"
      "q < 2 ^ maxOrder s" "blk (maxOrder s) 0 t q = None" "blk (maxOrder s) 0 t' = (blk (maxOrder s) 0 t)(q := Some (getOrder n s))"
      "has_free (getOrder n s) (maxOrder s) t"
      "2 * (maxOrder s - getOrder n s) \<le> room s fs \<Longrightarrow> coalesced t \<Longrightarrow> coalesced t'"
proof -
  let ?k = "maxOrder s" and ?r = "getOrder n s"
  have h: "holds s fs (-1) ?k 0 t" "root_of t = rootIndex s" using rep by (simp_all add: bd_rep_def)
  obtain res s' fs' t' where f: "findAndAllocate (rootIndex s) ?r s = Some (res, s')"
    and post: "find_post (2 * (?k - ?r)) ?r s fs (-1) ?k 0 t res s' fs' t'"
    using find_correct [OF h(1) getOrder_spec(1) [OF rep, of n]] h(2) by auto
  have sh: "same_heap s s'" using post by (simp add: find_post_def only_def)
  have rep': "bd_rep s' fs' t'"
    by (rule bd_rep_change [OF rep]) (use post sh in \<open>simp_all add: find_post_def\<close>)
  show thesis
  proof (cases "res = -1")
    case True
    then have "buddy_mem_alloc s n = Some (s', 0)" using n f by (simp add: buddy_mem_alloc_def)
    then show ?thesis using True post rep' sh by (intro null [of s' fs' t']) (auto simp: find_post_def)
  next
    case False
    then obtain q where q: "bn_offset (nodes s' res) = of_nat q" "blk ?k 0 t q = None" "blk ?k 0 t' = (blk ?k 0 t)(q \<mapsto> ?r)" "res \<in> idxs t'"
      using post by (auto simp: find_post_def)
    have "0 \<le> res" using holds_index [of s' fs' "-1" ?k 0 t' res] post q(4) by (simp add: find_post_def)
    moreover have same: "minAddress s' = minAddress s" "maxOrder s' = ?k" using sh by (simp_all add: same_heap_def)
    ultimately have a: "buddy_mem_alloc s n = Some (s', minAddress s + of_nat q)"
      using n f q(1) by (simp add: buddy_mem_alloc_def)
    have "q + 2 ^ ?r \<le> 2 ^ ?k" using blk_dom [OF bd_rep_tree [OF rep'], of q ?r] q(3) same by simp
    then have "q < 2 ^ ?k" using zero_less_power [of "2 :: nat" ?r] by linarith
    then show ?thesis
      using a rep' sh q(2,3) post False coalesced_imp_halves [of t] by (intro block [of s' q fs' t']) (auto simp: find_post_def)
  qed
qed

text \<open>In terms of addresses.\<close>
lemma bd_blocks_update:
  assumes rep: "bd_rep s fs t" "bd_rep s' fs' t'" and sh: "same_heap s s'" and q: "q < 2 ^ maxOrder s"
    and eq: "blk (maxOrder s) 0 t' = (blk (maxOrder s) 0 t)(q := v)"
  shows "bd_blocks s' = (bd_blocks s)(minAddress s + of_nat q := map_option (\<lambda>m. 2 ^ m) v)"
proof
  fix a
  have "q < 2 ^ 64" using q rep(1) by (auto simp: bd_rep_def intro: less_le_trans power_increasing)
  then have "a = minAddress s + of_nat q \<longleftrightarrow> unat (a - minAddress s) = q" by (rule eq_offset)
  moreover have "minAddress s' = minAddress s" "maxOrder s' = maxOrder s" using sh by (simp_all add: same_heap_def)
  ultimately show "bd_blocks s' a = ((bd_blocks s)(minAddress s + of_nat q := map_option (\<lambda>m. 2 ^ m) v)) a"
    using bd_blocks_blk [OF rep(1), of a] bd_blocks_blk [OF rep(2), of a] eq by auto
qed

lemma bd_blocks_same:
  assumes "bd_rep s fs t" "bd_rep s' fs' t'" "same_heap s s'" "blk (maxOrder s) 0 t' = blk (maxOrder s) 0 t"
  shows "bd_blocks s' = bd_blocks s"
  using bd_blocks_blk [OF assms(1)] bd_blocks_blk [OF assms(2)] assms(3,4) by (simp add: fun_eq_iff same_heap_def)

lemma bd_blocks_new:
  assumes "bd_rep s fs t" "bd_rep s' fs' t'" "same_heap s s'" "q < 2 ^ maxOrder s" "blk (maxOrder s) 0 t q = None"
    "blk (maxOrder s) 0 t' = (blk (maxOrder s) 0 t)(q := Some r)"
  shows "bd_blocks s (minAddress s + of_nat q) = None" "bd_blocks s' = (bd_blocks s)(minAddress s + of_nat q \<mapsto> 2 ^ r)"
  using bd_blocks_blk [OF assms(1), of "minAddress s + of_nat q"] bd_address(2,3) [OF assms(1,4)] assms(5)
    bd_blocks_update [OF assms(1-4,6)] by simp_all

section \<open>Release\<close>

fun mark :: "int \<Rightarrow> btree \<Rightarrow> btree" where
  "mark i (BLeaf j f) = BLeaf j (f \<or> j = i)"
| "mark i (BNode j l r) = BNode j (mark i l) (mark i r)"

definition join :: "int \<Rightarrow> btree \<Rightarrow> btree \<Rightarrow> btree" where
  "join j l r = (if free_leaf l \<and> free_leaf r then BLeaf j True else BNode j l r)"

text \<open>Merge the pairs of free halves on the way from slot \<open>i\<close> to the root.\<close>
fun merge_up :: "int \<Rightarrow> btree \<Rightarrow> btree" where
  "merge_up i (BLeaf j f) = BLeaf j f"
| "merge_up i (BNode j l r) =
     (if i \<in> idxs l then join j (merge_up i l) r else if i \<in> idxs r then join j l (merge_up i r) else BNode j l r)"

lemma mark_other: "i \<notin> idxs t \<Longrightarrow> mark i t = t"
  by (induction t) auto

lemma mark_idxs [simp]: "idxs (mark i t) = idxs t" "root_of (mark i t) = root_of t" "tree_distinct (mark i t) = tree_distinct t"
proof -
  show "idxs (mark i t) = idxs t" for t by (induction t) auto
  then show "tree_distinct (mark i t) = tree_distinct t" by (induction t) auto
qed (cases t; simp)

lemma tree_at_mark:
  assumes "ns' i = (ns i)\<lparr>bn_isFree := True\<rparr>" "\<And>j. j \<noteq> i \<Longrightarrow> ns' j = ns j"
  shows "tree_at ns par k off t \<Longrightarrow> tree_distinct t \<Longrightarrow> (i, q, m) \<in> live k off t \<Longrightarrow>
    tree_at ns' par k off (mark i t) \<and> blk k off (mark i t) p = (if p = q then None else blk k off t p)"
proof (induction t arbitrary: par k off)
  case (BNode j l r)
  have t: "tree_at ns j (k - 1) off l" "tree_at ns j (k - 1) (off + 2 ^ (k - 1)) r" using BNode.prems(1) by simp_all
  consider (left) "(i, q, m) \<in> live (k - 1) off l" | (right) "(i, q, m) \<in> live (k - 1) (off + 2 ^ (k - 1)) r"
    using BNode.prems(3) by auto
  then show ?case
  proof cases
    case left
    then have "i \<in> idxs l" using live_node [OF t(1)] by blast
    then have ne: "i \<noteq> j" "i \<notin> idxs r" "tree_distinct l" using BNode.prems(2) by auto
    have "tree_at ns' j (k - 1) (off + 2 ^ (k - 1)) r" by (rule tree_at_frame [OF t(2)]) (use ne assms(2) in metis)
    moreover have "blk (k - 1) (off + 2 ^ (k - 1)) r q = None"
      using blk_halves_disjoint [OF t] live_blk [OF t(1)] left by blast
    ultimately show ?thesis
      using BNode.IH(1) [OF t(1) ne(3) left] BNode.prems(1) ne assms(2) [of j] by (auto simp: mark_other map_add_def split: option.split)
  next
    case right
    then have "i \<in> idxs r" using live_node [OF t(2)] by blast
    then have ne: "i \<noteq> j" "i \<notin> idxs l" "tree_distinct r" using BNode.prems(2) by auto
    have "tree_at ns' j (k - 1) off l" by (rule tree_at_frame [OF t(1)]) (use ne assms(2) in metis)
    moreover have "blk (k - 1) off l q = None"
      using blk_halves_disjoint [OF t] live_blk [OF t(2)] right by blast
    ultimately show ?thesis
      using BNode.IH(2) [OF t(2) ne(3) right] BNode.prems(1) ne assms(2) [of j] by (auto simp: mark_other map_add_def split: option.split)
  qed
qed (use assms in \<open>auto split: if_splits\<close>)

text \<open>The status of a split node does not matter to the tree.\<close>
lemma tree_at_status:
  "tree_at ns par k off t \<Longrightarrow> bn_leftChild (ns p) \<noteq> -1 \<Longrightarrow> tree_at (ns(p := (ns p)\<lparr>bn_isFree := b\<rparr>)) par k off t"
  by (induction t arbitrary: par k off) auto

lemma holds_update:
  assumes "holds s fs par k off t" "p \<in> idxs t"
  shows "holds (updateNodeStatus p s) fs par k off t" "same_heap s (updateNodeStatus p s)" "avail (updateNodeStatus p s) fs = avail s fs"
    "room (updateNodeStatus p s) fs = room s fs"
proof -
  have "p \<notin> avail s fs" using assms by (auto simp: holds_def)
  then show "holds (updateNodeStatus p s) fs par k off t"
    using assms(1) tree_at_status [of "nodes s" par k off t p] by (auto simp: holds_def updateNodeStatus_def Let_def pool_set_node)
qed (simp_all add: updateNodeStatus_def Let_def)

lemma parent_in_tree: "tree_at ns par k off t \<Longrightarrow> i \<in> idxs t \<Longrightarrow> bn_parent (ns i) \<in> idxs t \<or> bn_parent (ns i) = par"
proof (induction t arbitrary: par k off)
  case (BNode j l r)
  have t: "tree_at ns j (k - 1) off l" "tree_at ns j (k - 1) (off + 2 ^ (k - 1)) r" "bn_parent (ns j) = par" using BNode.prems(1) by simp_all
  then show ?case using BNode.IH(1) [OF t(1)] BNode.IH(2) [OF t(2)] BNode.prems(2) by (simp only: idxs.simps insert_iff Un_iff) blast
qed simp

text \<open>Both halves free: their slots go back to the pool and the block is whole again.\<close>
lemma merge_pair:
  assumes h: "holds s fs par k off (BNode j (BLeaf a True) (BLeaf b True))"
  defines "s' \<equiv> set_node j (\<lambda>n. n\<lparr>bn_leftChild := -1, bn_rightChild := -1\<rparr>)
      (recycleChildNodes a b (set_node j (\<lambda>n. n\<lparr>bn_isFree := True\<rparr>) s))"
  shows "holds s' (b # a # fs) par k off (BLeaf j True)" "only {j, a, b} s s'" "avail s' (b # a # fs) = {a, b} \<union> avail s fs"
proof -
  let ?s1 = "set_node j (\<lambda>n. n\<lparr>bn_isFree := True\<rparr>) s"
  let ?s2 = "recycle a ?s1" and ?s3 = "recycle b (recycle a ?s1)"
  have n: "bn_order (nodes s j) = k" "bn_offset (nodes s j) = of_nat off" "bn_parent (nodes s j) = par" "0 \<le> j" "0 \<le> a" "0 \<le> b"
    "MIN_ORDER \<le> k" "bn_isFree (nodes s a)" "bn_isFree (nodes s b)" and ne: "a \<noteq> b" "a \<noteq> j" "b \<noteq> j"
    and out: "a \<notin> avail s fs" "b \<notin> avail s fs" "j \<notin> avail s fs" and p: "pool s fs"
    using h by (auto simp: holds_def)
  have r2: "pool ?s2 (a # fs)" "avail ?s2 (a # fs) = insert a (avail s fs)" "same_heap s ?s2"
    "nodes ?s2 = (nodes ?s1)(a := (nodes ?s1 a)\<lparr>bn_parent := -1, bn_leftChild := firstFreeNode ?s1\<rparr>)"
    using recycle_pool [of ?s1 fs a] pool_set_node [OF p out(3)] n ne out by (simp_all add: same_heap_def)
  have r3: "pool ?s3 (b # a # fs)" "avail ?s3 (b # a # fs) = {a, b} \<union> avail s fs" "same_heap s ?s3"
    "nodes ?s3 = (nodes ?s2)(b := (nodes ?s2 b)\<lparr>bn_parent := -1, bn_leftChild := firstFreeNode ?s2\<rparr>)"
    using recycle_pool [of ?s2 "a # fs" b] r2 n ne out by (auto simp: same_heap_def)
  have s': "s' = set_node j (\<lambda>n. n\<lparr>bn_leftChild := -1, bn_rightChild := -1\<rparr>) ?s3" by (simp add: s'_def recycleChildNodes_def)
  have "nodes ?s3 j = (nodes s j)\<lparr>bn_isFree := True\<rparr>" using r2(4) r3(4) ne by simp
  then have "nodes s' j = \<lparr>bn_isFree = True, bn_order = k, bn_offset = of_nat off, bn_leftChild = -1, bn_rightChild = -1, bn_parent = par\<rparr>"
    using n by (simp add: s')
  moreover have "pool s' (b # a # fs)" unfolding s' by (rule pool_set_node [OF r3(1)]) (use r3(2) ne out in auto)
  ultimately show "holds s' (b # a # fs) par k off (BLeaf j True)" using r3(2) ne out n by (simp add: holds_def s')
  show "only {j, a, b} s s'" using r2(4) r3(3,4) by (auto simp: s' only_def)
  show "avail s' (b # a # fs) = {a, b} \<union> avail s fs" using r3(2) by (simp add: s')
qed

text \<open>One level of \<^verbatim>\<open>tryMerge\<close>, from either half.\<close>
lemma merge_step:
  assumes h: "holds s fs par k off (BNode j l r)" and x: "x = root_of l \<or> x = root_of r"
  shows "\<exists>s' fs'. holds s' fs' par k off (join j l r) \<and> only (idxs (BNode j l r)) s s' \<and>
    idxs (join j l r) \<union> avail s' fs' = idxs (BNode j l r) \<union> avail s fs \<and>
    tryMerge x s = (if free_leaf l \<and> free_leaf r then tryMerge j s' else Some s')"
proof -
  have tl: "tree_at (nodes s) j (k - 1) off l" and tr: "tree_at (nodes s) j (k - 1) (off + 2 ^ (k - 1)) r"
    and c: "bn_leftChild (nodes s j) = root_of l" "bn_rightChild (nodes s j) = root_of r" "0 \<le> j"
    using h by (auto simp: holds_def)
  have nn: "0 \<le> root_of l" "0 \<le> root_of r" using tree_at_root(4) [OF tl] tree_at_root(4) [OF tr] by simp_all
  have "x \<in> idxs (BNode j l r)" using x by auto
  then have "0 \<le> x" "x < nodeCount s" using holds_index [OF h] by blast+
  moreover have "bn_parent (nodes s x) = j" using x tree_at_root(3) [OF tl] tree_at_root(3) [OF tr] by auto
  ultimately have m: "tryMerge x s = mergeBuddies tryMerge j (root_of l) (root_of r) s"
    using c nn by (subst tryMerge.simps) (simp add: Let_def)
  have free: "bn_isFree (ns (root_of t)) \<and> bn_leftChild (ns (root_of t)) = -1 \<longleftrightarrow> free_leaf t" if "tree_at ns q n o' t" for ns q n o' t
    using that by (cases t) (auto dest: tree_at_root(4))
  show ?thesis
  proof (cases "free_leaf l \<and> free_leaf r")
    case True
    then obtain a b where ab: "l = BLeaf a True" "r = BLeaf b True" by (cases l; cases r) auto
    note mp = merge_pair [OF h [unfolded ab]]
    have "only (idxs (BNode j l r)) s (set_node j (\<lambda>n. n\<lparr>bn_leftChild := -1, bn_rightChild := -1\<rparr>)
        (recycleChildNodes a b (set_node j (\<lambda>n. n\<lparr>bn_isFree := True\<rparr>) s)))"
      using mp(2) by (auto simp: only_def ab)
    moreover have "tryMerge x s = tryMerge j (set_node j (\<lambda>n. n\<lparr>bn_leftChild := -1, bn_rightChild := -1\<rparr>)
        (recycleChildNodes a b (set_node j (\<lambda>n. n\<lparr>bn_isFree := True\<rparr>) s)))"
      using m tl tr by (simp add: mergeBuddies_def ab Let_def)
    ultimately show ?thesis using mp(1,3)
      by (intro exI [of _ "set_node j (\<lambda>n. n\<lparr>bn_leftChild := -1, bn_rightChild := -1\<rparr>)
        (recycleChildNodes a b (set_node j (\<lambda>n. n\<lparr>bn_isFree := True\<rparr>) s))"] exI [of _ "b # a # fs"]) (auto simp: join_def ab)
  next
    case False
    then have "tryMerge x s = Some s" using m free [OF tl] free [OF tr] by (auto simp: mergeBuddies_def)
    then show ?thesis using False h by (intro exI [of _ s] exI [of _ fs]) (auto simp: join_def only_def)
  qed
qed

lemma root_join [simp]: "root_of (join j l r) = j"
  by (simp add: join_def)

lemma root_merge_up [simp]: "root_of (merge_up i t) = root_of t"
  by (cases t) simp_all

fun free_at :: "int \<Rightarrow> btree \<Rightarrow> bool" where
  "free_at i (BLeaf j f) \<longleftrightarrow> i = j \<and> f"
| "free_at i (BNode j l r) \<longleftrightarrow> free_at i l \<or> free_at i r"

lemma free_at_idxs: "free_at i t \<Longrightarrow> i \<in> idxs t"
  by (induction t) auto

text \<open>The climb from a free block to the first ancestor whose halves are not both free.\<close>
lemma tryMerge_up:
  "holds s fs par k off t \<Longrightarrow> free_at i t \<Longrightarrow>
    \<exists>s' fs'. holds s' fs' par k off (merge_up i t) \<and> only (idxs t \<union> avail s fs) s s' \<and>
      idxs (merge_up i t) \<union> avail s' fs' = idxs t \<union> avail s fs \<and>
      tryMerge i s = (if free_leaf (merge_up i t) then tryMerge (root_of t) s' else Some s')"
proof (induction t arbitrary: par k off)
  case (BLeaf j f)
  then show ?case by (intro exI [of _ s] exI [of _ fs]) (auto simp: only_def)
next
  case (BNode j l r)
  note h = BNode.prems(1)
  have hl: "holds s fs j (k - 1) off l" and hr: "holds s fs j (k - 1) (off + 2 ^ (k - 1)) r"
    and dis: "idxs l \<inter> idxs r = {}" using h by (auto simp: holds_def)
  consider (left) "free_at i l" | (right) "free_at i r" using BNode.prems(2) by auto
  then show ?case
  proof cases
    case left
    then have m: "merge_up i (BNode j l r) = join j (merge_up i l) r" using free_at_idxs by simp
    from BNode.IH(1) [OF hl left] obtain s1 fs1 where h1: "holds s1 fs1 j (k - 1) off (merge_up i l)"
      and o1: "only (idxs l \<union> avail s fs) s s1" and i1: "idxs (merge_up i l) \<union> avail s1 fs1 = idxs l \<union> avail s fs"
      and t1: "tryMerge i s = (if free_leaf (merge_up i l) then tryMerge (root_of l) s1 else Some s1)" by blast
    have h1': "holds s1 fs1 par k off (BNode j (merge_up i l) r)" by (rule replace_left [OF h h1 _ o1 i1]) simp
    show ?thesis
    proof (cases "free_leaf (merge_up i l)")
      case True
      obtain s2 fs2 where h2: "holds s2 fs2 par k off (join j (merge_up i l) r)" and o2: "only (idxs (BNode j (merge_up i l) r)) s1 s2"
        and i2: "idxs (join j (merge_up i l) r) \<union> avail s2 fs2 = idxs (BNode j (merge_up i l) r) \<union> avail s1 fs1"
        and t2: "tryMerge (root_of l) s1 = (if free_leaf (merge_up i l) \<and> free_leaf r then tryMerge j s2 else Some s2)"
        using merge_step [OF h1', of "root_of l"] by auto
      have "only (idxs (BNode j l r) \<union> avail s fs) s s2" by (rule only_trans [OF o1 o2]) (use i1 in auto)
      moreover have "idxs (join j (merge_up i l) r) \<union> avail s2 fs2 = idxs (BNode j l r) \<union> avail s fs" using i2 i1 by auto
      moreover have "tryMerge i s = (if free_leaf (join j (merge_up i l) r) then tryMerge j s2 else Some s2)"
        using t1 t2 True by (simp add: join_def)
      ultimately show ?thesis unfolding m root_of.simps using h2 by blast
    next
      case False
      have "only (idxs (BNode j l r) \<union> avail s fs) s s1" using o1 by (auto simp: only_def)
      then show ?thesis unfolding m using False h1' i1 t1 by (intro exI [of _ s1] exI [of _ fs1]) (auto simp: join_def)
    qed
  next
    case right
    then have "i \<in> idxs r" by (rule free_at_idxs)
    then have m: "merge_up i (BNode j l r) = join j l (merge_up i r)" using dis by auto
    from BNode.IH(2) [OF hr right] obtain s1 fs1 where h1: "holds s1 fs1 j (k - 1) (off + 2 ^ (k - 1)) (merge_up i r)"
      and o1: "only (idxs r \<union> avail s fs) s s1" and i1: "idxs (merge_up i r) \<union> avail s1 fs1 = idxs r \<union> avail s fs"
      and t1: "tryMerge i s = (if free_leaf (merge_up i r) then tryMerge (root_of r) s1 else Some s1)" by blast
    have h1': "holds s1 fs1 par k off (BNode j l (merge_up i r))" by (rule replace_right [OF h h1 _ o1 i1]) simp
    show ?thesis
    proof (cases "free_leaf (merge_up i r)")
      case True
      obtain s2 fs2 where h2: "holds s2 fs2 par k off (join j l (merge_up i r))" and o2: "only (idxs (BNode j l (merge_up i r))) s1 s2"
        and i2: "idxs (join j l (merge_up i r)) \<union> avail s2 fs2 = idxs (BNode j l (merge_up i r)) \<union> avail s1 fs1"
        and t2: "tryMerge (root_of r) s1 = (if free_leaf l \<and> free_leaf (merge_up i r) then tryMerge j s2 else Some s2)"
        using merge_step [OF h1', of "root_of r"] by auto
      have "only (idxs (BNode j l r) \<union> avail s fs) s s2" by (rule only_trans [OF o1 o2]) (use i1 in auto)
      moreover have "idxs (join j l (merge_up i r)) \<union> avail s2 fs2 = idxs (BNode j l r) \<union> avail s fs" using i2 i1 by auto
      moreover have "tryMerge i s = (if free_leaf (join j l (merge_up i r)) then tryMerge j s2 else Some s2)"
        using t1 t2 True by (simp add: join_def)
      ultimately show ?thesis unfolding m root_of.simps using h2 by blast
    next
      case False
      have "only (idxs (BNode j l r) \<union> avail s fs) s s1" using o1 by (auto simp: only_def)
      then show ?thesis unfolding m using False h1' i1 t1 by (intro exI [of _ s1] exI [of _ fs1]) (auto simp: join_def)
    qed
  qed
qed

lemma blk_join: "blk k off (join j l r) = blk k off (BNode j l r)"
  by (cases l; cases r) (auto simp: join_def)

lemma blk_merge_up: "blk k off (merge_up i t) = blk k off t"
  by (induction t arbitrary: k off) (simp_all add: blk_join)

lemma coalesced_release: "coalesced t \<Longrightarrow> tree_distinct t \<Longrightarrow> i \<in> idxs t \<Longrightarrow> coalesced (merge_up i (mark i t))"
  by (induction t) (auto simp: join_def mark_other disjoint_iff)

lemma live_free_at: "tree_at ns par k off t \<Longrightarrow> (i, q, m) \<in> live k off t \<Longrightarrow> free_at i (mark i t)"
proof (induction t arbitrary: par k off)
  case (BNode j l r)
  have t: "tree_at ns j (k - 1) off l" "tree_at ns j (k - 1) (off + 2 ^ (k - 1)) r" using BNode.prems(1) by simp_all
  then show ?case using BNode.IH(1) [OF t(1)] BNode.IH(2) [OF t(2)] BNode.prems(2) by auto
qed (auto split: if_splits)

lemma bd_free:
  assumes rep: "bd_rep s fs t" and l: "(i, q, m) \<in> live (maxOrder s) 0 t"
  shows "\<exists>s' fs'. buddy_mem_free s (minAddress s + of_nat q) = Some s' \<and> bd_rep s' fs' (merge_up i (mark i t)) \<and> same_heap s s' \<and>
    blk (maxOrder s) 0 (merge_up i (mark i t)) = (blk (maxOrder s) 0 t)(q := None)"
proof -
  let ?k = "maxOrder s" and ?t = "mark i t"
  let ?s0 = "set_node i (\<lambda>n. n\<lparr>bn_isFree := True\<rparr>) s"
  let ?p = "bn_parent (nodes s i)"
  let ?s1 = "if ?p \<ge> 0 then updateNodeStatus ?p ?s0 else ?s0"
  note tr = bd_rep_tree [OF rep]
  have q: "q < 2 ^ ?k" using live_dom [OF l tr] zero_less_power [of "2 :: nat" m] by linarith
  have i: "i \<in> idxs t" using live_node [OF tr l] by blast
  have h: "holds s fs (-1) ?k 0 t" and d: "tree_distinct t" and out: "i \<notin> avail s fs" using rep i by (auto simp: bd_rep_def holds_def)
  have mk: "tree_at (nodes ?s0) (-1) ?k 0 ?t" "\<And>p. blk ?k 0 ?t p = (if p = q then None else blk ?k 0 t p)"
    using tree_at_mark [of "nodes ?s0" i "nodes s", OF _ _ tr d l] by simp_all
  have h0: "holds ?s0 fs (-1) ?k 0 ?t"
    using h mk(1) pool_set_node [OF _ out] by (simp add: holds_def)
  have "?p \<in> idxs t \<or> ?p = -1" by (rule parent_in_tree [OF tr i])
  then have h1: "holds ?s1 fs (-1) ?k 0 ?t" and sh1: "same_heap s ?s1" and av1: "avail ?s1 fs = avail s fs"
    using h0 holds_update [of ?s0 fs "-1" ?k 0 ?t ?p] by (auto simp: same_heap_def)
  obtain s' fs' where h': "holds s' fs' (-1) ?k 0 (merge_up i ?t)" and o: "only (idxs ?t \<union> avail ?s1 fs) ?s1 s'"
    and ix: "idxs (merge_up i ?t) \<union> avail s' fs' = idxs ?t \<union> avail ?s1 fs"
    and tm: "tryMerge i ?s1 = (if free_leaf (merge_up i ?t) then tryMerge (root_of ?t) s' else Some s')"
    using tryMerge_up [OF h1 live_free_at [OF tr l]] by blast
  have "bn_parent (nodes s' (root_of t)) = -1" using h' tree_at_root(3) [of "nodes s'" "-1" ?k 0 "merge_up i ?t"] by (simp add: holds_def)
  then have "tryMerge (root_of t) s' = Some s'" by (subst tryMerge.simps) simp
  then have tm': "tryMerge i ?s1 = Some s'" using tm by simp
  have sh: "same_heap s s'" using same_heap_trans [OF sh1] o by (simp add: only_def)
  have "findNodeByAddress (minAddress s + of_nat q) s = i" "0 \<le> i" using findNodeByAddress_live [OF rep l] by simp_all
  moreover have "minAddress s + of_nat q \<noteq> 0" by (rule bd_address(4) [OF rep q])
  ultimately have "buddy_mem_free s (minAddress s + of_nat q) = Some s'"
    using tm' by (auto simp: buddy_mem_free_def Let_def split: if_splits)
  moreover have "bd_rep s' fs' (merge_up i ?t)"
    by (rule bd_rep_change [OF rep h' _ sh]) (use ix av1 in simp_all)
  moreover have "blk ?k 0 (merge_up i ?t) = (blk ?k 0 t)(q := None)" using mk(2) by (simp add: blk_merge_up fun_eq_iff)
  ultimately show ?thesis using sh by blast
qed

section \<open>The contract\<close>

definition bd_ops :: "buddy mm_ops" where
  "bd_ops = \<lparr>mm_alloc = buddy_mem_alloc, mm_free = buddy_mem_free\<rparr>"

lemma bd_blocks_live:
  assumes rep: "bd_rep s fs t" and b: "bd_blocks s p = Some n"
  shows "\<exists>i q m. (i, q, m) \<in> live (maxOrder s) 0 t \<and> q < 2 ^ maxOrder s \<and> p = minAddress s + of_nat q \<and> n = 2 ^ m \<and> unat p = unat (minAddress s) + q \<and>
    blk (maxOrder s) 0 t q = Some m"
proof -
  note tr = bd_rep_tree [OF rep]
  obtain m where m: "blk (maxOrder s) 0 t (unat (p - minAddress s)) = Some m" "n = 2 ^ m"
    using b bd_blocks_blk [OF rep, of p] by auto
  then obtain i where l: "(i, unat (p - minAddress s), m) \<in> live (maxOrder s) 0 t" using live_blk [OF tr] by blast
  have q: "unat (p - minAddress s) < 2 ^ maxOrder s" using live_dom [OF l tr] zero_less_power [of "2 :: nat" m] by linarith
  have p: "p = minAddress s + of_nat (unat (p - minAddress s))" by simp
  have "unat p = unat (minAddress s) + unat (p - minAddress s)" using bd_address(1) [OF rep q] p by metis
  then show ?thesis using l m q p by blast
qed

lemma bd_allocator: "allocator bd_ops bd_inv bd_blocks (\<lambda>s. 2 ^ maxOrder s)"
proof
  fix s :: buddy and n :: u64
  assume inv: "bd_inv s" and n: "n \<noteq> 0" and le: "unat n \<le> 2 ^ maxOrder s"
  obtain fs t where rep: "bd_rep s fs t" using inv by (auto simp: bd_inv_def)
  have inv': "bd_inv s'" and lim: "(2 :: nat) ^ maxOrder s' = 2 ^ maxOrder s" if "bd_rep s' fs' t'" "same_heap s s'" for s' fs' t'
    using that by (auto simp: bd_inv_def same_heap_def)
  show "\<exists>s' p. mm_alloc bd_ops s n = Some (s', p) \<and> bd_inv s' \<and> (2 :: nat) ^ maxOrder s' = 2 ^ maxOrder s \<and>
      (if p = 0 then bd_blocks s' = bd_blocks s
       else bd_blocks s p = None \<and> (\<exists>k. unat n \<le> k \<and> bd_blocks s' = (bd_blocks s)(p \<mapsto> k)))"
    using rep n
  proof (cases rule: bd_alloc_cases)
    case (null s' fs' t')
    then show ?thesis using bd_blocks_same [OF rep null(2-4)] inv' lim by (auto simp: bd_ops_def)
  next
    case (block s' fs' t' q)
    then show ?thesis
      using bd_blocks_new [OF rep block(2-6)] bd_address(4) [OF rep block(4)] getOrder_spec(3) [OF rep le] inv' lim
      by (auto simp: bd_ops_def)
  qed
next
  fix s :: buddy and p n
  assume inv: "bd_inv s" and b: "bd_blocks s p = Some n"
  obtain fs t where rep: "bd_rep s fs t" using inv by (auto simp: bd_inv_def)
  obtain i q m where l: "(i, q, m) \<in> live (maxOrder s) 0 t" "q < 2 ^ maxOrder s" "p = minAddress s + of_nat q"
    using bd_blocks_live [OF rep b] by blast
  obtain s' fs' where f: "buddy_mem_free s p = Some s'" "bd_rep s' fs' (merge_up i (mark i t))" "same_heap s s'"
      "blk (maxOrder s) 0 (merge_up i (mark i t)) = (blk (maxOrder s) 0 t)(q := None)"
    using bd_free [OF rep l(1)] l(3) by blast
  have "bd_blocks s' = (bd_blocks s)(p := None)" using bd_blocks_update [OF rep f(2,3) l(2) f(4)] l(3) by simp
  then show "\<exists>s'. mm_free bd_ops s p = Some s' \<and> bd_inv s' \<and> (2 :: nat) ^ maxOrder s' = 2 ^ maxOrder s \<and> bd_blocks s' = (bd_blocks s)(p := None)"
    using f by (auto simp: bd_ops_def bd_inv_def same_heap_def)
next
  show "mm_free bd_ops s 0 = Some s" for s by (simp add: bd_ops_def buddy_mem_free_def)
next
  fix s :: buddy and p q n m
  assume inv: "bd_inv s" and b: "bd_blocks s p = Some n" "bd_blocks s q = Some m" and ne: "p \<noteq> q"
  obtain fs t where rep: "bd_rep s fs t" using inv by (auto simp: bd_inv_def)
  obtain i x k where x: "p = minAddress s + of_nat x" "n = 2 ^ k" "unat p = unat (minAddress s) + x" "blk (maxOrder s) 0 t x = Some k"
    using bd_blocks_live [OF rep b(1)] by blast
  obtain j y l where y: "q = minAddress s + of_nat y" "m = 2 ^ l" "unat q = unat (minAddress s) + y" "blk (maxOrder s) 0 t y = Some l"
    using bd_blocks_live [OF rep b(2)] by blast
  have "x + 2 ^ k \<le> y \<or> y + 2 ^ l \<le> x"
    by (rule blk_disjoint [OF bd_rep_tree [OF rep] x(4) y(4)]) (use x y ne in auto)
  then show "unat p + n \<le> unat q \<or> unat q + m \<le> unat p" using x y by auto
qed

section \<open>Initialisation\<close>

lemma log2_loop_spec: "0 < n \<Longrightarrow> r \<le> log2_loop n r \<and> 2 ^ (log2_loop n r - r) \<le> unat n \<and> unat n < 2 ^ (log2_loop n r - r + 1)"
proof (induction n r rule: log2_loop.induct)
  case (1 n r)
  show ?case
  proof (cases "n > 1")
    case True
    let ?m = "drop_bit 1 n" and ?L = "log2_loop (drop_bit 1 n) (r + 1)"
    have m: "unat ?m = unat n div 2" by (simp add: drop_bit_eq_div unat_div_distrib)
    have "1 < unat n" using True by (simp add: word_less_nat_alt)
    then have "0 < ?m" using m by (simp add: word_less_nat_alt)
    from "1.IH" [OF True this] have IH: "r + 1 \<le> ?L" "2 ^ (?L - (r + 1)) \<le> unat n div 2" "unat n div 2 < 2 ^ (?L - (r + 1) + 1)"
      unfolding m by simp_all
    have "?L - r = Suc (?L - (r + 1))" using IH(1) by simp
    then have "2 ^ (?L - r) \<le> unat n" "unat n < 2 ^ (?L - r + 1)" using IH(2,3) by (simp_all)
    moreover have "log2_loop n r = ?L" using True by (subst log2_loop.simps) simp
    ultimately show ?thesis using IH(1) by simp
  next
    case False
    then have "unat n = unat (1 :: u64)" using "1.prems" by (simp add: word_less_nat_alt)
    then have "n = 1" by (simp only: word_unat_eq_iff)
    then show ?thesis by (simp add: log2_loop.simps)
  qed
qed

lemma init_order_spec:
  "2 ^ k \<le> unat n \<Longrightarrow> k \<le> c \<Longrightarrow> c < 64 \<Longrightarrow> 2 ^ c \<le> unat n \<Longrightarrow> init_order n c k = c"
proof (induction n c k rule: init_order.induct)
  case (1 n c k)
  show ?case
  proof (cases "k < c")
    case True
    then have le: "(2 :: nat) ^ (k + 1) \<le> 2 ^ c" by (intro power_increasing) auto
    have "push_bit (k + 1) 1 \<le> n" using True "1.prems" le unat_pow2 [of "k + 1"] by (simp add: word_le_nat_alt)
    then have "init_order n c k = init_order n c (k + 1)" using True by (subst init_order.simps) simp
    then show ?thesis using "1.IH" True \<open>push_bit (k + 1) 1 \<le> n\<close> "1.prems" le by simp
  next
    case False
    then show ?thesis using "1.prems" by (subst init_order.simps) simp
  qed
qed

lemma mem_init_rep:
  assumes "16 \<le> unat n" "a \<noteq> 0" "unat a + unat n < 2 ^ 64"
  shows "bd_rep (buddy_mem_init a n s) [] (BLeaf 0 True)" "maxOrder (buddy_mem_init a n s) = log2Int n"
    "2 ^ log2Int n \<le> unat n" "unat n < 2 ^ (log2Int n + 1)" "minAddress (buddy_mem_init a n s) = a"
    "room (buddy_mem_init a n s) [] = 8191"
proof -
  have "0 < n" using assms(1) by (simp add: word_less_nat_alt)
  then have l: "2 ^ log2Int n \<le> unat n" "unat n < 2 ^ (log2Int n + 1)" using log2_loop_spec [of n 0] by (simp_all add: log2Int_def)
  then show "2 ^ log2Int n \<le> unat n" "unat n < 2 ^ (log2Int n + 1)" by simp_all
  have "(2 :: nat) ^ log2Int n < 2 ^ 64" using l(1) unat_lt2p [of n] by simp
  then have c: "log2Int n < 64" by (rule power_less_imp_less_exp [rotated]) simp
  have "(2 :: nat) ^ 4 < 2 ^ (log2Int n + 1)" using l(2) assms(1) by simp
  then have "4 < log2Int n + 1" by (rule power_less_imp_less_exp [rotated]) simp
  then have o: "init_order n (log2Int n) MIN_ORDER = log2Int n"
    using l(1) c assms(1) by (intro init_order_spec) (auto simp: MIN_ORDER_def)
  show "bd_rep (buddy_mem_init a n s) [] (BLeaf 0 True)" "maxOrder (buddy_mem_init a n s) = log2Int n"
    "minAddress (buddy_mem_init a n s) = a" "room (buddy_mem_init a n s) [] = 8191"
    using assms l c \<open>4 < log2Int n + 1\<close>
    by (auto simp: buddy_mem_init_def o Let_def createNode_def MAX_NODES_def o [unfolded MIN_ORDER_def] MIN_ORDER_def bd_rep_def holds_def pool_def avail_def room_def)
qed

section \<open>Accounting\<close>

fun used :: "nat \<Rightarrow> btree \<Rightarrow> nat" where
  "used k (BLeaf i f) = (if f then 0 else 2 ^ k)"
| "used k (BNode i l r) = used (k - 1) l + used (k - 1) r"

fun frags :: "btree \<Rightarrow> nat" where
  "frags (BLeaf i f) = (if f then 1 else 0)"
| "frags (BNode i l r) = frags l + frags r"

fun pieces :: "btree \<Rightarrow> nat" where
  "pieces (BLeaf i f) = (if f then 0 else 1)"
| "pieces (BNode i l r) = pieces l + pieces r"

lemma used_le: "tree_at ns par k off t \<Longrightarrow> used k t \<le> 2 ^ k"
proof (induction t arbitrary: par k off)
  case (BNode i l r)
  then have "2 ^ (k - 1) + 2 ^ (k - 1) = (2 :: nat) ^ k" by (intro halves) auto
  moreover have "used (k - 1) l \<le> 2 ^ (k - 1)" "used (k - 1) r \<le> 2 ^ (k - 1)" using BNode by auto
  ultimately show ?case by simp
qed simp

lemma used_blk: "tree_at ns par k off t \<Longrightarrow> finite (dom (blk k off t)) \<and> used k t = (\<Sum>q \<in> dom (blk k off t). 2 ^ the (blk k off t q))"
proof (induction t arbitrary: par k off)
  case (BNode i l r)
  let ?l = "blk (k - 1) off l" and ?r = "blk (k - 1) (off + 2 ^ (k - 1)) r"
  have t: "tree_at ns i (k - 1) off l" "tree_at ns i (k - 1) (off + 2 ^ (k - 1)) r" using BNode.prems by simp_all
  note IH = BNode.IH(1) [OF t(1)] BNode.IH(2) [OF t(2)]
  have dis: "dom ?l \<inter> dom ?r = {}" by (rule blk_halves_disjoint [OF t])
  have "(\<Sum>q \<in> dom ?l \<union> dom ?r. 2 ^ the ((?l ++ ?r) q)) = (\<Sum>q \<in> dom ?l. 2 ^ the ((?l ++ ?r) q)) + (\<Sum>q \<in> dom ?r. 2 ^ the ((?l ++ ?r) q) :: nat)"
    by (rule sum.union_disjoint) (use IH dis in auto)
  moreover have "(\<Sum>q \<in> dom ?l. 2 ^ the ((?l ++ ?r) q)) = (\<Sum>q \<in> dom ?l. 2 ^ the (?l q) :: nat)"
  proof (rule sum.cong)
    fix q assume "q \<in> dom ?l"
    then have "q \<notin> dom ?r" using dis by blast
    then show "2 ^ the ((?l ++ ?r) q) = (2 ^ the (?l q) :: nat)" by (simp add: map_add_dom_app_simps)
  qed simp
  moreover have "(\<Sum>q \<in> dom ?r. 2 ^ the ((?l ++ ?r) q)) = (\<Sum>q \<in> dom ?r. 2 ^ the (?r q) :: nat)"
    by (rule sum.cong) (auto simp: map_add_dom_app_simps)
  ultimately show ?case using IH by (simp add: Un_commute)
qed simp

lemma count_tree:
  assumes "\<And>j. j \<in> idxs t \<Longrightarrow> j < nodeCount s" "tree_at (nodes s) par k off t" "par \<noteq> -1 \<or> root_of t = rootIndex s" "k < 64"
  shows "countLeafNodes (root_of t) s c = Some
    \<lparr>lc_allocated = lc_allocated c + of_nat (pieces t), lc_allocatedMemory = lc_allocatedMemory c + of_nat (used k t),
     lc_free = lc_free c + of_nat (frags t), lc_freeMemory = lc_freeMemory c + of_nat (2 ^ k - used k t)\<rparr>"
  using assms
proof (induction t arbitrary: par k off c)
  case (BLeaf i f)
  then show ?case by (subst countLeafNodes.simps) (auto simp: Let_def push_bit_eq_mult)
next
  case (BNode i l r)
  have t: "tree_at (nodes s) i (k - 1) off l" "tree_at (nodes s) i (k - 1) (off + 2 ^ (k - 1)) r" "0 \<le> i" "i < nodeCount s" "i \<noteq> -1"
    and c: "bn_leftChild (nodes s i) = root_of l" "bn_rightChild (nodes s i) = root_of r" "bn_parent (nodes s i) = par" "0 < k"
    using BNode.prems by auto
  have nn: "root_of l \<noteq> -1" using tree_at_root(4) [OF t(1)] by simp
  have "2 ^ (k - 1) + 2 ^ (k - 1) = (2 :: nat) ^ k" using c(4) by (rule halves)
  then have "2 ^ k - (used (k - 1) l + used (k - 1) r) = (2 ^ (k - 1) - used (k - 1) l) + (2 ^ (k - 1) - used (k - 1) r)"
    using used_le [OF t(1)] used_le [OF t(2)] by simp
  then have sum: "(of_nat (2 ^ k - (used (k - 1) l + used (k - 1) r)) :: u64) = of_nat (2 ^ (k - 1) - used (k - 1) l) + of_nat (2 ^ (k - 1) - used (k - 1) r)"
    by (simp only: of_nat_add)
  note IHl = BNode.IH(1) [OF _ t(1)] and IHr = BNode.IH(2) [OF _ t(2)]
  have "countLeafNodes i s c = Option.bind (countLeafNodes (root_of l) s c) (countLeafNodes (root_of r) s)"
    using t c nn BNode.prems(3) by (subst countLeafNodes.simps) auto
  also have "\<dots> = Some \<lparr>lc_allocated = lc_allocated c + of_nat (pieces l) + of_nat (pieces r), lc_allocatedMemory = lc_allocatedMemory c + of_nat (used (k - 1) l) + of_nat (used (k - 1) r),
     lc_free = lc_free c + of_nat (frags l) + of_nat (frags r), lc_freeMemory = lc_freeMemory c + of_nat (2 ^ (k - 1) - used (k - 1) l) + of_nat (2 ^ (k - 1) - used (k - 1) r)\<rparr>"
    using IHl IHr BNode.prems(1,4) t(5) by simp
  finally show ?case unfolding used.simps sum by (simp add: add.assoc)
qed

section \<open>Properties\<close>

text \<open>C14. An allocation of at most the size of the heap always returns and keeps the heap well formed.  It
  answers NULL and changes no live block, or a fresh block of the smallest power of two from sixteen
  that holds the request, aligned to its size, inside the heap and apart from all live blocks.  With
  two free slots in the node pool for every level to be split, the answer is NULL only when no free
  block is large enough, and the heap stays without two free halves of the same block.\<close>
theorem buddy_alloc_correct:
  assumes rep: "bd_rep s fs t" and n: "n \<noteq> 0" "unat n \<le> 2 ^ maxOrder s"
  defines "r \<equiv> getOrder n s"
  shows "\<exists>s' p fs' t'. buddy_mem_alloc s n = Some (s', p) \<and> bd_rep s' fs' t' \<and>
    (p = 0 \<longrightarrow> bd_blocks s' = bd_blocks s) \<and>
    (p \<noteq> 0 \<longrightarrow> bd_blocks s p = None \<and> bd_blocks s' = (bd_blocks s)(p \<mapsto> 2 ^ r) \<and> unat n \<le> 2 ^ r \<and>
      (r = 4 \<or> 2 ^ (r - 1) < unat n) \<and> 2 ^ r dvd unat (p - minAddress s) \<and>
      unat (minAddress s) \<le> unat p \<and> unat p + 2 ^ r \<le> unat (minAddress s) + unat (totalSize s) \<and>
      (\<forall>q k. bd_blocks s q = Some k \<longrightarrow> unat q + k \<le> unat p \<or> unat p + 2 ^ r \<le> unat q)) \<and>
    (2 * (maxOrder s - r) \<le> room s fs \<longrightarrow> (p = 0 \<longleftrightarrow> \<not> has_free r (maxOrder s) t) \<and> (coalesced t \<longrightarrow> coalesced t'))"
  using rep n(1)
proof (cases rule: bd_alloc_cases)
  case (null s' fs' t')
  then show ?thesis
    using bd_blocks_same [OF rep null(2-4)]
    by (intro exI [of _ s'] exI [of _ 0] exI [of _ fs'] exI [of _ t']) (auto simp: r_def)
next
  case (block s' fs' t' q)
  let ?p = "minAddress s + of_nat q"
  note new = bd_blocks_new [OF rep block(2-6)]
  note ad = bd_address [OF rep block(4)]
  have tr: "tree_at (nodes s') (-1) (maxOrder s) 0 t'" using bd_rep_tree [OF block(2)] block(3) by (simp add: same_heap_def)
  have b: "blk (maxOrder s) 0 t' q = Some r" using block(6) by (simp add: r_def)
  have "2 ^ r dvd q" using blk_aligned [OF tr _ b] by simp
  moreover have "q + 2 ^ r \<le> unat (totalSize s)" using blk_dom [OF tr b] rep by (auto simp: bd_rep_def)
  moreover have "unat x + k \<le> unat ?p \<or> unat ?p + 2 ^ r \<le> unat x" if "bd_blocks s x = Some k" for x k
  proof -
    have "bd_inv s'" "x \<noteq> ?p" using block(2) new(1) that by (auto simp: bd_inv_def)
    then show ?thesis using allocator.disjoint_law [OF bd_allocator, of s' x k ?p "2 ^ r"] new(2) that by (simp add: r_def)
  qed
  moreover have "r = 4 \<or> 2 ^ (r - 1) < unat n" "unat n \<le> 2 ^ r"
    using getOrder_spec [OF rep, of n] n(2) by (auto simp: r_def MIN_ORDER_def)
  ultimately show ?thesis
    using block new ad
    by (intro exI [of _ s'] exI [of _ ?p] exI [of _ fs'] exI [of _ t']) (simp add: r_def)
qed

text \<open>The heap the kernel starts with: 256 MiB at 16 MiB.\<close>
definition boot_buddy :: buddy where
  "boot_buddy = buddy_mem_init 0x1000000 0x10000000
     \<lparr>minAddress = 0, totalSize = 0, maxOrder = 0, nodes = (\<lambda>_. \<lparr>bn_isFree = False, bn_order = 0, bn_offset = 0,
        bn_leftChild = 0, bn_rightChild = 0, bn_parent = 0\<rparr>), nodeCount = 0, rootIndex = 0, firstFreeNode = 0\<rparr>"

lemma boot_buddy_rep: "bd_rep boot_buddy [] (BLeaf 0 True)" "maxOrder boot_buddy = 28" "room boot_buddy [] = 8191"
    "minAddress boot_buddy = 0x1000000"
proof -
  have "log2Int 0x10000000 = 28" by code_simp
  then show "bd_rep boot_buddy [] (BLeaf 0 True)" "maxOrder boot_buddy = 28" "room boot_buddy [] = 8191" "minAddress boot_buddy = 0x1000000"
    unfolding boot_buddy_def using mem_init_rep [of "0x10000000" "0x1000000"] by simp_all
qed

lemma boot_getOrder: "getOrder 100 boot_buddy = 7"
  unfolding getOrder_def boot_buddy_rep(2) by code_simp

theorem buddy_alloc_correct_witness:
  "\<exists>s' p. buddy_mem_alloc boot_buddy 100 = Some (s', p) \<and> p \<noteq> 0 \<and> bd_blocks s' p = Some 128 \<and> 128 dvd unat (p - 0x1000000)"
proof -
  have "unat (100 :: u64) \<le> 2 ^ maxOrder boot_buddy" by (simp add: boot_buddy_rep(2))
  from buddy_alloc_correct [OF boot_buddy_rep(1) _ this]
  obtain s' p where "buddy_mem_alloc boot_buddy 100 = Some (s', p)" "p \<noteq> 0" "bd_blocks s' = (bd_blocks boot_buddy)(p \<mapsto> 2 ^ 7)"
      "2 ^ 7 dvd unat (p - minAddress boot_buddy)"
    by (simp add: boot_getOrder boot_buddy_rep) blast
  then show ?thesis by (simp add: boot_buddy_rep)
qed

lemma boot_alloc: "\<exists>s' p. buddy_mem_alloc boot_buddy 100 = Some (s', p) \<and> bd_inv s' \<and> bd_blocks s' p = Some 128"
proof -
  have "(100 :: u64) \<noteq> 0" by simp
  with boot_buddy_rep(1) show ?thesis
  proof (cases rule: bd_alloc_cases)
    case (null s' fs' t')
    then show ?thesis by (simp add: boot_buddy_rep boot_getOrder)
  next
    case (block s' fs' t' q)
    then show ?thesis
      using bd_blocks_new(2) [OF boot_buddy_rep(1) block(2-6)] by (auto simp: boot_getOrder bd_inv_def)
  qed
qed

text \<open>C15. Freeing a live block returns, removes exactly that block and merges every pair of free halves it
  completes, so a heap without two free halves of one block stays so.  Freeing an address that is no
  live block, a second time for instance, changes nothing.\<close>
theorem buddy_free_correct:
  assumes rep: "bd_rep s fs t"
  shows "(case bd_blocks s p of
      None \<Rightarrow> buddy_mem_free s p = Some s
    | Some n \<Rightarrow> \<exists>s' fs' t'. buddy_mem_free s p = Some s' \<and> bd_rep s' fs' t' \<and> bd_blocks s' = (bd_blocks s)(p := None) \<and>
        (coalesced t \<longrightarrow> coalesced t') \<and> buddy_mem_free s' p = Some s')"
proof -
  have idle: "bd_blocks s p = None \<Longrightarrow> buddy_mem_free s p = Some s" for s
    by (auto simp: bd_blocks_def buddy_mem_free_def Let_def split: if_splits)
  show ?thesis
  proof (cases "bd_blocks s p")
    case (Some n)
    then obtain i q m where l: "(i, q, m) \<in> live (maxOrder s) 0 t" "q < 2 ^ maxOrder s" "p = minAddress s + of_nat q"
      using bd_blocks_live [OF rep] by blast
    obtain s' fs' where f: "buddy_mem_free s p = Some s'" "bd_rep s' fs' (merge_up i (mark i t))" "same_heap s s'"
        "blk (maxOrder s) 0 (merge_up i (mark i t)) = (blk (maxOrder s) 0 t)(q := None)"
      using bd_free [OF rep l(1)] l(3) by blast
    have "bd_blocks s' = (bd_blocks s)(p := None)" using bd_blocks_update [OF rep f(2,3) l(2) f(4)] l(3) by simp
    moreover have "coalesced t \<longrightarrow> coalesced (merge_up i (mark i t))"
      using coalesced_release [of t i] rep live_node [OF bd_rep_tree [OF rep] l(1)] by (auto simp: bd_rep_def holds_def)
    ultimately have "\<exists>s' fs' t'. buddy_mem_free s p = Some s' \<and> bd_rep s' fs' t' \<and> bd_blocks s' = (bd_blocks s)(p := None) \<and>
        (coalesced t \<longrightarrow> coalesced t') \<and> buddy_mem_free s' p = Some s'"
      using f idle [of s'] by (intro exI [of _ s'] exI [of _ fs'] exI [of _ "merge_up i (mark i t)"]) simp
    then show ?thesis using Some by simp
  qed (simp add: idle)
qed

theorem buddy_free_correct_witness:
  "\<exists>s' p s''. buddy_mem_alloc boot_buddy 100 = Some (s', p) \<and> buddy_mem_free s' p = Some s'' \<and> bd_blocks s'' p = None \<and> buddy_mem_free s'' p = Some s''"
proof -
  obtain s' p where a: "buddy_mem_alloc boot_buddy 100 = Some (s', p)" "bd_inv s'" "bd_blocks s' p = Some 128"
    using boot_alloc by blast
  then obtain fs t where "bd_rep s' fs t" by (auto simp: bd_inv_def)
  from buddy_free_correct [OF this, of p] a(3) obtain s'' where "buddy_mem_free s' p = Some s''" "bd_blocks s'' = (bd_blocks s')(p := None)"
    "buddy_mem_free s'' p = Some s''" by auto
  with a(1) show ?thesis by auto
qed

lemma order_loop_big: "2 ^ cap < unat n \<Longrightarrow> k \<le> cap \<Longrightarrow> cap < 64 \<Longrightarrow> order_loop n cap k = cap"
proof (induction n cap k rule: order_loop.induct)
  case (1 n cap k)
  have "(2 :: nat) ^ k \<le> 2 ^ cap" using "1.prems"(2) by (intro power_increasing) auto
  then have "2 ^ k < unat n" using "1.prems"(1) by linarith
  then have "push_bit k 1 < n" using "1.prems" unat_pow2 [of k] by (simp add: word_less_nat_alt)
  then show ?case using "1.IH" "1.prems" by (subst order_loop.simps) auto
qed

text \<open>C39. On a heap that is wholly free a request larger than the heap is not refused: \<^verbatim>\<open>getOrder\<close> stops at
  the order of the heap, and the whole heap is handed out as a block shorter than the request.\<close>
theorem buddy_oversized_request_served:
  assumes rep: "bd_rep s fs (BLeaf i True)" and big: "2 ^ maxOrder s < unat n"
  shows "\<exists>s'. buddy_mem_alloc s n = Some (s', minAddress s) \<and> bd_blocks s' (minAddress s) = Some (2 ^ maxOrder s) \<and>
    2 ^ maxOrder s < unat n"
proof -
  have "MIN_ORDER \<le> maxOrder s" "maxOrder s < 64" using tree_at_order [OF bd_rep_tree [OF rep]] rep by (simp_all add: bd_rep_def)
  then have r: "getOrder n s = maxOrder s" using order_loop_big [OF big] by (simp add: getOrder_def)
  have "n \<noteq> 0" using big by auto
  with rep show ?thesis
  proof (cases rule: bd_alloc_cases)
    case (null s' fs' t')
    then show ?thesis using r by simp
  next
    case (block s' fs' t' q)
    have "blk (maxOrder s) 0 t' q = Some (maxOrder s)" using block(6) r by simp
    moreover have "maxOrder s' = maxOrder s" using block(3) by (simp add: same_heap_def)
    ultimately have "q = 0" using blk_dom [OF bd_rep_tree [OF block(2)], of q "maxOrder s"] by simp
    then show ?thesis using block(1) bd_blocks_new(2) [OF rep block(2-6)] big r by auto
  qed
qed

theorem buddy_oversized_request_served_witness:
  "\<exists>s'. buddy_mem_alloc boot_buddy 0x20000000 = Some (s', 0x1000000) \<and> bd_blocks s' 0x1000000 = Some 0x10000000"
  using buddy_oversized_request_served [OF boot_buddy_rep(1), of "0x20000000"] by (simp add: boot_buddy_rep)

text \<open>The status call returns, and its numbers account for the heap: the occupied field is the sum of the
  sizes of the live blocks and the free field is the rest of the largest power of two that the heap
  holds; the free blocks are counted as fragments.\<close>
theorem buddy_status_accounts:
  assumes rep: "bd_rep s fs t"
  shows "\<exists>info. buddy_mem_status s = Some info \<and> mi_total info = totalSize s \<and>
    unat (mi_occupied info) = (\<Sum>p \<in> dom (bd_blocks s). the (bd_blocks s p)) \<and>
    unat (mi_occupied info) + unat (mi_free info) = 2 ^ maxOrder s \<and> mi_fragments info = of_nat (frags t)"
proof -
  let ?k = "maxOrder s" and ?f = "\<lambda>p. unat (p - minAddress s)"
  note tr = bd_rep_tree [OF rep]
  have k: "?k < 64" and h: "holds s fs (-1) ?k 0 t" and root: "root_of t = rootIndex s" using rep by (simp_all add: bd_rep_def)
  have "(2 :: nat) ^ ?k < 2 ^ 64" using k by (rule power_strict_increasing) simp
  then have lt: "used ?k t < 2 ^ 64" "2 ^ ?k - used ?k t < 2 ^ 64" using used_le [OF tr] by linarith+
  have cnt: "countLeafNodes (rootIndex s) s c = Some
    \<lparr>lc_allocated = lc_allocated c + of_nat (pieces t), lc_allocatedMemory = lc_allocatedMemory c + of_nat (used ?k t),
     lc_free = lc_free c + of_nat (frags t), lc_freeMemory = lc_freeMemory c + of_nat (2 ^ ?k - used ?k t)\<rparr>" for c
    using count_tree [of t s "-1" ?k 0 c] tr k root holds_index [OF h] by simp
  have "inj_on ?f (dom (bd_blocks s))" by (rule inj_onI) (metis diff_add_cancel word_unat_eq_iff)
  moreover have "?f ` dom (bd_blocks s) = dom (blk ?k 0 t)"
  proof
    show "?f ` dom (bd_blocks s) \<subseteq> dom (blk ?k 0 t)" using bd_blocks_blk [OF rep] by auto
    show "dom (blk ?k 0 t) \<subseteq> ?f ` dom (bd_blocks s)"
    proof
      fix q assume "q \<in> dom (blk ?k 0 t)"
      then obtain m where m: "blk ?k 0 t q = Some m" by blast
      then have "q < 2 ^ ?k" using blk_dom [OF tr m] zero_less_power [of "2 :: nat" m] by linarith
      note ad = bd_address(2,3) [OF rep this]
      have "bd_blocks s (minAddress s + of_nat q) = Some (2 ^ m)" using bd_blocks_blk [OF rep, of "minAddress s + of_nat q"] ad m by simp
      then show "q \<in> ?f ` dom (bd_blocks s)" using ad by (intro image_eqI [of _ _ "minAddress s + of_nat q"]) auto
    qed
  qed
  ultimately have "(\<Sum>q \<in> dom (blk ?k 0 t). 2 ^ the (blk ?k 0 t q)) = (\<Sum>p \<in> dom (bd_blocks s). 2 ^ the (blk ?k 0 t (?f p)) :: nat)"
    using sum.reindex [of ?f "dom (bd_blocks s)" "\<lambda>q. 2 ^ the (blk ?k 0 t q) :: nat"] by simp
  also have "\<dots> = (\<Sum>p \<in> dom (bd_blocks s). the (bd_blocks s p))"
    by (rule sum.cong) (use bd_blocks_blk [OF rep] in auto)
  finally have "used ?k t = (\<Sum>p \<in> dom (bd_blocks s). the (bd_blocks s p))" using used_blk [OF tr] by simp
  then show ?thesis
    using unat_of_nat_u64 [OF lt(1)] unat_of_nat_u64 [OF lt(2)] used_le [OF tr]
    by (simp add: buddy_mem_status_def cnt del: of_nat_diff)
qed

theorem buddy_status_accounts_witness:
  "\<exists>info. buddy_mem_status boot_buddy = Some info \<and> unat (mi_occupied info) + unat (mi_free info) = 2 ^ 28 \<and> mi_fragments info = 1"
  using buddy_status_accounts [OF boot_buddy_rep(1)] by (auto simp: boot_buddy_rep(2))

end
