(* ===== verification/KPipeFlow.thy ===== *)
theory KPipeFlow
  imports KPipe
begin

text \<open>
  What flows through a pipe.  Any number of processes read from and write to one pipe, each at its
  own place in the read or write routine; the running one takes the next step, and a tick may come
  at any time.  The bytes accepted into the buffer and the bytes handed to readers are recorded.
\<close>

section \<open>The kernel between two calls\<close>

definition kernel_ok :: "('m \<Rightarrow> bool) \<Rightarrow> ('m \<Rightarrow> u64 \<rightharpoonup> nat) \<Rightarrow> ('m \<Rightarrow> nat) \<Rightarrow> 'm kst \<Rightarrow> bool" where
  "kernel_ok minv mblocks mlimit s \<longleftrightarrow> sched_inv s \<and> kmem_ok minv mblocks mlimit s \<and> locks_free s \<and> schedulerEnabled s"

text \<open>Two states with the same pipes and the same semaphores alive.\<close>
definition same_ipc :: "'m kst \<Rightarrow> 'm kst \<Rightarrow> bool" where
  "same_ipc s s' \<longleftrightarrow> pipes s' = pipes s \<and> files s' = files s \<and> dom (sems s') = dom (sems s)"

lemma same_ipc_refl [simp]: "same_ipc s s" by (simp add: same_ipc_def)

lemma same_ipc_trans: "same_ipc s t \<Longrightarrow> same_ipc t u \<Longrightarrow> same_ipc s u" by (simp add: same_ipc_def)

text \<open>A pipe whose buffer and semaphores are in place, with its buffer.\<close>
definition pipe_live :: "u64 \<Rightarrow> 'm kst \<Rightarrow> pipeCDT \<Rightarrow> circularBuffer \<Rightarrow> bool" where
  "pipe_live p s pp c \<longleftrightarrow> p \<noteq> 0 \<and> pipes s p = Some pp \<and> pp_buffer pp = Some c \<and> cb_inv c \<and> maxSize c = PIPE_BUF_SIZE \<and>
     (\<forall>a \<in> {pp_dataAvailable pp, pp_freeSpaces pp, pp_readMutex pp, pp_writeMutex pp}. a \<noteq> 0 \<and> a \<in> dom (sems s))"

lemma pipe_live_same: "pipe_live p s pp c \<Longrightarrow> same_ipc s s' \<Longrightarrow> pipe_live p s' pp c"
  by (simp add: pipe_live_def same_ipc_def)

lemma bufferWrite_blocks: "bufferWrite (Some c) b = (Some c', r) \<Longrightarrow> cb_self c' = cb_self c \<and> cb_data_ptr c' = cb_data_ptr c"
  by (auto simp: bufferWrite_def Let_def split: if_splits)

lemma bufferRead_blocks: "bufferRead (Some c) = (Some c', r) \<Longrightarrow> cb_self c' = cb_self c \<and> cb_data_ptr c' = cb_data_ptr c"
  by (auto simp: bufferRead_def Let_def split: if_splits)

definition set_buffer :: "u64 \<Rightarrow> circularBuffer \<Rightarrow> 'm kst \<Rightarrow> 'm kst" where
  "set_buffer p c s = (case pipes s p of None \<Rightarrow> s | Some pp \<Rightarrow> s\<lparr>pipes := (pipes s)(p \<mapsto> pp\<lparr>pp_buffer := Some c\<rparr>)\<rparr>)"

lemma set_buffer_on_pipe:
  "pipes s p = Some pp \<Longrightarrow> on_pipe p (\<lambda>pp. pp\<lparr>pp_buffer := Some c\<rparr>) s = Some (set_buffer p c s)"
  by (simp add: on_pipe_def set_buffer_def)

lemma kernel_ok_set_buffer:
  assumes ok: "kernel_ok minv mblocks mlimit s" and live: "pipe_live p s pp c"
    and c': "cb_self c' = cb_self c" "cb_data_ptr c' = cb_data_ptr c" "cb_inv c'" "maxSize c' = maxSize c"
  shows "kernel_ok minv mblocks mlimit (set_buffer p c' s)" "pipe_live p (set_buffer p c' s) (pp\<lparr>pp_buffer := Some c'\<rparr>) c'"
    "sems (set_buffer p c' s) = sems s" "currentProcess (set_buffer p c' s) = currentProcess s"
    "current_is (set_buffer p c' s) = current_is s"
proof -
  let ?s = "set_buffer p c' s"
  have s': "?s = s\<lparr>pipes := (pipes s)(p \<mapsto> pp\<lparr>pp_buffer := Some c'\<rparr>)\<rparr>"
    using live by (simp add: set_buffer_def pipe_live_def)
  have "owned ?s = owned s"
  proof
    fix x show "owned ?s x = owned s x"
      using live c' by (cases x) (auto simp: s' heap_blocks_def pipe_blocks_def pipe_live_def)
  qed
  moreover have "sched_inv ?s" by (rule sched_inv_sems [of s]) (use ok in \<open>simp_all add: s' kernel_ok_def\<close>)
  ultimately show "kernel_ok minv mblocks mlimit ?s"
    using ok kmem_ok_same [of minv mblocks mlimit s ?s] by (simp add: kernel_ok_def locks_free_def) (simp add: s')
  show "pipe_live p ?s (pp\<lparr>pp_buffer := Some c'\<rparr>) c'" using live c' by (simp add: pipe_live_def s')
  show "sems ?s = sems s" "currentProcess ?s = currentProcess s" by (simp_all add: s')
  show "current_is ?s = current_is s" by (simp add: s' current_is_def fun_eq_iff)
qed

context allocator
begin

abbreviation "kok \<equiv> kernel_ok inv blocks limit"

lemma post_kernel:
  assumes ok: "kok s" and a: "a \<noteq> 0" "a \<in> dom (sems s)"
  obtains s' where "semPost ops a s = Some (s', 0)" "kok s'" "same_ipc s s'" "currentProcess s' = currentProcess s"
proof -
  obtain c where c: "sems s a = Some c" using a by auto
  obtain v' w' wk where pq: "post_queue (\<lambda>p. pstate s p = Some BLOCKED) (sem_value c + 1) (waiters c) = (v', w', wk)"
    by (metis prod_cases3)
  have "\<not> sem_lock c" using ok c by (auto simp: kernel_ok_def locks_free_def)
  from semPost_spec [OF _ _ c a(1) this pq] ok obtain s' q where
    s': "semPost ops a s = Some (s', 0)" "sems s' = (sems s)(a \<mapsto> c\<lparr>sem_value := v', sem_blockedQueue := q, sem_lock := False\<rparr>)"
      "woke s s' wk" "sched_inv s'" "kmem_ok inv blocks limit s'"
    unfolding kernel_ok_def by metis
  show thesis
  proof (rule that [OF s'(1)])
    show "kok s'" using s' ok by (auto simp: kernel_ok_def locks_free_def woke_def sched_frame_def split: if_splits)
    show "same_ipc s s'" using s' c by (auto simp: same_ipc_def woke_def sched_frame_def)
    show "currentProcess s' = currentProcess s" using s' by (simp add: woke_def)
  qed
qed

lemma wait_kernel:
  assumes ok: "kok s" and a: "a \<noteq> 0" "a \<in> dom (sems s)"
    and cur: "current_is s pid pr" "p_state pr = RUNNING" "pid \<noteq> 0"
  obtains s' r b where "semWait ops rsp a s = Some (s', r, b)" "kok s'" "same_ipc s s'"
proof -
  obtain c where c: "sems s a = Some c" using a by auto
  have lk: "\<not> sem_lock c" using ok c by (auto simp: kernel_ok_def locks_free_def)
  have k: "sched_inv s" "kmem_ok inv blocks limit s" "schedulerEnabled s" "locks_free s" using ok by (simp_all add: kernel_ok_def)
  show thesis
  proof (cases "sem_value c > 0")
    case True
    let ?c = "c\<lparr>sem_value := sem_value c - 1, sem_lock := False\<rparr>"
    have "kmem_ok inv blocks limit (sem_set a ?c s)" by (rule kmem_sem_set [OF k(2) c]) simp
    with k have "kok (sem_set a ?c s)" by (auto simp: kernel_ok_def locks_free_def split: if_splits)
    then show thesis using semWait_take [OF c a(1) lk True, of rsp] c
      by (intro that [of "sem_set a ?c s" 0 False]) (auto simp: same_ipc_def)
  next
    case False
    then have "sem_value c \<le> 0" by simp
    from semWait_block [OF k(1-3) c a(1) lk this cur, of rsp] obtain s' q where
      s': "semWait ops rsp a s = Some (s', 0, True)"
        "sems s' = (sems s)(a \<mapsto> c\<lparr>sem_value := sem_value c - 1, sem_blockedQueue := q, sem_lock := False\<rparr>)"
        "sched_frame s s'" "sched_inv s'" "kmem_ok inv blocks limit s'" by metis
    show thesis
      by (rule that [OF s'(1)])
        (use s' c k in \<open>auto simp: kernel_ok_def locks_free_def same_ipc_def sched_frame_def split: if_splits\<close>)
  qed
qed

lemma tick_kernel:
  assumes "kok s" "schedule ops rsp s = Some (s', r)"
  shows "kok s'" "same_ipc s s'"
proof -
  have "sched_inv s" "kmem_ok inv blocks limit s" using assms(1) by (simp_all add: kernel_ok_def)
  from schedule_safe [OF this, of rsp] assms(2) have "sched_inv s'" "kmem_ok inv blocks limit s'" "sched_frame s s'" "sems s' = sems s"
    by (metis option.inject prod.inject)+
  with assms(1) show "kok s'" "same_ipc s s'"
    by (auto simp: kernel_ok_def locks_free_def same_ipc_def sched_frame_def)
qed

text \<open>Draining hands out the oldest bytes.\<close>
lemma drain_kernel:
  assumes "kok s" "pipe_live p s pp c"
  obtains s' c' where "drainBuffer ops p n s = Some (s', take n (cb_list c))" "kok s'"
    "pipe_live p s' (pp\<lparr>pp_buffer := Some c'\<rparr>) c'" "cb_list c' = drop n (cb_list c)"
  using assms
proof (induction n arbitrary: s pp c thesis)
  case 0
  then show ?case by (auto simp: pipe_live_def intro!: "0.prems"(1) [of s c])
next
  case (Suc n)
  have pp: "pipes s p = Some pp" "pp_buffer pp = Some c" "cb_inv c" "maxSize c = PIPE_BUF_SIZE" "pp_freeSpaces pp \<noteq> 0"
      "pp_freeSpaces pp \<in> dom (sems s)"
    using Suc.prems(3) by (auto simp: pipe_live_def)
  show ?case
  proof (cases "cb_list c")
    case Nil
    then show ?thesis using Suc.prems pp bufferHasData_iff [of c]
      by (intro Suc.prems(1) [of s c]) (simp_all add: pipe_live_def)
  next
    case (Cons x xs)
    then have "cb_count c \<noteq> 0" by (auto simp: cb_list_def)
    from bufferRead_data [OF pp(3) this] Cons obtain c1 where
      c1: "bufferRead (Some c) = (Some c1, x)" "cb_inv c1" "maxSize c1 = maxSize c" "cb_list c1 = xs" by auto
    note kb = kernel_ok_set_buffer [OF Suc.prems(2,3) bufferRead_blocks [OF c1(1), THEN conjunct1]
        bufferRead_blocks [OF c1(1), THEN conjunct2] c1(2,3)]
    let ?pp = "pp\<lparr>pp_buffer := Some c1\<rparr>"
    have "pp_freeSpaces pp \<in> dom (sems (set_buffer p c1 s))" using pp(6) kb(3) by simp
    from post_kernel [OF kb(1) pp(5) this] obtain s2 where s2: "semPost ops (pp_freeSpaces pp) (set_buffer p c1 s) = Some (s2, 0)"
        "kok s2" "same_ipc (set_buffer p c1 s) s2" by metis
    have "pipe_live p s2 ?pp c1" using pipe_live_same [OF kb(2) s2(3)] .
    from Suc.IH [OF _ s2(2) this] obtain s' c' where s': "drainBuffer ops p n s2 = Some (s', take n xs)" "kok s'"
        "pipe_live p s' (?pp\<lparr>pp_buffer := Some c'\<rparr>) c'" "cb_list c' = drop n xs" using c1(4) by metis
    have "drainBuffer ops p (Suc n) s = Some (s', x # take n xs)"
      using pp Cons c1 s2(1) s'(1) bufferHasData_iff [of c] by (simp add: set_buffer_on_pipe)
    with s' Cons show ?thesis by (intro Suc.prems(1) [of s' c']) simp_all
  qed
qed

end

section \<open>Readers and writers\<close>

datatype thread = Reading u64 rd_pc | Writing "u8 list" bool wr_pc

record 'm flow =
  fl_kernel :: "'m kst"
  fl_threads :: "int \<rightharpoonup> thread"
  fl_sent :: "u8 list"
  fl_received :: "u8 list"

fun delivered_by :: "rd_pc \<Rightarrow> u8 list" where
  "delivered_by (RRet n bs) = bs"
| "delivered_by pc = []"

fun accepted_by :: "u8 list \<Rightarrow> wr_pc \<Rightarrow> wr_pc \<Rightarrow> u8 list" where
  "accepted_by buf (WPut n) (WLoop m) = (if m = n + 1 then [buf ! n] else [])"
| "accepted_by buf pc pc' = []"

fun finished :: "thread \<Rightarrow> bool" where
  "finished (Reading cnt (RRet n bs)) = True"
| "finished (Writing buf nb (WRet r)) = True"
| "finished th = False"

text \<open>The running process, which is never idle here.\<close>
definition runs_now :: "int \<Rightarrow> 'm kst \<Rightarrow> bool" where
  "runs_now pid s \<longleftrightarrow> pid \<noteq> 0 \<and> (\<exists>pr. current_is s pid pr \<and> p_state pr = RUNNING)"

inductive flow_step :: "'m mm_ops \<Rightarrow> u64 \<Rightarrow> 'm flow \<Rightarrow> 'm flow \<Rightarrow> bool" for mm p where
  start_read: "\<lbrakk> runs_now pid (fl_kernel f); case fl_threads f pid of None \<Rightarrow> True | Some th \<Rightarrow> finished th;
      pipeRead p cnt nb (fl_kernel f) = Some pc; delivered_by pc = [] \<rbrakk>
    \<Longrightarrow> flow_step mm p f (f\<lparr>fl_threads := (fl_threads f)(pid \<mapsto> Reading cnt pc)\<rparr>)"
| start_write: "\<lbrakk> runs_now pid (fl_kernel f); case fl_threads f pid of None \<Rightarrow> True | Some th \<Rightarrow> finished th \<rbrakk>
    \<Longrightarrow> flow_step mm p f (f\<lparr>fl_threads := (fl_threads f)(pid \<mapsto> Writing buf nb (pipeWrite p))\<rparr>)"
| step_read: "\<lbrakk> runs_now pid (fl_kernel f); fl_threads f pid = Some (Reading cnt pc); \<not> finished (Reading cnt pc);
      pipeRead_step mm rsp p cnt pc (fl_kernel f) = Some (s', pc') \<rbrakk>
    \<Longrightarrow> flow_step mm p f (f\<lparr>fl_kernel := s', fl_threads := (fl_threads f)(pid \<mapsto> Reading cnt pc'),
          fl_received := fl_received f @ delivered_by pc'\<rparr>)"
| step_write: "\<lbrakk> runs_now pid (fl_kernel f); fl_threads f pid = Some (Writing buf nb pc); \<not> finished (Writing buf nb pc);
      pipeWrite_step mm rsp p buf nb pc (fl_kernel f) = Some (s', pc') \<rbrakk>
    \<Longrightarrow> flow_step mm p f (f\<lparr>fl_kernel := s', fl_threads := (fl_threads f)(pid \<mapsto> Writing buf nb pc'),
          fl_sent := fl_sent f @ accepted_by buf pc pc'\<rparr>)"
| tick: "schedule mm rsp (fl_kernel f) = Some (s', r) \<Longrightarrow> flow_step mm p f (f\<lparr>fl_kernel := s'\<rparr>)"

text \<open>Everything accepted is what was received followed by what the buffer still holds.\<close>
definition flow_inv :: "('m \<Rightarrow> bool) \<Rightarrow> ('m \<Rightarrow> u64 \<rightharpoonup> nat) \<Rightarrow> ('m \<Rightarrow> nat) \<Rightarrow> u64 \<Rightarrow> 'm flow \<Rightarrow> bool" where
  "flow_inv minv mblocks mlimit p f \<longleftrightarrow> kernel_ok minv mblocks mlimit (fl_kernel f) \<and>
     (\<exists>pp c. pipe_live p (fl_kernel f) pp c \<and> fl_sent f = fl_received f @ cb_list c)"

context allocator
begin

lemma wait_then_kernel:
  assumes "kok s" "runs_now pid s" "a \<noteq> 0" "a \<in> dom (sems s)"
  obtains s' where "wait_then ops rsp a pc s = Some (s', pc)" "kok s'" "same_ipc s s'"
proof -
  obtain pr where cur: "current_is s pid pr" "p_state pr = RUNNING" "pid \<noteq> 0" using assms(2) by (auto simp: runs_now_def)
  from wait_kernel [OF assms(1,3,4) cur, of rsp] obtain s' r b where "semWait ops rsp a s = Some (s', r, b)" "kok s'" "same_ipc s s'" .
  then show thesis by (intro that [of s']) (simp_all add: wait_then_def)
qed

lemma live_sems:
  assumes "pipe_live p s pp c"
  shows "pp_dataAvailable pp \<noteq> 0 \<and> pp_dataAvailable pp \<in> dom (sems s)" "pp_freeSpaces pp \<noteq> 0 \<and> pp_freeSpaces pp \<in> dom (sems s)"
    "pp_readMutex pp \<noteq> 0 \<and> pp_readMutex pp \<in> dom (sems s)" "pp_writeMutex pp \<noteq> 0 \<and> pp_writeMutex pp \<in> dom (sems s)"
    "pipes s p = Some pp" "pp_buffer pp = Some c" "cb_inv c" "maxSize c = PIPE_BUF_SIZE"
  using assms by (simp_all add: pipe_live_def)

text \<open>A wait, or a post, of one of the pipe's semaphores keeps the pipe as it is.\<close>
lemma wait_live:
  assumes "kok s" "pipe_live p s pp c" "runs_now pid s" "a \<noteq> 0 \<and> a \<in> dom (sems s)"
  shows "\<exists>s'. wait_then ops rsp a pc s = Some (s', pc) \<and> kok s' \<and> pipe_live p s' pp c"
proof -
  have "a \<noteq> 0" "a \<in> dom (sems s)" using assms(4) by auto
  from wait_then_kernel [OF assms(1,3) this, of rsp pc] obtain s' where "wait_then ops rsp a pc s = Some (s', pc)" "kok s'" "same_ipc s s'" .
  then show ?thesis using pipe_live_same [OF assms(2)] by blast
qed

lemma post_live:
  assumes "kok s" "pipe_live p s pp c" "a \<noteq> 0 \<and> a \<in> dom (sems s)"
  shows "\<exists>s'. semPost ops a s = Some (s', 0) \<and> kok s' \<and> pipe_live p s' pp c"
proof -
  have "a \<noteq> 0" "a \<in> dom (sems s)" using assms(3) by auto
  from post_kernel [OF assms(1) this] obtain s' where "semPost ops a s = Some (s', 0)" "kok s'" "same_ipc s s'" by metis
  then show ?thesis using pipe_live_same [OF assms(2)] by blast
qed

text \<open>The bodies of the reads: they return, and hand out the oldest bytes or none.\<close>
lemma blocking_body:
  assumes ok: "kok s" and live: "pipe_live p s pp c"
  shows "\<exists>s' pc' pp' c'. pipeReadBlocking_body ops p cnt s = Some (s', pc') \<and> kok s' \<and> pipe_live p s' pp' c' \<and>
    cb_list c = delivered_by pc' @ cb_list c'"
proof (cases "cb_list c")
  case Nil
  from post_live [OF ok live live_sems(3) [OF live]] obtain s' where
    "semPost ops (pp_readMutex pp) s = Some (s', 0)" "kok s'" "pipe_live p s' pp c" by blast
  with Nil show ?thesis using live_sems(5,6) [OF live] bufferHasData_iff [of c]
    by (auto simp: pipeReadBlocking_body_def intro!: exI [of _ s'] exI [of _ pp] exI [of _ c])
next
  case (Cons x xs)
  from drain_kernel [OF ok live, of "unat cnt"] obtain s1 c1 where
    s1: "drainBuffer ops p (unat cnt) s = Some (s1, take (unat cnt) (cb_list c))" "kok s1"
      "pipe_live p s1 (pp\<lparr>pp_buffer := Some c1\<rparr>) c1" "cb_list c1 = drop (unat cnt) (cb_list c)" .
  let ?pp = "pp\<lparr>pp_buffer := Some c1\<rparr>"
  have more: "pipeHasData p s1 = Some (cb_list c1 \<noteq> [])"
    using s1(3) bufferHasData_iff [of c1] by (simp add: pipeHasData_def pipe_live_def)
  obtain s2 where s2: "(if cb_list c1 \<noteq> [] then semPost ops (pp_dataAvailable pp) s1 else Some (s1, 0)) = Some (s2, 0)"
      "kok s2" "pipe_live p s2 ?pp c1"
    using post_live [OF s1(2,3), of "pp_dataAvailable pp"] live_sems(1) [OF s1(3)] s1(2,3) by (cases "cb_list c1 = []") auto
  from post_live [OF s2(2,3), of "pp_readMutex pp"] live_sems(3) [OF s2(3)] obtain s3 where
    s3: "semPost ops (pp_readMutex pp) s2 = Some (s3, 0)" "kok s3" "pipe_live p s3 ?pp c1" by auto
  have "pipeReadBlocking_body ops p cnt s = Some (s3, RRet (int (length (take (unat cnt) (cb_list c)))) (take (unat cnt) (cb_list c)))"
    using live_sems(5,6) [OF live] bufferHasData_iff [of c] Cons s1(1) more s2(1) s3(1)
    by (simp add: pipeReadBlocking_body_def)
  moreover have "cb_list c = take (unat cnt) (cb_list c) @ cb_list c1" using s1(4) by simp
  ultimately show ?thesis using s3(2,3) delivered_by.simps(1) by metis
qed

lemma nonblocking_body:
  assumes ok: "kok s" and live: "pipe_live p s pp c"
  shows "\<exists>s' pc' pp' c'. pipeReadNonblocking_body ops p cnt s = Some (s', pc') \<and> kok s' \<and> pipe_live p s' pp' c' \<and>
    cb_list c = delivered_by pc' @ cb_list c'"
proof (cases "cb_list c")
  case Nil
  from post_live [OF ok live live_sems(3) [OF live]] obtain s' where
    "semPost ops (pp_readMutex pp) s = Some (s', 0)" "kok s'" "pipe_live p s' pp c" by blast
  with Nil show ?thesis using live_sems(5,6) [OF live] bufferHasData_iff [of c]
    by (auto simp: pipeReadNonblocking_body_def intro!: exI [of _ s'] exI [of _ pp] exI [of _ c])
next
  case (Cons x xs)
  from drain_kernel [OF ok live, of "unat cnt"] obtain s1 c1 where
    s1: "drainBuffer ops p (unat cnt) s = Some (s1, take (unat cnt) (cb_list c))" "kok s1"
      "pipe_live p s1 (pp\<lparr>pp_buffer := Some c1\<rparr>) c1" "cb_list c1 = drop (unat cnt) (cb_list c)" .
  let ?pp = "pp\<lparr>pp_buffer := Some c1\<rparr>"
  from post_live [OF s1(2,3), of "pp_readMutex pp"] live_sems(3) [OF s1(3)] obtain s3 where
    s3: "semPost ops (pp_readMutex pp) s1 = Some (s3, 0)" "kok s3" "pipe_live p s3 ?pp c1" by auto
  have "pipeReadNonblocking_body ops p cnt s = Some (s3, RRet (int (length (take (unat cnt) (cb_list c)))) (take (unat cnt) (cb_list c)))"
    using live_sems(5,6) [OF live] bufferHasData_iff [of c] Cons s1(1) s3(1) by (simp add: pipeReadNonblocking_body_def)
  moreover have "cb_list c = take (unat cnt) (cb_list c) @ cb_list c1" using s1(4) by simp
  ultimately show ?thesis using s3(2,3) delivered_by.simps(1) by metis
qed

lemma read_step:
  assumes ok: "kok s" and live: "pipe_live p s pp c" and run: "runs_now pid s" and nf: "\<not> finished (Reading cnt pc)"
  shows "\<exists>s' pc' pp' c'. pipeRead_step ops rsp p cnt pc s = Some (s', pc') \<and> kok s' \<and> pipe_live p s' pp' c' \<and>
    cb_list c = delivered_by pc' @ cb_list c'"
proof -
  note wait = wait_live [OF ok live run]
  show ?thesis
  proof (cases pc)
    case RWaitData
    then show ?thesis using wait [OF live_sems(1) [OF live], of rsp RWaitMutex] live_sems(5) [OF live] by fastforce
  next
    case RWaitMutex
    then show ?thesis using wait [OF live_sems(3) [OF live], of rsp RBody] live_sems(5) [OF live] by fastforce
  next
    case NWaitMutex
    then show ?thesis using wait [OF live_sems(3) [OF live], of rsp NBody] live_sems(5) [OF live] by fastforce
  qed (use nf blocking_body [OF ok live] nonblocking_body [OF ok live] in auto)
qed

text \<open>One step of a writer: it returns, and appends the byte it counts as stored.\<close>
lemma write_step:
  assumes ok: "kok s" and live: "pipe_live p s pp c" and run: "runs_now pid s" and nf: "\<not> finished (Writing buf nb pc)"
  shows "\<exists>s' pc' pp' c'. pipeWrite_step ops rsp p buf nb pc s = Some (s', pc') \<and> kok s' \<and> pipe_live p s' pp' c' \<and>
    cb_list c' = cb_list c @ accepted_by buf pc pc'"
proof (cases pc)
  case WWaitMutex
  then show ?thesis using wait_live [OF ok live run live_sems(4) [OF live], of rsp "WLoop 0"] live_sems(5) [OF live] by fastforce
next
  case (WLoop n)
  note wait = wait_live [OF ok live run live_sems(2) [OF live], of rsp "WPut n"]
  from post_live [OF ok live live_sems(4) [OF live]] obtain s1 where
    s1: "semPost ops (pp_writeMutex pp) s = Some (s1, 0)" "kok s1" "pipe_live p s1 pp c" by blast
  show ?thesis
  proof (cases "n < length buf \<and> \<not> (nb \<and> bufferIsFull (Some c))")
    case True
    with WLoop wait show ?thesis using live_sems(5,6) [OF live] by fastforce
  next
    case False
    with WLoop s1 show ?thesis using live_sems(5,6) [OF live] by fastforce
  qed
next
  case (WPut n)
  note L = live_sems [OF live]
  show ?thesis
  proof (cases "cb_count c = maxSize c")
    case True
    then have "bufferWrite (Some c) (buf ! n) = (Some c, 0)" by (rule bufferWrite_full)
    moreover from kernel_ok_set_buffer [OF ok live _ _ L(7)] have "kok (set_buffer p c s)" "pipe_live p (set_buffer p c s) (pp\<lparr>pp_buffer := Some c\<rparr>) c"
      by simp_all
    ultimately show ?thesis using WPut L(5,6) by (fastforce simp: set_buffer_on_pipe)
  next
    case False
    from bufferWrite_room [OF L(7) this] obtain c1 where
      c1: "bufferWrite (Some c) (buf ! n) = (Some c1, 1)" "cb_inv c1" "maxSize c1 = maxSize c" "cb_list c1 = cb_list c @ [buf ! n]" by blast
    note kb = kernel_ok_set_buffer [OF ok live bufferWrite_blocks [OF c1(1), THEN conjunct1]
        bufferWrite_blocks [OF c1(1), THEN conjunct2] c1(2,3)]
    obtain s2 where s2: "(if \<not> bufferHasData (Some c) then semPost ops (pp_dataAvailable pp) (set_buffer p c1 s) else Some (set_buffer p c1 s, 0)) = Some (s2, 0)"
        "kok s2" "pipe_live p s2 (pp\<lparr>pp_buffer := Some c1\<rparr>) c1"
      using post_live [OF kb(1,2), of "pp_dataAvailable pp"] live_sems(1) [OF kb(2)] kb(1,2) by (cases "bufferHasData (Some c)") auto
    have "pipeWrite_step ops rsp p buf nb pc s = Some (s2, WLoop (n + 1))"
      using WPut L(5,6) c1(1) s2(1) by (simp add: set_buffer_on_pipe Let_def)
    with s2 c1(4) WPut show ?thesis by fastforce
  qed
qed (use nf in auto)

lemma flow_inv_step:
  assumes "flow_step ops p f g" and "flow_inv inv blocks limit p f"
  shows "flow_inv inv blocks limit p g"
  using assms
proof (induction rule: flow_step.induct)
  case (step_read pid f cnt pc rsp s' pc')
  then obtain pp c where I: "kok (fl_kernel f)" "pipe_live p (fl_kernel f) pp c" "fl_sent f = fl_received f @ cb_list c"
    by (auto simp: flow_inv_def)
  from read_step [OF I(1,2) step_read(1,3), of rsp] step_read(4) obtain pp' c' where
    "kok s'" "pipe_live p s' pp' c'" "cb_list c = delivered_by pc' @ cb_list c'" by auto
  with I(3) show ?case by (auto simp: flow_inv_def)
next
  case (step_write pid f buf nb pc rsp s' pc')
  then obtain pp c where I: "kok (fl_kernel f)" "pipe_live p (fl_kernel f) pp c" "fl_sent f = fl_received f @ cb_list c"
    by (auto simp: flow_inv_def)
  from write_step [OF I(1,2) step_write(1,3), of rsp] step_write(4) obtain pp' c' where
    "kok s'" "pipe_live p s' pp' c'" "cb_list c' = cb_list c @ accepted_by buf pc pc'" by auto
  with I(3) show ?case by (fastforce simp: flow_inv_def)
next
  case (tick rsp f s' r)
  then show ?case using tick_kernel pipe_live_same by (fastforce simp: flow_inv_def)
qed (auto simp: flow_inv_def)

lemma flow_returns:
  assumes "flow_inv inv blocks limit p f" "runs_now pid (fl_kernel f)"
  shows "\<not> finished (Reading cnt rpc) \<Longrightarrow> pipeRead_step ops rsp p cnt rpc (fl_kernel f) \<noteq> None"
    and "\<not> finished (Writing buf nb wpc) \<Longrightarrow> pipeWrite_step ops rsp p buf nb wpc (fl_kernel f) \<noteq> None"
proof -
  obtain pp c where I: "kok (fl_kernel f)" "pipe_live p (fl_kernel f) pp c" using assms(1) by (auto simp: flow_inv_def)
  show "\<not> finished (Reading cnt rpc) \<Longrightarrow> pipeRead_step ops rsp p cnt rpc (fl_kernel f) \<noteq> None"
    using read_step [OF I assms(2), of cnt rpc rsp] by auto
  show "\<not> finished (Writing buf nb wpc) \<Longrightarrow> pipeWrite_step ops rsp p buf nb wpc (fl_kernel f) \<noteq> None"
    using write_step [OF I assms(2), of buf nb wpc rsp] by auto
qed

lemma flow_inv_reach:
  assumes "(flow_step ops p)\<^sup>*\<^sup>* f g" "flow_inv inv blocks limit p f"
  shows "flow_inv inv blocks limit p g"
  using assms by (induction rule: rtranclp_induct) (auto intro: flow_inv_step)

end

section \<open>A state with a pipe\<close>

definition demo_cb :: circularBuffer where
  "demo_cb = \<lparr>cb_self = demo_ptr 28, cb_data_ptr = demo_ptr 29, cb_data = (\<lambda>_. 0), maxSize = 1024, readIdx = 0, writeIdx = 0, cb_count = 0\<rparr>"

definition demo_pp :: pipeCDT where
  "demo_pp = \<lparr>pp_buffer = Some demo_cb, pp_dataAvailable = demo_ptr 30, pp_freeSpaces = demo_ptr 32, pp_readMutex = demo_ptr 34,
     pp_writeMutex = demo_ptr 36, pp_refCount = 2, pp_writerCount = 1\<rparr>"

definition demo_piped :: "fl_state kst" where
  "demo_piped = demo_kst\<lparr>pipes := [demo_ptr 27 \<mapsto> demo_pp],
     sems := (sems demo_kst)(demo_ptr 30 \<mapsto> demo_sem 30, demo_ptr 32 \<mapsto> (demo_sem 32)\<lparr>sem_value := 1024\<rparr>,
       demo_ptr 34 \<mapsto> (demo_sem 34)\<lparr>sem_value := 1\<rparr>, demo_ptr 36 \<mapsto> (demo_sem 36)\<lparr>sem_value := 1\<rparr>)\<rparr>"

definition piped_label :: "nat \<Rightarrow> owner" where
  "piped_label i = (if i \<in> {27, 28, 29} then OPipe (demo_ptr 27)
     else if i \<in> {30, 31} then OSem (demo_ptr 30) else if i \<in> {32, 33} then OSem (demo_ptr 32)
     else if i \<in> {34, 35} then OSem (demo_ptr 34) else if i \<in> {36, 37} then OSem (demo_ptr 36) else demo_label i)"

lemma demo_piped_owned:
  "owned demo_piped = (owned demo_kst)(OPipe (demo_ptr 27) := map demo_ptr [27, 28, 29], OSem (demo_ptr 30) := map demo_ptr [30, 31],
     OSem (demo_ptr 32) := map demo_ptr [32, 33], OSem (demo_ptr 34) := map demo_ptr [34, 35], OSem (demo_ptr 36) := map demo_ptr [36, 37])"
proof
  fix x
  show "owned demo_piped x = ((owned demo_kst)(OPipe (demo_ptr 27) := map demo_ptr [27, 28, 29], OSem (demo_ptr 30) := map demo_ptr [30, 31],
     OSem (demo_ptr 32) := map demo_ptr [32, 33], OSem (demo_ptr 34) := map demo_ptr [34, 35], OSem (demo_ptr 36) := map demo_ptr [36, 37])) x"
    by (cases x) (auto simp: demo_piped_def demo_defs demo_pp_def demo_cb_def heap_blocks_def pipe_blocks_def sem_blocks_def demo_ptr_inj)
qed

lemma demo_piped_kmem: "fl_kmem_ok demo_piped"
proof -
  have "\<exists>is. owned demo_piped x = map demo_ptr is \<and> distinct is \<and> (\<forall>i \<in> set is. i < 40 \<and> piped_label i = x)" for x
  proof (cases "x \<in> {OPipe (demo_ptr 27), OSem (demo_ptr 30), OSem (demo_ptr 32), OSem (demo_ptr 34), OSem (demo_ptr 36)}")
    case False
    obtain "is" where i: "owned demo_kst x = map demo_ptr is" "distinct is" "\<forall>i \<in> set is. i < 40 \<and> demo_label i = x"
      using demo_owned [of x] by blast
    have "piped_label j = x" if "j \<in> set is" for j
    proof -
      have "j < 27" using demo_owned_small [OF i(1,3) that] .
      then show ?thesis using i(3) that by (simp add: piped_label_def)
    qed
    with i False show ?thesis by (intro exI [of _ "is"]) (simp add: demo_piped_owned)
  next
    case True
    then consider "x = OPipe (demo_ptr 27)" | j where "j \<in> {30, 32, 34, 36}" "x = OSem (demo_ptr j)" by auto
    then show ?thesis
    proof cases
      case 1
      then show ?thesis by (intro exI [of _ "[27, 28, 29]"]) (simp add: demo_piped_owned piped_label_def)
    next
      case 2
      then show ?thesis by (intro exI [of _ "[j, j + 1]"]) (auto simp: demo_piped_owned piped_label_def demo_ptr_inj)
    qed
  qed
  from own_demo [OF this] show ?thesis by (simp add: kmem_ok_def) (simp add: demo_piped_def demo_kst_def)
qed

lemma demo_piped_inv: "kernel_ok fl_inv fl_blocks (\<lambda>_. 2 ^ 64 - 8) demo_piped" "pipe_live (demo_ptr 27) demo_piped demo_pp demo_cb"
  "runs_now 2 demo_piped"
proof -
  have "sched_inv demo_piped" by (rule sched_inv_sems [OF demo_sched]) (simp_all add: demo_piped_def)
  moreover have "locks_free demo_piped" by (auto simp: locks_free_def demo_piped_def demo_defs split: if_splits)
  ultimately show "kernel_ok fl_inv fl_blocks (\<lambda>_. 2 ^ 64 - 8) demo_piped"
    using demo_piped_kmem by (simp add: kernel_ok_def) (simp add: demo_piped_def demo_kst_def)
  show "pipe_live (demo_ptr 27) demo_piped demo_pp demo_cb"
    by (simp add: pipe_live_def demo_piped_def demo_pp_def demo_ptr_nonnull PIPE_BUF_SIZE_def) (simp add: demo_cb_def cb_inv_def)
  have "current_is demo_kst 2 (demo_proc 2 RUNNING)"
    using demo_table [of 2] by (simp add: current_is_def demo_proc_at) (simp add: demo_kst_def demo_ptr_nonnull)
  then show "runs_now 2 demo_piped" by (auto simp: runs_now_def current_is_def demo_piped_def demo_proc_def)
qed

section \<open>Properties\<close>

text \<open>C5. A pipe delivers its bytes in order, once, and without loss: under any interleaving of readers,
  writers and ticks, the bytes accepted by the pipe are the bytes its readers received followed by
  the at most 1024 bytes still in the buffer; and whichever process runs, the next step of its read
  or write returns.\<close>
theorem pipe_fifo:
  assumes "(flow_step fl_ops p)\<^sup>*\<^sup>* f g" and "flow_inv fl_inv fl_blocks (\<lambda>_. 2 ^ 64 - 8) p f"
  shows "(\<exists>pp c. pipes (fl_kernel g) p = Some pp \<and> pp_buffer pp = Some c \<and> fl_sent g = fl_received g @ cb_list c \<and>
      length (cb_list c) \<le> 1024) \<and>
    (\<forall>pid rsp cnt rpc. runs_now pid (fl_kernel g) \<and> \<not> finished (Reading cnt rpc) \<longrightarrow>
      pipeRead_step fl_ops rsp p cnt rpc (fl_kernel g) \<noteq> None) \<and>
    (\<forall>pid rsp buf nb wpc. runs_now pid (fl_kernel g) \<and> \<not> finished (Writing buf nb wpc) \<longrightarrow>
      pipeWrite_step fl_ops rsp p buf nb wpc (fl_kernel g) \<noteq> None)"
proof -
  have inv: "flow_inv fl_inv fl_blocks (\<lambda>_. 2 ^ 64 - 8) p g" by (rule fl.flow_inv_reach [OF assms])
  then obtain pp c where "pipe_live p (fl_kernel g) pp c" "fl_sent g = fl_received g @ cb_list c" by (auto simp: flow_inv_def)
  moreover from this have "length (cb_list c) \<le> 1024" using cb_inv_count_le [of c] by (simp add: pipe_live_def PIPE_BUF_SIZE_def)
  ultimately have "\<exists>pp c. pipes (fl_kernel g) p = Some pp \<and> pp_buffer pp = Some c \<and> fl_sent g = fl_received g @ cb_list c \<and>
      length (cb_list c) \<le> 1024" by (auto simp: pipe_live_def)
  then show ?thesis using fl.flow_returns [OF inv] by blast
qed

theorem pipe_fifo_witness:
  "\<exists>g. (flow_step fl_ops (demo_ptr 27))\<^sup>*\<^sup>* \<lparr>fl_kernel = demo_piped, fl_threads = Map.empty, fl_sent = [], fl_received = []\<rparr> g \<and>
    fl_threads g 2 = Some (Writing [65, 66] False WWaitMutex) \<and> pipeWrite_step fl_ops 0 (demo_ptr 27) [65, 66] False WWaitMutex demo_piped \<noteq> None"
proof -
  let ?f = "\<lparr>fl_kernel = demo_piped, fl_threads = Map.empty, fl_sent = [], fl_received = []\<rparr>"
  let ?g = "?f\<lparr>fl_threads := [2 \<mapsto> Writing [65, 66] False (pipeWrite (demo_ptr 27))]\<rparr>"
  have pw: "pipeWrite (demo_ptr 27) = WWaitMutex" by (simp add: pipeWrite_def demo_ptr_nonnull)
  have "flow_step fl_ops (demo_ptr 27) ?f ?g"
    using flow_step.start_write [of 2 ?f fl_ops "demo_ptr 27" "[65, 66]" False] demo_piped_inv(3) by simp
  then have steps: "(flow_step fl_ops (demo_ptr 27))\<^sup>*\<^sup>* ?f ?g" by simp
  have inv: "flow_inv fl_inv fl_blocks (\<lambda>_. 2 ^ 64 - 8) (demo_ptr 27) ?f"
  proof -
    have "cb_list demo_cb = []" by (simp add: demo_cb_def cb_list_def)
    then have "\<exists>pp c. pipe_live (demo_ptr 27) demo_piped pp c \<and> [] = [] @ cb_list c" using demo_piped_inv(2)
      by (intro exI [of _ demo_pp] exI [of _ demo_cb]) simp
    then show ?thesis using demo_piped_inv(1) by (simp add: flow_inv_def)
  qed
  have "pipeWrite_step fl_ops 0 (demo_ptr 27) [65, 66] False WWaitMutex demo_piped \<noteq> None"
    using pipe_fifo [OF steps inv, THEN conjunct2, THEN conjunct2, rule_format, of 2 "[65, 66]" False WWaitMutex 0] demo_piped_inv(3)
    by (simp del: pipeWrite_step.simps)
  with steps pw show ?thesis by (intro exI [of _ ?g]) simp
qed

end
