(* ===== verification/KVideo.thy ===== *)
theory KVideo
  imports KLib KFont
begin

unbundle bit_operations_syntax

text \<open>
  The video driver \<^verbatim>\<open>Kernel/Drivers/videoDriver.c\<close>: the VBE mode block that the loader left, the
  auxiliary buffer, and the byte memory both frame buffers live in.  Loop counters that C keeps in an
  \<^verbatim>\<open>int\<close> are natural numbers, so sizes are taken below \<open>2^31\<close>.
\<close>

section \<open>State\<close>

text \<open>The fields of the mode block that the driver reads.\<close>
record vbe_info =
  vbe_pitch :: u16
  vbe_width :: u16
  vbe_height :: u16
  vbe_bpp :: u8
  vbe_framebuffer :: u32

record video =
  vbe :: vbe_info
  auxFramebuffer :: u64
  auxBuffWidth :: u32
  auxBuffHeight :: u32
  vmem :: mem

definition getScreenWidth :: "video \<Rightarrow> u16" where
  "getScreenWidth v = (if auxFramebuffer v = 0 then vbe_width (vbe v) else ucast (auxBuffWidth v))"

definition getScreenHeight :: "video \<Rightarrow> u16" where
  "getScreenHeight v = (if auxFramebuffer v = 0 then vbe_height (vbe v) else ucast (auxBuffHeight v))"

definition withinScreenBounds :: "u64 \<Rightarrow> u64 \<Rightarrow> video \<Rightarrow> bool" where
  "withinScreenBounds x y v \<longleftrightarrow> x < ucast (getScreenWidth v) \<and> y < ucast (getScreenHeight v)"

definition getFrameBuffer :: "video \<Rightarrow> u64" where
  "getFrameBuffer v = (if auxFramebuffer v = 0 then ucast (vbe_framebuffer (vbe v)) else auxFramebuffer v)"

definition setAuxFramebuffer :: "u64 \<Rightarrow> u32 \<Rightarrow> u32 \<Rightarrow> video \<Rightarrow> video" where
  "setAuxFramebuffer buffer width height v =
     (if buffer = 0 then v\<lparr>auxFramebuffer := buffer, auxBuffWidth := 0, auxBuffHeight := 0\<rparr>
      else v\<lparr>auxFramebuffer := buffer, auxBuffWidth := width, auxBuffHeight := height\<rparr>)"

text \<open>One row: eight bytes at a time, then the rest one by one.\<close>
fun copy_chunks :: "u64 \<Rightarrow> u64 \<Rightarrow> nat \<Rightarrow> mem \<Rightarrow> mem" where
  "copy_chunks dst src 0 m = m"
| "copy_chunks dst src (Suc n) m =
     copy_chunks (dst + 8) (src + 8) n (fold (\<lambda>i m'. m'(dst + of_nat i := m (src + of_nat i))) [0..<8] m)"

definition render_row :: "u64 \<Rightarrow> u64 \<Rightarrow> nat \<Rightarrow> mem \<Rightarrow> mem" where
  "render_row fbRow auxRow n m =
     (let chunks = n div 8; m = copy_chunks fbRow auxRow chunks m
      in fold (\<lambda>i m. m(fbRow + of_nat (8 * chunks + i) := m (auxRow + of_nat (8 * chunks + i)))) [0..<n mod 8] m)"

definition renderAux :: "video \<Rightarrow> video" where
  "renderAux v =
     (if auxFramebuffer v = 0 then v
      else (let copyWidth = min (unat (auxBuffWidth v)) (unat (vbe_width (vbe v)));
                copyHeight = min (unat (auxBuffHeight v)) (unat (vbe_height (vbe v)));
                auxRowBytes = ucast (auxBuffWidth v * 3) :: u64; fbRowBytes = ucast (vbe_width (vbe v)) * 3 :: u64;
                fb = ucast (vbe_framebuffer (vbe v))
            in v\<lparr>vmem := fold (\<lambda>y. render_row (fb + of_nat y * fbRowBytes) (auxFramebuffer v + of_nat y * auxRowBytes)
                   (3 * copyWidth)) [0..<copyHeight] (vmem v)\<rparr>))"

definition getVideoOffset :: "u64 \<Rightarrow> u64 \<Rightarrow> video \<Rightarrow> u64" where
  "getVideoOffset x y v =
     (if auxFramebuffer v = 0 then x * (ucast (vbe_bpp (vbe v)) div 8) + y * ucast (vbe_pitch (vbe v))
      else (x + y * ucast (auxBuffWidth v)) * 3)"

section \<open>Pixels\<close>

text \<open>One colour channel: the products are computed as \<^verbatim>\<open>int\<close>.\<close>
definition blend_channel :: "u8 \<Rightarrow> u8 \<Rightarrow> u8 \<Rightarrow> u8" where
  "blend_channel fg bg alpha = of_nat ((unat fg * unat alpha + unat bg * (255 - unat alpha)) div 255)"

definition alphaBlend :: "u32 \<Rightarrow> u32 \<Rightarrow> u8 \<Rightarrow> u64" where
  "alphaBlend fgColor bgColor alpha =
     (if alpha = 0 then ucast bgColor
      else if alpha = 0xFF then ucast fgColor
      else (let channel = (\<lambda>k. blend_channel (ucast (drop_bit k fgColor AND 0xFF)) (ucast (drop_bit k bgColor AND 0xFF)) alpha)
            in push_bit 16 (ucast (channel 16)) OR push_bit 8 (ucast (channel 8)) OR ucast (channel 0)))"

text \<open>The colour stored at an address, blue first.\<close>
definition rgb_at :: "mem \<Rightarrow> u64 \<Rightarrow> u32" where
  "rgb_at m a = ucast (m a) OR push_bit 8 (ucast (m (a + 1))) OR push_bit 16 (ucast (m (a + 2)))"

definition readPixel :: "u64 \<Rightarrow> u64 \<Rightarrow> video \<Rightarrow> u32" where
  "readPixel x y v =
     (if \<not> withinScreenBounds x y v then 0
      else rgb_at (vmem v) (getFrameBuffer v + getVideoOffset x y v))"

definition blendPixel :: "u32 \<Rightarrow> u64 \<Rightarrow> u64 \<Rightarrow> video \<Rightarrow> u64" where
  "blendPixel colorARGB x y v =
     (if \<not> withinScreenBounds x y v then 0
      else (let alpha = ucast (drop_bit 24 colorARGB AND 0xFF); alpha = (if alpha = 0 then 0xFF else alpha)
            in alphaBlend (colorARGB AND 0x00FFFFFF) (readPixel x y v) alpha))"

text \<open>The three bytes of a pixel, blue first.\<close>
definition store_rgb :: "u64 \<Rightarrow> u32 \<Rightarrow> mem \<Rightarrow> mem" where
  "store_rgb a color m = m(a := ucast (color AND 0xFF), a + 1 := ucast (drop_bit 8 color AND 0xFF),
     a + 2 := ucast (drop_bit 16 color AND 0xFF))"

definition putPixel :: "u32 \<Rightarrow> u64 \<Rightarrow> u64 \<Rightarrow> video \<Rightarrow> video" where
  "putPixel hexColor x y v =
     (if \<not> withinScreenBounds x y v then v
      else (let color = ucast (blendPixel hexColor x y v)
            in v\<lparr>vmem := store_rgb (getFrameBuffer v + getVideoOffset x y v) color (vmem v)\<rparr>))"

section \<open>Shapes\<close>

text \<open>The signed 64-bit coordinates of the circles are integers: centres and radii far below \<open>2^31\<close>.\<close>

text \<open>The counters of the rectangle are of type \<^verbatim>\<open>int\<close> and the sizes are 64 bits wide: \<open>None\<close> where a counter
  would have to pass \<open>2 ^ 31 - 1\<close>.\<close>
definition drawRectangle :: "u32 \<Rightarrow> u64 \<Rightarrow> u64 \<Rightarrow> u64 \<Rightarrow> u64 \<Rightarrow> video \<Rightarrow> video option" where
  "drawRectangle hexColor x y width height v =
     (if width \<ge> 2 ^ 31 \<or> width \<noteq> 0 \<and> height \<ge> 2 ^ 31 then None
      else Some (fold (\<lambda>i. fold (\<lambda>j. putPixel hexColor (x + of_nat i) (y + of_nat j)) [0..<unat height]) [0..<unat width] v))"

definition drawCircle :: "u32 \<Rightarrow> int \<Rightarrow> int \<Rightarrow> int \<Rightarrow> video \<Rightarrow> video" where
  "drawCircle hexColor centerX centerY radius v =
     fold (\<lambda>x. fold (\<lambda>y v.
         if (x - centerX) * (x - centerX) + (y - centerY) * (y - centerY) < radius * radius
         then putPixel hexColor (word_of_int x) (word_of_int y) v else v)
       [centerY - radius..centerY + radius]) [centerX - radius..centerX + radius] v"

text \<open>The eight points of one step of the midpoint algorithm.\<close>
definition octants :: "int \<Rightarrow> int \<Rightarrow> int \<Rightarrow> int \<Rightarrow> (int \<times> int) list" where
  "octants cx cy x y = [(cx + x, cy + y), (cx - x, cy + y), (cx + y, cy + x), (cx - y, cy + x),
     (cx + x, cy - y), (cx - x, cy - y), (cx + y, cy - x), (cx - y, cy - x)]"

function circumference_loop :: "u32 \<Rightarrow> int \<Rightarrow> int \<Rightarrow> int \<Rightarrow> int \<Rightarrow> int \<Rightarrow> video \<Rightarrow> video" where
  "circumference_loop hexColor cx cy x y radiusError v =
     (if x \<ge> y then
        (let v = fold (\<lambda>(px, py). putPixel hexColor (word_of_int px) (word_of_int py)) (octants cx cy x y) v;
             y = y + 1
         in if radiusError < 0 then circumference_loop hexColor cx cy x y (radiusError + 2 * y + 1) v
            else (let x = x - 1 in circumference_loop hexColor cx cy x y (radiusError + 2 * (y - x) + 1) v))
      else v)"
  by auto

termination circumference_loop
  by (relation "measure (\<lambda>(c, cx, cy, x, y, e, v). nat (x - y + 1))") auto

declare circumference_loop.simps [simp del]

definition drawCircumference :: "u32 \<Rightarrow> int \<Rightarrow> int \<Rightarrow> int \<Rightarrow> video \<Rightarrow> video" where
  "drawCircumference hexColor centerX centerY radius v = circumference_loop hexColor centerX centerY radius 0 (1 - radius) v"

definition setBackground :: "u32 \<Rightarrow> video \<Rightarrow> video" where
  "setBackground color v =
     (let width = unat (getScreenWidth v); height = unat (getScreenHeight v); fb = getFrameBuffer v
      in v\<lparr>vmem := fold (\<lambda>y. fold (\<lambda>x. store_rgb (fb + of_nat ((y * width + x) * 3)) color) [0..<width]) [0..<height] (vmem v)\<rparr>)"

section \<open>Text\<close>

definition CHAR_WIDTH :: nat where "CHAR_WIDTH = 8"
definition CHAR_HEIGHT :: nat where "CHAR_HEIGHT = 16"
definition STRING_SPACING :: nat where "STRING_SPACING = 0"

definition glyph_bit :: "u8 list \<Rightarrow> nat \<Rightarrow> nat \<Rightarrow> bool" where
  "glyph_bit glyph row col = bit (glyph ! row) (7 - col)"

text \<open>\<open>None\<close> for a code past the 128 glyphs, where the code reads past the table, and for the
  transparent drawing at a negative scale, whose loop bound wraps.\<close>
definition drawSymbol :: "u8 \<Rightarrow> u64 \<Rightarrow> u64 \<Rightarrow> u32 \<Rightarrow> u32 \<Rightarrow> int \<Rightarrow> video \<Rightarrow> video option" where
  "drawSymbol c x y fgcolor bgcolor scale v =
     (if c \<ge> 128 \<or> bgcolor = -1 \<and> scale < 0 then None
      else (let glyph = font ! unat c; sc = nat scale;
                put = (\<lambda>cy cx color. putPixel color (x + of_nat cx) (y + of_nat cy - of_nat (12 * sc)))
            in Some (fold (\<lambda>cy. fold (\<lambda>cx v.
                 if glyph_bit glyph (cy div sc) (cx div sc) then put cy cx fgcolor v
                 else if bgcolor = -1 then v else put cy cx bgcolor v)
               [0..<CHAR_WIDTH * sc]) [0..<CHAR_HEIGHT * sc] v)))"

fun drawString :: "u8 list \<Rightarrow> int \<Rightarrow> int \<Rightarrow> u32 \<Rightarrow> u32 \<Rightarrow> int \<Rightarrow> video \<Rightarrow> video option" where
  "drawString [] x y fgcolor bgcolor scale v = Some v"
| "drawString (c # string) x y fgcolor bgcolor scale v =
     Option.bind (drawSymbol c (word_of_int x) (word_of_int y) fgcolor bgcolor scale v)
       (drawString string (x + int (CHAR_WIDTH + STRING_SPACING) * scale) y fgcolor bgcolor scale)"

section \<open>Scrolling\<close>

definition copy_row :: "u64 \<Rightarrow> u64 \<Rightarrow> nat \<Rightarrow> mem \<Rightarrow> mem" where
  "copy_row d s n m = fold (\<lambda>i m. m(d + of_nat i := m (s + of_nat i))) [0..<n] m"

definition scroll_aux :: "nat \<Rightarrow> u32 \<Rightarrow> video \<Rightarrow> video" where
  "scroll_aux n fillColor v =
     (let w = unat (getScreenWidth v); h = unat (getScreenHeight v);
          v = fold (\<lambda>y. fold (\<lambda>x v. putPixel (readPixel (of_nat x) (of_nat (y + n)) v) (of_nat x) (of_nat y) v) [0..<w]) [0..<h - n] v
      in fold (\<lambda>y. fold (\<lambda>x. putPixel fillColor (of_nat x) (of_nat y)) [0..<w]) [h - n..<h] v)"

definition fill_row :: "u64 \<Rightarrow> nat \<Rightarrow> nat \<Rightarrow> u32 \<Rightarrow> mem \<Rightarrow> mem" where
  "fill_row row w bpp color = fold (\<lambda>x. store_rgb (row + of_nat (x * bpp)) color) [0..<w]"

definition scrollUp :: "u64 \<Rightarrow> u32 \<Rightarrow> video \<Rightarrow> video" where
  "scrollUp pixelRows fillColor v =
     (let w = unat (getScreenWidth v); h = unat (getScreenHeight v); n = unat pixelRows in
      if pixelRows = 0 \<or> n \<ge> h then v
      else if auxFramebuffer v \<noteq> 0 then scroll_aux n fillColor v
      else (let fb = ucast (vbe_framebuffer (vbe v)); pitch = unat (vbe_pitch (vbe v)); bpp = unat (vbe_bpp (vbe v)) div 8;
                m = fold (\<lambda>dst. copy_row (fb + of_nat (dst * pitch)) (fb + of_nat ((dst + n) * pitch)) (w * bpp)) [0..<h - n] (vmem v)
            in v\<lparr>vmem := fold (\<lambda>y. fill_row (fb + of_nat (y * pitch)) w bpp fillColor) [h - n..<h] m\<rparr>))"

section \<open>The screen as a grid of pixels\<close>

text \<open>The mode the driver is written for: 24 bits per pixel and rows that do not overlap; an auxiliary
  buffer no larger than the 16-bit sizes the driver reports.\<close>
definition screen_ok :: "video \<Rightarrow> bool" where
  "screen_ok v \<longleftrightarrow>
     (if auxFramebuffer v = 0 then vbe_bpp (vbe v) = 24 \<and> 3 * unat (vbe_width (vbe v)) \<le> unat (vbe_pitch (vbe v))
      else unat (auxBuffWidth v) < 2 ^ 16 \<and> unat (auxBuffHeight v) < 2 ^ 16)"

text \<open>A colour that replaces what is under it: alpha absent or full.\<close>
definition opaque :: "u32 \<Rightarrow> bool" where
  "opaque c \<longleftrightarrow> drop_bit 24 c AND 0xFF \<in> {0, 0xFF}"

definition rgb :: "u32 \<Rightarrow> u32" where
  "rgb c = c AND 0xFFFFFF"

definition stride :: "video \<Rightarrow> nat" where
  "stride v = (if auxFramebuffer v = 0 then unat (vbe_pitch (vbe v)) else 3 * unat (auxBuffWidth v))"

definition pixel_offset :: "video \<Rightarrow> nat \<Rightarrow> nat \<Rightarrow> nat" where
  "pixel_offset v x y = 3 * x + y * stride v"

lemma of_nat_u64_inj: "i < 2 ^ 64 \<Longrightarrow> j < 2 ^ 64 \<Longrightarrow> (of_nat i :: u64) = of_nat j \<longleftrightarrow> i = j"
  using eq_offset [of j "of_nat i" 0] by (simp add: unat_of_nat)

lemma byte_and_FF: "(ucast (c AND 0xFF) :: u8) = ucast c" for c :: u32
proof -
  have "(0xFF :: u32) = mask 8" by (simp add: mask_eq_exp_minus_1)
  show ?thesis unfolding \<open>(0xFF :: u32) = mask 8\<close> by (rule bit_word_eqI) (auto simp: bit_simps)
qed

lemma rgb_at_store_same: "rgb_at (store_rgb a c m) a = rgb c"
proof -
  have "rgb_at (store_rgb a c m) a = ucast (ucast c :: u8) OR push_bit 8 (ucast (ucast (drop_bit 8 c) :: u8))
      OR push_bit 16 (ucast (ucast (drop_bit 16 c) :: u8))"
    by (simp add: rgb_at_def store_rgb_def byte_and_FF)
  also have "\<dots> = c AND mask 24"
    by (rule bit_word_eqI, case_tac "16 \<le> n") (auto simp: bit_simps)
  finally show ?thesis by (simp add: rgb_def mask_eq_exp_minus_1)
qed

text \<open>Pixels three or more bytes apart do not share a byte.\<close>
lemma rgb_at_store_other:
  assumes "i + 2 < 2 ^ 64" "j + 2 < 2 ^ 64" "i + 3 \<le> j \<or> j + 3 \<le> i"
  shows "rgb_at (store_rgb (fb + of_nat i) c m) (fb + of_nat j) = rgb_at m (fb + of_nat j)"
proof -
  have "fb + of_nat (j + k) \<noteq> fb + of_nat (i + l)" if "k < 3" "l < 3" for k l
    using assms that of_nat_u64_inj [of "j + k" "i + l"] by auto
  from this [of 0] this [of 1] this [of 2]
  have "\<forall>l < 3. fb + of_nat j \<noteq> fb + of_nat (i + l) \<and> fb + of_nat j + 1 \<noteq> fb + of_nat (i + l) \<and> fb + of_nat j + 2 \<noteq> fb + of_nat (i + l)"
    by (simp add: ac_simps)
  from this [rule_format, of 0] this [rule_format, of 1] this [rule_format, of 2] show ?thesis
    by (simp add: rgb_at_def store_rgb_def ac_simps)
qed

text \<open>Where the pixel at \<open>(x, y)\<close> lives.\<close>
lemma offset_bound:
  assumes "screen_ok v" "x < unat (getScreenWidth v)" "y < unat (getScreenHeight v)"
  shows "pixel_offset v x y + 2 < 2 ^ 64"
proof -
  have "3 * x + 3 \<le> 3 * (2 ^ 16)" using assms(2) unat_lt2p [of "getScreenWidth v"] by simp
  moreover have "y * stride v \<le> 2 ^ 16 * (3 * 2 ^ 16)"
    using assms(1,3) unat_lt2p [of "getScreenHeight v"] unat_lt2p [of "vbe_pitch (vbe v)"]
    by (intro mult_mono) (auto simp: stride_def screen_ok_def split: if_splits)
  ultimately show ?thesis by (simp add: pixel_offset_def)
qed

lemma width_stride: "screen_ok v \<Longrightarrow> 3 * unat (getScreenWidth v) \<le> stride v"
  by (auto simp: screen_ok_def stride_def getScreenWidth_def unsigned_ucast_eq take_bit_nat_def split: if_splits)

lemma offsets_apart:
  assumes "screen_ok v" "x < unat (getScreenWidth v)" "x' < unat (getScreenWidth v)" "(x, y) \<noteq> (x', y')"
  shows "pixel_offset v x y + 3 \<le> pixel_offset v x' y' \<or> pixel_offset v x' y' + 3 \<le> pixel_offset v x y"
proof -
  note w = width_stride [OF assms(1)]
  consider "y = y'" | "Suc y \<le> y'" | "Suc y' \<le> y" by linarith
  then show ?thesis
  proof cases
    case 2
    then have "Suc y * stride v \<le> y' * stride v" by (rule mult_le_mono1)
    with assms w show ?thesis by (simp add: pixel_offset_def)
  next
    case 3
    then have "Suc y' * stride v \<le> y * stride v" by (rule mult_le_mono1)
    with assms w show ?thesis by (simp add: pixel_offset_def)
  qed (use assms in \<open>auto simp: pixel_offset_def\<close>)
qed

lemma getVideoOffset_of_nat:
  assumes "screen_ok v"
  shows "getVideoOffset x y v = of_nat (pixel_offset v (unat x) (unat y))"
proof (cases "auxFramebuffer v = 0")
  case True
  then have "vbe_bpp (vbe v) = 24" using assms by (simp add: screen_ok_def)
  then show ?thesis using True by (simp add: getVideoOffset_def pixel_offset_def stride_def mult.commute)
next
  case False
  then show ?thesis by (simp add: getVideoOffset_def pixel_offset_def stride_def ring_distribs mult.commute mult.left_commute)
qed

lemma unat_ucast_u16: "unat (ucast w :: u64) = unat w" for w :: u16
  using unat_lt2p [of w] by (simp add: unsigned_ucast_eq take_bit_nat_eq_self)

lemma within_nat: "withinScreenBounds x y v \<longleftrightarrow> unat x < unat (getScreenWidth v) \<and> unat y < unat (getScreenHeight v)"
  by (simp add: withinScreenBounds_def word_less_nat_alt unat_ucast_u16)

lemma vmem_update [simp]:
  "withinScreenBounds x y (v\<lparr>vmem := m\<rparr>) = withinScreenBounds x y v" "getFrameBuffer (v\<lparr>vmem := m\<rparr>) = getFrameBuffer v"
  "getVideoOffset x y (v\<lparr>vmem := m\<rparr>) = getVideoOffset x y v" "screen_ok (v\<lparr>vmem := m\<rparr>) = screen_ok v"
  "getScreenWidth (v\<lparr>vmem := m\<rparr>) = getScreenWidth v" "getScreenHeight (v\<lparr>vmem := m\<rparr>) = getScreenHeight v"
  by (simp_all add: withinScreenBounds_def getScreenWidth_def getScreenHeight_def getFrameBuffer_def getVideoOffset_def screen_ok_def)

text \<open>A store at one pixel of the grid changes that pixel alone.\<close>
lemma readPixel_store:
  assumes ok: "screen_ok v" and i: "withinScreenBounds x y v"
  shows "readPixel x' y' (v\<lparr>vmem := store_rgb (getFrameBuffer v + getVideoOffset x y v) c (vmem v)\<rparr>) =
    (if x' = x \<and> y' = y then rgb c else readPixel x' y' v)"
proof -
  show ?thesis
  proof (cases "withinScreenBounds x' y' v \<and> \<not> (x' = x \<and> y' = y)")
    case True
    let ?i = "pixel_offset v (unat x) (unat y)" and ?j = "pixel_offset v (unat x') (unat y')"
    have "?i + 2 < 2 ^ 64" "?j + 2 < 2 ^ 64" "?i + 3 \<le> ?j \<or> ?j + 3 \<le> ?i"
      using ok i True offset_bound offsets_apart [of v "unat x" "unat x'" "unat y" "unat y'"]
        word_unat_eq_iff [of x x'] word_unat_eq_iff [of y y']
      by (auto simp: within_nat)
    then show ?thesis using True ok by (auto simp: readPixel_def getVideoOffset_of_nat rgb_at_store_other)
  next
    case False
    then consider "x' = x \<and> y' = y" | "\<not> withinScreenBounds x' y' v" by blast
    then show ?thesis using i by cases (auto simp: readPixel_def rgb_at_store_same)
  qed
qed

text \<open>What no drawing operation changes.\<close>
definition same_mode :: "video \<Rightarrow> video \<Rightarrow> bool" where
  "same_mode v w \<longleftrightarrow> vbe w = vbe v \<and> auxFramebuffer w = auxFramebuffer v \<and> auxBuffWidth w = auxBuffWidth v \<and> auxBuffHeight w = auxBuffHeight v"

lemma same_mode_eqs:
  assumes "same_mode v w"
  shows "screen_ok w = screen_ok v" "withinScreenBounds x y w = withinScreenBounds x y v"
    "getScreenWidth w = getScreenWidth v" "getScreenHeight w = getScreenHeight v"
  using assms by (simp_all add: same_mode_def screen_ok_def withinScreenBounds_def getScreenWidth_def getScreenHeight_def)

lemma same_mode_refl [simp]: "same_mode v v"
  by (simp add: same_mode_def)

lemma putPixel_mode [simp]: "same_mode v (putPixel c x y w) = same_mode v w"
  by (simp add: putPixel_def same_mode_def Let_def)

lemma screen_ok_putPixel [simp]: "screen_ok (putPixel c x y v) = screen_ok v"
  by (simp add: putPixel_def Let_def)

lemma ucast_u64_u32 [simp]: "(ucast (ucast a :: u64) :: u32) = a"
  by (rule bit_word_eqI) (auto simp: bit_simps)

text \<open>What a pixel of colour \<open>bg\<close> shows after \<open>c\<close> was drawn on it.\<close>
definition drawn_over :: "u32 \<Rightarrow> u32 \<Rightarrow> u32" where
  "drawn_over c bg = (let alpha = ucast (drop_bit 24 c AND 0xFF); alpha = (if alpha = 0 then 0xFF else alpha)
     in rgb (ucast (alphaBlend (c AND 0x00FFFFFF) bg alpha)))"

lemma drawn_over_opaque: "opaque c \<Longrightarrow> drawn_over c bg = rgb c"
  by (auto simp: drawn_over_def alphaBlend_def opaque_def rgb_def Let_def)

lemma readPixel_drawn:
  assumes "screen_ok v"
  shows "readPixel x' y' (putPixel c x y v) =
    (if x' = x \<and> y' = y \<and> withinScreenBounds x y v then drawn_over c (readPixel x y v) else readPixel x' y' v)"
proof (cases "withinScreenBounds x y v")
  case True
  then show ?thesis using assms by (simp add: putPixel_def readPixel_store drawn_over_def blendPixel_def rgb_def Let_def)
qed (auto simp: putPixel_def readPixel_def)

lemma readPixel_putPixel:
  assumes "screen_ok v" "opaque c"
  shows "readPixel x' y' (putPixel c x y v) =
    (if x' = x \<and> y' = y \<and> withinScreenBounds x y v then rgb c else readPixel x' y' v)"
  using readPixel_drawn [OF assms(1)] drawn_over_opaque [OF assms(2)] by simp

section \<open>Drawing a set of points\<close>

lemma fold_fold_product:
  "fold (\<lambda>i. fold (f i) js) is s = fold (\<lambda>(i, j). f i j) (List.product is js) s"
  by (induction "is" arbitrary: s) (simp_all add: fold_map comp_def)

text \<open>Paint the points of a list, in order; \<open>g\<close> gives the colour of a point, or none.\<close>
definition paint :: "('a \<Rightarrow> u64) \<Rightarrow> ('a \<Rightarrow> u64) \<Rightarrow> ('a \<Rightarrow> u32 option) \<Rightarrow> 'a list \<Rightarrow> video \<Rightarrow> video" where
  "paint X Y g ps = fold (\<lambda>p v. case g p of None \<Rightarrow> v | Some c \<Rightarrow> putPixel c (X p) (Y p) v) ps"

lemma paint_simps [simp]:
  "paint X Y g [] v = v"
  "paint X Y g (p # ps) v = paint X Y g ps (case g p of None \<Rightarrow> v | Some c \<Rightarrow> putPixel c (X p) (Y p) v)"
  by (simp_all add: paint_def)

lemma paint_snoc: "paint X Y g (ps @ [p]) v =
    (case g p of None \<Rightarrow> paint X Y g ps v | Some c \<Rightarrow> putPixel c (X p) (Y p) (paint X Y g ps v))"
  by (simp add: paint_def split: option.split)

lemma paint_mode: "same_mode v (paint X Y g ps w) = same_mode v w"
  by (induction ps arbitrary: w) (simp_all split: option.split)

lemma paint_other:
  assumes "screen_ok v" "\<And>p c. p \<in> set ps \<Longrightarrow> g p = Some c \<Longrightarrow> opaque c \<and> (X p, Y p) \<noteq> (x, y)"
  shows "readPixel x y (paint X Y g ps v) = readPixel x y v"
  using assms
proof (induction ps arbitrary: v)
  case (Cons p ps)
  let ?w = "case g p of None \<Rightarrow> v | Some c \<Rightarrow> putPixel c (X p) (Y p) v"
  have "screen_ok ?w" using Cons.prems(1) by (simp split: option.split)
  then have "readPixel x y (paint X Y g ps ?w) = readPixel x y ?w"
    by (rule Cons.IH) (rule Cons.prems(2), auto)
  moreover have "readPixel x y ?w = readPixel x y v"
    using Cons.prems(1) Cons.prems(2) [of p] by (auto simp: readPixel_putPixel split: option.split)
  ultimately show ?case by simp
qed simp

text \<open>Where the points are all different each is drawn once, over what was there.\<close>
lemma paint_elsewhere:
  assumes "screen_ok v" "\<And>p. p \<in> set ps \<Longrightarrow> (X p, Y p) \<noteq> (x, y)"
  shows "readPixel x y (paint X Y g ps v) = readPixel x y v"
  using assms
proof (induction ps arbitrary: v)
  case (Cons p ps)
  let ?w = "case g p of None \<Rightarrow> v | Some c \<Rightarrow> putPixel c (X p) (Y p) v"
  have "screen_ok ?w" using Cons.prems(1) by (simp split: option.split)
  then have "readPixel x y (paint X Y g ps ?w) = readPixel x y ?w"
    by (rule Cons.IH) (rule Cons.prems(2), simp)
  moreover have "readPixel x y ?w = readPixel x y v"
  proof (cases "g p")
    case (Some c)
    have "\<not> (x = X p \<and> y = Y p)" using Cons.prems(2) [of p] by auto
    then show ?thesis using Some Cons.prems(1) by (auto simp: readPixel_drawn)
  qed simp
  ultimately show ?case by simp
qed simp

lemma paint_once:
  assumes ok: "screen_ok v" and d: "distinct (map (\<lambda>p. (X p, Y p)) ps)" and p: "p \<in> set ps" and w: "withinScreenBounds (X p) (Y p) v"
  shows "readPixel (X p) (Y p) (paint X Y (\<lambda>_. Some c) ps v) = drawn_over c (readPixel (X p) (Y p) v)"
proof -
  obtain as bs where ps: "ps = as @ p # bs" using p by (auto simp: in_set_conv_decomp)
  let ?v = "paint X Y (\<lambda>_. Some c) as v" let ?w = "putPixel c (X p) (Y p) ?v"
  have m: "same_mode v ?v" by (simp add: paint_mode)
  define f where "f = (\<lambda>p. (X p, Y p))"
  have "f p \<notin> f ` (set as \<union> set bs)" using d unfolding ps f_def [symmetric] by (simp add: image_Un)
  then have "f q \<noteq> f p" if "q \<in> set as \<union> set bs" for q using that by (metis imageI)
  then have ne: "(X q, Y q) \<noteq> (X p, Y p)" if "q \<in> set as \<union> set bs" for q using that unfolding f_def by blast
  have "paint X Y (\<lambda>_. Some c) ps v = paint X Y (\<lambda>_. Some c) bs ?w" by (simp add: ps paint_def)
  also have "readPixel (X p) (Y p) \<dots> = readPixel (X p) (Y p) ?w"
    by (rule paint_elsewhere) (use ok m ne in \<open>auto simp: same_mode_eqs\<close>)
  also have "\<dots> = drawn_over c (readPixel (X p) (Y p) ?v)" using ok w m by (simp add: readPixel_drawn same_mode_eqs)
  also have "readPixel (X p) (Y p) ?v = readPixel (X p) (Y p) v" by (rule paint_elsewhere [OF ok]) (use ne in auto)
  finally show ?thesis .
qed

lemma paint_point:
  assumes "screen_ok v" "p \<in> set ps" "g p = Some c" "withinScreenBounds (X p) (Y p) v"
    and op: "\<And>q d. q \<in> set ps \<Longrightarrow> g q = Some d \<Longrightarrow> opaque d"
    and eq: "\<And>q. q \<in> set ps \<Longrightarrow> X q = X p \<Longrightarrow> Y q = Y p \<Longrightarrow> g q = g p"
  shows "readPixel (X p) (Y p) (paint X Y g ps v) = rgb c"
  using assms(2) op eq
proof (induction ps rule: rev_induct)
  case (snoc q ps)
  let ?v = "paint X Y g ps v"
  have m: "same_mode v ?v" by (simp add: paint_mode)
  have ok: "screen_ok ?v" "withinScreenBounds (X p) (Y p) ?v" using assms(1,4) m by (simp_all add: same_mode_eqs)
  show ?case
  proof (cases "g q \<noteq> None \<and> X q = X p \<and> Y q = Y p")
    case True
    then have "g q = Some c" using snoc.prems(3) [of q] assms(3) by simp
    then show ?thesis using True ok snoc.prems(2) [of q c] by (simp add: paint_snoc readPixel_putPixel)
  next
    case False
    then have "p \<in> set ps" using snoc.prems(1) assms(3) by auto
    then have r: "readPixel (X p) (Y p) ?v = rgb c"
    proof (rule snoc.IH)
      show "opaque d" if "r \<in> set ps" "g r = Some d" for r d by (rule snoc.prems(2)) (use that in auto)
      show "g r = g p" if "r \<in> set ps" "X r = X p" "Y r = Y p" for r by (rule snoc.prems(3)) (use that in auto)
    qed
    show ?thesis
    proof (cases "g q")
      case (Some d)
      then have "opaque d" "(X q, Y q) \<noteq> (X p, Y p)" using False snoc.prems(2) [of q d] by auto
      then have "readPixel (X p) (Y p) (putPixel d (X q) (Y q) ?v) = readPixel (X p) (Y p) ?v"
        using readPixel_putPixel [OF ok(1), of d "X p" "Y p" "X q" "Y q"] by auto
      then show ?thesis using Some r by (simp add: paint_snoc)
    qed (simp add: paint_snoc r)
  qed
qed simp

text \<open>The picture after painting: \<open>G\<close> says which places of the screen get which colour.\<close>
lemma paint_exact:
  assumes ok: "screen_ok v" and op: "\<And>q d. q \<in> set ps \<Longrightarrow> g q = Some d \<Longrightarrow> opaque d"
    and pts: "\<And>p. p \<in> set ps \<Longrightarrow> withinScreenBounds (X p) (Y p) v \<Longrightarrow> g p = G (X p) (Y p)"
    and all: "\<And>x y c. withinScreenBounds x y v \<Longrightarrow> G x y = Some c \<Longrightarrow> \<exists>p \<in> set ps. X p = x \<and> Y p = y"
  shows "readPixel x y (paint X Y g ps v) =
      (case G x y of Some c \<Rightarrow> if withinScreenBounds x y v then rgb c else readPixel x y v | None \<Rightarrow> readPixel x y v)"
proof (cases "withinScreenBounds x y v")
  case w: True
  show ?thesis
  proof (cases "G x y")
    case None
    have "opaque c \<and> (X p, Y p) \<noteq> (x, y)" if "p \<in> set ps" "g p = Some c" for p c
      using op [OF that] pts [OF that(1)] that(2) None w by auto
    then have "readPixel x y (paint X Y g ps v) = readPixel x y v" by (rule paint_other [OF ok])
    then show ?thesis using None by simp
  next
    case (Some c)
    then obtain p where p: "p \<in> set ps" "X p = x" "Y p = y" using all [OF w] by blast
    then have g: "g p = Some c" using pts [OF p(1)] w Some by simp
    have "g q = g p" if "q \<in> set ps" "X q = X p" "Y q = Y p" for q using pts [OF that(1)] that p g w Some by simp
    from paint_point [of v p ps g c X Y, OF ok p(1) g _ op this] show ?thesis using p w Some by simp
  qed
next
  case out: False
  then have "\<not> withinScreenBounds x y (paint X Y g ps v)"
    using same_mode_eqs(2) [OF iffD2 [OF paint_mode [of v] same_mode_refl]] by blast
  then show ?thesis using out by (simp add: readPixel_def split: option.split)
qed

lemma drawRectangle_paint:
  "width < 2 ^ 31 \<Longrightarrow> height < 2 ^ 31 \<Longrightarrow> drawRectangle c x y width height v =
     Some (paint (\<lambda>(i, j). x + of_nat i) (\<lambda>(i, j). y + of_nat j) (\<lambda>_. Some c) (List.product [0..<unat width] [0..<unat height]) v)"
  unfolding drawRectangle_def paint_def
  by (simp add: not_le [symmetric] fold_fold_product [of "\<lambda>i j. putPixel c (x + of_nat i) (y + of_nat j)"] case_prod_unfold)

lemma drawCircle_paint:
  "drawCircle c cx cy r =
     paint (\<lambda>(x, y). word_of_int x) (\<lambda>(x, y). word_of_int y)
       (\<lambda>(x, y). if (x - cx) * (x - cx) + (y - cy) * (y - cy) < r * r then Some c else None)
       (List.product [cx - r..cx + r] [cy - r..cy + r])"
proof
  fix v
  have "(\<lambda>p v. case (case p of (x, y) \<Rightarrow> if (x - cx) * (x - cx) + (y - cy) * (y - cy) < r * r then Some c else None) of
        None \<Rightarrow> v | Some d \<Rightarrow> putPixel d (case p of (x, y) \<Rightarrow> word_of_int x) (case p of (x, y) \<Rightarrow> word_of_int y) v) =
      (\<lambda>(x, y) v. if (x - cx) * (x - cx) + (y - cy) * (y - cy) < r * r then putPixel c (word_of_int x) (word_of_int y) v else v)"
    by (auto simp: fun_eq_iff)
  then show "drawCircle c cx cy r v = paint (\<lambda>(x, y). word_of_int x) (\<lambda>(x, y). word_of_int y)
       (\<lambda>(x, y). if (x - cx) * (x - cx) + (y - cy) * (y - cy) < r * r then Some c else None)
       (List.product [cx - r..cx + r] [cy - r..cy + r]) v"
    by (simp only: drawCircle_def paint_def fold_fold_product)
qed

lemma of_nat_less_u64: "(\<exists>i < unat n. a = x + of_nat i) \<longleftrightarrow> a - x < n" for n :: u64
proof
  assume "\<exists>i < unat n. a = x + of_nat i"
  then obtain i where i: "i < unat n" "a = x + of_nat i" by blast
  then have "i < 2 ^ 64" using unat_lt2p [of n] by simp
  then have "unat (a - x) = i" using i(2) eq_offset by blast
  with i(1) show "a - x < n" by (simp add: word_less_nat_alt)
next
  assume "a - x < n"
  then show "\<exists>i < unat n. a = x + of_nat i"
    by (intro exI [of _ "unat (a - x)"]) (simp add: word_less_nat_alt)
qed

lemma uint_word_of_int_small:
  assumes "- (2 ^ 62) < i" "i < 2 ^ 62" "uint (word_of_int i :: u64) < 2 ^ 62"
  shows "uint (word_of_int i :: u64) = i"
proof (cases "0 \<le> i")
  case True
  then show ?thesis using assms by (simp add: uint_word_of_int)
next
  case False
  have "i mod 2 ^ 64 = (i + 2 ^ 64) mod 2 ^ 64" by simp
  also have "\<dots> = i + 2 ^ 64" by (rule mod_pos_pos_trivial) (use False assms in auto)
  finally show ?thesis using assms by (simp add: uint_word_of_int)
qed

lemma within_uint:
  assumes "withinScreenBounds x y v"
  shows "uint x < 2 ^ 16 \<and> uint y < 2 ^ 16"
proof -
  have "unat x < 65536 \<and> unat y < 65536"
    using assms unat_lt2p [of "getScreenWidth v"] unat_lt2p [of "getScreenHeight v"] by (auto simp: within_nat)
  then show ?thesis unfolding uint_nat by (simp add: of_nat_less_iff [where 'a = int, of _ 65536, simplified] del: of_nat_unat)
qed

lemma drawRectangle_readPixel:
  assumes "screen_ok v" "opaque c" "width < 2 ^ 31" "height < 2 ^ 31"
  shows "\<exists>w. drawRectangle c x y width height v = Some w \<and> readPixel a b w =
      (if a - x < width \<and> b - y < height \<and> withinScreenBounds a b v then rgb c else readPixel a b v)"
proof -
  let ?X = "\<lambda>(i :: nat, j :: nat). x + of_nat i" and ?Y = "\<lambda>(i :: nat, j :: nat). y + of_nat j"
  let ?ps = "List.product [0..<unat width] [0..<unat height]"
  let ?G = "\<lambda>a b. if a - x < width \<and> b - y < height then Some c else None"
  have "readPixel a b (paint ?X ?Y (\<lambda>_. Some c) ?ps v) =
      (case ?G a b of Some c \<Rightarrow> if withinScreenBounds a b v then rgb c else readPixel a b v | None \<Rightarrow> readPixel a b v)"
  proof (rule paint_exact)
    show "Some c = ?G (?X p) (?Y p)" if "p \<in> set ?ps" for p
      using that unfolding of_nat_less_u64 [symmetric] by auto
    show "\<exists>p \<in> set ?ps. ?X p = a \<and> ?Y p = b" if "?G a b = Some d" for a b d
      using that unfolding of_nat_less_u64 [symmetric] by (force split: if_splits)
  qed (use assms in auto)
  then show ?thesis using assms(3,4) by (simp add: drawRectangle_paint)
qed

lemma circle_box: "\<bar>d\<bar> \<le> r" if "0 \<le> r" "d * d + e * e < r * r" for r d e :: int
proof (rule ccontr)
  assume "\<not> \<bar>d\<bar> \<le> r"
  then have "r * r \<le> \<bar>d\<bar> * \<bar>d\<bar>" using that(1) by (intro mult_mono) auto
  moreover have "0 \<le> e * e" by simp
  ultimately show False using that(2) by simp
qed

lemma drawCircle_readPixel:
  assumes "screen_ok v" "opaque c" "0 \<le> r" "r < 2 ^ 31" "\<bar>cx\<bar> < 2 ^ 31" "\<bar>cy\<bar> < 2 ^ 31"
  shows "readPixel a b (drawCircle c cx cy r v) =
      (if (uint a - cx) * (uint a - cx) + (uint b - cy) * (uint b - cy) < r * r \<and> withinScreenBounds a b v
       then rgb c else readPixel a b v)"
proof -
  let ?in = "\<lambda>x y. (x - cx) * (x - cx) + (y - cy) * (y - cy) < r * r"
  let ?X = "\<lambda>(x :: int, y :: int). word_of_int x :: u64" and ?Y = "\<lambda>(x :: int, y :: int). word_of_int y :: u64"
  let ?g = "\<lambda>(x, y). if ?in x y then Some c else None" and ?ps = "List.product [cx - r..cx + r] [cy - r..cy + r]"
  let ?G = "\<lambda>a b. if ?in (uint (a :: u64)) (uint (b :: u64)) then Some c else None"
  have "readPixel a b (paint ?X ?Y ?g ?ps v) =
      (case ?G a b of Some c \<Rightarrow> if withinScreenBounds a b v then rgb c else readPixel a b v | None \<Rightarrow> readPixel a b v)"
  proof (rule paint_exact)
    fix p assume p: "p \<in> set ?ps" and w: "withinScreenBounds (?X p) (?Y p) v"
    obtain x y where xy: "p = (x, y)" "x \<in> {cx - r..cx + r}" "y \<in> {cy - r..cy + r}" 
      by (cases p) (use p in auto)
    have "uint (word_of_int x :: u64) = x" "uint (word_of_int y :: u64) = y"
      using within_uint [OF w] xy assms by (auto intro!: uint_word_of_int_small)
    then show "?g p = ?G (?X p) (?Y p)" using xy by simp
  next
    fix a b d assume "?G a b = Some d"
    then have "\<bar>uint a - cx\<bar> \<le> r" "\<bar>uint b - cy\<bar> \<le> r"
      using circle_box [OF assms(3), of "uint a - cx" "uint b - cy"] circle_box [OF assms(3), of "uint b - cy" "uint a - cx"]
      by (auto simp: add.commute split: if_splits)
    then show "\<exists>p \<in> set ?ps. ?X p = a \<and> ?Y p = b" by (intro bexI [of _ "(uint a, uint b)"]) auto
  qed (use assms in \<open>auto split: if_splits\<close>)
  then show ?thesis by (simp add: drawCircle_paint)
qed

text \<open>The picture of a glyph: \<open>a\<close> and \<open>b\<close> range over the screen.\<close>
definition glyph_colour :: "u8 list \<Rightarrow> nat \<Rightarrow> u32 \<Rightarrow> u32 \<Rightarrow> nat \<Rightarrow> nat \<Rightarrow> u32 option" where
  "glyph_colour glyph sc fg bg row col =
     (if glyph_bit glyph (row div sc) (col div sc) then Some fg else if bg = -1 then None else Some bg)"

lemma drawSymbol_paint:
  assumes "c < 128" "0 < scale"
  shows "drawSymbol c x y fg bg scale v = Some (paint (\<lambda>(cy, cx). x + of_nat cx) (\<lambda>(cy, cx). y + of_nat cy - of_nat (12 * nat scale))
      (\<lambda>(cy, cx). glyph_colour (font ! unat c) (nat scale) fg bg cy cx)
      (List.product [0..<CHAR_HEIGHT * nat scale] [0..<CHAR_WIDTH * nat scale]) v)"
proof -
  let ?g = "font ! unat c" and ?sc = "nat scale"
  let ?put = "\<lambda>cy cx color. putPixel color (x + of_nat cx) (y + of_nat cy - of_nat (12 * ?sc))"
  have "(\<lambda>p v. case (case p of (cy, cx) \<Rightarrow> glyph_colour ?g ?sc fg bg cy cx) of None \<Rightarrow> v
        | Some d \<Rightarrow> putPixel d (case p of (cy, cx) \<Rightarrow> x + of_nat cx) (case p of (cy, cx) \<Rightarrow> y + of_nat cy - of_nat (12 * ?sc)) v) =
      (\<lambda>(cy, cx) v. if glyph_bit ?g (cy div ?sc) (cx div ?sc) then ?put cy cx fg v else if bg = -1 then v else ?put cy cx bg v)"
    by (auto simp: fun_eq_iff glyph_colour_def)
  moreover have "\<not> (c \<ge> 128 \<or> bg = -1 \<and> scale < 0)" using assms by (simp add: linorder_not_le)
  ultimately show ?thesis by (simp only: drawSymbol_def paint_def fold_fold_product Let_def if_False)
qed

lemma drawSymbol_readPixel:
  assumes "screen_ok v" "opaque fg" "opaque bg" "c < 128" "0 < scale" "scale < 2 ^ 27"
  defines "sc \<equiv> nat scale"
  shows "\<exists>w. drawSymbol c x y fg bg scale v = Some w \<and> same_mode v w \<and>
    (\<forall>a b. readPixel a b w =
       (if unat (a - x) < 8 * sc \<and> unat (b - (y - of_nat (12 * sc))) < 16 * sc \<and> withinScreenBounds a b v
        then case glyph_colour (font ! unat c) sc fg bg (unat (b - (y - of_nat (12 * sc)))) (unat (a - x)) of
               Some d \<Rightarrow> rgb d | None \<Rightarrow> readPixel a b v
        else readPixel a b v))"
proof -
  let ?y = "y - of_nat (12 * sc)" and ?g = "glyph_colour (font ! unat c) sc fg bg"
  let ?X = "\<lambda>(cy :: nat, cx :: nat). x + of_nat cx" and ?Y = "\<lambda>(cy :: nat, cx :: nat). y + of_nat cy - of_nat (12 * sc)"
  let ?ps = "List.product [0..<16 * sc] [0..<8 * sc]"
  let ?G = "\<lambda>a b. if unat (a - x) < 8 * sc \<and> unat (b - ?y) < 16 * sc then ?g (unat (b - ?y)) (unat (a - x)) else None"
  have sc: "16 * sc < 2 ^ 64" "0 < sc" using assms by auto
  have "readPixel a b (paint ?X ?Y (\<lambda>(cy, cx). ?g cy cx) ?ps v) =
      (case ?G a b of Some c \<Rightarrow> if withinScreenBounds a b v then rgb c else readPixel a b v | None \<Rightarrow> readPixel a b v)" for a b
  proof (rule paint_exact)
    fix p assume p: "p \<in> set ?ps"
    obtain cy cx where q: "p = (cy, cx)" "cy < 16 * sc" "cx < 8 * sc" by (cases p) (use p in auto)
    have "unat (?X p - x) = cx" "unat (?Y p - ?y) = cy" using q sc by (simp_all add: unat_of_nat)
    then show "(case p of (cy, cx) \<Rightarrow> ?g cy cx) = ?G (?X p) (?Y p)" using q by simp
  next
    fix a b d assume "?G a b = Some d"
    then show "\<exists>p \<in> set ?ps. ?X p = a \<and> ?Y p = b"
      by (intro bexI [of _ "(unat (b - ?y), unat (a - x))"]) (auto split: if_splits)
  qed (use assms in \<open>auto simp: glyph_colour_def split: if_splits\<close>)
  then show ?thesis
    using drawSymbol_paint [OF assms(4,5), of x y fg bg v]
    by (intro exI [of _ "paint ?X ?Y (\<lambda>(cy, cx). ?g cy cx) ?ps v"])
      (auto simp: paint_mode sc_def CHAR_HEIGHT_def CHAR_WIDTH_def split: option.split)
qed

section \<open>Scrolling moves the picture\<close>

lemma rgb_of_readPixel [simp]: "rgb (readPixel x y v) = readPixel x y v" "opaque (readPixel x y v)"
proof -
  have m: "(0xFFFFFF :: u32) = mask 24" "(0xFF :: u32) = mask 8" by (simp_all add: mask_eq_exp_minus_1)
  have "rgb (rgb_at m a) = rgb_at m a" for m a
    unfolding rgb_def rgb_at_def m by (rule bit_word_eqI) (auto simp: bit_simps dest: bit_imp_le_length)
  moreover have "drop_bit 24 (rgb_at m a) = 0" for m a
    unfolding rgb_at_def by (rule bit_word_eqI) (auto simp: bit_simps dest: bit_imp_le_length)
  ultimately show "rgb (readPixel x y v) = readPixel x y v" "opaque (readPixel x y v)"
    by (simp_all add: readPixel_def opaque_def rgb_def)
qed

text \<open>One row in the auxiliary buffer.\<close>
lemma scroll_aux_row:
  assumes "screen_ok v" "k \<le> unat (getScreenWidth v)" "0 < n" "y + n < unat (getScreenHeight v)"
  defines "w \<equiv> fold (\<lambda>x v. putPixel (readPixel (of_nat x) (of_nat (y + n)) v) (of_nat x) (of_nat y) v) [0..<k] v"
  shows "same_mode v w \<and> (\<forall>a b. readPixel a b w =
      (if unat b = y \<and> unat a < k then readPixel a (of_nat (y + n)) v else readPixel a b v))"
  unfolding w_def using assms(2)
proof (induction k)
  case (Suc k)
  let ?w = "fold (\<lambda>x v. putPixel (readPixel (of_nat x) (of_nat (y + n)) v) (of_nat x) (of_nat y) v) [0..<k] v"
  have small: "k < 2 ^ 64" "y < 2 ^ 64" "y + n < 2 ^ 64" "k < unat (getScreenWidth v)"
    using Suc.prems assms(4) unat_lt2p [of "getScreenWidth v"] unat_lt2p [of "getScreenHeight v"] by auto
  have u: "unat (of_nat k :: u64) = k" "unat (of_nat y :: u64) = y" "unat (of_nat (y + n) :: u64) = y + n"
    using small by (simp_all only: unat_of_nat_u64)
  have IH: "same_mode v ?w" "\<And>a b. readPixel a b ?w =
      (if unat b = y \<and> unat a < k then readPixel a (of_nat (y + n)) v else readPixel a b v)"
    using Suc by simp_all
  have ok: "screen_ok ?w" and win: "withinScreenBounds (of_nat k) (of_nat y) ?w"
    using assms small IH(1) u by (simp_all add: same_mode_eqs within_nat [of "of_nat k"])
  have src: "readPixel (of_nat k) (of_nat (y + n)) ?w = readPixel (of_nat k) (of_nat (y + n)) v"
    using IH(2) u assms(3) by simp
  have eq: "a = of_nat k \<longleftrightarrow> unat a = k" "b = of_nat y \<longleftrightarrow> unat b = y" for a b :: u64
    using u by (metis word_unat_eq_iff)+
  show ?case
    using IH readPixel_putPixel [OF ok] win by (auto simp: src eq less_Suc_eq)
qed simp

text \<open>The rows in order: a row is read before it is overwritten.\<close>
lemma scroll_aux_rows:
  assumes "screen_ok v" "0 < n" "K + n \<le> unat (getScreenHeight v)"
  defines "w \<equiv> fold (\<lambda>y. fold (\<lambda>x v. putPixel (readPixel (of_nat x) (of_nat (y + n)) v) (of_nat x) (of_nat y) v)
      [0..<unat (getScreenWidth v)]) [0..<K] v"
  shows "same_mode v w \<and> (\<forall>a b. unat a < unat (getScreenWidth v) \<longrightarrow> readPixel a b w =
      (if unat b < K then readPixel a (of_nat (unat b + n)) v else readPixel a b v))"
  unfolding w_def using assms(3)
proof (induction K)
  case (Suc K)
  let ?W = "unat (getScreenWidth v)"
  let ?row = "\<lambda>y. fold (\<lambda>x v. putPixel (readPixel (of_nat x) (of_nat (y + n)) v) (of_nat x) (of_nat y) v) [0..<?W]"
  let ?w = "fold ?row [0..<K] v"
  have IH: "same_mode v ?w" "\<And>a b. unat a < ?W \<Longrightarrow> readPixel a b ?w =
      (if unat b < K then readPixel a (of_nat (unat b + n)) v else readPixel a b v)"
    using Suc by simp_all
  have "K + n < 2 ^ 64" using Suc.prems unat_lt2p [of "getScreenHeight v"] by simp
  then have u: "unat (of_nat (K + n) :: u64) = K + n" by (rule unat_of_nat_u64)
  have row: "same_mode ?w (?row K ?w)" "\<And>a b. readPixel a b (?row K ?w) =
      (if unat b = K \<and> unat a < ?W then readPixel a (of_nat (K + n)) ?w else readPixel a b ?w)"
    using scroll_aux_row [of ?w ?W n K] assms(1,2) Suc.prems IH(1) by (simp_all add: same_mode_eqs)
  have "same_mode v (?row K ?w)" using IH(1) row(1) by (simp add: same_mode_def)
  then show ?case using IH(2) row(2) u assms(2) by (auto simp: less_Suc_eq)
qed simp

text \<open>One row of bytes in the frame buffer, copied downwards in memory.\<close>
lemma copy_row_at:
  assumes "D + L \<le> S" "S + L < 2 ^ 64" "k < 2 ^ 64"
  shows "copy_row (fb + of_nat D) (fb + of_nat S) L m (fb + of_nat k) =
    (if D \<le> k \<and> k < D + L then m (fb + of_nat (S + (k - D))) else m (fb + of_nat k))"
  using assms
proof (induction L arbitrary: k)
  case (Suc L)
  have ne: "S + L < 2 ^ 64" "D + L < 2 ^ 64" using Suc.prems by auto
  have "copy_row (fb + of_nat D) (fb + of_nat S) L m (fb + of_nat (S + L)) = m (fb + of_nat (S + L))"
    using Suc.IH [of "S + L"] Suc.prems by simp
  then have "copy_row (fb + of_nat D) (fb + of_nat S) (Suc L) m =
      (copy_row (fb + of_nat D) (fb + of_nat S) L m)(fb + of_nat (D + L) := m (fb + of_nat (S + L)))"
    by (simp add: copy_row_def add.assoc)
  moreover have "fb + of_nat k = fb + of_nat (D + L) \<longleftrightarrow> k = D + L"
    using of_nat_u64_inj [of k "D + L"] ne Suc.prems(3) by simp
  ultimately show ?case using Suc by auto
qed (auto simp: copy_row_def)

lemma row_of_offset:
  fixes i L P y K :: nat
  assumes "i < L" "L \<le> P"
  shows "K * P \<le> y * P + i \<and> y * P + i < K * P + L \<longleftrightarrow> y = K"
proof -
  consider "y = K" | "Suc y \<le> K" | "Suc K \<le> y" by linarith
  then show ?thesis
  proof cases
    case 2
    then have "Suc y * P \<le> K * P" by (rule mult_le_mono1)
    then show ?thesis using 2 assms by simp
  next
    case 3
    then have "Suc K * P \<le> y * P" by (rule mult_le_mono1)
    then show ?thesis using 3 assms by simp
  qed (use assms in simp)
qed

lemma copy_rows_at:
  assumes "L \<le> P" "0 < n" "(K + n) * P < 2 ^ 64" "i < L" "y * P + i < 2 ^ 64"
  shows "fold (\<lambda>dst. copy_row (fb + of_nat (dst * P)) (fb + of_nat ((dst + n) * P)) L) [0..<K] m (fb + of_nat (y * P + i)) =
    (if y < K then m (fb + of_nat ((y + n) * P + i)) else m (fb + of_nat (y * P + i)))"
  using assms(3,5)
proof (induction K arbitrary: y)
  case (Suc K)
  let ?m = "fold (\<lambda>dst. copy_row (fb + of_nat (dst * P)) (fb + of_nat ((dst + n) * P)) L) [0..<K] m"
  have le: "(K + n) * P + P < 2 ^ 64" "K * P + P \<le> (K + n) * P"
    using Suc.prems(1) assms(2) by (simp_all add: algebra_simps)
  have "copy_row (fb + of_nat (K * P)) (fb + of_nat ((K + n) * P)) L ?m (fb + of_nat (y * P + i)) =
      (if y = K then ?m (fb + of_nat ((K + n) * P + i)) else ?m (fb + of_nat (y * P + i)))"
    using copy_row_at [of "K * P" L "(K + n) * P" "y * P + i" fb ?m] le assms(1) Suc.prems(2) row_of_offset [OF assms(4,1), of K y]
    by auto
  moreover have "?m (fb + of_nat ((K + n) * P + i)) = m (fb + of_nat ((K + n) * P + i))"
    using Suc.IH [of "K + n"] le assms by simp
  moreover have "?m (fb + of_nat (y * P + i)) =
      (if y < K then m (fb + of_nat ((y + n) * P + i)) else m (fb + of_nat (y * P + i)))"
    using Suc.IH [of y] le Suc.prems(2) by simp
  ultimately show ?case by (auto simp: less_Suc_eq)
qed simp

text \<open>The frame buffer: the same picture as in the auxiliary buffer.\<close>
lemma copy_rows_readPixel:
  assumes ok: "screen_ok v" and fbuf: "auxFramebuffer v = 0" and n: "0 < n" and K: "K + n \<le> unat (getScreenHeight v)"
    and w: "withinScreenBounds a b v"
  defines "P \<equiv> unat (vbe_pitch (vbe v))" and "fb \<equiv> ucast (vbe_framebuffer (vbe v)) :: u64"
  defines "m \<equiv> fold (\<lambda>dst. copy_row (fb + of_nat (dst * P)) (fb + of_nat ((dst + n) * P)) (unat (getScreenWidth v) * 3)) [0..<K] (vmem v)"
  shows "readPixel a b (v\<lparr>vmem := m\<rparr>) = (if unat b < K then readPixel a (of_nat (unat b + n)) v else readPixel a b v)"
proof -
  let ?x = "unat a" and ?y = "unat b" and ?L = "unat (getScreenWidth v) * 3"
  have P: "P < 2 ^ 16" "?L \<le> P" and h: "unat (getScreenHeight v) < 2 ^ 16"
    using width_stride [OF ok] fbuf unat_lt2p [of "vbe_pitch (vbe v)"] unat_lt2p [of "getScreenHeight v"]
    by (simp_all add: P_def stride_def)
  have big: "y * P < 2 ^ 32" if "y < 2 ^ 16" for y
    using that P mult_strict_mono [of y "2 ^ 16" P "2 ^ 16"] by simp
  have xy: "?x < unat (getScreenWidth v)" "?y < unat (getScreenHeight v)" using w by (simp_all add: within_nat)
  have byte: "m (fb + of_nat (?y * P + i)) = (if ?y < K then vmem v (fb + of_nat ((?y + n) * P + i)) else vmem v (fb + of_nat (?y * P + i)))"
    if "i < ?L" for i
    unfolding m_def using that P n K h xy big [of "K + n"] big [of ?y] by (intro copy_rows_at) auto
  have at: "rgb_at M (fb + of_nat (3 * ?x + y * P)) = ucast (M (fb + of_nat (y * P + 3 * ?x))) OR
      push_bit 8 (ucast (M (fb + of_nat (y * P + (3 * ?x + 1))))) OR push_bit 16 (ucast (M (fb + of_nat (y * P + (3 * ?x + 2)))))" for M y
    by (simp add: rgb_at_def ac_simps)
  have read: "readPixel a (of_nat y) (v\<lparr>vmem := M\<rparr>) = rgb_at M (fb + of_nat (3 * ?x + y * P))"
    if "y < unat (getScreenHeight v)" for y M
  proof -
    have "unat (of_nat y :: u64) = y" using that h by (intro unat_of_nat_u64) simp
    then show ?thesis using ok xy that fbuf
      by (simp add: readPixel_def within_nat getVideoOffset_of_nat getFrameBuffer_def pixel_offset_def stride_def P_def fb_def)
  qed
  have v: "v\<lparr>vmem := vmem v\<rparr> = v" by simp
  have b: "of_nat ?y = b" by simp
  show ?thesis
  proof (cases "?y < K")
    case True
    then have "?y + n < unat (getScreenHeight v)" using K by simp
    then show ?thesis
      using True read [OF xy(2), of m] read [of "?y + n" "vmem v"] byte [of "3 * ?x"] byte [of "3 * ?x + 1"] byte [of "3 * ?x + 2"] xy
      unfolding v b by (simp add: at del: of_nat_add of_nat_mult)
  next
    case False
    then show ?thesis
      using read [OF xy(2), of m] read [OF xy(2), of "vmem v"] byte [of "3 * ?x"] byte [of "3 * ?x + 1"] byte [of "3 * ?x + 2"] xy
      unfolding v b by (simp add: at del: of_nat_add of_nat_mult)
  qed
qed

text \<open>Storing the bytes of a colour is painting it opaque.\<close>
lemma store_putPixel:
  assumes "withinScreenBounds x y v"
  shows "v\<lparr>vmem := store_rgb (getFrameBuffer v + getVideoOffset x y v) c (vmem v)\<rparr> = putPixel (rgb c) x y v"
proof -
  have m: "(0xFFFFFF :: u32) = mask 24" by (simp add: mask_eq_exp_minus_1)
  have z: "drop_bit 24 (rgb c) = 0" unfolding rgb_def m by (rule bit_word_eqI) (auto simp: bit_simps)
  have r: "rgb (rgb c) = rgb c" by (simp add: rgb_def and.assoc)
  have "store_rgb a (rgb c) m = store_rgb a c m" for a m
    unfolding store_rgb_def byte_and_FF rgb_def m
    by (intro arg_cong3 [where f = "\<lambda>p q r. m(a := p, a + 1 := q, a + 2 := r)"]; rule bit_word_eqI) (auto simp: bit_simps)
  then show ?thesis
    using assms z r by (simp add: putPixel_def blendPixel_def alphaBlend_def flip: rgb_def)
qed

lemma opaque_rgb [simp]: "opaque (rgb c)" "rgb (rgb c) = rgb c"
proof -
  have m: "(0xFFFFFF :: u32) = mask 24" by (simp add: mask_eq_exp_minus_1)
  have "drop_bit 24 (rgb c) = 0" unfolding rgb_def m by (rule bit_word_eqI) (auto simp: bit_simps)
  then show "opaque (rgb c)" by (simp add: opaque_def)
qed (simp add: rgb_def and.assoc)

lemma fill_rows_paint:
  assumes ok: "screen_ok v" and fbuf: "auxFramebuffer v = 0"
    and ps: "\<forall>(y, x) \<in> set ps. y < unat (getScreenHeight v) \<and> x < unat (getScreenWidth v)"
  shows "v\<lparr>vmem := fold (\<lambda>(y, x). store_rgb (ucast (vbe_framebuffer (vbe v)) + of_nat (y * unat (vbe_pitch (vbe v))) + of_nat (x * 3)) c) ps (vmem v)\<rparr> =
    paint (\<lambda>(y, x). of_nat x) (\<lambda>(y, x). of_nat y) (\<lambda>_. Some (rgb c)) ps v"
  using ps
proof (induction ps rule: rev_induct)
  case (snoc p ps)
  obtain y x where p: "p = (y, x)" by (cases p)
  let ?w = "paint (\<lambda>(y, x). of_nat x) (\<lambda>(y, x). of_nat y) (\<lambda>_. Some (rgb c)) ps v"
  have m: "same_mode v ?w" by (simp add: paint_mode)
  have "y < unat (getScreenHeight v)" "x < unat (getScreenWidth v)" using snoc.prems p by auto
  moreover from this have u: "unat (of_nat y :: u64) = y" "unat (of_nat x :: u64) = x"
    using unat_lt2p [of "getScreenHeight v"] unat_lt2p [of "getScreenWidth v"] by (auto intro!: unat_of_nat_u64)
  ultimately have w: "withinScreenBounds (of_nat x) (of_nat y) ?w" using m by (simp add: within_nat same_mode_eqs)
  have a: "getFrameBuffer ?w + getVideoOffset (of_nat x) (of_nat y) ?w =
      ucast (vbe_framebuffer (vbe v)) + of_nat (y * unat (vbe_pitch (vbe v))) + of_nat (x * 3)"
  proof -
    have "getFrameBuffer ?w = getFrameBuffer v" "getVideoOffset (of_nat x) (of_nat y) ?w = getVideoOffset (of_nat x) (of_nat y) v"
      using m by (simp_all add: same_mode_def getFrameBuffer_def getVideoOffset_def)
    then show ?thesis using ok fbuf u by (simp add: getVideoOffset_of_nat getFrameBuffer_def pixel_offset_def stride_def)
  qed
  let ?f = "fold (\<lambda>(y, x). store_rgb (ucast (vbe_framebuffer (vbe v)) + of_nat (y * unat (vbe_pitch (vbe v))) + of_nat (x * 3)) c) ps (vmem v)"
  have IH: "?w = v\<lparr>vmem := ?f\<rparr>" using snoc.IH snoc.prems by simp
  have "v\<lparr>vmem := store_rgb (ucast (vbe_framebuffer (vbe v)) + of_nat (y * unat (vbe_pitch (vbe v))) + of_nat (x * 3)) c ?f\<rparr> =
      ?w\<lparr>vmem := store_rgb (getFrameBuffer ?w + getVideoOffset (of_nat x) (of_nat y) ?w) c (vmem ?w)\<rparr>"
    unfolding a by (simp add: IH)
  also have "\<dots> = putPixel (rgb c) (of_nat x) (of_nat y) ?w" by (rule store_putPixel [OF w])
  finally show ?case by (simp add: p paint_snoc)
qed simp

lemma fill_readPixel:
  assumes "screen_ok v" "n < unat (getScreenHeight v)"
  defines "h \<equiv> unat (getScreenHeight v)"
  shows "readPixel a b (paint (\<lambda>(y, x). of_nat x) (\<lambda>(y, x). of_nat y) (\<lambda>_. Some c)
      (List.product [h - n..<h] [0..<unat (getScreenWidth v)]) v) =
    (if withinScreenBounds a b v \<and> h - n \<le> unat b then drawn_over c (readPixel a b v) else readPixel a b v)"
proof -
  let ?W = "unat (getScreenWidth v)"
  let ?X = "\<lambda>(y :: nat, x :: nat). of_nat x :: u64" and ?Y = "\<lambda>(y :: nat, x :: nat). of_nat y :: u64"
  let ?ps = "List.product [h - n..<h] [0..<?W]" and ?v = "paint ?X ?Y (\<lambda>_. Some c) (List.product [h - n..<h] [0..<?W]) v"
  have small: "unat (of_nat x :: u64) = x" if "x < h \<or> x < ?W" for x
    using that unat_lt2p [of "getScreenHeight v"] unat_lt2p [of "getScreenWidth v"] by (intro unat_of_nat_u64) (auto simp: h_def)
  show ?thesis
  proof (cases "withinScreenBounds a b v")
    case out: False
    then have "\<not> withinScreenBounds a b ?v"
      using same_mode_eqs(2) [OF iffD2 [OF paint_mode [of v] same_mode_refl]] by blast
    then show ?thesis using out by (simp add: readPixel_def)
  next
    case w: True
    then have ab: "unat a < ?W" "unat b < h" by (simp_all add: within_nat h_def)
    show ?thesis
    proof (cases "h - n \<le> unat b")
      case True
      have "inj_on (\<lambda>p. (?X p, ?Y p)) (set ?ps)"
      proof (rule inj_onI)
        fix p q assume p: "p \<in> set ?ps" "q \<in> set ?ps" and eq: "(?X p, ?Y p) = (?X q, ?Y q)"
        obtain y x y' x' where pq: "p = (y, x)" "q = (y', x')" by (cases p, cases q)
        then have "y < h" "x < ?W" "y' < h" "x' < ?W" using p by auto
        moreover have "(of_nat x :: u64) = of_nat x'" "(of_nat y :: u64) = of_nat y'" using eq pq by simp_all
        ultimately show "p = q" using pq small by (metis)
      qed
      then have d: "distinct (map (\<lambda>p. (?X p, ?Y p)) ?ps)" by (simp add: distinct_map distinct_product)
      have "(unat b, unat a) \<in> set ?ps" using True ab by simp
      from paint_once [OF assms(1) d this, of c] w True show ?thesis by simp
    next
      case False
      have "readPixel a b ?v = readPixel a b v"
      proof (rule paint_elsewhere [OF assms(1)])
        fix p assume "p \<in> set ?ps"
        then obtain y x where p: "p = (y, x)" "h - n \<le> y" "y < h" by force
        then have "unat (?Y p) = y" using small by simp
        then have "?Y p \<noteq> b" using p(2) False by auto
        then show "(?X p, ?Y p) \<noteq> (a, b)" by simp
      qed
      then show ?thesis using False by simp
    qed
  qed
qed

text \<open>C29. Scrolling by \<open>n\<close> rows moves the picture up, whether the screen is the frame buffer or the auxiliary
  buffer: afterwards the pixel at \<open>(a, b)\<close> is the one that was \<open>n\<close> rows below it, and the freed rows
  at the bottom have the fill colour in the frame buffer, while in the auxiliary buffer, where they are drawn
  with \<^verbatim>\<open>putPixel\<close>, each of them shows the fill colour drawn over what it showed before, which is the fill
  colour when that is opaque.  No row is overwritten before it has been copied.  A scroll by
  nothing or by the whole screen does nothing.\<close>
theorem scrollUp_exact:
  assumes ok: "screen_ok v" and w: "withinScreenBounds a b v"
  shows "readPixel a b (scrollUp n c v) =
    (if n = 0 \<or> unat n \<ge> unat (getScreenHeight v) then readPixel a b v
     else if unat b + unat n < unat (getScreenHeight v) then readPixel a (b + n) v
     else if auxFramebuffer v = 0 then rgb c else drawn_over c (readPixel a b v))"
proof (cases "n = 0 \<or> unat n \<ge> unat (getScreenHeight v)")
  case False
  let ?h = "unat (getScreenHeight v)" and ?W = "unat (getScreenWidth v)" and ?n = "unat n"
  have n: "0 < ?n" "?n < ?h" using False by (auto simp: unat_gt_0)
  have xy: "unat a < ?W" "unat b < ?h" using w by (simp_all add: within_nat)
  show ?thesis
  proof (cases "auxFramebuffer v = 0")
    case True
    have bpp: "unat (vbe_bpp (vbe v)) div 8 = 3" using ok True by (simp add: screen_ok_def)
    let ?P = "unat (vbe_pitch (vbe v))" and ?fb = "ucast (vbe_framebuffer (vbe v)) :: u64"
    let ?m = "fold (\<lambda>dst. copy_row (?fb + of_nat (dst * ?P)) (?fb + of_nat ((dst + ?n) * ?P)) (?W * 3)) [0..<?h - ?n] (vmem v)"
    let ?v = "v\<lparr>vmem := ?m\<rparr>" and ?ps = "List.product [?h - ?n..<?h] [0..<?W]"
    have "scrollUp n c v = ?v\<lparr>vmem := fold (\<lambda>(y, x). store_rgb (?fb + of_nat (y * ?P) + of_nat (x * 3)) c) ?ps (vmem ?v)\<rparr>"
      using False True bpp by (simp add: scrollUp_def Let_def fill_row_def fold_fold_product del: of_nat_mult of_nat_add)
    also have "\<dots> = paint (\<lambda>(y, x). of_nat x) (\<lambda>(y, x). of_nat y) (\<lambda>_. Some (rgb c)) ?ps ?v"
      using fill_rows_paint [of ?v ?ps c] ok True by (simp del: of_nat_mult of_nat_add)
    finally have s: "scrollUp n c v = paint (\<lambda>(y, x). of_nat x) (\<lambda>(y, x). of_nat y) (\<lambda>_. Some (rgb c)) ?ps ?v" .
    have "readPixel a b (scrollUp n c v) = (if ?h - ?n \<le> unat b then rgb c else readPixel a b ?v)"
      using fill_readPixel [of ?v ?n a b "rgb c"] ok w n by (simp add: s drawn_over_opaque)
    moreover have "readPixel a b ?v = (if unat b < ?h - ?n then readPixel a (of_nat (unat b + ?n)) v else readPixel a b v)"
      using copy_rows_readPixel [OF ok True n(1) _ w, of "?h - ?n"] n by simp
    ultimately show ?thesis using False n True by auto
  next
    case aux: False
    let ?v = "fold (\<lambda>y. fold (\<lambda>x v. putPixel (readPixel (of_nat x) (of_nat (y + ?n)) v) (of_nat x) (of_nat y) v) [0..<?W]) [0..<?h - ?n] v"
    have m: "same_mode v ?v" and r: "readPixel a b ?v = (if unat b < ?h - ?n then readPixel a (of_nat (unat b + ?n)) v else readPixel a b v)"
      using scroll_aux_rows [OF ok n(1), of "?h - ?n"] n xy by simp_all
    have "scrollUp n c v = paint (\<lambda>(y, x). of_nat x) (\<lambda>(y, x). of_nat y) (\<lambda>_. Some c) (List.product [?h - ?n..<?h] [0..<?W]) ?v"
      using False aux by (simp add: scrollUp_def scroll_aux_def Let_def paint_def fold_fold_product case_prod_unfold)
    then have "readPixel a b (scrollUp n c v) = (if ?h - ?n \<le> unat b then drawn_over c (readPixel a b ?v) else readPixel a b ?v)"
      using fill_readPixel [of ?v ?n a b c] ok w n m by (simp add: same_mode_eqs)
    then show ?thesis using False n r aux by auto
  qed
qed (auto simp: scrollUp_def Let_def)

text \<open>A small screen of 16 by 20 pixels with a red pixel at \<open>(3, 7)\<close>.\<close>
definition demo_video :: video where
  "demo_video = \<lparr>vbe = \<lparr>vbe_pitch = 48, vbe_width = 16, vbe_height = 20, vbe_bpp = 24, vbe_framebuffer = 0x1000\<rparr>,
     auxFramebuffer = 0, auxBuffWidth = 0, auxBuffHeight = 0, vmem = (\<lambda>_. 0)(0x1000 + 7 * 48 + 3 * 3 + 2 := 0xFF)\<rparr>"

lemma demo_video_ok: "screen_ok demo_video" "x < 16 \<Longrightarrow> y < 20 \<Longrightarrow> withinScreenBounds x y demo_video"
  by (simp_all add: demo_video_def screen_ok_def withinScreenBounds_def getScreenWidth_def getScreenHeight_def)

lemma demo_video_red: "readPixel 3 7 demo_video = 0xFF0000"
  by (simp add: readPixel_def demo_video_ok rgb_at_def) (simp add: demo_video_def getFrameBuffer_def getVideoOffset_def)

theorem scrollUp_exact_witness: "readPixel 3 5 (scrollUp 2 0x00FF00 demo_video) = 0xFF0000 \<and> readPixel 3 18 (scrollUp 2 0x00FF00 demo_video) = 0x00FF00"
proof -
  have h: "unat (getScreenHeight demo_video) = 20" by (simp add: demo_video_def getScreenHeight_def)
  have "auxFramebuffer demo_video = 0" by (simp add: demo_video_def)
  then show ?thesis
    using scrollUp_exact [of demo_video 3 5 2 "0x00FF00"] scrollUp_exact [of demo_video 3 18 2 "0x00FF00"]
    by (simp add: demo_video_ok demo_video_red h rgb_def)
qed

text \<open>C30. In an opaque colour a filled rectangle with sides below \<open>2 ^ 31\<close>, the range of the loop counters,
  sets every pixel of the screen inside it and no other pixel, also when parts of it lie outside the screen: coordinates are compared modulo \<open>2^64\<close>, so a
  corner left of or above the screen is a wrapped negative number.  A filled circle sets the pixels
  closer to the centre than the radius.  A symbol shows its glyph, every dot as a square of the scale,
  in the box that starts twelve scaled rows above \<open>y\<close>, and leaves the background under it when the
  background colour is \<open>-1\<close>; the centre and the radius are below \<open>2 ^ 31\<close> and the scale between 1 and
  \<open>2 ^ 27\<close>, so that no counter of these loops overflows either.\<close>
theorem shapes_exact:
  assumes "screen_ok v" "opaque c" "opaque bg"
    and "0 \<le> r" "r < 2 ^ 31" "\<bar>cx\<bar> < 2 ^ 31" "\<bar>cy\<bar> < 2 ^ 31" and "s < 128" "0 < scale" "scale < 2 ^ 27"
    and "width < 2 ^ 31" "height < 2 ^ 31"
  shows "(\<exists>w. drawRectangle c x y width height v = Some w \<and> readPixel a b w =
      (if a - x < width \<and> b - y < height \<and> withinScreenBounds a b v then rgb c else readPixel a b v))
    \<and> readPixel a b (drawCircle c cx cy r v) =
      (if (uint a - cx) * (uint a - cx) + (uint b - cy) * (uint b - cy) < r * r \<and> withinScreenBounds a b v
       then rgb c else readPixel a b v)
    \<and> (\<exists>w. drawSymbol s x y c bg scale v = Some w \<and> readPixel a b w =
       (if unat (a - x) < 8 * nat scale \<and> unat (b - (y - of_nat (12 * nat scale))) < 16 * nat scale \<and> withinScreenBounds a b v
        then if glyph_bit (font ! unat s) (unat (b - (y - of_nat (12 * nat scale))) div nat scale) (unat (a - x) div nat scale) then rgb c
          else if bg = -1 then readPixel a b v else rgb bg
        else readPixel a b v))"
proof (intro conjI)
  show "\<exists>w. drawSymbol s x y c bg scale v = Some w \<and> readPixel a b w =
       (if unat (a - x) < 8 * nat scale \<and> unat (b - (y - of_nat (12 * nat scale))) < 16 * nat scale \<and> withinScreenBounds a b v
        then if glyph_bit (font ! unat s) (unat (b - (y - of_nat (12 * nat scale))) div nat scale) (unat (a - x) div nat scale) then rgb c
          else if bg = -1 then readPixel a b v else rgb bg
        else readPixel a b v)"
  proof -
    obtain w where "drawSymbol s x y c bg scale v = Some w" and r: "\<And>a b. readPixel a b w =
       (if unat (a - x) < 8 * nat scale \<and> unat (b - (y - of_nat (12 * nat scale))) < 16 * nat scale \<and> withinScreenBounds a b v
        then case glyph_colour (font ! unat s) (nat scale) c bg (unat (b - (y - of_nat (12 * nat scale)))) (unat (a - x)) of
               Some d \<Rightarrow> rgb d | None \<Rightarrow> readPixel a b v
        else readPixel a b v)"
      using drawSymbol_readPixel [OF assms(1,2,3,8,9,10), of x y] by blast
    then show ?thesis by (intro exI [of _ w]) (simp only: r [of a b] glyph_colour_def, simp)
  qed
qed (use assms in \<open>auto simp: drawRectangle_readPixel drawCircle_readPixel\<close>)

lemma glyph_A: "glyph_bit (font ! 65) 2 3"
proof -
  have "font ! 65 ! 2 = 16" by code_simp
  then show ?thesis by (simp add: glyph_bit_def)
qed

theorem shapes_exact_witness:
  "(\<exists>w. drawRectangle 0x0000FF (-1) 0 4 2 demo_video = Some w \<and> readPixel 2 1 w = 0x0000FF)
   \<and> readPixel 3 7 (drawCircle 0x0000FF 10 7 7 demo_video) = 0xFF0000
   \<and> (\<exists>w. drawSymbol 65 0 12 0x0000FF 0 1 demo_video = Some w \<and> readPixel 3 2 w = 0x0000FF)"
  using shapes_exact [of demo_video "0x0000FF" 0 7 10 7 65 1 4 2 "-1" 0 2 1]
    shapes_exact [of demo_video "0x0000FF" 0 7 10 7 65 1 4 2 "-1" 0 3 7]
    shapes_exact [of demo_video "0x0000FF" 0 7 10 7 65 1 4 2 0 12 3 2]
  by (simp add: demo_video_ok demo_video_red rgb_def opaque_def glyph_A)

end
