(* ===== verification/KPipeLife.thy ===== *)
theory KPipeLife
  imports KPipeFlow KLifecycle
begin

text \<open>
  Making and destroying pipes and file accesses: what \<^verbatim>\<open>newPipe\<close>, \<^verbatim>\<open>freePipe\<close>, \<^verbatim>\<open>newFileAccess\<close> and
  \<^verbatim>\<open>freeFileAccess\<close> do to the kernel's heap, on the paths where a request for memory is refused too.
  The live blocks of the memory manager are followed exactly, so that a path that forgets to give a
  block back shows.
\<close>

section \<open>Semaphores in a row\<close>

fun new_sems :: "'m mm_ops \<Rightarrow> int list \<Rightarrow> 'm kst \<Rightarrow> ('m kst \<times> u64 list) option" where
  "new_sems mm [] s = Some (s, [])"
| "new_sems mm (v # vs) s = do {
     (s, a) \<leftarrow> newSemaphore mm v s; (s, as) \<leftarrow> new_sems mm vs s; Some (s, a # as) }"

fun free_sems :: "'m mm_ops \<Rightarrow> u64 list \<Rightarrow> 'm kst \<Rightarrow> 'm kst option" where
  "free_sems mm [] s = Some s"
| "free_sems mm (a # as) s = do { s \<leftarrow> freeSemaphore mm a s; free_sems mm as s }"

text \<open>The blocks of a semaphore, and a semaphore nobody waits for.\<close>
definition sem_foot :: "(u64 \<rightharpoonup> semCDT) \<Rightarrow> u64 \<Rightarrow> u64 set" where
  "sem_foot f a = (case f a of None \<Rightarrow> {} | Some c \<Rightarrow> {a, kq_self (sem_blockedQueue c)})"

definition sem_idle :: "semCDT \<Rightarrow> bool" where
  "sem_idle c \<longleftrightarrow> kq_nodes (sem_blockedQueue c) = [] \<and> \<not> sem_lock c"

definition sems_idle :: "u64 list \<Rightarrow> (u64 \<rightharpoonup> semCDT) \<Rightarrow> bool" where
  "sems_idle as f \<longleftrightarrow> distinct (filter (\<lambda>a. a \<noteq> 0) as) \<and> (\<forall>a \<in> set as. a \<noteq> 0 \<longrightarrow> (\<exists>c. f a = Some c \<and> sem_idle c))"

abbreviation foots :: "u64 list \<Rightarrow> (u64 \<rightharpoonup> semCDT) \<Rightarrow> u64 set" where
  "foots as f \<equiv> (\<Union>a \<in> set as. sem_foot f a)"

lemma newSemaphore_pipes: "newSemaphore mm v (s\<lparr>pipes := P\<rparr>) = map_option (\<lambda>(s, a). (s\<lparr>pipes := P\<rparr>, a)) (newSemaphore mm v s)"
  by (auto simp: newSemaphore_def split: option.splits bind_split)

lemma freeSemaphore_pipes: "freeSemaphore mm a (s\<lparr>pipes := P\<rparr>) = map_option (\<lambda>s. s\<lparr>pipes := P\<rparr>) (freeSemaphore mm a s)"
  by (auto simp: freeSemaphore_def sem_acquire_def sem_release_def on_sem_def split: option.splits bind_split)

lemma new_sems_pipes: "new_sems mm vs (s\<lparr>pipes := P\<rparr>) = map_option (\<lambda>(s, as). (s\<lparr>pipes := P\<rparr>, as)) (new_sems mm vs s)"
  by (induction vs arbitrary: s) (auto simp: newSemaphore_pipes split: bind_split)

lemma free_sems_pipes: "free_sems mm as (s\<lparr>pipes := P\<rparr>) = map_option (\<lambda>s. s\<lparr>pipes := P\<rparr>) (free_sems mm as s)"
  by (induction as arbitrary: s) (auto simp: freeSemaphore_pipes split: bind_split)

lemma kmem_ok_null:
  assumes "kmem_ok minv mblocks mlimit s"
  shows "sems s 0 = None" "pipes s 0 = None" "files s 0 = None"
proof -
  have "0 \<notin> set (owned s x)" for x using assms by (auto simp: kmem_ok_def own_ok_def)
  from this [of "OSem 0"] this [of "OPipe 0"] this [of "OFile 0"]
  show "sems s 0 = None" "pipes s 0 = None" "files s 0 = None"
    by (cases "sems s 0"; cases "pipes s 0"; cases "files s 0"; simp add: heap_blocks_def sem_blocks_def pipe_blocks_def)+
qed

lemma new_sems_ConsE:
  assumes "new_sems mm (v # vs) s = Some (s', a # as)"
  obtains s1 where "newSemaphore mm v s = Some (s1, a)" "new_sems mm vs s1 = Some (s', as)"
  using assms by (auto simp: bind_eq_Some_conv)

text \<open>The blocks of a pipe, its semaphores included.\<close>
definition pipe_sems :: "pipeCDT \<Rightarrow> u64 list" where
  "pipe_sems pp = [pp_dataAvailable pp, pp_freeSpaces pp, pp_readMutex pp, pp_writeMutex pp]"

definition pipe_foot :: "(u64 \<rightharpoonup> semCDT) \<Rightarrow> u64 \<Rightarrow> pipeCDT \<Rightarrow> u64 set" where
  "pipe_foot f p pp = set (pipe_blocks p pp) \<union> foots (pipe_sems pp) f"

lemma owned_pipe:
  "sems s' = sems s \<Longrightarrow> files s' = files s \<Longrightarrow> procs s' = procs s \<Longrightarrow> readyQueue s' = readyQueue s \<Longrightarrow>
    pipes s' = (pipes s)(p := r) \<Longrightarrow> owned s' = (owned s)(OPipe p := (case r of None \<Rightarrow> [] | Some pp \<Rightarrow> pipe_blocks p pp))"
proof
  fix x assume "sems s' = sems s" "files s' = files s" "procs s' = procs s" "readyQueue s' = readyQueue s" "pipes s' = (pipes s)(p := r)"
  then show "owned s' x = ((owned s)(OPipe p := (case r of None \<Rightarrow> [] | Some pp \<Rightarrow> pipe_blocks p pp))) x"
    by (cases x) (auto simp: heap_blocks_def)
qed

context allocator
begin

abbreviation "kmok \<equiv> kmem_ok inv blocks limit"
abbreviation live :: "'m \<Rightarrow> u64 set" where "live m \<equiv> dom (blocks m)"

lemma new_sem:
  assumes ok: "kmok s"
  obtains m' a F where "newSemaphore ops v s = Some (s\<lparr>kmem := m', sems := F\<rparr>, a)" "kmok (s\<lparr>kmem := m', sems := F\<rparr>)"
    "sems s a = None" "\<And>b. b \<noteq> a \<Longrightarrow> F b = sems s b" "a = 0 \<Longrightarrow> F a = None"
    "a \<noteq> 0 \<Longrightarrow> \<exists>c. F a = Some c \<and> sem_idle c \<and> sem_value c = v"
    "live m' = sem_foot F a \<union> live (kmem s)" "sem_foot F a \<inter> live (kmem s) = {}"
  using ok
proof (cases rule: newSemaphore_spec [where v = v])
  case (failed m')
  show thesis
    by (rule that [of "sems s" m' 0]) (use failed kmem_ok_null [OF ok] in \<open>simp_all add: sem_foot_def\<close>)
next
  case (made m' a q)
  show thesis
    by (rule that [OF made(1)]) (use made in \<open>simp_all add: sem_foot_def sem_idle_def\<close>)
qed

lemma new_sems_spec:
  assumes "kmok s"
  obtains m' as F where "new_sems ops vs s = Some (s\<lparr>kmem := m', sems := F\<rparr>, as)" "kmok (s\<lparr>kmem := m', sems := F\<rparr>)"
    "length as = length vs" "sems_idle as F" "\<And>a. a \<in> set as \<Longrightarrow> sems s a = None" "\<And>a. a \<notin> set as \<Longrightarrow> F a = sems s a"
    "\<And>i. i < length vs \<Longrightarrow> as ! i \<noteq> 0 \<Longrightarrow> map_option sem_value (F (as ! i)) = Some (vs ! i)"
    "live m' = foots as F \<union> live (kmem s)" "foots as F \<inter> live (kmem s) = {}"
  using assms
proof (induction vs arbitrary: s thesis)
  case Nil
  show ?case by (rule Nil(1) [of "sems s" "kmem s" "[]"]) (simp_all add: Nil(2) sems_idle_def)
next
  case (Cons v vs)
  obtain m1 a F1 where s1: "newSemaphore ops v s = Some (s\<lparr>kmem := m1, sems := F1\<rparr>, a)" "kmok (s\<lparr>kmem := m1, sems := F1\<rparr>)"
    "sems s a = None" "\<And>b. b \<noteq> a \<Longrightarrow> F1 b = sems s b" "a = 0 \<Longrightarrow> F1 a = None"
    "a \<noteq> 0 \<Longrightarrow> \<exists>c. F1 a = Some c \<and> sem_idle c \<and> sem_value c = v"
    "live m1 = sem_foot F1 a \<union> live (kmem s)" "sem_foot F1 a \<inter> live (kmem s) = {}"
    by (rule new_sem [OF Cons.prems(2), of v]) (rule that)
  let ?s = "s\<lparr>kmem := m1, sems := F1\<rparr>"
  obtain m2 as F where s2: "new_sems ops vs ?s = Some (?s\<lparr>kmem := m2, sems := F\<rparr>, as)" "kmok (?s\<lparr>kmem := m2, sems := F\<rparr>)"
    "length as = length vs" "sems_idle as F" "\<And>b. b \<in> set as \<Longrightarrow> F1 b = None" "\<And>b. b \<notin> set as \<Longrightarrow> F b = F1 b"
    "\<And>i. i < length vs \<Longrightarrow> as ! i \<noteq> 0 \<Longrightarrow> map_option sem_value (F (as ! i)) = Some (vs ! i)"
    "live m2 = foots as F \<union> live m1" "foots as F \<inter> live m1 = {}"
    by (rule Cons.IH [OF _ s1(2)]) (simp_all add: that)
  have new: "a \<notin> set as" if "a \<noteq> 0" using s2(5) s1(6) that by fastforce
  have F0: "F 0 = None" using kmem_ok_null(1) [OF s2(2)] by simp
  have Fa: "F a = F1 a" by (cases "a = 0") (use F0 s1(5) s2(6) new in auto)
  then have foot: "sem_foot F a = sem_foot F1 a" by (simp add: sem_foot_def)
  show ?case
  proof (rule Cons.prems(1))
    show "new_sems ops (v # vs) s = Some (s\<lparr>kmem := m2, sems := F\<rparr>, a # as)" using s1(1) s2(1) by simp
    show "kmok (s\<lparr>kmem := m2, sems := F\<rparr>)" using s2(2) by simp
    show "sems_idle (a # as) F" using s2(4) new s1(6) Fa by (auto simp: sems_idle_def)
    show "sems s b = None" if "b \<in> set (a # as)" for b
      using that s1(3) s1(4) [of b] s2(5) [of b] by (cases "b = a") auto
    show "F b = sems s b" if "b \<notin> set (a # as)" for b using that s2(6) s1(4) by simp
    show "map_option sem_value (F ((a # as) ! i)) = Some ((v # vs) ! i)" if "i < length (v # vs)" "(a # as) ! i \<noteq> 0" for i
      using that s2(7) s1(6) Fa by (cases i) auto
    show "live m2 = foots (a # as) F \<union> live (kmem s)" using s2(8) s1(7) foot by auto
    show "foots (a # as) F \<inter> live (kmem s) = {}" using s2(9) s1(7,8) foot by auto
  qed (use s2(3) in simp)
qed

lemma free_sem:
  assumes ok: "kmok s" and c: "a \<noteq> 0 \<longrightarrow> (\<exists>c. sems s a = Some c \<and> sem_idle c)"
  obtains m' where "freeSemaphore ops a s = Some (s\<lparr>kmem := m', sems := (sems s)(a := None)\<rparr>)"
    "kmok (s\<lparr>kmem := m', sems := (sems s)(a := None)\<rparr>)" "live m' = live (kmem s) - sem_foot (sems s) a"
proof (cases "a = 0")
  case True
  have "s\<lparr>kmem := kmem s, sems := (sems s)(0 := None)\<rparr> = s" using kmem_ok_null(1) [OF ok] by (simp add: fun_upd_idem)
  then show thesis using True ok kmem_ok_null(1) [OF ok]
    by (intro that [of "kmem s"]) (simp_all add: freeSemaphore_def sem_foot_def)
next
  case False
  then obtain c where c: "sems s a = Some c" "sem_idle c" using assms(2) by auto
  then have "\<not> sem_lock c" "waiters c = []" by (simp_all add: sem_idle_def waiters_def kq_elems_def)
  from ok c(1) False this(1) show thesis
  proof (cases rule: freeSemaphore_spec)
    case (freed m')
    then show thesis using c by (intro that [of m']) (simp_all add: sem_foot_def)
  qed (use \<open>waiters c = []\<close> in simp)
qed

lemma free_sems_spec:
  assumes "kmok s" "sems_idle as (sems s)"
  obtains m' where "free_sems ops as s = Some (s\<lparr>kmem := m', sems := sems s |` (- set as)\<rparr>)"
    "kmok (s\<lparr>kmem := m', sems := sems s |` (- set as)\<rparr>)" "live m' = live (kmem s) - foots as (sems s)"
  using assms
proof (induction as arbitrary: s thesis)
  case Nil
  show ?case by (rule Nil(1) [of "kmem s"]) (use Nil in simp_all)
next
  case (Cons a as)
  obtain m1 where m1: "freeSemaphore ops a s = Some (s\<lparr>kmem := m1, sems := (sems s)(a := None)\<rparr>)"
    "kmok (s\<lparr>kmem := m1, sems := (sems s)(a := None)\<rparr>)" "live m1 = live (kmem s) - sem_foot (sems s) a"
    by (rule free_sem [OF Cons.prems(2), of a]) (use Cons.prems(3) in \<open>auto simp: sems_idle_def\<close>)
  define G where "G = (sems s)(a := None)"
  let ?s = "s\<lparr>kmem := m1, sems := G\<rparr>"
  have null: "sems s 0 = None" by (rule kmem_ok_null [OF Cons.prems(2)])
  have keep: "b = a \<Longrightarrow> a = 0" if "b \<in> set as" for b using Cons.prems(3) that by (auto simp: sems_idle_def split: if_splits)
  have Gb: "G b = sems s b" if "b \<in> set as" for b using keep [OF that] null by (auto simp: G_def)
  have idle: "sems_idle as (sems ?s)" using Cons.prems(3) Gb by (auto simp: sems_idle_def split: if_splits)
  have kG: "kmok ?s" using m1(2) by (simp add: G_def)
  obtain m2 where m2: "free_sems ops as ?s = Some (?s\<lparr>kmem := m2, sems := sems ?s |` (- set as)\<rparr>)"
    "kmok (?s\<lparr>kmem := m2, sems := sems ?s |` (- set as)\<rparr>)" "live m2 = live (kmem ?s) - foots as (sems ?s)"
    by (rule Cons.IH [OF _ kG idle]) (rule that)
  have foot: "sem_foot G b = sem_foot (sems s) b" if "b \<in> set as" for b
    using Gb [OF that] by (simp add: sem_foot_def)
  have "G |` (- set as) = sems s |` (- set (a # as))" by (auto simp: restrict_map_def G_def)
  then have m2': "free_sems ops as ?s = Some (s\<lparr>kmem := m2, sems := sems s |` (- set (a # as))\<rparr>)"
      "kmok (s\<lparr>kmem := m2, sems := sems s |` (- set (a # as))\<rparr>)" using m2(1,2) by simp_all
  show ?case
  proof (rule Cons.prems(1))
    show "free_sems ops (a # as) s = Some (s\<lparr>kmem := m2, sems := sems s |` (- set (a # as))\<rparr>)"
      using m1(1) m2'(1) by (simp add: G_def)
    show "live m2 = live (kmem s) - foots (a # as) (sems s)" using m2(3) m1(3) foot by auto
  qed (rule m2'(2))
qed

lemma freeBuffer_own:
  assumes own: "own_ok inv blocks m f" and fp: "f (OPipe p) = pipe_blocks p pp"
  obtains m' where "freeBuffer ops (pp_buffer pp) m = Some m'" "limit m' = limit m" "own_ok inv blocks m' (f(OPipe p := [p]))"
    "live m' = live m - set (tl (pipe_blocks p pp))"
proof (cases "pp_buffer pp")
  case None
  then show thesis using own fp by (intro that [of m]) (simp_all add: freeBuffer_def pipe_blocks_def fun_upd_idem)
next
  case (Some c)
  then have f: "f (OPipe p) = [p, cb_self c, cb_data_ptr c]" using fp by (simp add: pipe_blocks_def)
  have d: "distinct [p, cb_self c, cb_data_ptr c]" using own_ok_distinct [OF own, of "OPipe p"] f by simp
  obtain m1 where m1: "mm_free ops m (cb_data_ptr c) = Some m1" "limit m1 = limit m"
      "\<And>xs. distinct xs \<Longrightarrow> set xs \<subseteq> set (f (OPipe p)) - {cb_data_ptr c} \<Longrightarrow> own_ok inv blocks m1 (f(OPipe p := xs))"
      "live m1 = live m - {cb_data_ptr c}"
    by (rule own_free_dom [OF own, of "cb_data_ptr c" "OPipe p"]) (use f that in auto)
  let ?g = "f(OPipe p := [p, cb_self c])"
  have own1: "own_ok inv blocks m1 ?g" by (rule m1(3)) (use d f in auto)
  obtain m2 where m2: "mm_free ops m1 (cb_self c) = Some m2" "limit m2 = limit m1"
      "\<And>xs. distinct xs \<Longrightarrow> set xs \<subseteq> set (?g (OPipe p)) - {cb_self c} \<Longrightarrow> own_ok inv blocks m2 (?g(OPipe p := xs))"
      "live m2 = live m1 - {cb_self c}"
    by (rule own_free_dom [OF own1, of "cb_self c" "OPipe p"]) (use that in auto)
  have "own_ok inv blocks m2 (f(OPipe p := [p]))" using m2(3) [of "[p]"] d by simp
  then show thesis using m1 m2 Some by (intro that [of m2]) (auto simp: freeBuffer_def pipe_blocks_def)
qed

lemma freePipe_idle:
  assumes ok: "kmok s" and p: "pipes s p = Some pp" and idle: "sems_idle (pipe_sems pp) (sems s)"
  obtains m' where
    "freePipe ops p s = Some (s\<lparr>kmem := m', sems := sems s |` (- set (pipe_sems pp)), pipes := (pipes s)(p := None)\<rparr>)"
    "kmok (s\<lparr>kmem := m', sems := sems s |` (- set (pipe_sems pp)), pipes := (pipes s)(p := None)\<rparr>)"
    "live m' = live (kmem s) - pipe_foot (sems s) p pp"
proof -
  let ?F = "sems s |` (- set (pipe_sems pp))"
  have p0: "p \<noteq> 0" using p kmem_ok_null(2) [OF ok] by auto
  have own: "own_ok inv blocks (kmem s) (owned s)" and lim: "2 ^ 15 \<le> limit (kmem s)" using ok by (simp_all add: kmem_ok_def)
  have "owned s (OPipe p) = pipe_blocks p pp" using p by (simp add: heap_blocks_def)
  from freeBuffer_own [OF own this] obtain m1 where m1: "freeBuffer ops (pp_buffer pp) (kmem s) = Some m1"
      "limit m1 = limit (kmem s)" "own_ok inv blocks m1 ((owned s)(OPipe p := [p]))"
      "live m1 = live (kmem s) - set (tl (pipe_blocks p pp))" by metis
  define s1 where "s1 = s\<lparr>kmem := m1, pipes := (pipes s)(p \<mapsto> pp\<lparr>pp_buffer := None\<rparr>)\<rparr>"
  have "owned s1 = (owned s)(OPipe p := [p])"
    using owned_pipe [of s1 s p "Some (pp\<lparr>pp_buffer := None\<rparr>)"] by (simp add: s1_def pipe_blocks_def)
  then have "kmok s1" using m1(2,3) lim by (simp add: kmem_ok_def s1_def)
  moreover have "sems_idle (pipe_sems pp) (sems s1)" using idle by (simp add: s1_def)
  ultimately obtain m2 where m2: "free_sems ops (pipe_sems pp) s1 = Some (s1\<lparr>kmem := m2, sems := sems s1 |` (- set (pipe_sems pp))\<rparr>)"
      "kmok (s1\<lparr>kmem := m2, sems := sems s1 |` (- set (pipe_sems pp))\<rparr>)" "live m2 = live m1 - foots (pipe_sems pp) (sems s)"
    by (rule free_sems_spec) (use that in \<open>simp_all add: s1_def\<close>)
  let ?s2 = "s\<lparr>kmem := m2, sems := ?F, pipes := (pipes s)(p \<mapsto> pp\<lparr>pp_buffer := None\<rparr>)\<rparr>"
  have "s1\<lparr>kmem := m2, sems := sems s1 |` (- set (pipe_sems pp))\<rparr> = ?s2" by (simp add: s1_def)
  with m2 have k2: "kmok ?s2" and f2: "free_sems ops (pipe_sems pp) s1 = Some ?s2" by simp_all
  have "s1\<lparr>pipes := pipes s\<rparr> = s\<lparr>kmem := m1\<rparr>" by (simp add: s1_def)
  with free_sems_pipes [where s = s1 and P = "pipes s" and mm = ops and as = "pipe_sems pp"] f2
  have run: "free_sems ops (pipe_sems pp) (s\<lparr>kmem := m1\<rparr>) = Some (s\<lparr>kmem := m2, sems := ?F\<rparr>)" by simp
  have own2: "own_ok inv blocks m2 (owned ?s2)" using k2 by (simp add: kmem_ok_def)
  obtain m3 where m3: "mm_free ops m2 p = Some m3" "limit m3 = limit m2"
      "\<And>xs. distinct xs \<Longrightarrow> set xs \<subseteq> set (owned ?s2 (OPipe p)) - {p} \<Longrightarrow> own_ok inv blocks m3 ((owned ?s2)(OPipe p := xs))"
      "live m3 = live m2 - {p}"
    by (rule own_free_dom [OF own2, of p "OPipe p"]) (use that in \<open>auto simp: heap_blocks_def pipe_blocks_def\<close>)
  let ?s3 = "s\<lparr>kmem := m3, sems := ?F, pipes := (pipes s)(p := None)\<rparr>"
  have "owned ?s3 = (owned ?s2)(OPipe p := [])" using owned_pipe [of ?s3 ?s2 p None] by simp
  with m3(2) m3(3) [of "[]"] k2 have "kmok ?s3" by (simp add: kmem_ok_def)
  moreover have "freePipe ops p s = Some ?s3"
    using p0 p m1(1) m3(1) run by (simp add: freePipe_def pipe_sems_def split: bind_split_asm)
  moreover have "live m3 = live (kmem s) - pipe_foot (sems s) p pp"
    using m1(4) m2(3) m3(4) by (auto simp: pipe_foot_def pipe_blocks_def split: option.splits)
  ultimately show thesis using that by blast
qed

lemma newBuffer_own:
  assumes own: "own_ok inv blocks m f" and fp: "f (OPipe p) = [p]" and lim: "2 ^ 15 \<le> limit m"
  obtains m' b where "newBuffer ops raw PIPE_BUF_SIZE m = Some (m', b)" "limit m' = limit m"
    "own_ok inv blocks m' (f(OPipe p := pipe_blocks p (pp\<lparr>pp_buffer := b\<rparr>)))"
    "live m' = set (tl (pipe_blocks p (pp\<lparr>pp_buffer := b\<rparr>))) \<union> live m"
    "set (tl (pipe_blocks p (pp\<lparr>pp_buffer := b\<rparr>))) \<inter> live m = {}"
    "\<And>c. b = Some c \<Longrightarrow> cb_inv c \<and> cb_list c = [] \<and> maxSize c = PIPE_BUF_SIZE"
proof -
  have "inv m" "40 \<le> limit m" "unat PIPE_BUF_SIZE \<le> limit m" using own lim by (simp_all add: own_ok_def PIPE_BUF_SIZE_def)
  from newBuffer_law [OF this, of raw] obtain m' b where b: "newBuffer ops raw PIPE_BUF_SIZE m = Some (m', b)" "inv m'" "limit m' = limit m"
    "case b of None \<Rightarrow> blocks m' = blocks m
     | Some c \<Rightarrow> cb_inv c \<and> cb_list c = [] \<and> maxSize c = PIPE_BUF_SIZE \<and>
         (\<exists>k l. cb_self c \<noteq> 0 \<and> cb_data_ptr c \<noteq> 0 \<and> cb_self c \<noteq> cb_data_ptr c \<and> unat PIPE_BUF_SIZE \<le> l \<and>
            blocks m (cb_self c) = None \<and> blocks m (cb_data_ptr c) = None \<and>
            blocks m' = (blocks m)(cb_self c \<mapsto> k, cb_data_ptr c \<mapsto> l))" by blast
  show thesis
  proof (cases b)
    case None
    then have "own_ok inv blocks m' (f(OPipe p := [p]))" using own b(2,4) fp by (simp add: own_ok_def fun_upd_idem)
    then show thesis using that [OF b(1)] None b(3,4) by (simp add: pipe_blocks_def)
  next
    case (Some c)
    then obtain k l where c: "cb_inv c" "cb_list c = []" "maxSize c = PIPE_BUF_SIZE" "cb_self c \<noteq> 0" "cb_data_ptr c \<noteq> 0"
        "cb_self c \<noteq> cb_data_ptr c" "cb_self c \<notin> live m" "cb_data_ptr c \<notin> live m"
        "blocks m' = (blocks m)(cb_self c \<mapsto> k, cb_data_ptr c \<mapsto> l)"
      using b(4) by (auto simp: domIff)
    have sub: "set (f x) \<subseteq> live m" for x using own by (auto simp: own_ok_def)
    have p: "p \<noteq> 0" "p \<in> live m" using own fp sub [of "OPipe p"] own_ok_nonnull [OF own, of p "OPipe p"] by auto
    have live: "live m' = {cb_self c, cb_data_ptr c} \<union> live m" using c(9) by auto
    have "own_ok inv blocks m' (f(OPipe p := [p, cb_self c, cb_data_ptr c]))"
    proof (rule own_ok_change [OF own b(2)])
      show "set (f y) \<subseteq> live m'" for y using sub live by auto
      show "set [p, cb_self c, cb_data_ptr c] \<inter> set (f y) = {}" if "y \<noteq> OPipe p" for y
        using own_ok_owner [OF own, of p "OPipe p" y] that fp sub [of y] c by auto
    qed (use c p live in auto)
    then show thesis using that [OF b(1)] Some b(3) c live by (simp add: pipe_blocks_def)
  qed
qed

lemma newPipe_spec:
  assumes ok: "kmok s"
  obtains (failed) m' where "newPipe ops raw s = Some (s\<lparr>kmem := m'\<rparr>, 0)" "kmok (s\<lparr>kmem := m'\<rparr>)" "live m' = live (kmem s)"
    | (made) m' p pp F c where "newPipe ops raw s = Some (s\<lparr>kmem := m', sems := F, pipes := (pipes s)(p \<mapsto> pp)\<rparr>, p)"
      "kmok (s\<lparr>kmem := m', sems := F, pipes := (pipes s)(p \<mapsto> pp)\<rparr>)" "p \<noteq> 0" "pipes s p = None"
      "sems_idle (pipe_sems pp) F" "0 \<notin> set (pipe_sems pp)" "F |` (- set (pipe_sems pp)) = sems s"
      "map (\<lambda>a. map_option sem_value (F a)) (pipe_sems pp) = map Some [0, 1024, 1, 1]"
      "pp_buffer pp = Some c" "cb_inv c" "cb_list c = []" "maxSize c = PIPE_BUF_SIZE" "pp_refCount pp = 0" "pp_writerCount pp = 0"
      "live m' = pipe_foot F p pp \<union> live (kmem s)" "pipe_foot F p pp \<inter> live (kmem s) = {}"
proof -
  have own: "own_ok inv blocks (kmem s) (owned s)" and lim: "2 ^ 15 \<le> limit (kmem s)" using ok by (simp_all add: kmem_ok_def)
  have n: "sizeof_pipeCDT \<noteq> 0" "unat sizeof_pipeCDT \<le> limit (kmem s)" using lim by (simp_all add: sizeof_pipeCDT_def)
  from own n show thesis
  proof (cases rule: own_alloc)
    case (fail m')
    then show thesis using lim by (intro failed [of m']) (simp_all add: newPipe_def kmem_ok_def)
  next
    case (new m1 p)
    have none: "pipes s p = None" using new(4) [of "OPipe p"] by (cases "pipes s p") (simp_all add: heap_blocks_def pipe_blocks_def)
    have own1: "own_ok inv blocks m1 ((owned s)(OPipe p := [p]))" by (rule new(6)) simp_all
    define pp0 where "pp0 = \<lparr>pp_buffer = None, pp_dataAvailable = 0, pp_freeSpaces = 0, pp_readMutex = 0, pp_writeMutex = 0,
      pp_refCount = 0, pp_writerCount = 0\<rparr>"
    have lim1: "2 ^ 15 \<le> limit m1" using lim new(3) by simp
    obtain m2 b where b: "newBuffer ops raw PIPE_BUF_SIZE m1 = Some (m2, b)" "limit m2 = limit m1"
      "own_ok inv blocks m2 ((owned s)(OPipe p := [p], OPipe p := pipe_blocks p (pp0\<lparr>pp_buffer := b\<rparr>)))"
      "live m2 = set (tl (pipe_blocks p (pp0\<lparr>pp_buffer := b\<rparr>))) \<union> live m1"
      "set (tl (pipe_blocks p (pp0\<lparr>pp_buffer := b\<rparr>))) \<inter> live m1 = {}"
      "\<And>c. b = Some c \<Longrightarrow> cb_inv c \<and> cb_list c = [] \<and> maxSize c = PIPE_BUF_SIZE"
      by (rule newBuffer_own [OF own1 _ lim1, where p = p and raw = raw and pp = pp0]) (simp, rule that)
    let ?B = "pp0\<lparr>pp_buffer := b\<rparr>"
    define s2 where "s2 = s\<lparr>kmem := m2, pipes := (pipes s)(p \<mapsto> ?B)\<rparr>"
    have "owned s2 = (owned s)(OPipe p := pipe_blocks p ?B)" using owned_pipe [of s2 s p "Some ?B"] by (simp add: s2_def)
    then have "kmok s2" using b(2,3) lim1 by (simp add: kmem_ok_def s2_def)
    then obtain m3 as F where s3: "new_sems ops [0, 1024, 1, 1] s2 = Some (s2\<lparr>kmem := m3, sems := F\<rparr>, as)"
      "kmok (s2\<lparr>kmem := m3, sems := F\<rparr>)" "length as = length [0, 1024, 1, 1 :: int]" "sems_idle as F"
      "\<And>a. a \<in> set as \<Longrightarrow> sems s2 a = None" "\<And>a. a \<notin> set as \<Longrightarrow> F a = sems s2 a"
      "\<And>i. i < length [0, 1024, 1, 1 :: int] \<Longrightarrow> as ! i \<noteq> 0 \<Longrightarrow> map_option sem_value (F (as ! i)) = Some ([0, 1024, 1, 1] ! i)"
      "live m3 = foots as F \<union> live (kmem s2)" "foots as F \<inter> live (kmem s2) = {}"
      by (rule new_sems_spec [where vs = "[0, 1024, 1, 1]"]) (rule that)
    have "s2\<lparr>pipes := pipes s\<rparr> = s\<lparr>kmem := m2\<rparr>" by (simp add: s2_def)
    with new_sems_pipes [where s = s2 and P = "pipes s" and mm = ops and vs = "[0, 1024, 1, 1]"] s3(1)
    have run: "new_sems ops [0, 1024, 1, 1] (s\<lparr>kmem := m2\<rparr>) = Some (s\<lparr>kmem := m3, sems := F\<rparr>, as)" by (simp add: s2_def)
    obtain da fs rm wm where as: "as = [da, fs, rm, wm]" using s3(3) by (auto simp: length_Suc_conv)
    let ?pp = "\<lparr>pp_buffer = b, pp_dataAvailable = da, pp_freeSpaces = fs, pp_readMutex = rm, pp_writeMutex = wm,
        pp_refCount = 0, pp_writerCount = 0\<rparr>"
    let ?s = "s\<lparr>kmem := m3, sems := F, pipes := (pipes s)(p \<mapsto> ?pp)\<rparr>"
    have sems: "pipe_sems ?pp = as" by (simp add: pipe_sems_def as)
    have same: "pipe_blocks p ?pp = pipe_blocks p ?B" by (simp add: pipe_blocks_def)
    have "owned ?s = owned (s2\<lparr>kmem := m3, sems := F\<rparr>)"
      using owned_pipe [of ?s "s2\<lparr>kmem := m3, sems := F\<rparr>" p "Some ?pp"] same by (auto simp: s2_def heap_blocks_def)
    with s3(2) have ok3: "kmok ?s" by (simp add: kmem_ok_def s2_def)
    have restr: "F |` (- set as) = sems s" using s3(5,6) by (auto simp: restrict_map_def s2_def)
    have foot: "pipe_foot F p ?pp = {p} \<union> set (tl (pipe_blocks p ?B)) \<union> foots as F"
      by (auto simp: pipe_foot_def sems pipe_blocks_def)
    have live: "live m3 = pipe_foot F p ?pp \<union> live (kmem s)" using s3(8) b(4) new(7) foot by (auto simp: s2_def)
    have disj: "pipe_foot F p ?pp \<inter> live (kmem s) = {}" using s3(9) b(4,5) new(7,8) foot by (auto simp: s2_def)
    have step: "newPipe ops raw s = (if b = None \<or> da = 0 \<or> fs = 0 \<or> rm = 0 \<or> wm = 0
        then do { s \<leftarrow> freePipe ops p ?s; Some (s, 0) } else Some (?s, p))"
    proof -
      obtain t1 t2 t3 where "newSemaphore ops 0 (s\<lparr>kmem := m2\<rparr>) = Some (t1, da)" "newSemaphore ops 1024 t1 = Some (t2, fs)"
          "newSemaphore ops 1 t2 = Some (t3, rm)" "newSemaphore ops 1 t3 = Some (s\<lparr>kmem := m3, sems := F\<rparr>, wm)"
        using run unfolding as by (elim new_sems_ConsE) auto
      with new(1,2) b(1) show ?thesis by (simp add: newPipe_def PIPE_BUF_SIZE_def Let_def)
    qed
    show thesis
    proof (cases "b = None \<or> da = 0 \<or> fs = 0 \<or> rm = 0 \<or> wm = 0")
      case True
      have "pipes ?s p = Some ?pp" "sems_idle (pipe_sems ?pp) (sems ?s)" using s3(4) sems by simp_all
      from freePipe_idle [OF ok3 this] obtain m' where m':
          "freePipe ops p ?s = Some (?s\<lparr>kmem := m', sems := sems ?s |` (- set (pipe_sems ?pp)), pipes := (pipes ?s)(p := None)\<rparr>)"
          "kmok (?s\<lparr>kmem := m', sems := sems ?s |` (- set (pipe_sems ?pp)), pipes := (pipes ?s)(p := None)\<rparr>)"
          "live m' = live (kmem ?s) - pipe_foot (sems ?s) p ?pp" by metis
      have "?s\<lparr>kmem := m', sems := sems ?s |` (- set (pipe_sems ?pp)), pipes := (pipes ?s)(p := None)\<rparr> = s\<lparr>kmem := m'\<rparr>"
        using restr none by (simp add: sems fun_upd_idem)
      with m' step True live disj show thesis by (intro failed [of m']) auto
    next
      case False
      then obtain c where c: "b = Some c" by auto
      have vals: "map (\<lambda>a. map_option sem_value (F a)) as = map Some [0, 1024, 1, 1]"
        using s3(7) [of 0] s3(7) [of 1] s3(7) [of 2] s3(7) [of 3] False by (simp add: as)
      show thesis
        by (rule made [of p ?pp F m3 c])
          (use step False ok3 new(2) none s3(4) restr vals c b(6) live disj in \<open>simp_all add: pipe_sems_def as\<close>)
    qed
  qed
qed

end

section \<open>File accesses\<close>

lemma owned_file:
  "sems s' = sems s \<Longrightarrow> pipes s' = pipes s \<Longrightarrow> procs s' = procs s \<Longrightarrow> readyQueue s' = readyQueue s \<Longrightarrow>
    files s' = (files s)(a := r) \<Longrightarrow> owned s' = (owned s)(OFile a := (case r of None \<Rightarrow> [] | Some _ \<Rightarrow> [a]))"
proof
  fix x assume "sems s' = sems s" "pipes s' = pipes s" "procs s' = procs s" "readyQueue s' = readyQueue s" "files s' = (files s)(a := r)"
  then show "owned s' x = ((owned s)(OFile a := (case r of None \<Rightarrow> [] | Some _ \<Rightarrow> [a]))) x"
    by (cases x) (auto simp: heap_blocks_def)
qed

text \<open>Counters and semaphores of a pipe may change without its blocks changing.\<close>
lemma kmem_ok_pipe:
  assumes "kmem_ok minv mblocks mlimit s" "pipes s p = Some pp" "pp_buffer pp' = pp_buffer pp"
  shows "kmem_ok minv mblocks mlimit (s\<lparr>pipes := (pipes s)(p \<mapsto> pp')\<rparr>)"
proof (rule kmem_ok_same [OF assms(1)])
  have "pipe_blocks p pp' = pipe_blocks p pp" using assms(3) by (simp add: pipe_blocks_def)
  then show "owned (s\<lparr>pipes := (pipes s)(p \<mapsto> pp')\<rparr>) = owned s"
    using owned_pipe [of "s\<lparr>pipes := (pipes s)(p \<mapsto> pp')\<rparr>" s p "Some pp'"] assms(2) by (auto simp: heap_blocks_def)
qed simp

lemma on_pipe_Some [simp]: "pipes s p = Some pp \<Longrightarrow> on_pipe p f s = Some (s\<lparr>pipes := (pipes s)(p \<mapsto> f pp)\<rparr>)"
  by (simp add: on_pipe_def)

lemma on_file_Some [simp]: "files s a = Some x \<Longrightarrow> on_file a f s = Some (s\<lparr>files := (files s)(a \<mapsto> f x)\<rparr>)"
  by (simp add: on_file_def)

text \<open>Posting to a semaphore nobody waits for.\<close>
lemma semPost_idle:
  assumes "sems s a = Some c" "a \<noteq> 0" "sem_idle c"
  shows "semPost mm a s = Some (sem_set a (c\<lparr>sem_value := sem_value c + 1\<rparr>) s, 0)"
proof -
  let ?c = "c\<lparr>sem_lock := True, sem_value := sem_value c + 1\<rparr>"
  have nl: "\<not> sem_lock c" and nil: "kq_nodes (sem_blockedQueue c) = []" using assms(3) by (simp_all add: sem_idle_def)
  have 1: "sem_acquire a s = Some (sem_set a (c\<lparr>sem_lock := True\<rparr>) s)" by (rule sem_ops_set(1) [OF assms(1) nl])
  have 2: "sem_add 1 a (sem_set a (c\<lparr>sem_lock := True\<rparr>) s) = Some (sem_set a ?c s)"
    using sem_ops_set(3) [of "sem_set a (c\<lparr>sem_lock := True\<rparr>) s" a "c\<lparr>sem_lock := True\<rparr>" 1] by simp
  have 3: "post_loop mm a (sem_set a ?c s) = Some (sem_set a ?c s)" by (subst post_loop.simps) (simp add: nil)
  have 4: "sem_release a (sem_set a ?c s) = Some (sem_set a (c\<lparr>sem_value := sem_value c + 1\<rparr>) s)"
    using sem_ops_set(2) [of "sem_set a ?c s" a ?c] nl by (cases c) simp
  show ?thesis using assms(2) by (simp add: semPost_def 1 2 3 4)
qed

lemma post_times_idle:
  "sems s a = Some c \<Longrightarrow> a \<noteq> 0 \<Longrightarrow> sem_idle c \<Longrightarrow>
    post_times mm a n s = Some (sem_set a (c\<lparr>sem_value := sem_value c + int n\<rparr>) s)"
proof (induction n arbitrary: s c)
  case 0
  then show ?case by (simp add: sem_set_def fun_upd_idem)
next
  case (Suc n)
  let ?c = "c\<lparr>sem_value := sem_value c + 1\<rparr>"
  have "sem_idle ?c" using Suc.prems(3) by (simp add: sem_idle_def)
  then have "post_times mm a n (sem_set a ?c s) = Some (sem_set a (?c\<lparr>sem_value := sem_value ?c + int n\<rparr>) (sem_set a ?c s))"
    using Suc.prems(2) by (intro Suc.IH) simp_all
  then show ?case using semPost_idle [OF Suc.prems, of mm] by (simp add: add.assoc)
qed

context allocator
begin

lemma newFileAccess_spec:
  assumes ok: "kmok s" and p: "pipes s p = Some pp"
  obtains (failed) m' where "newFileAccess ops p fl s = Some (s\<lparr>kmem := m'\<rparr>, 0)" "kmok (s\<lparr>kmem := m'\<rparr>)" "live m' = live (kmem s)"
    | (made) m' fa s' where "newFileAccess ops p fl s = Some (s', fa)"
      "s' = s\<lparr>kmem := m', files := (files s)(fa \<mapsto> \<lparr>fa_pipe = p, fa_flags = fl, fa_refCount = 0\<rparr>),
        pipes := (pipes s)(p \<mapsto> pp\<lparr>pp_refCount := pp_refCount pp + 1,
          pp_writerCount := pp_writerCount pp + (if fl AND FILE_WRITE \<noteq> 0 then 1 else 0)\<rparr>)\<rparr>"
      "kmok s'" "fa \<noteq> 0" "files s fa = None" "live m' = insert fa (live (kmem s))" "fa \<notin> live (kmem s)"
proof -
  have p0: "p \<noteq> 0" using p kmem_ok_null(2) [OF ok] by auto
  have own: "own_ok inv blocks (kmem s) (owned s)" and lim: "2 ^ 15 \<le> limit (kmem s)" using ok by (simp_all add: kmem_ok_def)
  have n: "sizeof_fileAccessCDT \<noteq> 0" "unat sizeof_fileAccessCDT \<le> limit (kmem s)" using lim by (simp_all add: sizeof_fileAccessCDT_def)
  from own n show thesis
  proof (cases rule: own_alloc)
    case (fail m')
    then show thesis using lim by (intro failed [of m']) (simp_all add: newFileAccess_def kmem_ok_def)
  next
    case (new m1 fa)
    have none: "files s fa = None" using new(4) [of "OFile fa"] by (cases "files s fa") (simp_all add: heap_blocks_def)
    let ?fa = "\<lparr>fa_pipe = p, fa_flags = fl, fa_refCount = 0\<rparr>"
    let ?s1 = "s\<lparr>kmem := m1, files := (files s)(fa \<mapsto> ?fa)\<rparr>"
    let ?pp = "pp\<lparr>pp_refCount := pp_refCount pp + 1, pp_writerCount := pp_writerCount pp + (if fl AND FILE_WRITE \<noteq> 0 then 1 else 0)\<rparr>"
    have "own_ok inv blocks m1 ((owned s)(OFile fa := [fa]))" by (rule new(6)) simp_all
    then have "kmok ?s1" using owned_file [of ?s1 s fa "Some ?fa"] lim new(3) by (simp add: kmem_ok_def)
    then have "kmok (?s1\<lparr>pipes := (pipes ?s1)(p \<mapsto> ?pp)\<rparr>)" by (rule kmem_ok_pipe) (use p in simp_all)
    moreover have "newFileAccess ops p fl s = Some (?s1\<lparr>pipes := (pipes ?s1)(p \<mapsto> ?pp)\<rparr>, fa)"
      using new(1,2) p p0 by (simp add: newFileAccess_def Let_def addPipeRef_def addPipeWriter_def)
    ultimately show thesis using new(2,7,8) none by (intro made) simp_all
  qed
qed

lemma free_file_block:
  assumes ok: "kmok s" and fa: "files s fa \<noteq> None"
  obtains m' where "mm_free ops (kmem s) fa = Some m'" "kmok (s\<lparr>kmem := m', files := (files s)(fa := None)\<rparr>)"
    "live m' = live (kmem s) - {fa}"
proof -
  have own: "own_ok inv blocks (kmem s) (owned s)" and lim: "2 ^ 15 \<le> limit (kmem s)" using ok by (simp_all add: kmem_ok_def)
  have "owned s (OFile fa) = [fa]" using fa by (auto simp: heap_blocks_def)
  then obtain m' where m': "mm_free ops (kmem s) fa = Some m'" "limit m' = limit (kmem s)"
      "\<And>xs. distinct xs \<Longrightarrow> set xs \<subseteq> set (owned s (OFile fa)) - {fa} \<Longrightarrow> own_ok inv blocks m' ((owned s)(OFile fa := xs))"
      "live m' = live (kmem s) - {fa}"
    using own_free_dom [OF own, of fa "OFile fa"] by (metis list.set_intros(1))
  let ?s = "s\<lparr>kmem := m', files := (files s)(fa := None)\<rparr>"
  have "kmok ?s" using m'(2) m'(3) [of "[]"] owned_file [of ?s s fa None] lim by (simp add: kmem_ok_def)
  with m' show thesis by (intro that)
qed

text \<open>Dropping a read end while the pipe has another user.\<close>
lemma freeFileAccess_keep:
  assumes ok: "kmok s" and x: "files s fa = Some x" "fa_pipe x = p" "fa_flags x AND FILE_WRITE = 0"
    and p: "pipes s p = Some pp" "pp_refCount pp > 1"
  obtains m' s' where "freeFileAccess ops fa s = Some s'"
    "s' = s\<lparr>kmem := m', files := (files s)(fa := None), pipes := (pipes s)(p \<mapsto> pp\<lparr>pp_refCount := pp_refCount pp - 1\<rparr>)\<rparr>"
    "kmok s'" "live m' = live (kmem s) - {fa}"
proof -
  have nz: "fa \<noteq> 0" "p \<noteq> 0" using x(1) p(1) kmem_ok_null [OF ok] by auto
  let ?s = "s\<lparr>pipes := (pipes s)(p \<mapsto> pp\<lparr>pp_refCount := pp_refCount pp - 1\<rparr>)\<rparr>"
  have "kmok ?s" by (rule kmem_ok_pipe [OF ok p(1)]) simp
  then obtain m' where m': "mm_free ops (kmem ?s) fa = Some m'" "kmok (?s\<lparr>kmem := m', files := (files ?s)(fa := None)\<rparr>)"
      "live m' = live (kmem ?s) - {fa}" by (rule free_file_block) (use x in auto)
  have "freeFileAccess ops fa s = Some (?s\<lparr>kmem := m', files := (files ?s)(fa := None)\<rparr>)"
    using nz x p m'(1) by (simp add: freeFileAccess_def removePipeRef_def)
  with m' show thesis by (intro that) simp_all
qed

text \<open>Dropping the last end of a pipe nobody waits on destroys the pipe.\<close>
lemma freeFileAccess_last:
  assumes ok: "kmok s" and x: "files s fa = Some x" "fa_pipe x = p"
    and p: "pipes s p = Some pp" "pp_refCount pp \<le> 1" and idle: "sems_idle (pipe_sems pp) (sems s)" "0 \<notin> set (pipe_sems pp)"
  obtains m' s' where "freeFileAccess ops fa s = Some s'"
    "s' = s\<lparr>kmem := m', files := (files s)(fa := None), pipes := (pipes s)(p := None), sems := sems s |` (- set (pipe_sems pp))\<rparr>"
    "kmok s'" "live m' = live (kmem s) - insert fa (pipe_foot (sems s) p pp)"
proof -
  have nz: "fa \<noteq> 0" "p \<noteq> 0" using x(1) p(1) kmem_ok_null [OF ok] by auto
  have da: "pp_dataAvailable pp \<in> set (pipe_sems pp)" by (simp add: pipe_sems_def)
  then obtain c where c: "sems s (pp_dataAvailable pp) = Some c" "sem_idle c" "pp_dataAvailable pp \<noteq> 0"
    using idle by (auto simp: sems_idle_def) metis
  let ?wr = "fa_flags x AND FILE_WRITE \<noteq> 0"
  let ?c = "if ?wr \<and> pp_writerCount pp \<le> 1 then c\<lparr>sem_value := sem_value c + 64\<rparr> else c"
  let ?pp1 = "pp\<lparr>pp_writerCount := pp_writerCount pp - (if ?wr then 1 else 0)\<rparr>"
  define pp2 where "pp2 = ?pp1\<lparr>pp_refCount := pp_refCount pp - 1\<rparr>"
  define F where "F = (sems s)(pp_dataAvailable pp \<mapsto> ?c)"
  define s1 where "s1 = s\<lparr>sems := F, pipes := (pipes s)(p \<mapsto> pp2)\<rparr>"
  have FF: "F |` (- set (pipe_sems pp)) = sems s |` (- set (pipe_sems pp))" using da by (auto simp: F_def restrict_map_def)
  have sp: "pipe_sems pp2 = pipe_sems pp" "pipe_blocks p pp2 = pipe_blocks p pp" by (simp_all add: pp2_def pipe_sems_def pipe_blocks_def)
  have foot: "pipe_foot F p pp2 = pipe_foot (sems s) p pp"
  proof -
    have "sem_foot F a = sem_foot (sems s) a" for a using c(1) by (simp add: F_def sem_foot_def)
    then show ?thesis by (simp add: pipe_foot_def sp)
  qed
  have idle1: "sems_idle (pipe_sems pp2) F" using idle(1) c(2) by (auto simp: sems_idle_def sp F_def sem_idle_def)
  have "kmok (s\<lparr>sems := F\<rparr>)" unfolding F_def by (rule kmem_ok_sem [OF ok c(1)]) simp
  then have "kmok (s\<lparr>sems := F\<rparr>\<lparr>pipes := (pipes (s\<lparr>sems := F\<rparr>))(p \<mapsto> pp2)\<rparr>)"
    by (rule kmem_ok_pipe) (use p in \<open>simp_all add: pp2_def\<close>)
  then have ok1: "kmok s1" by (simp add: s1_def)
  have "pipes s1 p = Some pp2" "sems_idle (pipe_sems pp2) (sems s1)" using idle1 by (simp_all add: s1_def)
  from freePipe_idle [OF ok1 this] obtain m1 where m1:
    "freePipe ops p s1 = Some (s1\<lparr>kmem := m1, sems := sems s1 |` (- set (pipe_sems pp2)), pipes := (pipes s1)(p := None)\<rparr>)"
    "kmok (s1\<lparr>kmem := m1, sems := sems s1 |` (- set (pipe_sems pp2)), pipes := (pipes s1)(p := None)\<rparr>)"
    "live m1 = live (kmem s1) - pipe_foot (sems s1) p pp2" by metis
  define s2 where "s2 = s\<lparr>kmem := m1, sems := sems s |` (- set (pipe_sems pp)), pipes := (pipes s)(p := None)\<rparr>"
  have eq: "s1\<lparr>kmem := m1, sems := sems s1 |` (- set (pipe_sems pp2)), pipes := (pipes s1)(p := None)\<rparr> = s2"
    by (simp add: s1_def s2_def sp FF)
  have ok2: "kmok s2" and l2: "live m1 = live (kmem s) - pipe_foot (sems s) p pp" using m1(2,3) eq foot by (simp_all add: s1_def)
  have fs2: "files s2 fa \<noteq> None" using x by (simp add: s2_def)
  obtain m' where m': "mm_free ops (kmem s2) fa = Some m'" "kmok (s2\<lparr>kmem := m', files := (files s2)(fa := None)\<rparr>)"
      "live m' = live (kmem s2) - {fa}" by (rule free_file_block [OF ok2 fs2])
  let ?s1 = "s\<lparr>sems := F, pipes := (pipes s)(p \<mapsto> ?pp1)\<rparr>"
  have writer: "(if ?wr then removePipeWriter ops p s else Some s) = Some ?s1"
  proof (cases ?wr)
    case True
    then show ?thesis
      using nz p c post_times_idle [of "s\<lparr>pipes := (pipes s)(p \<mapsto> ?pp1)\<rparr>" "pp_dataAvailable pp" c ops 64]
      by (auto simp: removePipeWriter_def forceReadersWakeUp_def F_def sem_set_def fun_upd_idem)
  next
    case False
    then show ?thesis using p c by (simp add: F_def fun_upd_idem)
  qed
  have "removePipeRef ops p ?s1 = freePipe ops p s1"
    using nz p by (simp add: removePipeRef_def s1_def pp2_def)
  then have "freeFileAccess ops fa s = Some (s2\<lparr>kmem := m', files := (files s2)(fa := None)\<rparr>)"
    using nz x m'(1) m1(1) eq writer [folded x(2)] by (simp add: freeFileAccess_def split del: if_split)
  with m' l2 show thesis by (intro that [where m' = m']) (auto simp: s2_def)
qed

end

end
