(* ===== verification/KSyscalls.thy ===== *)
theory KSyscalls
  imports KPipeLife KSharedSem KKeyboard KVideo KMachine
begin

text \<open>
  The system call table \<^verbatim>\<open>interruptions/syscallDispatcher.c\<close>: one definition per wrapper, the table in
  its order, and the dispatcher.  Pointers given by a process are addresses of the byte memory in which
  the frame buffers lie too.  A call that may wait inside (\<^verbatim>\<open>sysRead\<close>, \<^verbatim>\<open>sysWrite\<close>, \<^verbatim>\<open>sysWaitpid\<close>,
  \<^verbatim>\<open>sysRegisters\<close>) yields the place in the routine its process continues from.
\<close>

section \<open>State and outcome\<close>

record 'm sysst =
  sy_k :: "'m kst"
  sy_shared :: shared_table
  sy_video :: video
  sy_kb :: kb_state
  sy_snap :: snapshot_state

text \<open>What a call meets besides the state: the memory manager linked in, the stack pointer a switch
  would save, the clock's registers, the ticks that come during a busy wait and what fresh memory
  holds.\<close>
record 'm sys_env =
  ev_mm :: "'m mm_ops"
  ev_status :: "'m \<Rightarrow> MemoryInfo option"
  ev_rsp :: u64
  ev_time :: "u8 \<times> u8 \<times> u8"
  ev_date :: "u8 \<times> u8 \<times> u8 \<times> u8"
  ev_ticks :: "nat list"
  ev_raw :: "u64 \<Rightarrow> u8"

text \<open>A returned value (with the rows stored at a pointer, for \<^verbatim>\<open>sysPs\<close>); a read into a buffer or a write
  under way; a wait for a process; or no return at all.\<close>
datatype sys_out = Ret u64 | RetInfo u64 u64 "ProcessInfo list" | Reading u64 int u64 fd_pc
  | Writing u64 bool wr_pc "u8 list" "u64 option" | Waiting int wp_pc | NoReturn

type_synonym 'm syscallFunction = "u64 \<Rightarrow> u64 \<Rightarrow> u64 \<Rightarrow> u64 \<Rightarrow> u64 \<Rightarrow> u64 \<Rightarrow> 'm sysst \<Rightarrow> ('m sysst \<times> sys_out) option"

section \<open>Arguments\<close>

abbreviation sys_mem :: "'m sysst \<Rightarrow> mem" where "sys_mem y \<equiv> vmem (sy_video y)"

definition c_int :: "u64 \<Rightarrow> int" where "c_int a = sint (ucast a :: u32)"
definition c_pid :: "u64 \<Rightarrow> int" where "c_pid a = sint (ucast a :: u16)"
definition c_ret :: "int \<Rightarrow> sys_out" where "c_ret r = Ret (word_of_int r)"

definition store_bytes :: "u64 \<Rightarrow> u8 list \<Rightarrow> mem \<Rightarrow> mem" where
  "store_bytes a bs m = fold (\<lambda>i m. m(a + of_nat i := bs ! i)) [0..<length bs] m"

definition store_int :: "u64 \<Rightarrow> int \<Rightarrow> mem \<Rightarrow> mem" where
  "store_int a x = store_bytes a (le32 (word_of_int x))"

definition store_u64 :: "u64 \<Rightarrow> u64 \<Rightarrow> mem \<Rightarrow> mem" where
  "store_u64 a x = store_bytes a (map (\<lambda>i. ucast (drop_bit (8 * i) x)) [0..<8])"

definition load_u64 :: "mem \<Rightarrow> u64 \<Rightarrow> u64" where
  "load_u64 m a = ucast (readUint32 m a) OR push_bit 32 (ucast (readUint32 m (a + 4)))"

definition load_bytes :: "mem \<Rightarrow> u64 \<Rightarrow> u64 \<Rightarrow> u8 list" where
  "load_bytes m a n = map (\<lambda>i. m (a + of_nat i)) [0..<unat n]"

text \<open>A C string; \<open>Some None\<close> is the null pointer, \<open>None\<close> a string without an end.\<close>
definition user_str :: "mem \<Rightarrow> u64 \<Rightarrow> u8 list option option" where
  "user_str m p = (if p = 0 then Some None else do { n \<leftarrow> strlen m p; Some (Some (load_bytes m p n)) })"

definition user_argv :: "mem \<Rightarrow> int \<Rightarrow> u64 \<Rightarrow> u8 list option list option option" where
  "user_argv m argc p = (if p = 0 then Some None
     else map_option Some (those (map (\<lambda>i. user_str m (load_u64 m (p + 8 * of_nat i))) [0..<nat argc])))"

definition user_overrides :: "mem \<Rightarrow> int \<Rightarrow> u64 \<Rightarrow> fd_override_t list option" where
  "user_overrides m n p = (if p = 0 then None
     else Some (map (\<lambda>i. \<lparr>affectedFd = sint (readUint32 m (p + 8 * of_nat i)), targetFd = sint (readUint32 m (p + 8 * of_nat i + 4))\<rparr>)
       [0..<nat n]))"

definition with_mem :: "(mem \<Rightarrow> mem) \<Rightarrow> 'm sysst \<Rightarrow> 'm sysst" where
  "with_mem f y = y\<lparr>sy_video := (sy_video y)\<lparr>vmem := f (sys_mem y)\<rparr>\<rparr>"

text \<open>A call into the kernel state that returns an integer.\<close>
definition on_k :: "('m kst \<Rightarrow> ('m kst \<times> int) option) \<Rightarrow> 'm sysst \<Rightarrow> ('m sysst \<times> sys_out) option" where
  "on_k f y = do { (k, r) \<leftarrow> f (sy_k y); Some (y\<lparr>sy_k := k\<rparr>, c_ret r) }"

definition on_shared :: "(shared_table \<times> 'm kst \<Rightarrow> ((shared_table \<times> 'm kst) \<times> int) option) \<Rightarrow> 'm sysst \<Rightarrow> ('m sysst \<times> sys_out) option" where
  "on_shared f y = do { ((t, k), r) \<leftarrow> f (sy_shared y, sy_k y); Some (y\<lparr>sy_k := k, sy_shared := t\<rparr>, c_ret r) }"

definition on_video :: "(video \<Rightarrow> video) \<Rightarrow> 'm sysst \<Rightarrow> ('m sysst \<times> sys_out) option" where
  "on_video f y = Some (y\<lparr>sy_video := f (sy_video y)\<rparr>, Ret 0)"

definition on_drawing :: "(video \<Rightarrow> video option) \<Rightarrow> 'm sysst \<Rightarrow> ('m sysst \<times> sys_out) option" where
  "on_drawing f y = do { v \<leftarrow> f (sy_video y); Some (y\<lparr>sy_video := v\<rparr>, Ret 0) }"

section \<open>Devices\<close>

definition sysRead :: "'m sys_env \<Rightarrow> 'm syscallFunction" where
  "sysRead ev arg1 arg2 arg3 arg4 arg5 arg6 y = do {
     pid \<leftarrow> getCurrentPID (sy_k y);
     (k, pc) \<leftarrow> readFdOnPID pid (c_int arg1) arg3 (sy_k y);
     (let y = y\<lparr>sy_k := k\<rparr> in case pc of
        FRet n bs \<Rightarrow> Some (with_mem (store_bytes arg2 bs) y, c_ret n)
      | _ \<Rightarrow> Some (y, Reading arg2 (c_int arg1) arg3 pc))
   }"

definition sysWrite :: "'m sys_env \<Rightarrow> 'm syscallFunction" where
  "sysWrite ev arg1 arg2 arg3 arg4 arg5 arg6 y = do {
     pid \<leftarrow> getCurrentPID (sy_k y);
     (pipe, nb, pc) \<leftarrow> writeFdOnPID pid (c_int arg1) (sy_k y);
     (case pc of WRet n \<Rightarrow> Some (y, c_ret n)
      | _ \<Rightarrow> Some (y, Writing pipe nb pc (load_bytes (sys_mem y) arg2 arg3) None))
   }"

definition sysDrawRect :: "'m sys_env \<Rightarrow> 'm syscallFunction" where
  "sysDrawRect ev arg1 arg2 arg3 arg4 arg5 arg6 = on_drawing (drawRectangle (ucast arg1) arg2 arg3 arg4 arg5)"

definition sysDrawCircle :: "'m sys_env \<Rightarrow> 'm syscallFunction" where
  "sysDrawCircle ev arg1 arg2 arg3 arg4 arg5 arg6 =
     on_video (if arg5 \<noteq> 0 then drawCircle (ucast arg1) (sint arg2) (sint arg3) (uint arg4)
               else drawCircumference (ucast arg1) (sint arg2) (sint arg3) (uint arg4))"

definition sysDrawChar :: "'m sys_env \<Rightarrow> 'm syscallFunction" where
  "sysDrawChar ev arg1 arg2 arg3 arg4 arg5 arg6 =
     on_drawing (drawSymbol (ucast arg1) arg2 arg3 (ucast arg4) (ucast arg5) (c_int arg6))"

definition sysScrWidth :: "'m sys_env \<Rightarrow> 'm syscallFunction" where
  "sysScrWidth ev arg1 arg2 arg3 arg4 arg5 arg6 y = Some (y, Ret (ucast (getScreenWidth (sy_video y))))"

definition sysScrHeight :: "'m sys_env \<Rightarrow> 'm syscallFunction" where
  "sysScrHeight ev arg1 arg2 arg3 arg4 arg5 arg6 y = Some (y, Ret (ucast (getScreenHeight (sy_video y))))"

definition sysBg :: "'m sys_env \<Rightarrow> 'm syscallFunction" where
  "sysBg ev arg1 arg2 arg3 arg4 arg5 arg6 = on_video (setBackground (ucast arg1))"

definition sysVideoAux :: "'m sys_env \<Rightarrow> 'm syscallFunction" where
  "sysVideoAux ev arg1 arg2 arg3 arg4 arg5 arg6 = on_video (setAuxFramebuffer arg1 (ucast arg2) (ucast arg3))"

definition sysRender :: "'m sys_env \<Rightarrow> 'm syscallFunction" where
  "sysRender ev arg1 arg2 arg3 arg4 arg5 arg6 = on_video renderAux"

definition sysSleep :: "'m sys_env \<Rightarrow> 'm syscallFunction" where
  "sysSleep ev arg1 arg2 arg3 arg4 arg5 arg6 y = do {
     (t, elapsed) \<leftarrow> sleep arg1 (ev_ticks ev) (tmr (sy_k y));
     Some (y\<lparr>sy_k := (sy_k y)\<lparr>tmr := t\<rparr>\<rparr>, Ret elapsed)
   }"

definition sysDrawStr :: "'m sys_env \<Rightarrow> 'm syscallFunction" where
  "sysDrawStr ev arg1 arg2 arg3 arg4 arg5 arg6 y = do {
     str \<leftarrow> Option.bind (user_str (sys_mem y) arg1) id;
     on_drawing (drawString str (c_int arg2) (c_int arg3) (ucast arg4) (ucast arg5) (c_int arg6)) y
   }"

definition sysGetKey :: "'m sys_env \<Rightarrow> 'm syscallFunction" where
  "sysGetKey ev arg1 arg2 arg3 arg4 arg5 arg6 y = Some (y, Ret (of_bool (isPressed (ucast arg1) (sy_kb y))))"

definition sysPlaySound :: "'m sys_env \<Rightarrow> 'm syscallFunction" where
  "sysPlaySound ev arg1 arg2 arg3 arg4 arg5 arg6 y =
     Some (y\<lparr>sy_k := (sy_k y)\<lparr>tmr := playSound (ucast arg1) (ucast arg2) (tmr (sy_k y))\<rparr>\<rparr>, Ret 0)"

definition sysDate :: "'m sys_env \<Rightarrow> 'm syscallFunction" where
  "sysDate ev arg1 arg2 arg3 arg4 arg5 arg6 y = (case getCurrentDate (ev_date ev) of (w, d, mo, yr) \<Rightarrow>
     Some (with_mem (\<lambda>m. m(arg1 := w, arg2 := d, arg3 := mo, arg4 := yr)) y, Ret 0))"

definition sysTime :: "'m sys_env \<Rightarrow> 'm syscallFunction" where
  "sysTime ev arg1 arg2 arg3 arg4 arg5 arg6 y = (case getCurrentTime (ev_time ev) of (h, mi, s) \<Rightarrow>
     Some (with_mem (\<lambda>m. m(arg3 := s, arg2 := mi, arg1 := h)) y, Ret 0))"

definition sysKernelTime :: "'m sys_env \<Rightarrow> 'm syscallFunction" where
  "sysKernelTime ev arg1 arg2 arg3 arg4 arg5 arg6 y = Some (y, Ret (scast (milliseconds_elapsed (tmr (sy_k y)))))"

text \<open>The dump goes to the standard output of the process, so it may wait like any write.\<close>
definition sysRegisters :: "'m sys_env \<Rightarrow> 'm syscallFunction" where
  "sysRegisters ev arg1 arg2 arg3 arg4 arg5 arg6 y = (case printSnapshot (sy_snap y) of
       (None, r) \<Rightarrow> Some (y, c_ret r)
     | (Some dump, r) \<Rightarrow> do {
         (pipe, nb, pc) \<leftarrow> kwrite 1 (sy_k y);
         (case pc of WRet n \<Rightarrow> Some (y, c_ret r) | _ \<Rightarrow> Some (y, Writing pipe nb pc dump (Some (word_of_int r))))
       })"

section \<open>Memory\<close>

definition sysMalloc :: "'m sys_env \<Rightarrow> 'm syscallFunction" where
  "sysMalloc ev arg1 arg2 arg3 arg4 arg5 arg6 y = do {
     (m, p) \<leftarrow> mm_alloc (ev_mm ev) (kmem (sy_k y)) arg1;
     Some (y\<lparr>sy_k := (sy_k y)\<lparr>kmem := m\<rparr>\<rparr>, Ret p)
   }"

definition sysFree :: "'m sys_env \<Rightarrow> 'm syscallFunction" where
  "sysFree ev arg1 arg2 arg3 arg4 arg5 arg6 y = do {
     m \<leftarrow> mm_free (ev_mm ev) (kmem (sy_k y)) arg1;
     Some (y\<lparr>sy_k := (sy_k y)\<lparr>kmem := m\<rparr>\<rparr>, Ret 0)
   }"

definition sysMemStatus :: "'m sys_env \<Rightarrow> 'm syscallFunction" where
  "sysMemStatus ev arg1 arg2 arg3 arg4 arg5 arg6 y =
     (if arg1 = 0 then Some (y, Ret 0)
      else do {
        i \<leftarrow> ev_status ev (kmem (sy_k y));
        Some (with_mem (store_u64 (arg1 + 24) (mi_fragments i) \<circ> store_u64 (arg1 + 16) (mi_free i) \<circ>
          store_u64 (arg1 + 8) (mi_occupied i) \<circ> store_u64 arg1 (mi_total i)) y, Ret 0)
      })"

section \<open>Processes\<close>

definition sysGetpid :: "'m sys_env \<Rightarrow> 'm syscallFunction" where
  "sysGetpid ev arg1 arg2 arg3 arg4 arg5 arg6 y = do { pid \<leftarrow> getCurrentPID (sy_k y); Some (y, c_ret pid) }"

definition sysCreateProcess :: "'m sys_env \<Rightarrow> 'm syscallFunction" where
  "sysCreateProcess ev arg1 arg2 arg3 arg4 arg5 arg6 y = do {
     name \<leftarrow> user_str (sys_mem y) arg4;
     argv \<leftarrow> user_argv (sys_mem y) (c_int arg2) arg3;
     on_k (startNewProcess (ev_mm ev) arg1 name 1 (c_int arg2) argv) y
   }"

definition sysKill :: "'m sys_env \<Rightarrow> 'm syscallFunction" where
  "sysKill ev arg1 arg2 arg3 arg4 arg5 arg6 = on_k (terminateProcess (ev_mm ev) (ev_rsp ev) (c_pid arg1))"

definition sysNice :: "'m sys_env \<Rightarrow> 'm syscallFunction" where
  "sysNice ev arg1 arg2 arg3 arg4 arg5 arg6 = on_k (setPriorityOnPID (c_pid arg1) (ucast arg2))"

definition sysBlock :: "'m sys_env \<Rightarrow> 'm syscallFunction" where
  "sysBlock ev arg1 arg2 arg3 arg4 arg5 arg6 = on_k (setBlocked (ev_mm ev) (c_pid arg1))"

definition sysUnblock :: "'m sys_env \<Rightarrow> 'm syscallFunction" where
  "sysUnblock ev arg1 arg2 arg3 arg4 arg5 arg6 y =
     (let pid = c_pid arg1 in
      if pid = IDLE_PID \<or> pid = INIT_PID then Some (y, c_ret (-1)) else on_k (setReady (ev_mm ev) pid) y)"

definition sysYield :: "'m sys_env \<Rightarrow> 'm syscallFunction" where
  "sysYield ev arg1 arg2 arg3 arg4 arg5 arg6 y = do {
     k \<leftarrow> forceSchedulerCall (ev_mm ev) (ev_rsp ev) (sy_k y); Some (y\<lparr>sy_k := k\<rparr>, Ret 0) }"

definition sysWaitpid :: "'m sys_env \<Rightarrow> 'm syscallFunction" where
  "sysWaitpid ev arg1 arg2 arg3 arg4 arg5 arg6 y = do {
     pc \<leftarrow> wait_pid (c_pid arg1) (sy_k y);
     (case pc of WPDone \<Rightarrow> Some (y, Ret 0) | _ \<Rightarrow> Some (y, Waiting (c_pid arg1) pc))
   }"

definition sysPs :: "'m sys_env \<Rightarrow> 'm syscallFunction" where
  "sysPs ev arg1 arg2 arg3 arg4 arg5 arg6 y = do {
     rows \<leftarrow> getProcessInfo (c_int arg2) (sy_k y);
     Some (y, RetInfo (of_nat (length rows)) arg1 rows)
   }"

definition sysExit :: "'m sys_env \<Rightarrow> 'm syscallFunction" where
  "sysExit ev arg1 arg2 arg3 arg4 arg5 arg6 y = do {
     pid \<leftarrow> getCurrentPID (sy_k y);
     (k, r) \<leftarrow> terminateProcess (ev_mm ev) (ev_rsp ev) pid (sy_k y);
     Some (y\<lparr>sy_k := k\<rparr>, NoReturn)
   }"

section \<open>Named semaphores\<close>

definition sysSemOpen :: "'m sys_env \<Rightarrow> 'm syscallFunction" where
  "sysSemOpen ev arg1 arg2 arg3 arg4 arg5 arg6 y = do {
     name \<leftarrow> user_str (sys_mem y) arg1; on_shared (sharedSemOpen (ev_mm ev) name (c_int arg2)) y }"

definition sysSemClose :: "'m sys_env \<Rightarrow> 'm syscallFunction" where
  "sysSemClose ev arg1 arg2 arg3 arg4 arg5 arg6 y = do {
     name \<leftarrow> user_str (sys_mem y) arg1; on_shared (sharedSemClose (ev_mm ev) name) y }"

definition sysSemWait :: "'m sys_env \<Rightarrow> 'm syscallFunction" where
  "sysSemWait ev arg1 arg2 arg3 arg4 arg5 arg6 y = do {
     name \<leftarrow> user_str (sys_mem y) arg1;
     on_shared (\<lambda>ts. do { (ts, r, blocked) \<leftarrow> sharedSemWait (ev_mm ev) (ev_rsp ev) name ts; Some (ts, r) }) y }"

definition sysSemPost :: "'m sys_env \<Rightarrow> 'm syscallFunction" where
  "sysSemPost ev arg1 arg2 arg3 arg4 arg5 arg6 y = do {
     name \<leftarrow> user_str (sys_mem y) arg1; on_shared (sharedSemPost (ev_mm ev) name) y }"

section \<open>Pipes and descriptors\<close>

text \<open>The kernel side of \<^verbatim>\<open>sysPipe\<close>: first the pipe with its two ends, or nothing.\<close>
definition open_pipe_ends :: "'m mm_ops \<Rightarrow> (u64 \<Rightarrow> u8) \<Rightarrow> 'm kst \<Rightarrow> ('m kst \<times> (u64 \<times> u64) option) option" where
  "open_pipe_ends mm raw s = do {
     (s, pipe) \<leftarrow> newPipe mm raw s;
     if pipe = 0 then Some (s, None)
     else do {
       (s, readEnd) \<leftarrow> newFileAccess mm pipe FILE_READ s;
       (s, writeEnd) \<leftarrow> newFileAccess mm pipe FILE_WRITE s;
       if readEnd = 0 \<or> writeEnd = 0 then do {
         s \<leftarrow> (if readEnd \<noteq> 0 then freeFileAccess mm readEnd s else Some s);
         s \<leftarrow> (if writeEnd \<noteq> 0 then freeFileAccess mm writeEnd s else Some s);
         s \<leftarrow> (if readEnd = 0 \<and> writeEnd = 0 then freePipe mm pipe s else Some s);
         Some (s, None)
       }
       else Some (s, Some (readEnd, writeEnd))
     }
   }"

text \<open>Then the two descriptors, or nothing.\<close>
definition install_ends :: "'m mm_ops \<Rightarrow> u64 \<Rightarrow> u64 \<Rightarrow> 'm kst \<Rightarrow> ('m kst \<times> (int \<times> int) option) option" where
  "install_ends mm readEnd writeEnd s = do {
     (s, readFD) \<leftarrow> addCurrentFd readEnd s;
     if readFD < 0 then do {
       s \<leftarrow> freeFileAccess mm readEnd s;
       s \<leftarrow> freeFileAccess mm writeEnd s;
       Some (s, None)
     }
     else do {
       (s, writeFD) \<leftarrow> addCurrentFd writeEnd s;
       if writeFD < 0 then do {
         (s, r) \<leftarrow> closeCurrentFd mm readFD s;
         s \<leftarrow> freeFileAccess mm writeEnd s;
         Some (s, None)
       }
       else Some (s, Some (readFD, writeFD))
     }
   }"

definition make_pipe_fds :: "'m mm_ops \<Rightarrow> (u64 \<Rightarrow> u8) \<Rightarrow> 'm kst \<Rightarrow> ('m kst \<times> (int \<times> int) option) option" where
  "make_pipe_fds mm raw s = do {
     (s, ends) \<leftarrow> open_pipe_ends mm raw s;
     (case ends of None \<Rightarrow> Some (s, None) | Some (readEnd, writeEnd) \<Rightarrow> install_ends mm readEnd writeEnd s)
   }"

definition sysPipe :: "'m sys_env \<Rightarrow> 'm syscallFunction" where
  "sysPipe ev arg1 arg2 arg3 arg4 arg5 arg6 y =
     (if arg1 = 0 then Some (y, c_ret (-1))
      else do {
        (k, fds) \<leftarrow> make_pipe_fds (ev_mm ev) (ev_raw ev) (sy_k y);
        (let y = y\<lparr>sy_k := k\<rparr> in case fds of None \<Rightarrow> Some (y, c_ret (-1))
         | Some (readFD, writeFD) \<Rightarrow>
             Some (with_mem (store_int (arg1 + 4) writeFD \<circ> store_int arg1 readFD) y, Ret 0))
      })"

definition sysClose :: "'m sys_env \<Rightarrow> 'm syscallFunction" where
  "sysClose ev arg1 arg2 arg3 arg4 arg5 arg6 = on_k (closeCurrentFd (ev_mm ev) (c_int arg1))"

definition sysDup :: "'m sys_env \<Rightarrow> 'm syscallFunction" where
  "sysDup ev arg1 arg2 arg3 arg4 arg5 arg6 = on_k (dupCurrentFd (ev_mm ev) (c_int arg1) (c_int arg2))"

definition sysReopen :: "'m sys_env \<Rightarrow> 'm syscallFunction" where
  "sysReopen ev arg1 arg2 arg3 arg4 arg5 arg6 = on_k (reopenCurrentFd (ev_mm ev) (c_int arg1))"

definition sysCreateProcessFds :: "'m sys_env \<Rightarrow> 'm syscallFunction" where
  "sysCreateProcessFds ev arg1 arg2 arg3 arg4 arg5 arg6 y = do {
     name \<leftarrow> user_str (sys_mem y) arg4;
     argv \<leftarrow> user_argv (sys_mem y) (c_int arg2) arg3;
     on_k (startNewProcessWithFds (ev_mm ev) arg1 name 1 (c_int arg2) argv (user_overrides (sys_mem y) (c_int arg6) arg5)) y
   }"

definition sysForeground :: "'m sys_env \<Rightarrow> 'm syscallFunction" where
  "sysForeground ev arg1 arg2 arg3 arg4 arg5 arg6 = on_k (\<lambda>k. Some (addToFG (c_pid arg1) k))"

definition sysScrollUp :: "'m sys_env \<Rightarrow> 'm syscallFunction" where
  "sysScrollUp ev arg1 arg2 arg3 arg4 arg5 arg6 = on_video (scrollUp arg1 (ucast arg2))"

definition sysReapZombies :: "'m sys_env \<Rightarrow> 'm syscallFunction" where
  "sysReapZombies ev arg1 arg2 arg3 arg4 arg5 arg6 y = do {
     k \<leftarrow> reap_zombies (ev_mm ev) (sy_k y); Some (y\<lparr>sy_k := k\<rparr>, Ret 0) }"

definition sysGetMaxProcesses :: "'m sys_env \<Rightarrow> 'm syscallFunction" where
  "sysGetMaxProcesses ev arg1 arg2 arg3 arg4 arg5 arg6 y = Some (y, c_ret getMaxProcesses)"

definition sysGetProcessesCount :: "'m sys_env \<Rightarrow> 'm syscallFunction" where
  "sysGetProcessesCount ev arg1 arg2 arg3 arg4 arg5 arg6 y = Some (y, Ret (of_nat (getProcessesCount (sy_k y))))"

section \<open>The table\<close>

definition syscalls :: "'m sys_env \<Rightarrow> 'm syscallFunction list" where
  "syscalls ev = map (\<lambda>f. f ev) [
     sysRead, sysWrite, sysDrawRect, sysDrawCircle, sysDrawChar, sysScrWidth, sysScrHeight,
     sysBg, sysVideoAux, sysRender, sysSleep, sysDrawStr, sysGetKey, sysPlaySound, sysDate,
     sysTime, sysKernelTime, sysRegisters,
     sysMalloc, sysFree, sysMemStatus,
     sysGetpid, sysCreateProcess, sysKill, sysNice, sysBlock, sysYield, sysWaitpid, sysPs,
     sysExit, sysUnblock,
     sysSemOpen, sysSemClose, sysSemWait, sysSemPost,
     sysPipe, sysClose, sysDup, sysCreateProcessFds, sysForeground, sysReopen, sysScrollUp,
     sysReapZombies, sysGetMaxProcesses, sysGetProcessesCount]"

definition syscallDispatcher :: "'m sys_env \<Rightarrow> u64 \<Rightarrow> u64 \<Rightarrow> u64 \<Rightarrow> u64 \<Rightarrow> u64 \<Rightarrow> u64 \<Rightarrow> u64 \<Rightarrow> 'm sysst \<Rightarrow> ('m sysst \<times> sys_out) option" where
  "syscallDispatcher ev arg1 arg2 arg3 arg4 arg5 arg6 syscallNumber y =
     (if unat syscallNumber < length (syscalls ev) then (syscalls ev ! unat syscallNumber) arg1 arg2 arg3 arg4 arg5 arg6 y
      else Some (y, Ret 0))"

section \<open>The two ends of a pipe\<close>

lemma pipe_counters [simp]:
  "pipe_sems (pp\<lparr>pp_refCount := n\<rparr>) = pipe_sems pp" "pipe_sems (pp\<lparr>pp_writerCount := w\<rparr>) = pipe_sems pp"
  "pipe_foot F p (pp\<lparr>pp_refCount := n\<rparr>) = pipe_foot F p pp" "pipe_foot F p (pp\<lparr>pp_writerCount := w\<rparr>) = pipe_foot F p pp"
  by (simp_all add: pipe_sems_def pipe_foot_def pipe_blocks_def)

lemma set_fd_keeps [simp]: "p_children (set_fd i fa pr) = p_children pr" "p_terminatedChildren (set_fd i fa pr) = p_terminatedChildren pr"
  "p_stackBase (set_fd i fa pr) = p_stackBase pr" "p_argv (set_fd i fa pr) = p_argv pr"
  "p_fdTable (set_fd i fa pr) = (p_fdTable pr)[nat i := fa]"
  by (simp_all add: set_fd_def)

lemma set_fd_undo:
  "i < 16 \<Longrightarrow> length (p_fdTable pr) = 16 \<Longrightarrow> p_fdTable pr ! i = 0 \<Longrightarrow>
    set_fd (int i) 0 (set_fd (int i) fa pr) = pr\<lparr>p_eofRequests := (p_eofRequests pr)[i := False]\<rparr>"
  using list_update_id [of "p_fdTable pr" i] by (simp add: set_fd_def)

lemma kmem_ok_fd:
  assumes "kmem_ok minv mblocks mlimit s" "procs s cp = Some pr"
  shows "kmem_ok minv mblocks mlimit (s\<lparr>procs := (procs s)(cp \<mapsto> set_fd i fa pr)\<rparr>)"
  by (rule kmem_ok_same [OF assms(1) _ owned_proc_same [OF assms(2), where pr' = "set_fd i fa pr"]]) simp_all

lemma kmem_ok_file:
  assumes "kmem_ok minv mblocks mlimit s" "files s fa = Some x"
  shows "kmem_ok minv mblocks mlimit (s\<lparr>files := (files s)(fa \<mapsto> x')\<rparr>)"
proof (rule kmem_ok_same [OF assms(1)])
  show "owned (s\<lparr>files := (files s)(fa \<mapsto> x')\<rparr>) = owned s"
    using owned_file [of "s\<lparr>files := (files s)(fa \<mapsto> x')\<rparr>" s fa "Some x'"] assms(2) by (auto simp: heap_blocks_def)
qed simp

lemma addFd_spec:
  assumes ok: "kmem_ok minv mblocks mlimit s" and cp: "cp \<noteq> 0" "procs s cp = Some pr" and x: "files s fa = Some x"
  obtains (full) "\<forall>i<16. p_fdTable pr ! i \<noteq> 0" "addFd cp fa s = Some (s, -1)"
    | (slot) i s' where "i < 16" "p_fdTable pr ! i = 0" "addFd cp fa s = Some (s', int i)"
      "s' = s\<lparr>procs := (procs s)(cp \<mapsto> set_fd (int i) fa pr), files := (files s)(fa \<mapsto> x\<lparr>fa_refCount := fa_refCount x + 1\<rparr>)\<rparr>"
      "kmem_ok minv mblocks mlimit s'"
proof (cases "List.find (\<lambda>i. p_fdTable pr ! i = 0) [0..<16]")
  case None
  then have "addFd cp fa s = Some (s, -1)" using cp kmem_ok_null(3) [OF ok] x by (simp add: addFd_def)
  then show thesis using full None by (simp add: find_upt_None)
next
  case (Some i)
  then have i: "i < 16" "p_fdTable pr ! i = 0" by (auto simp: find_upt_Some)
  have fa: "fa \<noteq> 0" using kmem_ok_null(3) [OF ok] x by auto
  let ?s = "s\<lparr>procs := (procs s)(cp \<mapsto> set_fd (int i) fa pr)\<rparr>"
  have "kmem_ok minv mblocks mlimit (?s\<lparr>files := (files ?s)(fa \<mapsto> x\<lparr>fa_refCount := fa_refCount x + 1\<rparr>)\<rparr>)"
    by (rule kmem_ok_file [OF kmem_ok_fd [OF ok cp(2)]]) (simp add: x)
  moreover have "addFd cp fa s = Some (?s\<lparr>files := (files ?s)(fa \<mapsto> x\<lparr>fa_refCount := fa_refCount x + 1\<rparr>)\<rparr>, int i)"
    using cp fa i Some x by (simp add: addFd_def openFd_def isValidFd_def isOpenFd_def addFileRef_def)
  ultimately show thesis using i by (intro slot) simp_all
qed


lemma three_made:
  assumes "Z = insert w Y" "Y = insert r X" "X = G \<union> L" "w \<notin> Y" "r \<notin> X" "G \<inter> L = {}"
  shows "Z - ({r, w} \<union> G) = L"
  using assms by blast

context allocator
begin

lemma open_pipe_ends_spec:
  assumes ok: "kmok s"
  obtains (failed) m' where "open_pipe_ends ops raw s = Some (s\<lparr>kmem := m'\<rparr>, None)" "kmok (s\<lparr>kmem := m'\<rparr>)" "live m' = live (kmem s)"
    | (made) m' F p pp c ra wa s' where "open_pipe_ends ops raw s = Some (s', Some (ra, wa))"
      "s' = s\<lparr>kmem := m', sems := F, pipes := (pipes s)(p \<mapsto> pp),
        files := (files s)(ra \<mapsto> \<lparr>fa_pipe = p, fa_flags = FILE_READ, fa_refCount = 0\<rparr>,
          wa \<mapsto> \<lparr>fa_pipe = p, fa_flags = FILE_WRITE, fa_refCount = 0\<rparr>)\<rparr>" "kmok s'"
      "pipe_live p s' pp c" "cb_list c = []" "pp_refCount pp = 2" "pp_writerCount pp = 1"
      "pipes s p = None" "files s ra = None" "files s wa = None" "ra \<noteq> wa"
      "sems_idle (pipe_sems pp) F" "0 \<notin> set (pipe_sems pp)" "F |` (- set (pipe_sems pp)) = sems s"
      "map (\<lambda>a. map_option sem_value (F a)) (pipe_sems pp) = map Some [0, 1024, 1, 1]"
      "live m' - ({ra, wa} \<union> pipe_foot F p pp) = live (kmem s)"
  using ok
proof (cases rule: newPipe_spec [where raw = raw])
  case (failed m')
  then show thesis by (intro that(1) [of m']) (simp_all add: open_pipe_ends_def)
next
  case (made m1 p pp F c)
  note P = made
  define s1 where "s1 = s\<lparr>kmem := m1, sems := F, pipes := (pipes s)(p \<mapsto> pp)\<rparr>"
  have rw: "FILE_READ AND FILE_WRITE = 0" "FILE_WRITE AND FILE_WRITE \<noteq> 0" by (simp_all add: FILE_READ_def FILE_WRITE_def)
  have same [simp]: "(pipes s)(p := None) = pipes s" "F |` (- set (pipe_sems pp)) = sems s"
    using P(4,7) by (simp_all add: fun_upd_idem)
  have ok1: "kmok s1" and p1: "pipes s1 p = Some pp" using P(2) by (simp_all add: s1_def)
  have new: "newPipe ops raw s = Some (s1, p)" using P(1) by (simp add: s1_def)
  from ok1 p1 show thesis
  proof (cases rule: newFileAccess_spec [where fl = FILE_READ])
    case (failed m2)
    note R = this
    define s2 where "s2 = s1\<lparr>kmem := m2\<rparr>"
    have ok2: "kmok s2" and p2: "pipes s2 p = Some pp" using R(2) p1 by (simp_all add: s2_def)
    from ok2 p2 show thesis
    proof (cases rule: newFileAccess_spec [where fl = FILE_WRITE])
      case (failed m3)
      let ?s3 = "s2\<lparr>kmem := m3\<rparr>"
      have "pipes ?s3 p = Some pp" "sems_idle (pipe_sems pp) (sems ?s3)" using p2 P(5) by (simp_all add: s2_def s1_def)
      then obtain m' where m': "freePipe ops p ?s3 = Some (?s3\<lparr>kmem := m', sems := sems ?s3 |` (- set (pipe_sems pp)), pipes := (pipes ?s3)(p := None)\<rparr>)"
          "kmok (?s3\<lparr>kmem := m', sems := sems ?s3 |` (- set (pipe_sems pp)), pipes := (pipes ?s3)(p := None)\<rparr>)"
          "live m' = live (kmem ?s3) - pipe_foot (sems ?s3) p pp" by (rule freePipe_idle [OF failed(2)])
      have eq: "?s3\<lparr>kmem := m', sems := sems ?s3 |` (- set (pipe_sems pp)), pipes := (pipes ?s3)(p := None)\<rparr> = s\<lparr>kmem := m'\<rparr>"
        by (simp add: s2_def s1_def)
      have "open_pipe_ends ops raw s = Some (s\<lparr>kmem := m'\<rparr>, None)"
        using new P(3) R(1) failed(1) m'(1) eq by (simp add: open_pipe_ends_def s2_def)
      moreover have "live m' = live (kmem s)" using m'(3) failed(3) R(3) P(15,16) by (auto simp: s2_def s1_def)
      ultimately show thesis using m'(2) eq by (intro that(1) [of m']) simp_all
    next
      case (made m3 wa s3)
      note W = this
      let ?pp = "pp\<lparr>pp_refCount := pp_refCount pp + 1, pp_writerCount := pp_writerCount pp + 1\<rparr>"
      have "files s3 wa = Some \<lparr>fa_pipe = p, fa_flags = FILE_WRITE, fa_refCount = 0\<rparr>"
          "fa_pipe \<lparr>fa_pipe = p, fa_flags = FILE_WRITE, fa_refCount = 0\<rparr> = p" "pipes s3 p = Some ?pp"
          "pp_refCount ?pp \<le> 1" "sems_idle (pipe_sems ?pp) (sems s3)" "0 \<notin> set (pipe_sems ?pp)"
        using W(2) P(5,6,13) rw by (simp_all add: s2_def s1_def)
      then obtain m' s' where m': "freeFileAccess ops wa s3 = Some s'"
        "s' = s3\<lparr>kmem := m', files := (files s3)(wa := None), pipes := (pipes s3)(p := None), sems := sems s3 |` (- set (pipe_sems ?pp))\<rparr>"
        "kmok s'" "live m' = live (kmem s3) - insert wa (pipe_foot (sems s3) p ?pp)"
        by (rule freeFileAccess_last [OF W(3)]) (rule that)
      have eq: "s' = s\<lparr>kmem := m'\<rparr>" using W(2,5) by (simp add: m'(2) s2_def s1_def fun_upd_idem)
      have "open_pipe_ends ops raw s = Some (s', None)"
        using new P(3) R(1) W(1,4) m'(1) by (simp add: open_pipe_ends_def s2_def)
      moreover have "live m' = live (kmem s)" using m'(4) W(2,6,7) R(3) P(15,16) by (auto simp: s2_def s1_def)
      ultimately show thesis using m'(3) eq by (intro that(1) [of m']) simp_all
    qed
  next
    case (made m2 ra s2)
    note R = this
    let ?x = "\<lparr>fa_pipe = p, fa_flags = FILE_READ, fa_refCount = 0\<rparr>"
    let ?pr = "pp\<lparr>pp_refCount := pp_refCount pp + 1, pp_writerCount := pp_writerCount pp\<rparr>"
    have p2: "pipes s2 p = Some ?pr" using R(2) rw by simp
    from R(3) p2 show thesis
    proof (cases rule: newFileAccess_spec [where fl = FILE_WRITE])
      case (failed m3)
      let ?s3 = "s2\<lparr>kmem := m3\<rparr>"
      have "files ?s3 ra = Some ?x" "fa_pipe ?x = p" "pipes ?s3 p = Some ?pr" "pp_refCount ?pr \<le> 1" "sems_idle (pipe_sems ?pr) (sems ?s3)" "0 \<notin> set (pipe_sems ?pr)"
        using R(2) P(5,6,13) rw by (simp_all add: s1_def)
      then obtain m' s' where m': "freeFileAccess ops ra ?s3 = Some s'"
        "s' = ?s3\<lparr>kmem := m', files := (files ?s3)(ra := None), pipes := (pipes ?s3)(p := None), sems := sems ?s3 |` (- set (pipe_sems ?pr))\<rparr>"
        "kmok s'" "live m' = live (kmem ?s3) - insert ra (pipe_foot (sems ?s3) p ?pr)"
        by (rule freeFileAccess_last [OF failed(2)]) (rule that)
      have eq: "s' = s\<lparr>kmem := m'\<rparr>" using R(2,5) by (simp add: m'(2) s1_def fun_upd_idem)
      have "open_pipe_ends ops raw s = Some (s', None)"
        using new P(3) R(1,4) failed(1) m'(1) by (simp add: open_pipe_ends_def)
      moreover have "live m' = live (kmem s)" using m'(4) failed(3) R(2,6,7) P(15,16) by (auto simp: s1_def)
      ultimately show thesis using m'(3) eq by (intro that(1) [of m']) simp_all
    next
      case (made m3 wa s3)
      note W = this
      let ?pp = "pp\<lparr>pp_refCount := 2, pp_writerCount := 1\<rparr>"
      have wr: "wa \<noteq> ra" "files s wa = None" using W(5) R(2) by (auto simp: s1_def split: if_splits)
      have s3: "s3 = s\<lparr>kmem := m3, sems := F, pipes := (pipes s)(p \<mapsto> ?pp),
        files := (files s)(ra \<mapsto> ?x, wa \<mapsto> \<lparr>fa_pipe = p, fa_flags = FILE_WRITE, fa_refCount = 0\<rparr>)\<rparr>"
        using W(2) R(2) rw P(13,14) by (simp add: s1_def)
      have plive: "pipe_live p s3 ?pp c"
        using P(3,5,6,9,10,12) by (auto simp: pipe_live_def s3 sems_idle_def pipe_sems_def)
      have lv: "live m3 - ({ra, wa} \<union> pipe_foot F p ?pp) = live (kmem s)"
      proof -
        have m: "kmem s1 = m1" "kmem s2 = m2" using R(2) by (simp_all add: s1_def)
        have f: "pipe_foot F p ?pp = pipe_foot F p pp" by (simp add: pipe_foot_def pipe_sems_def pipe_blocks_def)
        show ?thesis unfolding f by (rule three_made [OF W(6) [unfolded m] R(6) [unfolded m] P(15) W(7) [unfolded m] R(7) [unfolded m] P(16)])
      qed
      have run: "open_pipe_ends ops raw s = Some (s3, Some (ra, wa))"
        using new P(3) R(1,4) W(1,4) by (simp add: open_pipe_ends_def)
      have ra: "files s ra = None" using R(5) by (simp add: s1_def)
      show thesis
        by (rule that(2) [OF run s3 W(3) plive P(11) _ _ P(4) ra wr(2) wr(1) [symmetric] _ _ _ _ lv]) (use P(5-8) in simp_all)
    qed
  qed
qed

lemma drop_ends:
  assumes ok: "kmok s" and r: "files s ra = Some x" "fa_pipe x = p" "fa_flags x = FILE_READ"
    and w: "files s wa = Some y" "fa_pipe y = p" "ra \<noteq> wa"
    and p: "pipes s p = Some pp" "pp_refCount pp = 2" "sems_idle (pipe_sems pp) (sems s)" "0 \<notin> set (pipe_sems pp)"
  obtains m1 s1 m' s' where "freeFileAccess ops ra s = Some s1" "freeFileAccess ops wa s1 = Some s'"
    "s' = s\<lparr>kmem := m', files := (files s)(ra := None, wa := None), pipes := (pipes s)(p := None), sems := sems s |` (- set (pipe_sems pp))\<rparr>"
    "kmok s'" "live m' = live (kmem s) - ({ra, wa} \<union> pipe_foot (sems s) p pp)"
proof -
  have "fa_flags x AND FILE_WRITE = 0" "pp_refCount pp > 1" using r(3) p(2) by (simp_all add: FILE_READ_def FILE_WRITE_def)
  then obtain m1 s1 where s1: "freeFileAccess ops ra s = Some s1"
    "s1 = s\<lparr>kmem := m1, files := (files s)(ra := None), pipes := (pipes s)(p \<mapsto> pp\<lparr>pp_refCount := pp_refCount pp - 1\<rparr>)\<rparr>"
    "kmok s1" "live m1 = live (kmem s) - {ra}"
    using freeFileAccess_keep [OF ok r(1,2) _ p(1)] by metis
  let ?pp = "pp\<lparr>pp_refCount := pp_refCount pp - 1\<rparr>"
  have "files s1 wa = Some y" "pipes s1 p = Some ?pp" "pp_refCount ?pp \<le> 1" "sems_idle (pipe_sems ?pp) (sems s1)" "0 \<notin> set (pipe_sems ?pp)"
    using s1(2) w p by simp_all
  then obtain m' s' where s': "freeFileAccess ops wa s1 = Some s'"
    "s' = s1\<lparr>kmem := m', files := (files s1)(wa := None), pipes := (pipes s1)(p := None), sems := sems s1 |` (- set (pipe_sems ?pp))\<rparr>"
    "kmok s'" "live m' = live (kmem s1) - insert wa (pipe_foot (sems s1) p ?pp)"
    using freeFileAccess_last [OF s1(3) _ w(2)] by metis
  have "live m' = live (kmem s) - ({ra, wa} \<union> pipe_foot (sems s) p pp)" using s'(4) s1(2,4) by auto
  then show thesis using s1(1) s'(1-3) by (intro that [where m' = m' and s' = s']) (simp_all add: s1(2) fun_upd_twist)
qed

text \<open>The state \<open>t\<close> with the two ends, seen from the state \<open>s\<close> before.\<close>
lemma install_ends_spec:
  assumes s: "procs s cp = Some pr" "length (p_fdTable pr) = 16" "cp \<noteq> 0" "currentProcess s = cp"
    and t: "t = s\<lparr>kmem := m, sems := F, pipes := (pipes s)(p \<mapsto> pp), files := (files s)(ra \<mapsto> x, wa \<mapsto> y)\<rparr>" "kmok t"
      "x = \<lparr>fa_pipe = p, fa_flags = FILE_READ, fa_refCount = 0\<rparr>" "y = \<lparr>fa_pipe = p, fa_flags = FILE_WRITE, fa_refCount = 0\<rparr>"
      "ra \<noteq> wa" "files s ra = None" "files s wa = None" "pipes s p = None" "F |` (- set (pipe_sems pp)) = sems s"
      "pp_refCount pp = 2" "sems_idle (pipe_sems pp) F" "0 \<notin> set (pipe_sems pp)"
  obtains (failed) m' e where
      "install_ends ops ra wa t = Some (s\<lparr>kmem := m', procs := (procs s)(cp \<mapsto> pr\<lparr>p_eofRequests := e\<rparr>)\<rparr>, None)"
      "kmok (s\<lparr>kmem := m', procs := (procs s)(cp \<mapsto> pr\<lparr>p_eofRequests := e\<rparr>)\<rparr>)" "live m' = live m - ({ra, wa} \<union> pipe_foot F p pp)"
    | (made) i j t' where "install_ends ops ra wa t = Some (t', Some (int i, int j))"
      "t' = t\<lparr>files := (files s)(ra \<mapsto> x\<lparr>fa_refCount := 1\<rparr>, wa \<mapsto> y\<lparr>fa_refCount := 1\<rparr>),
        procs := (procs s)(cp \<mapsto> set_fd (int j) wa (set_fd (int i) ra pr))\<rparr>" "kmok t'"
      "i < 16" "j < 16" "i \<noteq> j" "p_fdTable pr ! i = 0" "p_fdTable pr ! j = 0"
proof -
  have same [simp]: "(pipes s)(p := None) = pipes s" "(files s)(ra := None, wa := None) = files s" "(files s)(wa := None, ra := None) = files s"
    using t(6-8) by (simp_all add: fun_upd_idem)
  have nz: "ra \<noteq> 0" "wa \<noteq> 0" using kmem_ok_null(3) [OF t(2)] t(1) by (auto split: if_splits)
  have tt: "procs t cp = Some pr" "files t ra = Some x" "files t wa = Some y" "currentProcess t = cp" using s t(1,5) by simp_all
  from t(2) s(3) tt(1,2) show thesis
  proof (cases rule: addFd_spec)
    case full
    obtain m1 s1 m' s' where d: "freeFileAccess ops ra t = Some s1" "freeFileAccess ops wa s1 = Some s'"
      "s' = t\<lparr>kmem := m', files := (files t)(ra := None, wa := None), pipes := (pipes t)(p := None), sems := sems t |` (- set (pipe_sems pp))\<rparr>"
      "kmok s'" "live m' = live (kmem t) - ({ra, wa} \<union> pipe_foot (sems t) p pp)"
      by (rule drop_ends [OF t(2), of ra x p wa y pp]) (use t that in simp_all)
    have "s' = s\<lparr>kmem := m', procs := (procs s)(cp \<mapsto> pr\<lparr>p_eofRequests := p_eofRequests pr\<rparr>)\<rparr>"
      using s(1) t(1,5,9) by (simp add: d(3) fun_upd_idem fun_upd_twist)
    then show thesis using d full(2) s(3) tt(4) t(1)
      by (intro failed [of "p_eofRequests pr" m']) (simp_all add: install_ends_def addCurrentFd_def)
  next
    case (slot i t1)
    note R = this
    let ?pr = "set_fd (int i) ra pr"
    have t1: "procs t1 cp = Some ?pr" "files t1 wa = Some y" using R(4) t(1,5) by simp_all
    have add1: "addCurrentFd ra t = Some (t1, int i)" using R(3) s(3) tt(4) by (simp add: addCurrentFd_def)
    from R(5) s(3) t1 show thesis
    proof (cases rule: addFd_spec)
      case full
      let ?t2 = "t\<lparr>procs := (procs s)(cp \<mapsto> pr\<lparr>p_eofRequests := (p_eofRequests pr)[i := False]\<rparr>), files := (files s)(wa \<mapsto> y, ra \<mapsto> x)\<rparr>"
      have x1: "x\<lparr>fa_refCount := fa_refCount x + 1 - 1\<rparr> = x" by simp
      have undo: "set_fd (int i) 0 ?pr = pr\<lparr>p_eofRequests := (p_eofRequests pr)[i := False]\<rparr>" by (rule set_fd_undo [OF R(1) s(2) R(2)])
      have "kmok (t1\<lparr>procs := (procs t1)(cp \<mapsto> set_fd (int i) 0 ?pr)\<rparr>)" by (rule kmem_ok_fd [OF R(5) t1(1)])
      moreover have "files (t1\<lparr>procs := (procs t1)(cp \<mapsto> set_fd (int i) 0 ?pr)\<rparr>) ra = Some (x\<lparr>fa_refCount := fa_refCount x + 1\<rparr>)" using R(4) by simp
      ultimately have "kmok (t1\<lparr>procs := (procs t1)(cp \<mapsto> set_fd (int i) 0 ?pr),
          files := (files (t1\<lparr>procs := (procs t1)(cp \<mapsto> set_fd (int i) 0 ?pr)\<rparr>))(ra \<mapsto> x)\<rparr>)" by (rule kmem_ok_file)
      then have ok2: "kmok ?t2" using R(4) t(1) undo by (simp add: t(5) fun_upd_twist)
      obtain m1 s1 m' s' where d: "freeFileAccess ops ra ?t2 = Some s1" "freeFileAccess ops wa s1 = Some s'"
        "s' = ?t2\<lparr>kmem := m', files := (files ?t2)(ra := None, wa := None), pipes := (pipes ?t2)(p := None), sems := sems ?t2 |` (- set (pipe_sems pp))\<rparr>"
        "kmok s'" "live m' = live (kmem ?t2) - ({ra, wa} \<union> pipe_foot (sems ?t2) p pp)"
        by (rule drop_ends [OF ok2, of ra x p wa y pp]) (use t that in simp_all)
      have "closeCurrentFd ops (int i) t1 = Some (s1, 0)"
        using R(1,2,4) s(2,3) nz(1) t(1,3,5) d(1) undo
        by (simp add: closeCurrentFd_def closeFd_def s(4) isOpenFd_def isValidFd_def removeFileRef_def fun_upd_twist)
      moreover have "s' = s\<lparr>kmem := m', procs := (procs s)(cp \<mapsto> pr\<lparr>p_eofRequests := (p_eofRequests pr)[i := False]\<rparr>)\<rparr>"
        using t(1,5,9) by (simp add: d(3) fun_upd_twist)
      ultimately show thesis using d full(2) s(3,4) add1 R(4) t(1)
        by (intro failed [of "(p_eofRequests pr)[i := False]" m']) (simp_all add: install_ends_def addCurrentFd_def)
    next
      case W: (slot j t2)
      have ij: "i \<noteq> j" "p_fdTable pr ! j = 0" using W(1,2) R(1) s(2) nz(1) by (auto simp: nth_list_update split: if_splits)
      have "t2 = t\<lparr>files := (files s)(ra \<mapsto> x\<lparr>fa_refCount := 1\<rparr>, wa \<mapsto> y\<lparr>fa_refCount := 1\<rparr>),
          procs := (procs s)(cp \<mapsto> set_fd (int j) wa (set_fd (int i) ra pr))\<rparr>"
        using W(4) R(4) t(1,3,4,5) by (simp add: fun_upd_twist)
      moreover have "install_ends ops ra wa t = Some (t2, Some (int i, int j))"
        using add1 W(3) R(4) s(3,4) t(1) by (simp add: install_ends_def addCurrentFd_def)
      ultimately show thesis using W(1,5) R(1,2) ij by (intro made [where i = i and j = j and t' = t2]) simp_all
    qed
  qed
qed

end

text \<open>The descriptors of the current process; what a successful call leaves, and what an unsuccessful
  one does.\<close>
definition cur_fds :: "'m kst \<Rightarrow> u64 list" where
  "cur_fds s = (case procs s (currentProcess s) of None \<Rightarrow> [] | Some pr \<Rightarrow> p_fdTable pr)"

definition pipe_added :: "'m kst \<Rightarrow> nat \<Rightarrow> nat \<Rightarrow> 'm kst \<Rightarrow> bool" where
  "pipe_added s i j s' \<longleftrightarrow> i < 16 \<and> j < 16 \<and> i \<noteq> j \<and> cur_fds s ! i = 0 \<and> cur_fds s ! j = 0 \<and>
     (\<exists>p pp c ra wa. pipes s p = None \<and> pipes s' = (pipes s)(p \<mapsto> pp) \<and> pipe_live p s' pp c \<and> cb_list c = [] \<and>
        pp_refCount pp = 2 \<and> pp_writerCount pp = 1 \<and>
        map (\<lambda>a. map_option sem_value (sems s' a)) (pipe_sems pp) = map Some [0, 1024, 1, 1] \<and>
        sems s' |` (- set (pipe_sems pp)) = sems s \<and>
        ra \<noteq> 0 \<and> wa \<noteq> 0 \<and> ra \<noteq> wa \<and> files s ra = None \<and> files s wa = None \<and>
        files s' = (files s)(ra \<mapsto> \<lparr>fa_pipe = p, fa_flags = FILE_READ, fa_refCount = 1\<rparr>,
          wa \<mapsto> \<lparr>fa_pipe = p, fa_flags = FILE_WRITE, fa_refCount = 1\<rparr>) \<and>
        cur_fds s' = (cur_fds s)[i := ra, j := wa])"

definition objects_same :: "'m kst \<Rightarrow> 'm kst \<Rightarrow> bool" where
  "objects_same s s' \<longleftrightarrow> pipes s' = pipes s \<and> files s' = files s \<and> sems s' = sems s \<and> cur_fds s' = cur_fds s"

context allocator
begin

lemma make_pipe_fds_spec:
  assumes ok: "kmok s" and cp: "currentProcess s \<noteq> 0" "length (cur_fds s) = 16"
  obtains (failed) s' where "make_pipe_fds ops raw s = Some (s', None)" "kmok s'" "objects_same s s'" "live (kmem s') = live (kmem s)"
    | (made) i j s' where "make_pipe_fds ops raw s = Some (s', Some (int i, int j))" "kmok s'" "pipe_added s i j s'"
proof -
  let ?cp = "currentProcess s"
  obtain pr where pr: "procs s ?cp = Some pr" "length (p_fdTable pr) = 16" using cp(2) by (auto simp: cur_fds_def split: option.splits)
  from ok show thesis
  proof (cases rule: open_pipe_ends_spec [where raw = raw])
    case (failed m')
    then show thesis by (intro that(1) [of "s\<lparr>kmem := m'\<rparr>"]) (simp_all add: make_pipe_fds_def objects_same_def cur_fds_def)
  next
    case O: (made m F p pp c ra wa t)
    have nz: "ra \<noteq> 0" "wa \<noteq> 0" using kmem_ok_null(3) [OF O(3)] O(2) by (auto split: if_splits)
    from pr cp(1) refl O(2,3) refl refl O(11,9,10,8,14,6,12,13) show thesis
    proof (cases rule: install_ends_spec)
      case (failed m' e)
      then show thesis using O(1,16) pr
        by (intro that(1) [of "s\<lparr>kmem := m', procs := (procs s)(?cp \<mapsto> pr\<lparr>p_eofRequests := e\<rparr>)\<rparr>"])
          (simp_all add: make_pipe_fds_def objects_same_def cur_fds_def)
    next
      case (made i j t')
      have t': "pipes t' = (pipes s)(p \<mapsto> pp)" "sems t' = F" "cur_fds t' = (cur_fds s)[i := ra, j := wa]"
        using made(2) O(2) pr by (simp_all add: cur_fds_def)
      have "pipe_live p t' pp c" using O(2,4) made(2) by (simp add: pipe_live_def)
      moreover have "files t' = (files s)(ra \<mapsto> \<lparr>fa_pipe = p, fa_flags = FILE_READ, fa_refCount = 1\<rparr>,
          wa \<mapsto> \<lparr>fa_pipe = p, fa_flags = FILE_WRITE, fa_refCount = 1\<rparr>)" using made(2) by simp
      moreover have "cur_fds s ! i = 0" "cur_fds s ! j = 0" using made(7,8) pr by (simp_all add: cur_fds_def)
      ultimately have "pipe_added s i j t'" unfolding pipe_added_def using made(4-6) nz O(5-15) t' by blast
      then show thesis using O(1) made(1,3) by (intro that(2)) (simp_all add: make_pipe_fds_def)
    qed
  qed
qed

end

lemma store_bytes_at:
  assumes "length bs < 2 ^ 64"
  shows "store_bytes a bs m = (\<lambda>b. if unat (b - a) < length bs then bs ! unat (b - a) else m b)"
proof -
  have "fold (\<lambda>i m. m(a + of_nat i := bs ! i)) [0..<n] m = (\<lambda>b. if unat (b - a) < n then bs ! unat (b - a) else m b)"
    if "n \<le> length bs" for n
    using that
  proof (induction n)
    case (Suc n)
    have "unat (b - a) < Suc n \<longleftrightarrow> unat (b - a) < n \<or> b = a + of_nat n" for b
      using eq_offset [of n b a] Suc.prems assms by auto
    moreover have "unat (a + of_nat n - a) = n" using Suc.prems assms by (simp add: unat_of_nat_u64)
    ultimately show ?case using Suc by (auto simp: fun_eq_iff)
  qed simp
  from this [OF order_refl] show ?thesis by (simp add: store_bytes_def)
qed

lemma store_int_reads:
  "readUint32 (store_int a x m) a = word_of_int x" "4 \<le> unat (b - a) \<Longrightarrow> store_int a x m b = m b"
proof -
  have eq: "store_int a x m = (\<lambda>b. if unat (b - a) < 4 then le32 (word_of_int x) ! unat (b - a) else m b)"
    by (simp add: store_int_def store_bytes_at)
  have "bytes_at (store_int a x m) a (le32 (word_of_int x))" by (simp add: bytes_at_def eq unat_of_nat_u64)
  then show "readUint32 (store_int a x m) a = word_of_int x" by (rule readUint32_le32)
  show "4 \<le> unat (b - a) \<Longrightarrow> store_int a x m b = m b" by (simp add: eq)
qed

lemma readUint32_frame:
  assumes "\<And>i. i < 4 \<Longrightarrow> m' (a + of_nat i) = m (a + of_nat i)"
  shows "readUint32 m' a = readUint32 m a"
  using assms [of 0] assms [of 1] assms [of 2] assms [of 3] by (simp add: readUint32_def)

text \<open>Two adjacent integers.\<close>
lemma store_two_ints:
  assumes m'_def: "m' = store_int (a + 4) y (store_int a x m)"
  shows "readUint32 m' a = word_of_int x" "readUint32 m' (a + 4) = word_of_int y" "unat (b - a) < 8 \<or> m' b = m b"
proof -
  have "m' (a + of_nat i) = store_int a x m (a + of_nat i)" if "i < 4" for i
  proof -
    have "i = 0 \<or> i = 1 \<or> i = 2 \<or> i = 3" using that by auto
    then show ?thesis unfolding m'_def by (intro store_int_reads(2)) (auto simp: unsigned_minus_1_eq_mask mask_eq_exp_minus_1)
  qed
  then have "readUint32 m' a = readUint32 (store_int a x m) a" by (rule readUint32_frame)
  then show "readUint32 m' a = word_of_int x" by (simp add: store_int_reads(1))
  show "readUint32 m' (a + 4) = word_of_int y" by (simp add: m'_def store_int_reads(1))
  have "m' b = m b" if b: "8 \<le> unat (b - a)"
  proof -
    have "unat (b - (a + 4)) = unat (b - a) - 4"
      using b unat_sub [of 4 "b - a"] by (simp add: word_le_nat_alt diff_diff_eq)
    with b show ?thesis unfolding m'_def by (simp add: store_int_reads(2))
  qed
  then show "unat (b - a) < 8 \<or> m' b = m b" by (meson not_le)
qed

section \<open>Properties\<close>

text \<open>C10. \<^verbatim>\<open>sysPipe\<close> is all or nothing, whichever of its requests for memory or descriptors is refused.
  Either it returns 0, a new empty pipe with two users and one writer exists, its read end and its
  write end are in two descriptors that were free, their numbers are in the caller's array, and
  nothing else changed; or it returns -1, and there is no new pipe, file access or semaphore, the
  descriptors and the caller's memory are as before, and every heap block taken on the way has been
  given back.  The heap stays consistent in both cases.\<close>
theorem sysPipe_all_or_nothing:
  assumes "fl_kmem_ok (sy_k y)" "currentProcess (sy_k y) \<noteq> 0" "length (cur_fds (sy_k y)) = 16" "ev_mm ev = fl_ops"
  shows "\<exists>y' r. sysPipe ev arg1 arg2 arg3 arg4 arg5 arg6 y = Some (y', Ret r) \<and> fl_kmem_ok (sy_k y') \<and>
    (r = 0 \<and> (\<exists>i j. pipe_added (sy_k y) i j (sy_k y') \<and> readUint32 (sys_mem y') arg1 = of_nat i \<and>
        readUint32 (sys_mem y') (arg1 + 4) = of_nat j) \<and> (\<forall>a. unat (a - arg1) < 8 \<or> sys_mem y' a = sys_mem y a) \<or>
     r = -1 \<and> objects_same (sy_k y) (sy_k y') \<and> dom (fl_blocks (kmem (sy_k y'))) = dom (fl_blocks (kmem (sy_k y))) \<and>
       sys_mem y' = sys_mem y)"
proof (cases "arg1 = 0")
  case True
  with assms(1) show ?thesis by (intro exI [of _ y] exI [of _ "-1"]) (simp add: sysPipe_def c_ret_def objects_same_def)
next
  case False
  from assms(1-3) show ?thesis
  proof (cases rule: fl.make_pipe_fds_spec [where raw = "ev_raw ev"])
    case (failed k)
    with False assms(4) show ?thesis
      by (intro exI [of _ "y\<lparr>sy_k := k\<rparr>"] exI [of _ "-1"]) (simp add: sysPipe_def c_ret_def)
  next
    case (made i j k)
    let ?y = "with_mem (store_int (arg1 + 4) (int j) \<circ> store_int arg1 (int i)) (y\<lparr>sy_k := k\<rparr>)"
    note two = store_two_ints [OF refl, where a = arg1 and x = "int i" and y = "int j" and m = "sys_mem y"]
    have "sysPipe ev arg1 arg2 arg3 arg4 arg5 arg6 y = Some (?y, Ret 0)"
      using False assms(4) made(1) by (simp add: sysPipe_def)
    with made(2,3) two show ?thesis
      by (intro exI [of _ ?y] exI [of _ 0]) (auto simp: with_mem_def not_less)
  qed
qed


definition zero_frame :: StackFrame where
  "zero_frame = \<lparr>f_r15 = 0, f_r14 = 0, f_r13 = 0, f_r12 = 0, f_r11 = 0, f_r10 = 0, f_r9 = 0, f_r8 = 0, f_rsi = 0, f_rdi = 0,
     f_rbp = 0, f_rdx = 0, f_rcx = 0, f_rbx = 0, f_rax = 0, f_rip = 0, f_cs = 0, f_rflags = 0, f_rsp = 0, f_ss = 0\<rparr>"

definition demo_sys :: "fl_state sysst" where
  "demo_sys = \<lparr>sy_k = demo_kst, sy_shared = shared_zero, sy_video = demo_video, sy_kb = kb_zero,
     sy_snap = \<lparr>snapshot = zero_frame, savedSnapshot = zero_frame, snapshotTaken = False\<rparr>\<rparr>"

definition demo_env :: "fl_state sys_env" where
  "demo_env = \<lparr>ev_mm = fl_ops, ev_status = mem_status, ev_rsp = 0, ev_time = (0, 0, 0), ev_date = (1, 1, 1, 0x25),
     ev_ticks = [], ev_raw = (\<lambda>_. 0)\<rparr>"

theorem sysPipe_all_or_nothing_witness:
  "\<exists>y' r. sysPipe demo_env 0x3000 0 0 0 0 0 demo_sys = Some (y', Ret r) \<and> fl_kmem_ok (sy_k y') \<and> (r = 0 \<or> r = -1)"
proof -
  have "currentProcess (sy_k demo_sys) \<noteq> 0" "length (cur_fds (sy_k demo_sys)) = 16" "ev_mm demo_env = fl_ops" "fl_kmem_ok (sy_k demo_sys)"
    using demo_kmem demo_ptr_inj [of 16 0] demo_ptr_inj [of 16 8]
    by (simp_all add: demo_sys_def demo_env_def) (simp_all add: demo_kst_def demo_proc_def cur_fds_def demo_ptr_nonnull)
  from sysPipe_all_or_nothing [OF this(4,1,2,3), of "0x3000" 0 0 0 0 0] show ?thesis by blast
qed

end
