(* ===== verification/KSpawn.thy ===== *)
theory KSpawn
  imports KSyscalls
begin

text \<open>
  What starting a process leaves behind (\<^verbatim>\<open>newProcess\<close> in \<^verbatim>\<open>process.c\<close>,
  \<^verbatim>\<open>startNewProcess\<close> and \<^verbatim>\<open>startNewProcessWithPid\<close> in \<^verbatim>\<open>scheduler.c\<close>): either a new entry of the
  process table with its own blocks, its copy of the arguments and the descriptors of its parent,
  or, whatever allocation was refused, nothing.  The proofs hold for every memory manager that
  keeps the \<open>allocator\<close> contract.
\<close>

section \<open>Blocks of one owner\<close>

text \<open>One owner's blocks replaced.\<close>
definition own_set :: "'o \<Rightarrow> u64 list \<Rightarrow> ('o \<Rightarrow> u64 list) \<Rightarrow> 'o \<Rightarrow> u64 list" where
  "own_set x L f = f(x := L)"

lemma own_set_simps [simp]: "own_set x L f x = L" "own_set x L (own_set x K f) = own_set x L f"
  by (simp_all add: own_set_def)

lemma own_set_idem: "f x = L \<Longrightarrow> own_set x L f = f"
  by (simp add: own_set_def fun_upd_idem)

section \<open>Growing and shrinking what an owner holds\<close>

context allocator
begin

lemma own_grow:
  assumes own: "own_ok inv blocks m f" and "n \<noteq> 0" "unat n \<le> limit m"
  obtains (fail) m' where "mm_alloc ops m n = Some (m', 0)" "limit m' = limit m" "own_ok inv blocks m' f" "live m' = live m"
    | (new) m' a where "mm_alloc ops m n = Some (m', a)" "a \<noteq> 0" "limit m' = limit m" "own_ok inv blocks m' (own_set x (f x @ [a]) f)"
      "a \<notin> set (f x)" "live m' = insert a (live m)" "a \<notin> live m"
  using assms
proof (cases rule: own_alloc)
  case (fail m')
  with that(1) show thesis by simp
next
  case (new m' p)
  have "distinct (f x @ [p])" using own_ok_distinct [OF own] new(4) by simp
  then have "own_ok inv blocks m' (own_set x (f x @ [p]) f)" unfolding own_set_def by (rule new(6)) auto
  with new that(2) show thesis by blast
qed

lemma own_drop:
  assumes own: "own_ok inv blocks m f" and "f x = as @ a # bs"
  obtains m' where "mm_free ops m a = Some m'" "limit m' = limit m" "own_ok inv blocks m' (own_set x (as @ bs) f)"
    "live m' = live m - {a}"
proof -
  have d: "distinct (as @ a # bs)" using own_ok_distinct [OF own, of x] assms(2) by simp
  have "a \<in> set (f x)" using assms(2) by simp
  then obtain m' where m': "mm_free ops m a = Some m'" "limit m' = limit m"
      "\<And>xs. distinct xs \<Longrightarrow> set xs \<subseteq> set (f x) - {a} \<Longrightarrow> own_ok inv blocks m' (f(x := xs))" "live m' = live m - {a}"
    by (rule own_free_dom [OF own]) (rule that)
  have "own_ok inv blocks m' (own_set x (as @ bs) f)" unfolding own_set_def by (rule m'(3)) (use d assms(2) in auto)
  from that [OF m'(1,2) this m'(4)] show thesis .
qed

end

section \<open>Argument vectors\<close>

fun str_blocks :: "(u64 \<times> u8 list) option list \<Rightarrow> u64 list" where
  "str_blocks [] = []"
| "str_blocks (None # xs) = str_blocks xs"
| "str_blocks (Some (a, cs) # xs) = a # str_blocks xs"

lemma str_blocks_append [simp]: "str_blocks (xs @ ys) = str_blocks xs @ str_blocks ys"
  by (induction xs rule: str_blocks.induct) simp_all

lemma str_blocks_eq: "map fst (List.map_filter id xs) = str_blocks xs"
  by (induction xs rule: str_blocks.induct) (simp_all add: List.map_filter_def)

text \<open>Argument strings and vectors within the size the manager promises to serve.\<close>
definition args_ok :: "int \<Rightarrow> u8 list option list option \<Rightarrow> bool" where
  "args_ok argc argv \<longleftrightarrow> argc \<le> 4096 \<and> (\<forall>as cs. argv = Some as \<longrightarrow> Some cs \<in> set as \<longrightarrow> length cs < 2 ^ 15)"

context allocator
begin

lemma free_strs_own:
  assumes "own_ok inv blocks m f" "f x = L @ str_blocks xs"
  obtains m' where "free_strs ops xs m = Some m'" "limit m' = limit m" "own_ok inv blocks m' (own_set x (L) f)"
    "live m' = live m - set (str_blocks xs)"
  using assms
proof (induction xs arbitrary: m f thesis)
  case Nil
  then show ?case by (intro Nil(1) [of m]) (simp_all add: own_set_idem)
next
  case (Cons y xs)
  show ?case
  proof (cases y)
    case None
    have fx: "f x = L @ str_blocks xs" using Cons.prems(3) None by simp
    show ?thesis by (rule Cons.IH [OF _ Cons.prems(2) fx]) (use Cons.prems(1) None in simp)
  next
    case (Some ac)
    then obtain a cs where y: "y = Some (a, cs)" by (cases ac) auto
    have "f x = L @ a # str_blocks xs" using Cons.prems(3) y by simp
    from own_drop [OF Cons.prems(2) this] obtain m1 where m1: "mm_free ops m a = Some m1" "limit m1 = limit m"
        "own_ok inv blocks m1 (own_set x (L @ str_blocks xs) f)" "live m1 = live m - {a}" by metis
    obtain m2 where m2: "free_strs ops xs m1 = Some m2" "limit m2 = limit m1"
        "own_ok inv blocks m2 (own_set x L (own_set x (L @ str_blocks xs) f))" "live m2 = live m1 - set (str_blocks xs)"
      by (rule Cons.IH [OF _ m1(3)]) (simp_all add: that)
    show ?thesis by (rule Cons.prems(1) [of m2]) (use m1 m2 y in auto)
  qed
qed

lemma copy_args_own:
  assumes "own_ok inv blocks m f" "f x = L @ str_blocks xs" "2 ^ 15 \<le> limit m" "\<forall>cs. Some cs \<in> set as \<longrightarrow> length cs < 2 ^ 15"
  obtains (failed) m' where "copy_args ops as xs m = Some (m', None)" "limit m' = limit m" "own_ok inv blocks m' (own_set x (L) f)"
      "live m' = live m - set (str_blocks xs)"
    | (copied) m' ys where "copy_args ops as xs m = Some (m', Some ys)" "limit m' = limit m"
      "own_ok inv blocks m' (own_set x (L @ str_blocks ys) f)" "\<exists>zs. ys = xs @ zs \<and> map (map_option snd) zs = as"
      "live m' = live m \<union> set (str_blocks ys)" "set (str_blocks ys) \<inter> live m \<subseteq> set (str_blocks xs)"
  using assms
proof (induction as arbitrary: m f xs thesis)
  case Nil
  have "own_ok inv blocks m (own_set x (L @ str_blocks xs) f)" using Nil(3,4) by (simp add: own_set_idem)
  moreover have "live m = live m \<union> set (str_blocks xs)" using own_ok_live [OF Nil(3), of _ x] Nil(4) by auto
  ultimately show ?case by (intro Nil(2) [of m xs]) simp_all
next
  case (Cons y as)
  show ?case
  proof (cases y)
    case None
    have fx: "f x = L @ str_blocks (xs @ [None])" using Cons.prems(4) by simp
    show ?thesis
    proof (rule Cons.IH [OF _ _ Cons.prems(3) fx Cons.prems(5)])
      fix m' assume "copy_args ops as (xs @ [None]) m = Some (m', None)" "limit m' = limit m" "own_ok inv blocks m' (own_set x (L) f)"
        "live m' = live m - set (str_blocks (xs @ [None]))"
      then show thesis using None by (intro Cons.prems(1) [of m']) simp_all
    next
      fix m' ys assume "copy_args ops as (xs @ [None]) m = Some (m', Some ys)" "limit m' = limit m"
        "own_ok inv blocks m' (own_set x (L @ str_blocks ys) f)" "\<exists>zs. ys = (xs @ [None]) @ zs \<and> map (map_option snd) zs = as"
        "live m' = live m \<union> set (str_blocks ys)" "set (str_blocks ys) \<inter> live m \<subseteq> set (str_blocks (xs @ [None]))"
      then show thesis using None by (intro Cons.prems(2) [of m' ys]) force+
    qed (use Cons.prems(6) in simp)
  next
    case (Some cs)
    have len: "length cs < 2 ^ 15" using Cons.prems(6) Some by simp
    have "unat (of_nat (length cs) + 1 :: u64) = length cs + 1"
      using len unat_of_nat_u64 [of "length cs + 1"] by (simp add: add.commute)
    then have n: "(of_nat (length cs) + 1 :: u64) \<noteq> 0" "unat (of_nat (length cs) + 1 :: u64) \<le> limit m"
      using len Cons.prems(5) by (auto simp: word_unat_eq_iff)
    from Cons.prems(3) n show ?thesis
    proof (cases rule: own_grow [where x = x])
      case (fail m1)
      have "f x = L @ str_blocks xs" by (rule Cons.prems(4))
      from free_strs_own [OF fail(3) this] obtain m2 where m2: "free_strs ops xs m1 = Some m2" "limit m2 = limit m1"
          "own_ok inv blocks m2 (own_set x (L) f)" "live m2 = live m1 - set (str_blocks xs)" by metis
      show ?thesis by (rule Cons.prems(1) [of m2]) (use fail m2 Some in simp_all)
    next
      case (new m1 a)
      let ?f = "own_set x (f x @ [a]) f" and ?xs = "xs @ [Some (a, cs)]"
      have fx: "?f x = L @ str_blocks ?xs" using Cons.prems(4) by simp
      have lim: "2 ^ 15 \<le> limit m1" using Cons.prems(5) new(3) by simp
      show ?thesis
      proof (rule Cons.IH [OF _ _ new(4) fx lim])
        fix m' assume h: "copy_args ops as ?xs m1 = Some (m', None)" "limit m' = limit m1" "own_ok inv blocks m' (own_set x (L) ?f)"
          "live m' = live m1 - set (str_blocks ?xs)"
        show thesis by (rule Cons.prems(1) [of m']) (use h new Some in auto)
      next
        fix m' ys assume h: "copy_args ops as ?xs m1 = Some (m', Some ys)" "limit m' = limit m1"
          "own_ok inv blocks m' (own_set x (L @ str_blocks ys) ?f)" "\<exists>zs. ys = ?xs @ zs \<and> map (map_option snd) zs = as"
          "live m' = live m1 \<union> set (str_blocks ys)" "set (str_blocks ys) \<inter> live m1 \<subseteq> set (str_blocks ?xs)"
        have "\<exists>zs. ys = xs @ zs \<and> map (map_option snd) zs = y # as" using h(4) Some by force
        moreover have "a \<in> set (str_blocks ys)" using h(4) by auto
        moreover have "set (str_blocks ys) \<inter> live m \<subseteq> set (str_blocks xs)" using h(6) new(6,7) by auto
        ultimately show thesis using h new Some by (intro Cons.prems(2) [of m' ys]) auto
      qed (use Cons.prems(6) in simp)
    qed
  qed
qed

lemma deepCopyArgv_own:
  assumes own: "own_ok inv blocks m f" and lim: "2 ^ 15 \<le> limit m" and ok: "args_ok argc argv" "argc > 0"
  obtains (failed) m' where "deepCopyArgv ops argc argv m = Some (m', None)" "limit m' = limit m" "own_ok inv blocks m' f" "live m' = live m"
    | (copied) m' av as where "deepCopyArgv ops argc argv m = Some (m', Some av)" "limit m' = limit m"
      "own_ok inv blocks m' (own_set x (f x @ av_blocks (Some av)) f)" "live m' = set (av_blocks (Some av)) \<union> live m"
      "set (av_blocks (Some av)) \<inter> live m = {}" "argv = Some as" "map (map_option snd) (av_strs av) = take (nat argc) as"
proof (cases argv)
  case None
  then show thesis using own by (intro failed [of m]) (simp_all add: deepCopyArgv_def)
next
  case (Some as)
  have small: "argc \<le> 4096" using ok(1) by (simp add: args_ok_def)
  have "8 * argc = int (nat (8 * argc))" using ok(2) by simp
  then have e: "(8 * of_int argc :: u64) = of_nat (nat (8 * argc))" by (metis of_int_mult of_int_numeral of_int_of_nat_eq)
  have "nat (8 * argc) \<le> 2 ^ 15" using small by simp
  then have "nat (8 * argc) < 2 ^ 64" by (rule le_less_trans) simp
  then have u: "unat (8 * of_int argc :: u64) = nat (8 * argc)"
    unfolding e by (rule unat_of_nat_u64)
  have n: "(8 * of_int argc :: u64) \<noteq> 0" "unat (8 * of_int argc :: u64) \<le> limit m"
    using small ok(2) lim u by (auto simp: word_unat_eq_iff)
  from own n show thesis
  proof (cases rule: own_grow [where x = x])
    case (fail m1)
    then show thesis using Some ok(2) by (intro failed [of m1]) (simp_all add: deepCopyArgv_def)
  next
    case (new m1 out)
    let ?f = "own_set x (f x @ [out]) f"
    have "?f x = (f x @ [out]) @ str_blocks []" "2 ^ 15 \<le> limit m1" "\<forall>cs. Some cs \<in> set (take (nat argc) as) \<longrightarrow> length cs < 2 ^ 15"
      using new(3) lim ok(1) Some by (auto simp: args_ok_def dest: in_set_takeD)
    from new(4) this show thesis
    proof (cases rule: copy_args_own)
      case (failed m2)
      have "own_set x (f x @ [out]) ?f x = f x @ out # []" by simp
      from own_drop [OF failed(3) this] obtain m3 where m3: "mm_free ops m2 out = Some m3" "limit m3 = limit m2"
          "own_ok inv blocks m3 (own_set x (f x @ []) (own_set x (f x @ [out]) ?f))" "live m3 = live m2 - {out}" by metis
      have "own_ok inv blocks m3 f" using m3(3) by (simp add: own_set_idem)
      then show thesis using m3 failed new Some ok(2) by (intro that(1) [of m3]) (auto simp: deepCopyArgv_def)
    next
      case (copied m2 ys)
      let ?av = "\<lparr>av_self = out, av_strs = ys\<rparr>"
      have av: "av_blocks (Some ?av) = out # str_blocks ys" by (simp add: av_blocks_def str_blocks_eq)
      have "own_ok inv blocks m2 (own_set x (f x @ av_blocks (Some ?av)) f)" using copied(3) by (simp add: av)
      moreover have "live m2 = set (av_blocks (Some ?av)) \<union> live m" using copied(5) new(6) by (auto simp: av)
      moreover have "set (av_blocks (Some ?av)) \<inter> live m = {}" using copied(6) new(6,7) by (auto simp: av)
      ultimately show thesis using copied(1,2,4) new(1-3) Some ok(2)
        by (intro that(2) [of m2 ?av as]) (simp_all add: deepCopyArgv_def)
    qed
  qed
qed

lemma kq_new_own:
  assumes own: "own_ok inv blocks m f" and lim: "2 ^ 15 \<le> limit m"
  obtains m' and q :: "int kqueue option" where "kq_new ops m = Some (m', q)" "limit m' = limit m" "own_ok inv blocks m' (own_set x (f x @ qself q) f)"
    "qnodes q = []" "live m' = set (qself q) \<union> live m" "set (qself q) \<inter> live m = {}"
proof -
  have n: "sizeof_queueCDT \<noteq> 0" "unat sizeof_queueCDT \<le> limit m" using lim by (simp_all add: sizeof_queueCDT_def)
  from own n show thesis
  proof (cases rule: own_grow [where x = x])
    case (fail m1)
    then show thesis by (intro that [of m1 None]) (simp_all add: kq_new_def qself_def qnodes_def own_set_idem)
  next
    case (new m1 a)
    then show thesis
      by (intro that [of m1 "Some \<lparr>kq_self = a, kq_nodes = []\<rparr>"]) (simp_all add: kq_new_def qself_def qnodes_def)
  qed
qed

lemma kqp_free_own:
  assumes own: "own_ok inv blocks m f" and f: "f x = as @ qself q @ bs" "qnodes q = []"
  obtains m' where "kqp_free ops q m = Some m'" "limit m' = limit m" "own_ok inv blocks m' (own_set x (as @ bs) f)"
    "live m' = live m - set (qself q)"
proof (cases q)
  case None
  then show thesis using own f by (intro that [of m]) (simp_all add: kqp_free_def qself_def own_set_idem)
next
  case (Some k)
  have "f x = as @ kq_self k # bs" using f Some by (simp add: qself_def)
  from own_drop [OF own this] obtain m' where "mm_free ops m (kq_self k) = Some m'" "limit m' = limit m"
    "own_ok inv blocks m' (own_set x (as @ bs) f)" "live m' = live m - {kq_self k}" by metis
  then show thesis using Some f(2) by (intro that [of m']) (simp_all add: kqp_free_def kq_free_def qself_def qnodes_def)
qed

end

section \<open>A new process\<close>

lemma newSemaphore_procs: "newSemaphore mm v (s\<lparr>procs := P\<rparr>) = map_option (\<lambda>(s, a). (s\<lparr>procs := P\<rparr>, a)) (newSemaphore mm v s)"
  by (auto simp: newSemaphore_def split: option.splits bind_split)

lemma freeSemaphore_procs: "freeSemaphore mm a (s\<lparr>procs := P\<rparr>) = map_option (\<lambda>s. s\<lparr>procs := P\<rparr>) (freeSemaphore mm a s)"
  by (auto simp: freeSemaphore_def sem_acquire_def sem_release_def on_sem_def split: option.splits bind_split)

lemma new_sems_procs: "new_sems mm vs (s\<lparr>procs := P\<rparr>) = map_option (\<lambda>(s, as). (s\<lparr>procs := P\<rparr>, as)) (new_sems mm vs s)"
  by (induction vs arbitrary: s) (auto simp: newSemaphore_procs split: bind_split)

lemma free_sems_procs: "free_sems mm as (s\<lparr>procs := P\<rparr>) = map_option (\<lambda>s. s\<lparr>procs := P\<rparr>) (free_sems mm as s)"
  by (induction as arbitrary: s) (auto simp: freeSemaphore_procs split: bind_split)

lemma owned_proc_new:
  assumes "procs s p = None" "procs s' = (procs s)(p \<mapsto> pr)" "sems s' = sems s" "pipes s' = pipes s" "files s' = files s"
    "readyQueue s' = readyQueue s" "qnodes (p_children pr) = []" "qnodes (p_terminatedChildren pr) = []"
  shows "owned s' = own_set (OProc p) (proc_blocks p pr) (owned s)"
proof
  fix x show "owned s' x = own_set (OProc p) (proc_blocks p pr) (owned s) x"
    using assms by (cases x) (auto simp: heap_blocks_def own_set_def)
qed

text \<open>The record a new process starts with.\<close>
definition fresh_proc :: "u64 \<Rightarrow> u8 list option \<Rightarrow> u64 \<Rightarrow> int \<Rightarrow> u8 \<Rightarrow> u64 \<Rightarrow> int kqueue option \<Rightarrow> int kqueue option \<Rightarrow> u64 \<Rightarrow> u64 \<Rightarrow> int \<Rightarrow>
    argvec option \<Rightarrow> processCDT" where
  "fresh_proc entryPoint name stackSize pid priorityLevel sb ch tc t ct argc av =
     \<lparr>p_pid = pid, p_stackBase = sb, p_stackSize = stackSize, p_rsp = sb + stackSize, p_rip = entryPoint,
      p_state = READY, p_name = copyProcessName name, p_priorityLevel = priorityLevel,
      p_remainingQuantums = priorityLevel, p_ppid = INIT_PID, p_children = ch,
      p_terminatedChildren = tc, p_terminated = t, p_childTerminated = ct,
      p_argc = argc, p_argv = av, p_fdTable = replicate 16 0, p_eofRequests = replicate 16 False\<rparr>"

lemma fresh_proc_blocks: "proc_blocks p (fresh_proc e n ss pid pl sb ch tc t ct argc av) = [p, sb] @ qself ch @ qself tc @ av_blocks av"
  by (simp add: proc_blocks_def fresh_proc_def)

definition proc_sems :: "processCDT \<Rightarrow> u64 list" where
  "proc_sems pr = [p_terminated pr, p_childTerminated pr]"

definition proc_foot :: "(u64 \<rightharpoonup> semCDT) \<Rightarrow> u64 \<Rightarrow> processCDT \<Rightarrow> u64 set" where
  "proc_foot f p pr = set (proc_blocks p pr) \<union> foots (proc_sems pr) f"

context allocator
begin

text \<open>The control block, the stack and the two queues.\<close>
lemma alloc_proc_parts:
  assumes ok: "kmok s" and ss: "stackSize \<noteq> 0" "unat stackSize \<le> 2 ^ 15"
  obtains (no_block) m' where "mm_alloc ops (kmem s) sizeof_processCDT = Some (m', 0)" "kmok (s\<lparr>kmem := m'\<rparr>)" "live m' = live (kmem s)"
    | (no_stack) m1 m2 m' p where "mm_alloc ops (kmem s) sizeof_processCDT = Some (m1, p)" "p \<noteq> 0" "mm_alloc ops m1 stackSize = Some (m2, 0)"
      "mm_free ops m2 p = Some m'" "kmok (s\<lparr>kmem := m'\<rparr>)" "live m' = live (kmem s)"
    | (parts) m1 m2 m3 m' p sb ch tc where "mm_alloc ops (kmem s) sizeof_processCDT = Some (m1, p)" "p \<noteq> 0"
      "mm_alloc ops m1 stackSize = Some (m2, sb)" "sb \<noteq> 0" "kq_new ops m2 = Some (m3, ch)" "kq_new ops m3 = Some (m', tc)"
      "qnodes ch = []" "qnodes tc = []" "procs s p = None" "limit m' = limit (kmem s)"
      "own_ok inv blocks m' (own_set (OProc p) ([p, sb] @ qself ch @ qself tc) (owned s))"
      "live m' = set ([p, sb] @ qself ch @ qself tc) \<union> live (kmem s)" "set ([p, sb] @ qself ch @ qself tc) \<inter> live (kmem s) = {}"
proof -
  have own: "own_ok inv blocks (kmem s) (owned s)" and lim: "2 ^ 15 \<le> limit (kmem s)" using ok by (simp_all add: kmem_ok_def)
  have n: "sizeof_processCDT \<noteq> 0" "unat sizeof_processCDT \<le> limit (kmem s)" using lim by (simp_all add: sizeof_processCDT_def)
  from own n show thesis
  proof (cases rule: own_alloc)
    case (fail m')
    with lim show thesis by (intro no_block [of m']) (simp_all add: kmem_ok_def)
  next
    case (new m1 p)
    note P = this
    have none: "procs s p = None" using P(4) [of "OProc p"] by (cases "procs s p") (simp_all add: heap_blocks_def proc_blocks_def)
    let ?f1 = "own_set (OProc p) [p] (owned s)"
    have own1: "own_ok inv blocks m1 ?f1" unfolding own_set_def by (rule P(6)) simp_all
    have n: "unat stackSize \<le> limit m1" using ss(2) lim P(3) by linarith
    from own1 ss(1) n show thesis
    proof (cases rule: own_grow [where x = "OProc p"])
      case (fail m2)
      have "?f1 (OProc p) = [] @ p # []" by simp
      from own_drop [OF fail(3) this] obtain m' where m': "mm_free ops m2 p = Some m'" "limit m' = limit m2"
          "own_ok inv blocks m' (own_set (OProc p) ([] @ []) ?f1)" "live m' = live m2 - {p}" by metis
      have "own_ok inv blocks m' (owned s)" using m'(3) none by (simp add: own_set_idem heap_blocks_def)
      then show thesis using P fail m' lim by (intro no_stack [of m1 p m2 m']) (auto simp: kmem_ok_def)
    next
      case (new m2 sb)
      note S = this
      let ?f2 = "own_set (OProc p) (?f1 (OProc p) @ [sb]) ?f1"
      have lim2: "2 ^ 15 \<le> limit m2" using lim P(3) S(3) by simp
      obtain m3 ch where ch: "kq_new ops m2 = Some (m3, ch)" "limit m3 = limit m2"
          "own_ok inv blocks m3 (own_set (OProc p) (?f2 (OProc p) @ qself ch) ?f2)" "qnodes ch = []"
          "live m3 = set (qself ch) \<union> live m2" "set (qself ch) \<inter> live m2 = {}"
        by (rule kq_new_own [OF S(4) lim2, of "OProc p"]) (rule that)
      let ?f3 = "own_set (OProc p) (?f2 (OProc p) @ qself ch) ?f2"
      have lim3: "2 ^ 15 \<le> limit m3" using lim2 ch(2) by simp
      obtain m4 tc where tc: "kq_new ops m3 = Some (m4, tc)" "limit m4 = limit m3"
          "own_ok inv blocks m4 (own_set (OProc p) (?f3 (OProc p) @ qself tc) ?f3)" "qnodes tc = []"
          "live m4 = set (qself tc) \<union> live m3" "set (qself tc) \<inter> live m3 = {}"
        by (rule kq_new_own [OF ch(3) lim3, of "OProc p"]) (rule that)
      have "limit m4 = limit (kmem s)" using tc(2) ch(2) S(3) P(3) by simp
      moreover have "own_ok inv blocks m4 (own_set (OProc p) ([p, sb] @ qself ch @ qself tc) (owned s))" using tc(3) by simp
      moreover have "live m4 = set ([p, sb] @ qself ch @ qself tc) \<union> live (kmem s)" using tc(5) ch(5) S(6) P(7) by auto
      moreover have "set ([p, sb] @ qself ch @ qself tc) \<inter> live (kmem s) = {}" using tc(6) ch(5,6) S(6,7) P(7,8) by auto
      ultimately show thesis by (rule parts [OF P(1,2) S(1,2) ch(1) tc(1) ch(4) tc(4) none])
    qed
  qed
qed

text \<open>Giving the parts back.\<close>
lemma undo_proc_parts:
  assumes none: "procs s p = None" and pr: "pr = fresh_proc e n ss pid pl sb ch tc t ct argc None"
    and q: "qnodes ch = []" "qnodes tc = []" and ok: "kmok (s\<lparr>kmem := m, sems := F, procs := (procs s)(p \<mapsto> pr)\<rparr>)"
    and idle: "sems_idle [t, ct] F"
  obtains m1 m2 m3 m4 m' where "kqp_free ops ch m = Some m1" "kqp_free ops tc m1 = Some m2"
    "free_sems ops [t, ct] (s\<lparr>kmem := m2, sems := F\<rparr>) = Some (s\<lparr>kmem := m3, sems := F |` (- set [t, ct])\<rparr>)"
    "mm_free ops m3 sb = Some m4" "mm_free ops m4 p = Some m'" "kmok (s\<lparr>kmem := m', sems := F |` (- set [t, ct])\<rparr>)"
    "live m' = live m - (set ([p, sb] @ qself ch @ qself tc) \<union> foots [t, ct] F)"
proof -
  let ?x = "OProc p" and ?o = "owned (s\<lparr>kmem := m, sems := F\<rparr>)"
  have nil: "?o ?x = []" using none by (simp add: heap_blocks_def)
  have own: "own_ok inv blocks m (own_set ?x (proc_blocks p pr) ?o)" and lim: "2 ^ 15 \<le> limit m"
    using ok owned_proc_new [of "s\<lparr>kmem := m, sems := F\<rparr>" p "s\<lparr>kmem := m, sems := F, procs := (procs s)(p \<mapsto> pr)\<rparr>" pr] none pr q
    by (simp_all add: kmem_ok_def fresh_proc_def)
  have f0: "own_set ?x (proc_blocks p pr) ?o ?x = [p, sb] @ qself ch @ qself tc"
    using pr by (simp add: fresh_proc_blocks) (simp add: av_blocks_def)
  obtain m1 where m1: "kqp_free ops ch m = Some m1" "limit m1 = limit m"
      "own_ok inv blocks m1 (own_set ?x ([p, sb] @ qself tc) (own_set ?x (proc_blocks p pr) ?o))" "live m1 = live m - set (qself ch)"
    by (rule kqp_free_own [OF own f0 q(1)]) (rule that)
  have f1: "own_set ?x ([p, sb] @ qself tc) ?o ?x = [p, sb] @ qself tc @ []" by simp
  have own1: "own_ok inv blocks m1 (own_set ?x ([p, sb] @ qself tc) ?o)" using m1(3) by simp
  obtain m2 where m2: "kqp_free ops tc m1 = Some m2" "limit m2 = limit m1"
      "own_ok inv blocks m2 (own_set ?x ([p, sb] @ []) (own_set ?x ([p, sb] @ qself tc) ?o))" "live m2 = live m1 - set (qself tc)"
    by (rule kqp_free_own [OF own1 f1 q(2)]) (rule that)
  define pr2 where "pr2 = fresh_proc e n ss pid pl sb None None t ct argc None"
  define s2 where "s2 = s\<lparr>kmem := m2, sems := F, procs := (procs s)(p \<mapsto> pr2)\<rparr>"
  have "owned s2 = own_set ?x [p, sb] ?o"
    using owned_proc_new [of "s\<lparr>kmem := m, sems := F\<rparr>" p s2 pr2] none
    by (simp add: s2_def pr2_def fresh_proc_blocks) (simp add: fresh_proc_def qself_def qnodes_def av_blocks_def)
  then have ok2: "kmok s2" using m2(2,3) m1(2) lim by (simp add: kmem_ok_def s2_def)
  have idle2: "sems_idle [t, ct] (sems s2)" using idle by (simp add: s2_def)
  obtain m3 where m3: "free_sems ops [t, ct] s2 = Some (s2\<lparr>kmem := m3, sems := sems s2 |` (- set [t, ct])\<rparr>)"
      "kmok (s2\<lparr>kmem := m3, sems := sems s2 |` (- set [t, ct])\<rparr>)" "live m3 = live (kmem s2) - foots [t, ct] (sems s2)"
    by (rule free_sems_spec [OF ok2 idle2]) (rule that)
  let ?F = "F |` (- set [t, ct])"
  have "s2\<lparr>procs := procs s\<rparr> = s\<lparr>kmem := m2, sems := F\<rparr>" by (simp add: s2_def)
  with free_sems_procs [where s = s2 and P = "procs s" and mm = ops and as = "[t, ct]"] m3(1)
  have run: "free_sems ops [t, ct] (s\<lparr>kmem := m2, sems := F\<rparr>) = Some (s\<lparr>kmem := m3, sems := ?F\<rparr>)" by (simp add: s2_def del: free_sems.simps)
  let ?o3 = "owned (s\<lparr>kmem := m3, sems := ?F\<rparr>)"
  have "owned (s2\<lparr>kmem := m3, sems := sems s2 |` (- set [t, ct])\<rparr>) = own_set ?x [p, sb] ?o3"
    using owned_proc_new [of "s\<lparr>kmem := m3, sems := ?F\<rparr>" p "s2\<lparr>kmem := m3, sems := sems s2 |` (- set [t, ct])\<rparr>" pr2] none
    by (simp add: s2_def pr2_def fresh_proc_blocks) (simp add: fresh_proc_def qself_def qnodes_def av_blocks_def)
  then have own3: "own_ok inv blocks m3 (own_set ?x [p, sb] ?o3)" and lim3: "2 ^ 15 \<le> limit m3"
    using m3(2) by (simp_all add: kmem_ok_def s2_def)
  have f3: "own_set ?x [p, sb] ?o3 ?x = [p] @ sb # []" by simp
  obtain m4 where m4: "mm_free ops m3 sb = Some m4" "limit m4 = limit m3"
      "own_ok inv blocks m4 (own_set ?x ([p] @ []) (own_set ?x [p, sb] ?o3))" "live m4 = live m3 - {sb}"
    by (rule own_drop [OF own3 f3]) (rule that)
  have own4: "own_ok inv blocks m4 (own_set ?x [p] ?o3)" using m4(3) by simp
  have f4: "own_set ?x [p] ?o3 ?x = [] @ p # []" by simp
  obtain m5 where m5: "mm_free ops m4 p = Some m5" "limit m5 = limit m4"
      "own_ok inv blocks m5 (own_set ?x ([] @ []) (own_set ?x [p] ?o3))" "live m5 = live m4 - {p}"
    by (rule own_drop [OF own4 f4]) (rule that)
  have "own_ok inv blocks m5 ?o3" using m5(3) none by (simp add: own_set_idem heap_blocks_def)
  moreover have "owned (s\<lparr>kmem := m5, sems := ?F\<rparr>) = ?o3" by (rule owned_same) simp_all
  ultimately have "kmok (s\<lparr>kmem := m5, sems := ?F\<rparr>)" using lim3 m4(2) m5(2) by (simp add: kmem_ok_def)
  moreover have "live m5 = live m - (set ([p, sb] @ qself ch @ qself tc) \<union> foots [t, ct] F)"
    using m1(4) m2(4) m3(3) m4(4) m5(4) by (simp add: s2_def) blast
  ultimately show thesis by (rule that [OF m1(1) m2(1) run m4(1) m5(1)])
qed

lemma newProcess_spec:
  assumes ok: "kmok s" and ss: "stackSize \<noteq> 0" "unat stackSize \<le> 2 ^ 15" and args: "args_ok argc argv"
  obtains (failed) m' where "newProcess ops e n stackSize pid pl argc argv s = Some (s\<lparr>kmem := m'\<rparr>, 0)"
      "kmok (s\<lparr>kmem := m'\<rparr>)" "live m' = live (kmem s)"
    | (made) m' F p pr sb ch tc t ct av s' where "newProcess ops e n stackSize pid pl argc argv s = Some (s', p)"
      "s' = s\<lparr>kmem := m', sems := F, procs := (procs s)(p \<mapsto> pr)\<rparr>" "kmok s'" "p \<noteq> 0" "procs s p = None"
      "pr = fresh_proc e n stackSize pid pl sb ch tc t ct (if argc > 0 \<and> argv \<noteq> None then argc else 0) av" "sb \<noteq> 0"
      "qnodes ch = []" "qnodes tc = []" "sems_idle [t, ct] F" "F |` (- {t, ct}) = sems s"
      "if argc > 0 \<and> argv \<noteq> None then \<exists>a as. av = Some a \<and> argv = Some as \<and> map (map_option snd) (av_strs a) = take (nat argc) as else av = None"
      "live m' = proc_foot F p pr \<union> live (kmem s)" "proc_foot F p pr \<inter> live (kmem s) = {}"
  using ok ss
proof (cases rule: alloc_proc_parts)
  case (no_block m')
  then show thesis by (intro failed [of m']) (simp_all add: newProcess_def)
next
  case (no_stack m1 m2 m' p)
  then show thesis by (intro failed [of m']) (simp_all add: newProcess_def)
next
  case P: (parts m1 m2 m3 m4 p sb ch tc)
  let ?x = "OProc p" and ?ha = "argc > 0 \<and> argv \<noteq> None"
  define pr where "pr t ct av = fresh_proc e n stackSize pid pl sb ch tc t ct (if ?ha then argc else 0) av" for t ct av
  have prb: "proc_blocks p (pr t ct av) = [p, sb] @ qself ch @ qself tc @ av_blocks av" for t ct av
    by (simp add: pr_def fresh_proc_blocks)
  have prq: "qnodes (p_children (pr t ct av)) = []" "qnodes (p_terminatedChildren (pr t ct av)) = []" for t ct av
    using P(7,8) by (simp_all add: pr_def fresh_proc_def)
  have lim: "2 ^ 15 \<le> limit m4" using ok P(10) by (simp add: kmem_ok_def)
  define s1 where "s1 = s\<lparr>kmem := m4, procs := (procs s)(p \<mapsto> pr 0 0 None)\<rparr>"
  have "owned s1 = own_set ?x ([p, sb] @ qself ch @ qself tc) (owned s)"
    using owned_proc_new [of s p s1 "pr 0 0 None"] P(9) prq prb by (simp add: s1_def av_blocks_def)
  then have ok1: "kmok s1" using P(11) lim by (simp add: kmem_ok_def s1_def)
  obtain m5 as F where s2: "new_sems ops [0, 0] s1 = Some (s1\<lparr>kmem := m5, sems := F\<rparr>, as)" "kmok (s1\<lparr>kmem := m5, sems := F\<rparr>)"
    "length as = length [0, 0 :: int]" "sems_idle as F" "\<And>a. a \<in> set as \<Longrightarrow> sems s1 a = None" "\<And>a. a \<notin> set as \<Longrightarrow> F a = sems s1 a"
    "\<And>i. i < length [0, 0 :: int] \<Longrightarrow> as ! i \<noteq> 0 \<Longrightarrow> map_option sem_value (F (as ! i)) = Some ([0, 0] ! i)"
    "live m5 = foots as F \<union> live (kmem s1)" "foots as F \<inter> live (kmem s1) = {}"
    by (rule new_sems_spec [OF ok1, where vs = "[0, 0]"]) (rule that)
  obtain t ct where as: "as = [t, ct]" using s2(3) by (auto simp: length_Suc_conv)
  have restr: "F |` (- {t, ct}) = sems s" using s2(5,6) by (auto simp: as restrict_map_def s1_def)
  have "s1\<lparr>procs := procs s\<rparr> = s\<lparr>kmem := m4\<rparr>" by (simp add: s1_def)
  with new_sems_procs [where s = s1 and P = "procs s" and mm = ops and vs = "[0, 0]"] s2(1)
  have "new_sems ops [0, 0] (s\<lparr>kmem := m4\<rparr>) = Some (s\<lparr>kmem := m5, sems := F\<rparr>, [t, ct])" by (simp add: s1_def as del: new_sems.simps)
  then obtain s3 where sems: "newSemaphore ops 0 (s\<lparr>kmem := m4\<rparr>) = Some (s3, t)" "newSemaphore ops 0 s3 = Some (s\<lparr>kmem := m5, sems := F\<rparr>, ct)"
    by (elim new_sems_ConsE) auto
  let ?s5 = "\<lambda>m av. s\<lparr>kmem := m, sems := F, procs := (procs s)(p \<mapsto> pr t ct av)\<rparr>"
  let ?o = "owned (s\<lparr>kmem := m5, sems := F\<rparr>)"
  have own5: "owned (?s5 m av) = own_set ?x ([p, sb] @ qself ch @ qself tc @ av_blocks av) ?o" for m av
    using owned_proc_new [of "s\<lparr>kmem := m5, sems := F\<rparr>" p "?s5 m av" "pr t ct av"] P(9) prq prb by simp
  have "owned (s1\<lparr>kmem := m5, sems := F\<rparr>) = owned (?s5 m5 None)"
    using owned_proc_new [of "s\<lparr>kmem := m5, sems := F\<rparr>" p "s1\<lparr>kmem := m5, sems := F\<rparr>" "pr 0 0 None"] P(9) prq
    by (simp add: own5 prb s1_def)
  then have ok5: "kmok (?s5 m5 None)" using s2(2) by (simp add: kmem_ok_def s1_def)
  have live5: "live m5 = (set ([p, sb] @ qself ch @ qself tc) \<union> foots [t, ct] F) \<union> live (kmem s)"
      "(set ([p, sb] @ qself ch @ qself tc) \<union> foots [t, ct] F) \<inter> live (kmem s) = {}"
    using s2(8,9) P(12,13) by (simp_all add: s1_def as) blast+
  show thesis
  proof (cases ?ha)
    case False
    then have "newProcess ops e n stackSize pid pl argc argv s = Some (?s5 m5 None, p)"
      using P(1-6) sems by (auto simp: newProcess_def pr_def fresh_proc_def Let_def)
    moreover have "proc_foot F p (pr t ct None) = set ([p, sb] @ qself ch @ qself tc) \<union> foots [t, ct] F"
      unfolding proc_foot_def prb by (simp add: proc_sems_def pr_def fresh_proc_def av_blocks_def)
    ultimately show thesis using P(2,4,7,8,9) ok5 s2(4) restr False live5
      by (intro made [of "?s5 m5 None" p "pr t ct None" F m5 sb ch tc t ct None]) (auto simp: pr_def as)
  next
    case True
    then have pos: "argc > 0" and some: "argv \<noteq> None" by simp_all
    have own: "own_ok inv blocks m5 (owned (?s5 m5 None))" and lim5: "2 ^ 15 \<le> limit m5" using ok5 by (simp_all add: kmem_ok_def)
    from own lim5 args pos show thesis
    proof (cases rule: deepCopyArgv_own [where x = ?x])
      case D: (failed m6)
      have ok6: "kmok (?s5 m6 None)" using D(2,3) lim5 own5 by (simp add: kmem_ok_def)
      from undo_proc_parts [OF P(9) _ P(7,8) ok6 s2(4) [unfolded as]] pr_def
      obtain m7 m8 m9 m10 m' where u: "kqp_free ops ch m6 = Some m7" "kqp_free ops tc m7 = Some m8"
        "free_sems ops [t, ct] (s\<lparr>kmem := m8, sems := F\<rparr>) = Some (s\<lparr>kmem := m9, sems := F |` (- set [t, ct])\<rparr>)"
        "mm_free ops m9 sb = Some m10" "mm_free ops m10 p = Some m'" "kmok (s\<lparr>kmem := m', sems := F |` (- set [t, ct])\<rparr>)"
        "live m' = live m6 - (set ([p, sb] @ qself ch @ qself tc) \<union> foots [t, ct] F)" by metis
      obtain s9 where fs: "freeSemaphore ops t (s\<lparr>kmem := m8, sems := F\<rparr>) = Some s9"
          "freeSemaphore ops ct s9 = Some (s\<lparr>kmem := m9, sems := sems s\<rparr>)" using u(3) restr by (auto simp: bind_eq_Some_conv)
      have comm: "s\<lparr>sems := F, kmem := m8\<rparr> = s\<lparr>kmem := m8, sems := F\<rparr>" by simp
      have fs1: "freeSemaphore ops t (s\<lparr>sems := F, kmem := m8\<rparr>) = Some s9" unfolding comm by (rule fs(1))
      have eq: "s\<lparr>kmem := m', sems := sems s\<rparr> = s\<lparr>kmem := m'\<rparr>" by simp
      have "newProcess ops e n stackSize pid pl argc argv s = Some (s\<lparr>kmem := m', sems := sems s\<rparr>, 0)"
        using P(1-6) sems D(1) u(1,2,4,5) fs1 fs(2) pos some by (simp add: newProcess_def Let_def)
      moreover have "live m' = live (kmem s)" using u(7) D(4) live5 by auto
      ultimately show thesis using u(6) restr by (intro failed [of m']) (simp_all add: eq)
    next
      case D: (copied m6 av strs)
      have "av_blocks None = []" by (simp add: av_blocks_def)
      then have "kmok (?s5 m6 (Some av))" using D(2,3) lim5 own5 by (simp add: kmem_ok_def)
      moreover have "newProcess ops e n stackSize pid pl argc argv s = Some (?s5 m6 (Some av), p)"
        using P(1-6) sems D(1) pos some by (simp add: newProcess_def pr_def fresh_proc_def Let_def)
      moreover have "proc_foot F p (pr t ct (Some av)) = (set ([p, sb] @ qself ch @ qself tc) \<union> foots [t, ct] F) \<union> set (av_blocks (Some av))"
        unfolding proc_foot_def prb by (simp add: proc_sems_def pr_def fresh_proc_def) blast
      then have "live m6 = proc_foot F p (pr t ct (Some av)) \<union> live (kmem s)" "proc_foot F p (pr t ct (Some av)) \<inter> live (kmem s) = {}"
        using D(4,5) live5 by auto
      ultimately show thesis using P(2,4,7,8,9) s2(4) restr D(6,7) pos
        by (intro made [of "?s5 m6 (Some av)" p "pr t ct (Some av)" F m6 sb ch tc t ct "Some av"]) (auto simp: pr_def as)
    qed
  qed
qed

end

section \<open>Inherited descriptors\<close>

text \<open>Every open descriptor refers to a live file access.\<close>
definition fds_ok :: "'m kst \<Rightarrow> bool" where
  "fds_ok s \<longleftrightarrow> (\<forall>a pr. procs s a = Some pr \<longrightarrow> length (p_fdTable pr) = 16 \<and> (\<forall>fa \<in> set (p_fdTable pr). fa \<noteq> 0 \<longrightarrow> files s fa \<noteq> None))"

definition add_refs :: "u64 list \<Rightarrow> (u64 \<rightharpoonup> fileAccessCDT) \<Rightarrow> u64 \<rightharpoonup> fileAccessCDT" where
  "add_refs as f fa = map_option (\<lambda>x. x\<lparr>fa_refCount := fa_refCount x + int (count_list as fa)\<rparr>) (f fa)"

lemma add_refs_Nil [simp]: "add_refs [] f = f"
  by (auto simp: add_refs_def fun_eq_iff option.map_ident)

lemma add_refs_Cons: "f a = Some x \<Longrightarrow> add_refs as (f(a \<mapsto> x\<lparr>fa_refCount := fa_refCount x + 1\<rparr>)) = add_refs (a # as) f"
  by (auto simp: add_refs_def fun_eq_iff)

lemma add_refs_null: "f 0 = None \<Longrightarrow> add_refs (0 # as) f = add_refs as f"
  by (auto simp: add_refs_def fun_eq_iff)

lemma add_refs_dom [simp]: "dom (add_refs as f) = dom f"
  by (auto simp: add_refs_def dom_def)

text \<open>One process replaced.\<close>
definition put_proc :: "u64 \<Rightarrow> processCDT \<Rightarrow> 'm kst \<Rightarrow> 'm kst" where
  "put_proc p pr s = s\<lparr>procs := (procs s)(p \<mapsto> pr)\<rparr>"

lemma put_proc_simps [simp]:
  "procs (put_proc p pr s) = (procs s)(p \<mapsto> pr)" "files (put_proc p pr s) = files s" "kmem (put_proc p pr s) = kmem s"
  "sems (put_proc p pr s) = sems s" "pipes (put_proc p pr s) = pipes s" "readyQueue (put_proc p pr s) = readyQueue s"
  "processTable (put_proc p pr s) = processTable s" "foregroundSet (put_proc p pr s) = foregroundSet s"
  "currentProcess (put_proc p pr s) = currentProcess s" "schedulerEnabled (put_proc p pr s) = schedulerEnabled s"
  "stackmem (put_proc p pr s) = stackmem s" "put_proc p pr (put_proc p qr s) = put_proc p pr s"
  "put_proc p pr (s\<lparr>files := G\<rparr>) = (put_proc p pr s)\<lparr>files := G\<rparr>" "on_proc p f s = map_option (\<lambda>pr. put_proc p (f pr) s) (procs s p)"
  by (simp_all add: put_proc_def on_proc_def split: bind_split)

lemma put_proc_idem: "procs s p = Some pr \<Longrightarrow> put_proc p pr s = s"
  by (simp add: put_proc_def fun_upd_idem)

lemma copy_fds_spec:
  assumes "t \<noteq> 0" "t \<noteq> src" "procs s t = Some pt" "procs s src = Some ps" "length (p_fdTable pt) = 16" "files s 0 = None" "distinct fds"
    "\<forall>fd \<in> set fds. 0 \<le> fd \<and> fd < 16 \<and> p_fdTable pt ! nat fd = 0 \<and> (p_fdTable ps ! nat fd \<noteq> 0 \<longrightarrow> files s (p_fdTable ps ! nat fd) \<noteq> None)"
  obtains tab e where "copy_fds mm t src fds s = Some ((put_proc t (pt\<lparr>p_fdTable := tab, p_eofRequests := e\<rparr>) s)\<lparr>files := add_refs (map (\<lambda>fd. p_fdTable ps ! nat fd) fds) (files s)\<rparr>)"
    "length tab = 16" "\<And>i. i < 16 \<Longrightarrow> tab ! i = (if int i \<in> set fds then p_fdTable ps ! i else p_fdTable pt ! i)"
  using assms
proof (induction fds arbitrary: s pt thesis)
  case Nil
  show ?case by (rule Nil.prems(1) [of "p_eofRequests pt" "p_fdTable pt"]) (simp_all add: Nil.prems(4,6) put_proc_idem)
next
  case (Cons fd fds)
  let ?fa = "p_fdTable ps ! nat fd"
  have fd: "0 \<le> fd" "fd < 16" "p_fdTable pt ! nat fd = 0" "?fa \<noteq> 0 \<longrightarrow> files s ?fa \<noteq> None" and new: "fd \<notin> set fds" "distinct fds"
    using Cons.prems(8,9) by auto
  show ?case
  proof (cases "?fa = 0")
    case True
    have rest: "\<forall>fd \<in> set fds. 0 \<le> fd \<and> fd < 16 \<and> p_fdTable pt ! nat fd = 0 \<and> (p_fdTable ps ! nat fd \<noteq> 0 \<longrightarrow> files s (p_fdTable ps ! nat fd) \<noteq> None)"
      using Cons.prems(9) by simp
    obtain tab e where t: "copy_fds mm t src fds s = Some ((put_proc t (pt\<lparr>p_fdTable := tab, p_eofRequests := e\<rparr>) s)\<lparr>files := add_refs (map (\<lambda>fd. p_fdTable ps ! nat fd) fds) (files s)\<rparr>)" "length tab = 16"
        "\<And>i. i < 16 \<Longrightarrow> tab ! i = (if int i \<in> set fds then p_fdTable ps ! i else p_fdTable pt ! i)"
      by (rule Cons.IH [OF _ Cons.prems(2-7) new(2) rest]) (rule that)
    have "tab ! i = (if int i \<in> set (fd # fds) then p_fdTable ps ! i else p_fdTable pt ! i)" if "i < 16" for i
      using t(3) [OF that] True fd(1,3) new(1) by auto
    then show ?thesis using t(1,2) True Cons.prems(4,5,7) fd(3)
      by (intro Cons.prems(1) [of e tab]) (simp_all add: add_refs_null)
  next
    case False
    then obtain x where x: "files s ?fa = Some x" using fd(4) by auto
    define s1 where "s1 = (put_proc t (set_fd fd ?fa pt) s)\<lparr>files := (files s)(?fa \<mapsto> x\<lparr>fa_refCount := fa_refCount x + 1\<rparr>)\<rparr>"
    have step: "openFd t ?fa fd s = Some (s1, fd)"
      using False Cons.prems(2,4) fd x by (simp add: openFd_def isValidFd_def isOpenFd_def addFileRef_def s1_def put_proc_def)
    have s1: "procs s1 t = Some (set_fd fd ?fa pt)" "procs s1 src = Some ps" "length (p_fdTable (set_fd fd ?fa pt)) = 16" "files s1 0 = None"
      using Cons.prems(3,5,6,7) False by (auto simp: s1_def)
    have rest: "\<forall>b \<in> set fds. 0 \<le> b \<and> b < 16 \<and> p_fdTable (set_fd fd ?fa pt) ! nat b = 0 \<and>
        (p_fdTable ps ! nat b \<noteq> 0 \<longrightarrow> files s1 (p_fdTable ps ! nat b) \<noteq> None)"
    proof
      fix b assume b: "b \<in> set fds"
      then have h: "0 \<le> b" "b < 16" "p_fdTable pt ! nat b = 0" "p_fdTable ps ! nat b \<noteq> 0 \<longrightarrow> files s (p_fdTable ps ! nat b) \<noteq> None"
        using Cons.prems(9) by auto
      moreover have "nat b \<noteq> nat fd" using b new(1) h(1) fd(1) by (metis nat_0_le)
      ultimately show "0 \<le> b \<and> b < 16 \<and> p_fdTable (set_fd fd ?fa pt) ! nat b = 0 \<and>
        (p_fdTable ps ! nat b \<noteq> 0 \<longrightarrow> files s1 (p_fdTable ps ! nat b) \<noteq> None)" by (simp add: s1_def)
    qed
    obtain tab e where t: "copy_fds mm t src fds s1 = Some ((put_proc t ((set_fd fd ?fa pt)\<lparr>p_fdTable := tab, p_eofRequests := e\<rparr>) s1)\<lparr>files := add_refs (map (\<lambda>fd. p_fdTable ps ! nat fd) fds) (files s1)\<rparr>)" "length tab = 16"
        "\<And>i. i < 16 \<Longrightarrow> tab ! i = (if int i \<in> set fds then p_fdTable ps ! i else p_fdTable (set_fd fd ?fa pt) ! i)"
      by (rule Cons.IH [OF _ Cons.prems(2,3) s1 new(2) rest]) (rule that)
    have "tab ! i = (if int i \<in> set (fd # fds) then p_fdTable ps ! i else p_fdTable pt ! i)" if "i < 16" for i
      using t(3) [OF that] fd(1,2) Cons.prems(6) that by (auto simp: nth_list_update)
    moreover have "copy_fds mm t src (fd # fds) s = Some ((put_proc t (pt\<lparr>p_fdTable := tab, p_eofRequests := e\<rparr>) s)\<lparr>files := add_refs (map (\<lambda>fd. p_fdTable ps ! nat fd) (fd # fds)) (files s)\<rparr>)"
      using t(1) step Cons.prems(4,5) fd(3) False x by (simp add: s1_def add_refs_Cons) (simp add: set_fd_def)
    ultimately show ?thesis using t(2) by (intro Cons.prems(1) [of e tab]) simp_all
  qed
qed

lemma copyFdTable_spec:
  assumes "t \<noteq> 0" "src \<noteq> 0" "t \<noteq> src" "procs s t = Some pt" "procs s src = Some ps" "p_fdTable pt = replicate 16 0" "files s 0 = None"
    "length (p_fdTable ps) = 16" "\<forall>fa \<in> set (p_fdTable ps). fa \<noteq> 0 \<longrightarrow> files s fa \<noteq> None"
  obtains e where "copyFdTable mm t src s = Some ((put_proc t (pt\<lparr>p_fdTable := p_fdTable ps, p_eofRequests := e\<rparr>) s)\<lparr>files := add_refs (p_fdTable ps) (files s)\<rparr>)"
proof -
  have up: "[0..MAX_FDS - 1] = map int [0..<16]" by code_simp
  have names: "map (\<lambda>fd. p_fdTable ps ! nat fd) [0..MAX_FDS - 1] = p_fdTable ps"
    unfolding up by (rule nth_equalityI) (use assms(8) in simp_all)
  have rest: "\<forall>fd \<in> set [0..MAX_FDS - 1]. 0 \<le> fd \<and> fd < 16 \<and> p_fdTable pt ! nat fd = 0 \<and>
      (p_fdTable ps ! nat fd \<noteq> 0 \<longrightarrow> files s (p_fdTable ps ! nat fd) \<noteq> None)"
    using assms(6,8,9) by (auto simp: nth_mem)
  have len: "length (p_fdTable pt) = 16" and d: "distinct [0..MAX_FDS - 1]" using assms(6) by simp_all
  obtain tab e where t: "copy_fds mm t src [0..MAX_FDS - 1] s = Some ((put_proc t (pt\<lparr>p_fdTable := tab, p_eofRequests := e\<rparr>) s)\<lparr>files := add_refs (map (\<lambda>fd. p_fdTable ps ! nat fd) [0..MAX_FDS - 1]) (files s)\<rparr>)" "length tab = 16"
      "\<And>i. i < 16 \<Longrightarrow> tab ! i = (if int i \<in> set [0..MAX_FDS - 1] then p_fdTable ps ! i else p_fdTable pt ! i)"
    by (rule copy_fds_spec [OF assms(1,3,4,5) len assms(7) d rest]) (rule that)
  have "tab = p_fdTable ps" using t(2,3) assms(8) by (intro nth_equalityI) auto
  with t(1) names assms(1,2) show thesis by (intro that [of e]) (simp add: copyFdTable_def)
qed

section \<open>Starting a process\<close>

text \<open>Of the other processes only the current one may change, and only its list of children.\<close>
definition others_kept :: "'m kst \<Rightarrow> int \<Rightarrow> u64 \<Rightarrow> 'm kst \<Rightarrow> bool" where
  "others_kept s pid p s' \<longleftrightarrow> (\<forall>a. a \<noteq> p \<longrightarrow> procs s' a = procs s a \<or>
     (a = currentProcess s \<and> (\<exists>pr q q'. procs s a = Some pr \<and> p_children pr = Some q \<and> procs s' a = Some (pr\<lparr>p_children := Some q'\<rparr>) \<and>
        (kq_elems q' = kq_elems q @ [pid] \<or> q' = q))))"

text \<open>What the new process gets from the one that starts it.\<close>
definition inherits :: "'m kst \<Rightarrow> int \<Rightarrow> processCDT \<Rightarrow> 'm kst \<Rightarrow> bool" where
  "inherits s cur pr s' \<longleftrightarrow> (if currentProcess s \<noteq> 0 \<and> cur \<noteq> 0
     then (\<exists>pc. procs s (currentProcess s) = Some pc \<and> p_ppid pr = cur \<and> p_fdTable pr = p_fdTable pc \<and> files s' = add_refs (p_fdTable pc) (files s))
     else p_ppid pr = 1 \<and> p_fdTable pr = replicate 16 0 \<and> files s' = files s)"

text \<open>What the memory manager answered when the entry of the new process in its parent's list of children
  was made, \<open>m1\<close> being the memory after that.\<close>
definition child_entry :: "('m \<Rightarrow> bool) \<Rightarrow> 'm mm_ops \<Rightarrow> 'm kst \<Rightarrow> int \<Rightarrow> int \<Rightarrow> 'm \<Rightarrow> 'm kst \<Rightarrow> bool" where
  "child_entry minv mm s cur pid m1 s' \<longleftrightarrow> (currentProcess s \<noteq> 0 \<and> cur \<noteq> 0 \<longrightarrow>
     (\<exists>m n pc q q'. minv m \<and> mm_alloc mm m sizeof_Node = Some (m1, n) \<and> procs s (currentProcess s) = Some pc \<and> p_children pc = Some q \<and>
        procs s' (currentProcess s) = Some (pc\<lparr>p_children := Some q'\<rparr>) \<and> kq_elems q' = kq_elems q @ (if n = 0 then [] else [pid])))"

lemma kmem_ok_put_proc:
  assumes "kmem_ok minv mblocks mlimit s" "procs s p = Some pr" "p_children pr' = p_children pr"
    "p_terminatedChildren pr' = p_terminatedChildren pr" "p_stackBase pr' = p_stackBase pr" "p_argv pr' = p_argv pr"
  shows "kmem_ok minv mblocks mlimit (put_proc p pr' s)"
  by (rule kmem_ok_same [OF assms(1) _ owned_proc_same [OF assms(2), where pr' = pr']]) (use assms in simp_all)

lemma kmem_ok_files:
  assumes "kmem_ok minv mblocks mlimit s" "dom G = dom (files s)"
  shows "kmem_ok minv mblocks mlimit (s\<lparr>files := G\<rparr>)"
proof (rule kmem_ok_same [OF assms(1)])
  have "heap_blocks G (\<lambda>a _. [a]) a = heap_blocks (files s) (\<lambda>a _. [a]) a" for a
  proof -
    have "G a = None \<longleftrightarrow> files s a = None" using assms(2) by (metis domIff)
    then show ?thesis by (cases "G a"; cases "files s a") (simp_all add: heap_blocks_def)
  qed
  then show "owned (s\<lparr>files := G\<rparr>) = owned s" by (intro ext, rename_tac x, case_tac x) simp_all
qed simp

context allocator
begin

lemma addChild_spec:
  assumes ok: "kmok s" and cp: "procs s cp = Some pc" "p_children pc = Some q"
  obtains m' q' r where "addChild ops cp pid s = Some (put_proc cp (pc\<lparr>p_children := Some q'\<rparr>) (s\<lparr>kmem := m'\<rparr>), r)"
    "kmok (put_proc cp (pc\<lparr>p_children := Some q'\<rparr>) (s\<lparr>kmem := m'\<rparr>))" "kq_elems q' = kq_elems q @ [pid] \<or> q' = q"
    "\<exists>n. mm_alloc ops (kmem s) sizeof_Node = Some (m', n) \<and> kq_elems q' = kq_elems q @ (if n = 0 then [] else [pid])"
proof -
  have own: "own_ok inv blocks (kmem s) (owned s)" and lim: "2 ^ 15 \<le> limit (kmem s)" using ok by (simp_all add: kmem_ok_def)
  have f: "owned s (OChildren cp) = map fst (kq_nodes q)" using cp by (simp add: heap_blocks_def qnodes_def)
  have lim': "24 \<le> limit (kmem s)" using lim by simp
  from own_enqueue [OF own lim' f, of pid] obtain m' q' r where
    e: "kq_enqueue ops pid (kmem s) q = Some (m', q', r)" "limit m' = limit (kmem s)" "kq_self q' = kq_self q"
      "own_ok inv blocks m' ((owned s)(OChildren cp := map fst (kq_nodes q')))"
      "r = 0 \<and> q' = q \<or> r = 1 \<and> kq_elems q' = kq_elems q @ [pid]" .
  have "owned (put_proc cp (pc\<lparr>p_children := Some q'\<rparr>) (s\<lparr>kmem := m'\<rparr>)) = (owned s)(OChildren cp := map fst (kq_nodes q'))"
    using owned_children [of "s\<lparr>kmem := m'\<rparr>" cp pc q q'] cp e(3) by (simp add: put_proc_def)
  then have "kmok (put_proc cp (pc\<lparr>p_children := Some q'\<rparr>) (s\<lparr>kmem := m'\<rparr>))" using e(2,4) lim by (simp add: kmem_ok_def)
  then show thesis using cp e(1,5) kq_enqueue_node [OF e(1)]
    by (intro that [of q' m' r]) (auto simp: addChild_def kqp_enqueue_def put_proc_def)
qed

lemma adopt_spec:
  assumes ok: "kmok s" and p: "p \<noteq> 0" "procs s p = Some pr" "p \<noteq> cp" "currentProcess s = cp" "p_fdTable pr = replicate 16 0"
    and cp: "cp \<noteq> 0 \<Longrightarrow> \<exists>pc q. procs s cp = Some pc \<and> p_children pc = Some q"
    and fds: "\<And>pc. procs s cp = Some pc \<Longrightarrow> length (p_fdTable pc) = 16 \<and> (\<forall>fa \<in> set (p_fdTable pc). fa \<noteq> 0 \<longrightarrow> files s fa \<noteq> None)"
  obtains s' pr' where
    "(if currentProcess s \<noteq> 0 \<and> cur \<noteq> IDLE_PID then do {
        s \<leftarrow> setPPID p cur s; (s, r) \<leftarrow> addChild ops (currentProcess s) pid s; copyFdTable ops p (currentProcess s) s }
      else setPPID p INIT_PID s) = Some s'"
    "kmok s'" "procs s' p = Some pr'" "\<exists>e. pr' = pr\<lparr>p_ppid := p_ppid pr', p_fdTable := p_fdTable pr', p_eofRequests := e\<rparr>" "others_kept s pid p s'"
    "inherits s cur pr' s'" "\<exists>m P G. s' = s\<lparr>kmem := m, procs := P, files := G\<rparr>" "child_entry inv ops s cur pid (kmem s') s'"
proof (cases "cp \<noteq> 0 \<and> cur \<noteq> 0")
  case False
  let ?s = "put_proc p (pr\<lparr>p_ppid := 1\<rparr>) s"
  have "kmok ?s" by (rule kmem_ok_put_proc [OF ok p(2)]) simp_all
  moreover have "others_kept s pid p ?s" by (simp add: others_kept_def)
  moreover have "\<exists>m P G. ?s = s\<lparr>kmem := m, procs := P, files := G\<rparr>"
    by (intro exI [of _ "kmem s"] exI [of _ "procs ?s"] exI [of _ "files s"]) (simp add: put_proc_def)
  moreover have "child_entry inv ops s cur pid (kmem ?s) ?s" using False p(4) unfolding child_entry_def by blast
  ultimately show thesis using False p
    by (intro that [of ?s "pr\<lparr>p_ppid := 1\<rparr>"]) (auto simp: setPPID_def inherits_def intro!: exI [of _ "p_eofRequests pr"])
next
  case True
  then obtain pc q where pc: "procs s cp = Some pc" "p_children pc = Some q" using cp by auto
  let ?p1 = "pr\<lparr>p_ppid := cur\<rparr>"
  let ?s1 = "put_proc p ?p1 s"
  have ok1: "kmok ?s1" by (rule kmem_ok_put_proc [OF ok p(2)]) simp_all
  have "procs ?s1 cp = Some pc" using pc(1) p(3) by simp
  from addChild_spec [OF ok1 this pc(2), of pid] obtain m2 q' r where
    c: "addChild ops cp pid ?s1 = Some (put_proc cp (pc\<lparr>p_children := Some q'\<rparr>) (?s1\<lparr>kmem := m2\<rparr>), r)"
      "kmok (put_proc cp (pc\<lparr>p_children := Some q'\<rparr>) (?s1\<lparr>kmem := m2\<rparr>))" "kq_elems q' = kq_elems q @ [pid] \<or> q' = q"
      "\<exists>n. mm_alloc ops (kmem ?s1) sizeof_Node = Some (m2, n) \<and> kq_elems q' = kq_elems q @ (if n = 0 then [] else [pid])" .
  define s2 where "s2 = put_proc cp (pc\<lparr>p_children := Some q'\<rparr>) (?s1\<lparr>kmem := m2\<rparr>)"
  have s2: "procs s2 = (procs s)(p \<mapsto> ?p1, cp \<mapsto> pc\<lparr>p_children := Some q'\<rparr>)" "files s2 = files s" "currentProcess s2 = cp"
    using p(4) by (simp_all add: s2_def)
  have ok2: "kmok s2" using c(2) by (simp add: s2_def)
  have pre: "procs s2 p = Some ?p1" "procs s2 cp = Some (pc\<lparr>p_children := Some q'\<rparr>)" "p_fdTable ?p1 = replicate 16 0" "files s2 0 = None"
      "length (p_fdTable (pc\<lparr>p_children := Some q'\<rparr>)) = 16"
      "\<forall>fa \<in> set (p_fdTable (pc\<lparr>p_children := Some q'\<rparr>)). fa \<noteq> 0 \<longrightarrow> files s2 fa \<noteq> None"
    using p(3,5) fds [OF pc(1)] kmem_ok_null(3) [OF ok] by (simp_all add: s2)
  from True have cp0: "cp \<noteq> 0" by simp
  obtain e where e: "copyFdTable ops p cp s2 = Some ((put_proc p (?p1\<lparr>p_fdTable := p_fdTable (pc\<lparr>p_children := Some q'\<rparr>), p_eofRequests := e\<rparr>) s2)
      \<lparr>files := add_refs (p_fdTable (pc\<lparr>p_children := Some q'\<rparr>)) (files s2)\<rparr>)"
    by (rule copyFdTable_spec [OF p(1) cp0 p(3) pre]) (rule that)
  let ?p3 = "?p1\<lparr>p_fdTable := p_fdTable pc, p_eofRequests := e\<rparr>"
  let ?s3 = "(put_proc p ?p3 s2)\<lparr>files := add_refs (p_fdTable pc) (files s)\<rparr>"
  have "kmok (put_proc p ?p3 s2)" by (rule kmem_ok_put_proc [OF ok2 pre(1)]) simp_all
  then have ok3: "kmok ?s3" by (rule kmem_ok_files) (simp add: s2(2))
  have "setPPID p cur s = Some ?s1" using p(2) by (simp add: setPPID_def)
  moreover have "others_kept s pid p ?s3" using pc c(3) p(4) by (auto simp: others_kept_def s2)
  moreover have "inherits s cur ?p3 ?s3" using True pc(1) p(4) by (simp add: inherits_def)
  moreover have "child_entry inv ops s cur pid (kmem ?s3) ?s3"
  proof -
    have "inv (kmem s)" using ok by (simp add: kmem_ok_def own_ok_def)
    moreover have "kmem ?s3 = m2" "procs ?s3 cp = Some (pc\<lparr>p_children := Some q'\<rparr>)" using p(3) by (simp_all add: s2_def)
    moreover obtain n where "mm_alloc ops (kmem s) sizeof_Node = Some (m2, n)" "kq_elems q' = kq_elems q @ (if n = 0 then [] else [pid])"
      using c(4) by auto
    ultimately show ?thesis using pc p(4) unfolding child_entry_def by metis
  qed
  moreover have "\<exists>m P G. ?s3 = s\<lparr>kmem := m, procs := P, files := G\<rparr>"
    by (intro exI [of _ m2] exI [of _ "procs ?s3"] exI [of _ "files ?s3"]) (simp add: put_proc_def s2_def)
  ultimately show thesis using True ok3 p(4) c(1) e s2(2,3)
    by (intro that [of ?s3 ?p3]) (auto simp: s2_def [symmetric])
qed

end

text \<open>The scheduler's structures with one more process, ready and queued.\<close>
lemma sched_add_process:
  assumes tab: "tab_ok s" and rdy: "ready_ok s" and cur: "cur_ok s" and pid: "0 \<le> pid" "pid < 64" "processTable s ! nat pid = 0"
    and p: "p \<noteq> 0" "procs s p = None" and s': "processTable s' = (processTable s)[nat pid := p]" "foregroundSet s' = foregroundSet s"
      "currentProcess s' = currentProcess s" "procs s' p = Some pr" "p_pid pr = pid" "p_state pr = READY"
    and kept: "others_kept s pid p s'" and q: "readyQueue s = Some rq" "readyQueue s' = Some rq'" "kq_elems rq' = kq_elems rq @ [pid] \<or> rq' = rq"
  shows "tab_ok s'" "ready_ok s'" "cur_ok s'" "pstate s' = (pstate s)(pid \<mapsto> READY)"
    "\<And>x. x \<noteq> pid \<Longrightarrow> proc_at s x = None \<longleftrightarrow> proc_at s' x = None" "proc_at s' pid = Some pr" "proc_at s pid = None"
proof -
  have len: "length (processTable s) = 64" using tab by (simp add: tab_ok_def)
  have old: "\<exists>pr. procs s (processTable s ! i) = Some pr \<and> p_pid pr = int i" if "i < 64" "processTable s ! i \<noteq> 0" for i
    using tab that by (auto simp: tab_ok_def)
  have nth: "processTable s' ! i = (if i = nat pid then p else processTable s ! i)" if "i < 64" for i
    using that len pid by (simp add: s'(1))
  have keep: "\<exists>pr'. procs s' (processTable s ! i) = Some pr' \<and> p_pid pr' = p_pid pr0 \<and> p_state pr' = p_state pr0"
    if "i < 64" "processTable s ! i \<noteq> 0" "procs s (processTable s ! i) = Some pr0" for i pr0
  proof -
    have "processTable s ! i \<noteq> p" using that(3) p(2) by auto
    then show ?thesis using kept that(3) unfolding others_kept_def by fastforce
  qed
  have at: "map_option p_state (proc_at s' x) = (if x = pid then Some READY else map_option p_state (proc_at s x))" for x
  proof (cases "x = pid")
    case True
    then show ?thesis using pid p(1) s'(4,6) nth [of "nat pid"] by (simp add: proc_at_def)
  next
    case False
    show ?thesis
    proof (cases "0 \<le> x \<and> x < 64 \<and> processTable s ! nat x \<noteq> 0")
      case True
      then have x: "nat x < 64" "nat x \<noteq> nat pid" using False pid(1) by auto
      with True old [of "nat x"] keep [of "nat x"] nth [of "nat x"] False show ?thesis by (auto simp: proc_at_def)
    next
      case no: False
      show ?thesis
      proof (cases "0 \<le> x \<and> x < 64")
        case True
        then have "nat x < 64" "nat x \<noteq> nat pid" using False pid(1) by auto
        with nth [of "nat x"] no True False show ?thesis by (simp add: proc_at_def)
      qed (use False in \<open>auto simp: proc_at_def\<close>)
    qed
  qed
  show ps: "pstate s' = (pstate s)(pid \<mapsto> READY)" using at by (auto simp: pstate_def fun_eq_iff)
  show "proc_at s x = None \<longleftrightarrow> proc_at s' x = None" if "x \<noteq> pid" for x using at [of x] that by (metis map_option_is_None)
  show "proc_at s' pid = Some pr" using pid p(1) s'(4) nth [of "nat pid"] by (simp add: proc_at_def)
  show none: "proc_at s pid = None" using pid by (simp add: proc_at_def)
  have "\<exists>pr. procs s' (processTable s' ! i) = Some pr \<and> p_pid pr = int i" if "i < 64" "processTable s' ! i \<noteq> 0" for i
    using nth [OF that(1)] that old [of i] keep [of i] s'(4,5) pid(1) by (cases "i = nat pid") auto
  then show "tab_ok s'" using tab len s'(1,2) by (simp add: tab_ok_def)
  have out: "pid \<notin> set (rq_elems s)" using rdy none by (auto simp: ready_ok_def pstate_def)
  have "rq_elems s' = rq_elems s @ [pid] \<or> rq_elems s' = rq_elems s" using q by (auto simp: rq_elems_def)
  then show "ready_ok s'" using rdy out q(2) by (auto simp: ready_ok_def ps)
  show "cur_ok s'"
    unfolding cur_ok_def
  proof (intro conjI impI allI)
    assume "currentProcess s' \<noteq> 0"
    then have "currentProcess s \<in> set (processTable s)" "currentProcess s \<noteq> 0" using cur s'(3) by (auto simp: cur_ok_def)
    then obtain i where i: "i < 64" "processTable s ! i = currentProcess s" using len by (auto simp: in_set_conv_nth)
    then have "i \<noteq> nat pid" using pid(3) \<open>currentProcess s \<noteq> 0\<close> by auto
    then have "processTable s' ! i = currentProcess s'" using nth [OF i(1)] i(2) s'(3) by simp
    then show "currentProcess s' \<in> set (processTable s')" using i(1) len s'(1) by (metis length_list_update nth_mem)
  next
    fix x assume "pstate s' x = Some RUNNING"
    then have x: "pstate s x = Some RUNNING" "x \<noteq> pid" by (auto simp: ps split: if_splits)
    then have "0 \<le> x" "x < 64" by (auto simp: pstate_def proc_at_def split: if_splits)
    moreover have "processTable s ! nat x = currentProcess s" using cur x(1) by (simp add: cur_ok_def)
    ultimately show "processTable s' ! nat x = currentProcess s'" using nth [of "nat x"] x(2) pid(1) s'(3) by auto
  qed
qed

text \<open>What the new process gets from the caller of the start.\<close>
definition created_with :: "u64 \<Rightarrow> u8 list option \<Rightarrow> u8 \<Rightarrow> int \<Rightarrow> u8 list option list option \<Rightarrow> processCDT \<Rightarrow> bool" where
  "created_with entryPoint name priorityLevel argc argv pr \<longleftrightarrow> p_rip pr = entryPoint \<and> p_name pr = copyProcessName name \<and>
     p_priorityLevel pr = priorityLevel \<and> p_remainingQuantums pr = priorityLevel \<and>
     (if argc > 0 \<and> argv \<noteq> None
      then p_argc pr = argc \<and> map_option (\<lambda>a. map (map_option snd) (av_strs a)) (p_argv pr) = map_option (take (nat argc)) argv
      else p_argc pr = 0 \<and> p_argv pr = None)"

text \<open>The entries of a new process in the list of children of its parent and, last, in the ready queue: each
  is there exactly when the memory manager gave its node.\<close>
definition entered :: "('m \<Rightarrow> bool) \<Rightarrow> 'm mm_ops \<Rightarrow> 'm kst \<Rightarrow> int \<Rightarrow> int \<Rightarrow> 'm kst \<Rightarrow> bool" where
  "entered minv mm s cur pid s' \<longleftrightarrow> (\<exists>m1 n. child_entry minv mm s cur pid m1 s' \<and> minv m1 \<and>
     mm_alloc mm m1 sizeof_Node = Some (kmem s', n) \<and> rq_elems s' = rq_elems s @ (if n = 0 then [] else [pid]))"

text \<open>Both entries are there; a process started by none or by idle has no entry as a child.\<close>
definition listed :: "'m kst \<Rightarrow> int \<Rightarrow> int \<Rightarrow> 'm kst \<Rightarrow> bool" where
  "listed s cur pid s' \<longleftrightarrow> rq_elems s' = rq_elems s @ [pid] \<and> (currentProcess s \<noteq> 0 \<and> cur \<noteq> 0 \<longrightarrow>
     (\<exists>pc q q'. procs s (currentProcess s) = Some pc \<and> p_children pc = Some q \<and>
        procs s' (currentProcess s) = Some (pc\<lparr>p_children := Some q'\<rparr>) \<and> kq_elems q' = kq_elems q @ [pid]))"

text \<open>What a started process is, seen from the state before.\<close>
definition process_added :: "'m kst \<Rightarrow> int \<Rightarrow> (processCDT \<Rightarrow> bool) \<Rightarrow> int \<Rightarrow> u64 \<Rightarrow> 'm kst \<Rightarrow> bool" where
  "process_added s cur given pid p s' \<longleftrightarrow> p \<noteq> 0 \<and> procs s p = None \<and> proc_at s pid = None \<and>
     processTable s' = (processTable s)[nat pid := p] \<and> others_kept s pid p s' \<and>
     pstate s' = (pstate s)(pid \<mapsto> READY) \<and> (rq_elems s' = rq_elems s @ [pid] \<or> rq_elems s' = rq_elems s) \<and>
     currentProcess s' = currentProcess s \<and> foregroundSet s' = foregroundSet s \<and> pipes s' = pipes s \<and>
     schedulerEnabled s' = schedulerEnabled s \<and>
     (\<exists>pr. proc_at s' pid = Some pr \<and> p_pid pr = pid \<and> given pr \<and> inherits s cur pr s')"

definition cur_pid :: "'m kst \<Rightarrow> int" where
  "cur_pid s = (case procs s (currentProcess s) of None \<Rightarrow> -1 | Some pr \<Rightarrow> p_pid pr)"

definition has_children_queue :: "'m kst \<Rightarrow> bool" where
  "has_children_queue s \<longleftrightarrow> (currentProcess s \<noteq> 0 \<longrightarrow> (\<exists>pc q. procs s (currentProcess s) = Some pc \<and> p_children pc = Some q))"

text \<open>The scheduler's invariant without the idle process, which holds while the kernel boots too.\<close>
definition boot_inv :: "'m kst \<Rightarrow> bool" where
  "boot_inv s \<longleftrightarrow> tab_ok s \<and> ready_ok s \<and> cur_ok s \<and> fds_ok s"

lemma kmem_ok_proc_null: "kmem_ok minv mblocks mlimit s \<Longrightarrow> procs s 0 = None"
proof (rule ccontr)
  assume ok: "kmem_ok minv mblocks mlimit s" and "procs s 0 \<noteq> None"
  then have "0 \<in> set (owned s (OProc 0))" by (auto simp: heap_blocks_def proc_blocks_def)
  with ok show False unfolding kmem_ok_def own_ok_def by blast
qed

text \<open>The new process holds the descriptors of its parent or none, so all of them are live.\<close>
lemma fds_ok_added:
  assumes fds: "fds_ok s" and kept: "others_kept s pid p s'" and inh: "inherits s cur pr s'" and p: "procs s' p = Some pr"
  shows "fds_ok s'"
  unfolding fds_ok_def
proof (intro allI impI)
  fix a x assume a: "procs s' a = Some x"
  have live: "files s fa \<noteq> None \<longleftrightarrow> files s' fa \<noteq> None" for fa
    using inh by (auto simp: inherits_def add_refs_def split: if_splits)
  have "\<exists>y. procs s (if a = p then currentProcess s else a) = Some y \<and> p_fdTable x = p_fdTable y \<or> p_fdTable x = replicate 16 0"
  proof (cases "a = p")
    case True
    then show ?thesis using inh a p by (auto simp: inherits_def split: if_splits)
  next
    case False
    then show ?thesis using kept a unfolding others_kept_def by fastforce
  qed
  then show "length (p_fdTable x) = 16 \<and> (\<forall>fa \<in> set (p_fdTable x). fa \<noteq> 0 \<longrightarrow> files s' fa \<noteq> None)"
    using fds live by (fastforce simp: fds_ok_def)
qed

context allocator
begin

text \<open>The end of a start: the stack frame, the state, the table and the ready queue.\<close>
lemma publish_spec:
  assumes ok: "kmok s" and p: "procs s p = Some pr" and rq: "readyQueue s = Some rq"
  obtains m' rq' sm pr' s' where
    "(do { s \<leftarrow> prepareStack p s; s \<leftarrow> setState p READY s;
           (let s = s\<lparr>processTable := (processTable s)[nat pid := p]\<rparr> in do {
              (m, q, r) \<leftarrow> kqp_enqueue ops pid (kmem s) (readyQueue s);
              Some (s\<lparr>kmem := m, readyQueue := q\<rparr>, pid) }) }) = Some (s', pid)"
    "s' = (put_proc p pr' s)\<lparr>kmem := m', readyQueue := Some rq', stackmem := sm, processTable := (processTable s)[nat pid := p]\<rparr>"
    "kmok s'" "kq_elems rq' = kq_elems rq @ [pid] \<or> rq' = rq" "\<exists>sp. pr' = pr\<lparr>p_rsp := sp, p_state := READY\<rparr>"
    "\<exists>n. mm_alloc ops (kmem s) sizeof_Node = Some (m', n) \<and> kq_elems rq' = kq_elems rq @ (if n = 0 then [] else [pid])"
proof -
  define sm where "sm = fst (push_all (initial_frame pr) (stackmem s, stack_top pr))"
  define pr' where "pr' = pr\<lparr>p_rsp := stack_top pr - 160, p_state := READY\<rparr>"
  define s1 where "s1 = (put_proc p pr' s)\<lparr>stackmem := sm, processTable := (processTable s)[nat pid := p]\<rparr>"
  have "kmok (put_proc p pr' s)" by (rule kmem_ok_put_proc [OF ok p]) (simp_all add: pr'_def)
  then have ok1: "kmok s1" by (simp add: kmem_ok_def s1_def)
  have "readyQueue s1 = Some rq" using rq by (simp add: s1_def)
  from ready_enqueue [OF ok1 this, of pid] obtain m' q' r where
    e: "kqp_enqueue ops pid (kmem s1) (readyQueue s1) = Some (m', Some q', r)"
      "kmok (s1\<lparr>kmem := m', readyQueue := Some q'\<rparr>)" "r = 0 \<and> q' = rq \<or> r = 1 \<and> kq_elems q' = kq_elems rq @ [pid]" .
  have "readyQueue s1 = Some rq" "kmem s1 = kmem s" using rq by (simp_all add: s1_def)
  with e(1) have node: "\<exists>n. mm_alloc ops (kmem s) sizeof_Node = Some (m', n) \<and> kq_elems q' = kq_elems rq @ (if n = 0 then [] else [pid])"
    by (intro kqp_enqueue_node) simp
  show thesis
  proof (rule that [where s' = "s1\<lparr>kmem := m', readyQueue := Some q'\<rparr>" and m' = m' and rq' = q' and sm = sm and pr' = pr'])
    show "s1\<lparr>kmem := m', readyQueue := Some q'\<rparr> = (put_proc p pr' s)\<lparr>kmem := m', readyQueue := Some q', stackmem := sm, processTable := (processTable s)[nat pid := p]\<rparr>"
      by (simp add: s1_def)
    show "(do { s \<leftarrow> prepareStack p s; s \<leftarrow> setState p READY s;
           (let s = s\<lparr>processTable := (processTable s)[nat pid := p]\<rparr> in do {
              (m, q, r) \<leftarrow> kqp_enqueue ops pid (kmem s) (readyQueue s);
              Some (s\<lparr>kmem := m, readyQueue := q\<rparr>, pid) }) }) = Some (s1\<lparr>kmem := m', readyQueue := Some q'\<rparr>, pid)"
      using e(1) p by (simp add: prepareStack_eq [OF p] setState_def s1_def put_proc_def pr'_def sm_def)
  qed (use e(2,3) node in \<open>auto simp: pr'_def\<close>)
qed

lemma startNewProcessWithPid_spec:
  assumes inv: "boot_inv s" and ok: "kmok s" and ch: "has_children_queue s" and args: "args_ok argc argv"
    and pid: "0 \<le> pid" "pid < 64" "processTable s ! nat pid = 0"
  obtains (failed) m' where "startNewProcessWithPid ops e n pl pid argc argv s = Some (s\<lparr>kmem := m'\<rparr>, -1)"
      "kmok (s\<lparr>kmem := m'\<rparr>)" "live m' = live (kmem s)"
    | (made) s' p where "startNewProcessWithPid ops e n pl pid argc argv s = Some (s', pid)"
      "kmok s'" "boot_inv s'" "process_added s (cur_pid s) (created_with e n pl argc argv) pid p s'"
      "entered inv ops s (cur_pid s) pid s'"
proof -
  have tab: "tab_ok s" and rdy: "ready_ok s" and cur: "cur_ok s" and fds: "fds_ok s" using inv by (simp_all add: boot_inv_def)
  obtain rq where rq: "readyQueue s = Some rq" using rdy by (auto simp: ready_ok_def)
  have free: "ptab s pid = Some 0" using pid by (simp add: ptab_def)
  have ss: "DEFAULT_STACK_SIZE \<noteq> 0" "unat DEFAULT_STACK_SIZE \<le> 2 ^ 15" by (simp_all add: DEFAULT_STACK_SIZE_def)
  from ok ss args show thesis
  proof (cases rule: newProcess_spec [where e = e and n = n and pid = pid and pl = pl])
    case (failed m')
    then show thesis using free by (intro that(1) [of m']) (simp_all add: startNewProcessWithPid_def)
  next
    case N: (made m1 F p pr sb cq tc t ct av s1)
    let ?cp = "currentProcess s"
    have null: "procs s 0 = None" by (rule kmem_ok_proc_null [OF ok])
    have pcp: "p \<noteq> ?cp" using ch N(4,5) by (auto simp: has_children_queue_def)
    have s1: "procs s1 = (procs s)(p \<mapsto> pr)" "files s1 = files s" "currentProcess s1 = ?cp" "readyQueue s1 = Some rq"
      using N(2) rq by simp_all
    have p1: "procs s1 p = Some pr" "p_fdTable pr = replicate 16 0" using s1(1) N(6) by (simp_all add: fresh_proc_def)
    have fd: "length (p_fdTable pc) = 16 \<and> (\<forall>fa \<in> set (p_fdTable pc). fa \<noteq> 0 \<longrightarrow> files s1 fa \<noteq> None)" if "procs s1 ?cp = Some pc" for pc
      using fds that pcp s1 by (auto simp: fds_ok_def)
    have cq1: "\<exists>pc q. procs s1 ?cp = Some pc \<and> p_children pc = Some q" if "?cp \<noteq> 0" using ch that pcp s1 by (auto simp: has_children_queue_def)
    have cp1: "getCurrentPID s1 = Some (cur_pid s)"
      using cq1 pcp s1 null by (cases "?cp = 0") (auto simp: getCurrentPID_def getPID_def cur_pid_def)
    obtain s2 pr2 where A: "(if currentProcess s1 \<noteq> 0 \<and> cur_pid s \<noteq> IDLE_PID then do {
        s \<leftarrow> setPPID p (cur_pid s) s1; (s, r) \<leftarrow> addChild ops (currentProcess s) pid s; copyFdTable ops p (currentProcess s) s }
      else setPPID p INIT_PID s1) = Some s2"
      "kmok s2" "procs s2 p = Some pr2" "\<exists>e. pr2 = pr\<lparr>p_ppid := p_ppid pr2, p_fdTable := p_fdTable pr2, p_eofRequests := e\<rparr>"
      "others_kept s1 pid p s2" "inherits s1 (cur_pid s) pr2 s2" "\<exists>m P G. s2 = s1\<lparr>kmem := m, procs := P, files := G\<rparr>"
      "child_entry inv ops s1 (cur_pid s) pid (kmem s2) s2"
      by (rule adopt_spec [OF N(3,4) p1(1) pcp s1(3) p1(2) cq1 fd, of "cur_pid s" pid]) (auto intro: that)
    have s2: "readyQueue s2 = Some rq" "processTable s2 = processTable s" "foregroundSet s2 = foregroundSet s"
        "currentProcess s2 = ?cp" "pipes s2 = pipes s" "schedulerEnabled s2 = schedulerEnabled s"
      using A(7) N(2) rq by auto
    from A(2,3) s2(1) obtain m' rq' sm pr' s' where
      B: "(do { s \<leftarrow> prepareStack p s2; s \<leftarrow> setState p READY s;
           (let s = s\<lparr>processTable := (processTable s)[nat pid := p]\<rparr> in do {
              (m, q, r) \<leftarrow> kqp_enqueue ops pid (kmem s) (readyQueue s);
              Some (s\<lparr>kmem := m, readyQueue := q\<rparr>, pid) }) }) = Some (s', pid)"
        "s' = (put_proc p pr' s2)\<lparr>kmem := m', readyQueue := Some rq', stackmem := sm, processTable := (processTable s2)[nat pid := p]\<rparr>"
        "kmok s'" "kq_elems rq' = kq_elems rq @ [pid] \<or> rq' = rq" "\<exists>sp. pr' = pr2\<lparr>p_rsp := sp, p_state := READY\<rparr>"
        "\<exists>n. mm_alloc ops (kmem s2) sizeof_Node = Some (m', n) \<and> kq_elems rq' = kq_elems rq @ (if n = 0 then [] else [pid])"
      by (rule publish_spec)
    have run: "startNewProcessWithPid ops e n pl pid argc argv s = Some (s', pid)"
      using free N(1,4) cp1 A(1) B(1) by (simp add: startNewProcessWithPid_def)
    have s': "procs s' = (procs s2)(p \<mapsto> pr')" "files s' = files s2" "currentProcess s' = ?cp" "processTable s' = (processTable s)[nat pid := p]"
        "foregroundSet s' = foregroundSet s" "readyQueue s' = Some rq'" "pipes s' = pipes s" "schedulerEnabled s' = schedulerEnabled s"
      using B(2) s2 by simp_all
    obtain sp pp tb e' where eq: "pr' = pr2\<lparr>p_rsp := sp, p_state := READY\<rparr>" "pr2 = pr\<lparr>p_ppid := pp, p_fdTable := tb, p_eofRequests := e'\<rparr>"
      using A(4) B(5) by blast
    have pr': "p_pid pr' = pid" "p_state pr' = READY" "p_ppid pr' = p_ppid pr2" "p_fdTable pr' = p_fdTable pr2"
      using eq N(6) by (simp_all add: fresh_proc_def)
    have given: "created_with e n pl argc argv pr'"
      using eq N(6,12) by (auto simp: created_with_def fresh_proc_def split: if_splits)
    have kept: "others_kept s pid p s'" using A(5) s1 s' by (simp add: others_kept_def)
    have inh: "inherits s (cur_pid s) pr' s'" using A(6) s1 s'(2) pr' pcp by (auto simp: inherits_def split: if_splits)
    have rq': "rq_elems s' = rq_elems s @ [pid] \<or> rq_elems s' = rq_elems s" using B(4) rq s'(6) by (auto simp: rq_elems_def)
    note add = sched_add_process [OF tab rdy cur pid N(4,5) s'(4,5,3) _ pr'(1,2) kept rq s'(6) B(4)]
    have at: "procs s' p = Some pr'" by (simp add: s'(1))
    have "fds_ok s'" by (rule fds_ok_added [OF fds kept inh at])
    then have "boot_inv s'" using add(1-3) [OF at] by (simp add: boot_inv_def)
    moreover have "process_added s (cur_pid s) (created_with e n pl argc argv) pid p s'"
      unfolding process_added_def using N(4,5) add(4,6,7) [OF at] s'(3,4,5,7,8) kept rq' pr'(1) given inh by blast
    moreover have "entered inv ops s (cur_pid s) pid s'"
    proof -
      obtain k where k: "mm_alloc ops (kmem s2) sizeof_Node = Some (m', k)" "kq_elems rq' = kq_elems rq @ (if k = 0 then [] else [pid])"
        using B(6) by blast
      have "inv (kmem s2)" using A(2) by (simp add: kmem_ok_def own_ok_def)
      moreover have "child_entry inv ops s (cur_pid s) pid (kmem s2) s'"
        using A(8) pcp s1 s'(1) by (auto simp: child_entry_def)
      moreover have "kmem s' = m'" "rq_elems s = kq_elems rq" "rq_elems s' = kq_elems rq'" using B(2) rq s'(6) by (simp_all add: rq_elems_def)
      ultimately show ?thesis using k unfolding entered_def by metis
    qed
    ultimately show thesis by (rule that(2) [OF run B(3)])
  qed
qed

lemma findFreePid_free:
  "findFreePid s < 0 \<or> (0 \<le> findFreePid s \<and> findFreePid s < 64 \<and> processTable s ! nat (findFreePid s) = 0)"
  by (auto simp: findFreePid_def find_Some_iff split: option.splits)

lemma startNewProcess_spec:
  assumes inv: "sched_inv s" "fds_ok s" and ok: "kmok s" and ch: "has_children_queue s" and args: "args_ok argc argv"
  obtains (failed) m' where "startNewProcess ops e n pl argc argv s = Some (s\<lparr>kmem := m'\<rparr>, -1)"
      "kmok (s\<lparr>kmem := m'\<rparr>)" "live m' = live (kmem s)"
    | (made) s' p where "startNewProcess ops e n pl argc argv s = Some (s', findFreePid s)" "0 \<le> findFreePid s" "findFreePid s < 64"
      "kmok s'" "sched_inv s'" "fds_ok s'" "process_added s (cur_pid s) (created_with e n pl argc argv) (findFreePid s) p s'"
      "entered inv ops s (cur_pid s) (findFreePid s) s'"
proof (cases "findFreePid s < 0")
  case True
  then show thesis using ok by (intro that(1) [of "kmem s"]) (simp_all add: startNewProcess_def)
next
  case False
  then have pid: "0 \<le> findFreePid s" "findFreePid s < 64" "processTable s ! nat (findFreePid s) = 0" using findFreePid_free [of s] by auto
  have run: "startNewProcess ops e n pl argc argv s = startNewProcessWithPid ops e n pl (findFreePid s) argc argv s"
    using False by (simp add: startNewProcess_def)
  have b: "boot_inv s" using inv by (simp add: boot_inv_def sched_inv_def)
  from b ok ch args pid show thesis
  proof (cases rule: startNewProcessWithPid_spec [where e = e and n = n and pl = pl])
    case (failed m')
    with run show thesis by (intro that(1) [of m']) simp_all
  next
    case (made s' p)
    have "pstate s 0 \<noteq> None" using inv(1) by (auto simp: sched_inv_def idle_ok_def)
    then have "pstate s' 0 = pstate s 0"
      using made(4) by (auto simp: process_added_def pstate_def)
    then have "idle_ok s'" using inv(1) by (simp add: sched_inv_def idle_ok_def)
    then show thesis using made run pid(1,2) by (intro that(2) [of s' p]) (simp_all add: boot_inv_def sched_inv_def)
  qed
qed

end

text \<open>The free list refuses without changing anything, so a refused entry shows in the heap that is left.\<close>
lemma fl_refused: "fl_inv m \<Longrightarrow> n \<noteq> 0 \<Longrightarrow> mem_alloc m n = Some (m', 0) \<Longrightarrow> m' = m"
proof -
  assume inv: "fl_inv m" and n: "n \<noteq> 0" and al: "mem_alloc m n = Some (m', 0)"
  obtain bs where rep: "fl_rep m bs" using inv by (auto simp: fl_inv_def)
  from rep n show "m' = m"
  proof (cases rule: mem_alloc_cases)
    case (ok xs a t ys st')
    then have "a + HEADER_SIZE \<noteq> 0" using payload_nonnull(1) [OF rep, of a t True] by auto
    with ok(4) al show ?thesis by simp
  qed (use al in simp)
qed

lemma entered_listed:
  assumes "entered fl_inv fl_ops s cur pid s'"
  shows "listed s cur pid s' \<or> mem_alloc (kmem s') sizeof_Node = Some (kmem s', 0)"
proof -
  have nz: "sizeof_Node \<noteq> 0" by (simp add: sizeof_Node_def)
  obtain m1 n where e: "child_entry fl_inv fl_ops s cur pid m1 s'" "fl_inv m1" "mem_alloc m1 sizeof_Node = Some (kmem s', n)"
      "rq_elems s' = rq_elems s @ (if n = 0 then [] else [pid])"
    using assms by (auto simp: entered_def fl_ops_def)
  have refused: ?thesis if "n = 0" using e(2,3) fl_refused [OF e(2) nz] that by auto
  show ?thesis
  proof (cases "currentProcess s \<noteq> 0 \<and> cur \<noteq> 0")
    case False
    then show ?thesis using e(4) refused by (auto simp: listed_def)
  next
    case True
    then obtain m k pc q q' where c: "fl_inv m" "mem_alloc m sizeof_Node = Some (m1, k)" "procs s (currentProcess s) = Some pc"
        "p_children pc = Some q" "procs s' (currentProcess s) = Some (pc\<lparr>p_children := Some q'\<rparr>)"
        "kq_elems q' = kq_elems q @ (if k = 0 then [] else [pid])"
      using e(1) by (auto simp: child_entry_def fl_ops_def)
    show ?thesis
    proof (cases "k = 0")
      case True
      with c(1,2) nz have "m1 = m" by (intro fl_refused) simp_all
      then have "n = 0" using c(2) e(3) True by simp
      then show ?thesis by (rule refused)
    next
      case False
      then show ?thesis using c(3-6) e(4) refused by (auto simp: listed_def)
    qed
  qed
qed

lemma demo_fds: "fds_ok demo_kst"
  by (auto simp: fds_ok_def demo_kst_def demo_proc_def split: if_splits)

lemma demo_free_pid: "findFreePid demo_kst = 3"
proof -
  have up: "[0..<nat MAX_PROCESSES] = 0 # 1 # 2 # 3 # [4..<64]" by (simp add: upt_conv_Cons)
  show ?thesis unfolding findFreePid_def up by (simp add: demo_kst_def demo_ptr_nonnull)
qed

text \<open>C6. Starting a process is all or nothing.  From a state that satisfies the scheduler's invariant, in
  which the current process, if there is one, has its list of children, and for arguments that are all
  there, \<^verbatim>\<open>startNewProcess\<close> returns; either it answers -1 and no structure of the kernel and no
  live block of the heap changed (a control block, a stack or a copied argument that could not be
  allocated has all earlier blocks given back), or it answers the lowest free pid, whose process is
  READY with the given entry point, name, priority and arguments and has the parent's descriptors (each
  file access counted once more), while every other process is untouched.  The new process is the last
  of its parent's children and the last of the ready queue; one of these two entries is missing
  only when the heap that is left has no room for a node of a queue.  Both ways the scheduler's
  invariant and the ownership of all blocks hold again.\<close>
theorem startNewProcess_all_or_nothing:
  assumes "sched_inv s" "fds_ok s" "fl_kmem_ok s" "has_children_queue s" "args_ok argc argv"
  shows "\<exists>s' r. startNewProcess fl_ops e n pl argc argv s = Some (s', r) \<and> sched_inv s' \<and> fds_ok s' \<and> fl_kmem_ok s' \<and>
    (r = -1 \<and> s' = s\<lparr>kmem := kmem s'\<rparr> \<and> dom (fl_blocks (kmem s')) = dom (fl_blocks (kmem s)) \<or>
     r = findFreePid s \<and> 0 \<le> r \<and> r < 64 \<and> (\<exists>p. process_added s (cur_pid s) (created_with e n pl argc argv) r p s') \<and>
     (listed s (cur_pid s) r s' \<or> mem_alloc (kmem s') sizeof_Node = Some (kmem s', 0)))"
  using assms
proof (cases rule: fl.startNewProcess_spec [where e = e and n = n and pl = pl])
  case (failed m')
  have "sched_inv (s\<lparr>kmem := m'\<rparr>)"
    using assms(1) by (simp add: sched_defs pstate_def proc_at_def rq_elems_def)
  moreover have "fds_ok (s\<lparr>kmem := m'\<rparr>)" using assms(2) by (simp add: fds_ok_def)
  ultimately show ?thesis using failed by (intro exI [of _ "s\<lparr>kmem := m'\<rparr>"] exI [of _ "-1"]) simp
next
  case (made s' p)
  then show ?thesis using entered_listed [OF made(8)] by (intro exI [of _ s'] exI [of _ "findFreePid s"]) blast
qed

theorem startNewProcess_all_or_nothing_witness:
  "\<exists>s' r. startNewProcess fl_ops 0x400000 (Some [115]) 1 1 (Some [Some [97]]) demo_kst = Some (s', r) \<and> sched_inv s' \<and> (r = -1 \<or> r = 3)"
proof -
  have "fds_ok demo_kst" by (rule demo_fds)
  moreover have "has_children_queue demo_kst"
    using demo_ptr_inj [of 16 0] demo_ptr_inj [of 16 8] by (simp add: has_children_queue_def demo_kst_def demo_proc_def)
  moreover have "args_ok 1 (Some [Some [97]])" by (simp add: args_ok_def)
  ultimately show ?thesis using demo_free_pid
    startNewProcess_all_or_nothing [OF demo_sched _ demo_kmem, of 1 "Some [Some [97]]" "0x400000" "Some [115]" 1] by fastforce
qed

end
