(* ===== verification/KReap.thy ===== *)
theory KReap
  imports KSpawn
begin

text \<open>
  What \<^verbatim>\<open>freeProcess\<close> (\<^verbatim>\<open>process.c\<close>) gives back when a process is reaped: its control block, stack, argument
  copies, its two queues with the nodes left in them, and its two semaphores, and nothing else.
\<close>

context allocator
begin

lemma free_all_own:
  assumes "own_ok inv blocks m f" "f y = xs @ ys"
  obtains m' where "free_all ops xs m = Some m'" "limit m' = limit m" "own_ok inv blocks m' (own_set y ys f)"
    "live m' = live m - set xs"
  using assms
proof (induction xs arbitrary: m f thesis)
  case Nil
  then show ?case by (intro Nil(1) [of m]) (simp_all add: own_set_idem)
next
  case (Cons a xs)
  have "f y = [] @ a # (xs @ ys)" using Cons.prems(3) by simp
  from own_drop [OF Cons.prems(2) this] obtain m1 where m1: "mm_free ops m a = Some m1" "limit m1 = limit m"
      "own_ok inv blocks m1 (own_set y (xs @ ys) f)" "live m1 = live m - {a}" by auto
  obtain m2 where m2: "free_all ops xs m1 = Some m2" "limit m2 = limit m1" "own_ok inv blocks m2 (own_set y ys (own_set y (xs @ ys) f))"
      "live m2 = live m1 - set xs"
    by (rule Cons.IH [OF _ m1(3)]) (simp_all add: that)
  show ?case by (rule Cons.prems(1) [of m2]) (use m1 m2 in auto)
qed

text \<open>A queue whose nodes another owner lists.\<close>
lemma kqp_free_nodes_own:
  assumes own: "own_ok inv blocks m f" and y: "f y = qnodes q" and x: "f x = as @ qself q @ bs" "x \<noteq> y"
  obtains m' where "kqp_free ops q m = Some m'" "limit m' = limit m"
    "own_ok inv blocks m' (own_set x (as @ bs) (own_set y [] f))" "live m' = live m - (set (qnodes q) \<union> set (qself q))"
proof (cases q)
  case None
  then show thesis using own x y by (intro that [of m]) (simp_all add: kqp_free_def qself_def qnodes_def own_set_idem)
next
  case (Some k)
  have "f y = map fst (kq_nodes k) @ []" using y Some by (simp add: qnodes_def)
  from free_all_own [OF own this] obtain m1 where m1: "free_all ops (map fst (kq_nodes k)) m = Some m1" "limit m1 = limit m"
      "own_ok inv blocks m1 (own_set y [] f)" "live m1 = live m - set (map fst (kq_nodes k))" by metis
  have "own_set y [] f x = as @ kq_self k # bs" using x Some by (simp add: qself_def own_set_def)
  from own_drop [OF m1(3) this] obtain m2 where "mm_free ops m1 (kq_self k) = Some m2" "limit m2 = limit m1"
      "own_ok inv blocks m2 (own_set x (as @ bs) (own_set y [] f))" "live m2 = live m1 - {kq_self k}" by metis
  with m1 show thesis using Some by (intro that [of m2]) (auto simp: kqp_free_def kq_free_def qself_def qnodes_def)
qed

lemma freeArgv_own:
  assumes own: "own_ok inv blocks m f" and x: "f x = as @ av_blocks av"
    and whole: "\<And>a. av = Some a \<Longrightarrow> length (av_strs a) \<le> nat argc"
  obtains m' where "freeArgv ops argc av m = Some m'" "limit m' = limit m" "own_ok inv blocks m' (own_set x as f)"
    "live m' = live m - set (av_blocks av)"
proof (cases av)
  case None
  then show thesis using own x by (intro that [of m]) (simp_all add: freeArgv_def av_blocks_def own_set_idem)
next
  case (Some a)
  have "f x = (as @ [av_self a]) @ str_blocks (av_strs a)" using x Some by (simp add: av_blocks_def str_blocks_eq)
  from free_strs_own [OF own this] obtain m1 where m1: "free_strs ops (av_strs a) m = Some m1" "limit m1 = limit m"
      "own_ok inv blocks m1 (own_set x (as @ [av_self a]) f)" "live m1 = live m - set (str_blocks (av_strs a))" by metis
  have "own_set x (as @ [av_self a]) f x = as @ av_self a # []" by simp
  from own_drop [OF m1(3) this] obtain m2 where "mm_free ops m1 (av_self a) = Some m2" "limit m2 = limit m1"
      "own_ok inv blocks m2 (own_set x as f)" "live m2 = live m1 - {av_self a}" by auto
  with m1 whole show thesis using Some
    by (intro that [of m2]) (auto simp: freeArgv_def av_blocks_def str_blocks_eq)
qed

end

lemma freeSemaphore_files: "freeSemaphore mm a (s\<lparr>files := P\<rparr>) = map_option (\<lambda>s. s\<lparr>files := P\<rparr>) (freeSemaphore mm a s)"
  by (auto simp: freeSemaphore_def sem_acquire_def sem_release_def on_sem_def split: option.splits bind_split)

lemma free_sems_files: "free_sems mm as (s\<lparr>files := P\<rparr>) = map_option (\<lambda>s. s\<lparr>files := P\<rparr>) (free_sems mm as s)"
  by (induction as arbitrary: s) (auto simp: freeSemaphore_files split: bind_split)

text \<open>Everything a process holds: its blocks, the nodes of its queues and its semaphores.\<close>
definition proc_all :: "(u64 \<rightharpoonup> semCDT) \<Rightarrow> u64 \<Rightarrow> processCDT \<Rightarrow> u64 set" where
  "proc_all f p pr = proc_foot f p pr \<union> set (qnodes (p_children pr)) \<union> set (qnodes (p_terminatedChildren pr))"

text \<open>The argument count of a process covers its argument vector.\<close>
definition argc_ok :: "processCDT \<Rightarrow> bool" where
  "argc_ok pr \<longleftrightarrow> (case p_argv pr of None \<Rightarrow> True | Some a \<Rightarrow> length (av_strs a) \<le> nat (p_argc pr))"

context allocator
begin

text \<open>A block changes its owner.\<close>
lemma own_move:
  assumes "own_ok inv blocks m f" "f x = [p]" "f y = []"
  shows "own_ok inv blocks m (own_set y [p] (own_set x [] f))"
proof -
  have "x \<noteq> y" using assms(2,3) by auto
  have f: "own_ok inv blocks m (own_set x [] f)" unfolding own_set_def by (rule own_ok_shrink [OF assms(1)]) simp_all
  have p: "p \<in> set (f x)" using assms(2) by simp
  have "set [p] \<inter> set (own_set x [] f z) = {}" if "z \<noteq> y" for z
    using own_ok_owner [OF assms(1) p, of z] by (auto simp: own_set_def)
  moreover have "set (own_set x [] f z) \<subseteq> dom (blocks m)" for z using own_ok_live [OF f, of _ z] by blast
  ultimately show ?thesis using own_ok_live [OF assms(1) p] own_ok_nonnull [OF assms(1) p] own_ok_inv [OF assms(1)]
    unfolding own_set_def [of y] by (intro own_ok_change [OF f]) auto
qed

lemma freeProcess_spec:
  assumes ok: "kmok s" and pr: "procs s p = Some pr" "argc_ok pr" "sems_idle (proc_sems pr) (sems s)"
  obtains m' where "freeProcess ops p s = Some (s\<lparr>kmem := m', sems := sems s |` (- set (proc_sems pr)), procs := (procs s)(p := None)\<rparr>)"
    "kmok (s\<lparr>kmem := m', sems := sems s |` (- set (proc_sems pr)), procs := (procs s)(p := None)\<rparr>)"
    "live m' = live (kmem s) - proc_all (sems s) p pr"
proof -
  let ?x = "OProc p" and ?oc = "OChildren p" and ?ot = "OTerminated p" and ?sb = "p_stackBase pr"
  let ?ch = "p_children pr" and ?tc = "p_terminatedChildren pr" and ?av = "p_argv pr" and ?o = "owned s"
  have own: "own_ok inv blocks (kmem s) ?o" and lim: "2 ^ 15 \<le> limit (kmem s)" using ok by (simp_all add: kmem_ok_def)
  have o: "?o ?x = ([p, ?sb] @ qself ?ch @ qself ?tc) @ av_blocks ?av" "?o ?oc = qnodes ?ch" "?o ?ot = qnodes ?tc"
    using pr(1) by (simp_all add: heap_blocks_def proc_blocks_def)
  have p0: "p \<noteq> 0" using own_ok_nonnull [OF own, of p ?x] o(1) by simp
  have px: "p \<in> set (?o ?x)" by (simp only: o(1)) simp
  have "p \<notin> set (?o (OFile p))" using own_ok_owner [OF own px, of "OFile p"] by blast
  then have nofile: "files s p = None" by (cases "files s p") (simp_all add: heap_blocks_def)
  have whole: "length (av_strs a) \<le> nat (p_argc pr)" if "?av = Some a" for a using pr(2) that by (simp add: argc_ok_def)
  obtain m1 where m1: "freeArgv ops (p_argc pr) ?av (kmem s) = Some m1" "limit m1 = limit (kmem s)"
      "own_ok inv blocks m1 (own_set ?x ([p, ?sb] @ qself ?ch @ qself ?tc) ?o)" "live m1 = live (kmem s) - set (av_blocks ?av)"
    by (rule freeArgv_own [OF own o(1) whole]) (assumption, rule that)
  let ?f1 = "own_set ?x ([p, ?sb] @ qself ?ch @ qself ?tc) ?o"
  have "?f1 ?x = [p] @ ?sb # (qself ?ch @ qself ?tc)" by simp
  from own_drop [OF m1(3) this] obtain m2 where m2: "mm_free ops m1 ?sb = Some m2" "limit m2 = limit m1"
      "own_ok inv blocks m2 (own_set ?x ([p] @ qself ?ch @ qself ?tc) ?o)" "live m2 = live m1 - {?sb}" by auto
  let ?f2 = "own_set ?x ([p] @ qself ?ch @ qself ?tc) ?o"
  have f2: "?f2 ?oc = qnodes ?ch" "?f2 ?x = [p] @ qself ?ch @ qself ?tc" "?x \<noteq> ?oc" using o by (simp_all add: own_set_def)
  obtain m3 where m3: "kqp_free ops ?ch m2 = Some m3" "limit m3 = limit m2"
      "own_ok inv blocks m3 (own_set ?x ([p] @ qself ?tc) (own_set ?oc [] ?f2))" "live m3 = live m2 - (set (qnodes ?ch) \<union> set (qself ?ch))"
    by (rule kqp_free_nodes_own [OF m2(3) f2]) (rule that)
  let ?f3 = "own_set ?x ([p] @ qself ?tc) (own_set ?oc [] ?f2)"
  have f3: "?f3 ?ot = qnodes ?tc" "?f3 ?x = [p] @ qself ?tc @ []" "?x \<noteq> ?ot" using o by (simp_all add: own_set_def)
  obtain m4 where m4: "kqp_free ops ?tc m3 = Some m4" "limit m4 = limit m3"
      "own_ok inv blocks m4 (own_set ?x ([p] @ []) (own_set ?ot [] ?f3))" "live m4 = live m3 - (set (qnodes ?tc) \<union> set (qself ?tc))"
    by (rule kqp_free_nodes_own [OF m3(3) f3]) (rule that)
  let ?f4 = "own_set ?x ([p] @ []) (own_set ?ot [] ?f3)"
  define s2 where "s2 = s\<lparr>kmem := m4, procs := (procs s)(p := None), files := (files s)(p \<mapsto> undefined)\<rparr>"
  have "own_ok inv blocks m4 (own_set (OFile p) [p] (own_set ?x [] ?f4))"
    by (rule own_move [OF m4(3)]) (use nofile in \<open>simp_all add: own_set_def heap_blocks_def\<close>)
  also have "own_set (OFile p) [p] (own_set ?x [] ?f4) = owned s2"
  proof
    fix z show "own_set (OFile p) [p] (own_set ?x [] ?f4) z = owned s2 z"
      by (cases z) (auto simp: own_set_def s2_def heap_blocks_def)
  qed
  finally have own2: "own_ok inv blocks m4 (owned s2)" .
  then have ok2: "kmok s2" using lim m1(2) m2(2) m3(2) m4(2) by (simp add: kmem_ok_def s2_def)
  have idle2: "sems_idle (proc_sems pr) (sems s2)" using pr(3) by (simp add: s2_def)
  let ?F = "sems s |` (- set (proc_sems pr))"
  obtain m5 where m5: "free_sems ops (proc_sems pr) s2 = Some (s2\<lparr>kmem := m5, sems := ?F\<rparr>)"
      "kmok (s2\<lparr>kmem := m5, sems := ?F\<rparr>)" "live m5 = live m4 - foots (proc_sems pr) (sems s)"
    using free_sems_spec [OF ok2 idle2] by (auto simp: s2_def)
  let ?s4 = "s\<lparr>kmem := m4\<rparr>"
  have "s2\<lparr>procs := procs s\<rparr>\<lparr>files := files s\<rparr> = ?s4" by (simp add: s2_def)
  moreover have "free_sems ops (proc_sems pr) (s2\<lparr>procs := procs s\<rparr>\<lparr>files := files s\<rparr>) =
      Some (s2\<lparr>kmem := m5, sems := ?F\<rparr>\<lparr>procs := procs s\<rparr>\<lparr>files := files s\<rparr>)"
    unfolding free_sems_files free_sems_procs m5(1) by simp
  ultimately have run: "free_sems ops (proc_sems pr) ?s4 = Some (s\<lparr>kmem := m5, sems := ?F\<rparr>)"
    by (simp add: s2_def)
  then obtain s5 where sems: "freeSemaphore ops (p_terminated pr) ?s4 = Some s5"
      "freeSemaphore ops (p_childTerminated pr) s5 = Some (s\<lparr>kmem := m5, sems := ?F\<rparr>)"
    by (auto simp: proc_sems_def bind_eq_Some_conv)
  have own5: "own_ok inv blocks m5 (owned (s2\<lparr>kmem := m5, sems := ?F\<rparr>))" using m5(2) by (simp add: kmem_ok_def)
  have "owned (s2\<lparr>kmem := m5, sems := ?F\<rparr>) (OFile p) = [] @ p # []" by (simp add: s2_def heap_blocks_def)
  from own_drop [OF own5 this] obtain m6 where m6: "mm_free ops m5 p = Some m6" "limit m6 = limit m5"
      "own_ok inv blocks m6 (own_set (OFile p) [] (owned (s2\<lparr>kmem := m5, sems := ?F\<rparr>)))" "live m6 = live m5 - {p}" by auto
  let ?s6 = "s\<lparr>kmem := m6, sems := ?F, procs := (procs s)(p := None)\<rparr>"
  have "own_set (OFile p) [] (owned (s2\<lparr>kmem := m5, sems := ?F\<rparr>)) = owned ?s6"
  proof
    fix z show "own_set (OFile p) [] (owned (s2\<lparr>kmem := m5, sems := ?F\<rparr>)) z = owned ?s6 z"
      using nofile by (cases z) (auto simp: own_set_def s2_def heap_blocks_def)
  qed
  with m6(2,3) m5(2) have "kmok ?s6" by (simp add: kmem_ok_def)
  moreover have "freeProcess ops p s = Some ?s6"
    using p0 pr(1) m1(1) m2(1) m3(1) m4(1) sems m6(1) by (simp add: freeProcess_def)
  moreover have "live m6 = live (kmem s) - proc_all (sems s) p pr"
    using m1(4) m2(4) m3(4) m4(4) m5(3) m6(4) by (auto simp: proc_all_def proc_foot_def proc_blocks_def)
  ultimately show thesis by (intro that [of m6])
qed

lemma new_then_free:
  assumes ok: "kmok s" and ss: "stackSize \<noteq> 0" "unat stackSize \<le> 2 ^ 15" and args: "args_ok argc argv"
  shows "\<exists>s' p. newProcess ops e n stackSize pid pl argc argv s = Some (s', p) \<and>
    (if p = 0 then s' = s\<lparr>kmem := kmem s'\<rparr> \<and> kmok s' \<and> live (kmem s') = live (kmem s)
     else \<exists>m'. freeProcess ops p s' = Some (s\<lparr>kmem := m'\<rparr>) \<and> kmok (s\<lparr>kmem := m'\<rparr>) \<and> live m' = live (kmem s))"
  using assms
proof (cases rule: newProcess_spec [where e = e and n = n and pid = pid and pl = pl])
  case (failed m')
  then show ?thesis by (intro exI [of _ "s\<lparr>kmem := m'\<rparr>"] exI [of _ 0]) simp
next
  case (made m' F p pr sb ch tc t ct av s')
  have sems: "proc_sems pr = [t, ct]" "p_children pr = ch" "p_terminatedChildren pr = tc" "p_argv pr = av"
      "p_argc pr = (if argc > 0 \<and> argv \<noteq> None then argc else 0)"
    using made(6) by (simp_all add: proc_sems_def fresh_proc_def)
  have "length (av_strs a) \<le> nat (p_argc pr)" if "av = Some a" for a
    using made(12) that sems(5) by (auto split: if_splits dest!: arg_cong [where f = length])
  then have argc: "argc_ok pr" using sems(4) by (simp add: argc_ok_def split: option.split)
  have all: "proc_all F p pr = proc_foot F p pr" using made(8,9) sems(2,3) by (simp add: proc_all_def)
  have idle: "sems_idle (proc_sems pr) (sems s')" "procs s' p = Some pr" using made(2,10) sems(1) by simp_all
  obtain m2 where f: "freeProcess ops p s' = Some (s'\<lparr>kmem := m2, sems := sems s' |` (- set (proc_sems pr)), procs := (procs s')(p := None)\<rparr>)"
      "kmok (s'\<lparr>kmem := m2, sems := sems s' |` (- set (proc_sems pr)), procs := (procs s')(p := None)\<rparr>)"
      "live m2 = live (kmem s') - proc_all (sems s') p pr"
    by (rule freeProcess_spec [OF made(3) idle(2) argc idle(1)]) (rule that)
  have "s'\<lparr>kmem := m2, sems := sems s' |` (- set (proc_sems pr)), procs := (procs s')(p := None)\<rparr> = s\<lparr>kmem := m2\<rparr>"
    using made(2,5,11) sems(1) by (simp add: fun_upd_idem)
  moreover have "live m2 = live (kmem s)" using f(3) made(2,13,14) all by auto
  ultimately show ?thesis using f(1,2) made(1,4) by (intro exI [of _ s'] exI [of _ p]) (auto intro!: exI [of _ m2])
qed

end

section \<open>Properties\<close>

text \<open>Reaping a process gives back all it holds and only that: for a process whose semaphores nobody waits
  for, \<^verbatim>\<open>freeProcess\<close> returns, every block of another structure stays owned exactly once, and the live
  blocks are those before without the process's own.\<close>
theorem freeProcess_gives_back:
  assumes "fl_kmem_ok s" and "procs s p = Some pr" and "argc_ok pr" and "sems_idle (proc_sems pr) (sems s)"
  shows "\<exists>s'. freeProcess fl_ops p s = Some s' \<and> fl_kmem_ok s' \<and> procs s' = (procs s)(p := None) \<and>
    sems s' = sems s |` (- set (proc_sems pr)) \<and> dom (fl_blocks (kmem s')) = dom (fl_blocks (kmem s)) - proc_all (sems s) p pr"
proof -
  obtain m' where "freeProcess fl_ops p s = Some (s\<lparr>kmem := m', sems := sems s |` (- set (proc_sems pr)), procs := (procs s)(p := None)\<rparr>)"
    "fl_kmem_ok (s\<lparr>kmem := m', sems := sems s |` (- set (proc_sems pr)), procs := (procs s)(p := None)\<rparr>)"
    "dom (fl_blocks m') = dom (fl_blocks (kmem s)) - proc_all (sems s) p pr"
    by (rule fl.freeProcess_spec [OF assms]) (rule that)
  then show ?thesis by simp
qed

text \<open>C7. A process leaves nothing behind: on any well-formed kernel memory, \<^verbatim>\<open>newProcess\<close> returns, and freeing
  the process it made restores every structure of the kernel as it was, the ownership of all blocks,
  and exactly the live blocks of the heap before, whatever arguments were copied and whichever of its
  queues and semaphores could be allocated; when it made none, nothing but the layout of the free heap
  changed.\<close>
theorem newProcess_freeProcess_roundtrip:
  assumes "fl_kmem_ok s" and "stackSize \<noteq> 0" and "unat stackSize \<le> 2 ^ 15" and "args_ok argc argv"
  shows "\<exists>s' p. newProcess fl_ops e n stackSize pid pl argc argv s = Some (s', p) \<and>
    (if p = 0 then s' = s\<lparr>kmem := kmem s'\<rparr> \<and> fl_kmem_ok s' \<and> dom (fl_blocks (kmem s')) = dom (fl_blocks (kmem s))
     else \<exists>m'. freeProcess fl_ops p s' = Some (s\<lparr>kmem := m'\<rparr>) \<and> fl_kmem_ok (s\<lparr>kmem := m'\<rparr>) \<and>
       dom (fl_blocks m') = dom (fl_blocks (kmem s)))"
  by (rule fl.new_then_free [OF assms])

theorem newProcess_freeProcess_roundtrip_witness:
  "\<exists>s' p. newProcess fl_ops 0x400000 (Some [115]) 0x4000 5 2 1 (Some [Some [97, 98]]) demo_kst = Some (s', p) \<and>
     (p \<noteq> 0 \<longrightarrow> (\<exists>m'. freeProcess fl_ops p s' = Some (demo_kst\<lparr>kmem := m'\<rparr>)))"
proof -
  have "args_ok 1 (Some [Some [97, 98]])" by (simp add: args_ok_def)
  from newProcess_freeProcess_roundtrip [OF demo_kmem _ _ this, where stackSize = "0x4000" and e = "0x400000" and n = "Some [115]" and pid = 5 and pl = 2]
  show ?thesis by (auto split: if_splits)
qed

end
