(* ===== verification/KBoot.thy ===== *)
theory KBoot
  imports KSpawn
begin

text \<open>
  \<^verbatim>\<open>Kernel/kernel.c\<close>: preparing the kernel binary, \<^verbatim>\<open>main\<close> and the init process, and the proof that
  booting establishes the invariants.  The other theories prove what holds whether or not an
  allocation is refused; here the locale \<open>roomy_allocator\<close> adds the promise that a manager with
  room left does not refuse, which the free list keeps.
\<close>

section \<open>Room in the heap\<close>

text \<open>A manager that never refuses a request it has room for: \<open>room m N\<close> says that \<open>N\<close> bytes, each
  block's overhead of at most 48 bytes included, are still to be had.\<close>
locale roomy_allocator = allocator ops inv blocks limit
  for ops :: "'m mm_ops" and inv :: "'m \<Rightarrow> bool" and blocks :: "'m \<Rightarrow> u64 \<rightharpoonup> nat" and limit :: "'m \<Rightarrow> nat" +
  fixes room :: "'m \<Rightarrow> nat \<Rightarrow> bool"
  assumes room_law: "room m N \<Longrightarrow> n \<noteq> 0 \<Longrightarrow> unat n + 48 \<le> N \<Longrightarrow>
    \<exists>m' p. mm_alloc ops m n = Some (m', p) \<and> p \<noteq> 0 \<and> room m' (N - (unat n + 48))"
    and room_less: "room m N \<Longrightarrow> k \<le> N \<Longrightarrow> room m k"
begin

lemma room_alloc:
  assumes "room m N" "n \<noteq> 0" "unat n + 48 \<le> N"
  obtains m' p where "mm_alloc ops m n = Some (m', p)" "p \<noteq> 0" "room m' (N - (unat n + 48))"
  using room_law [OF assms] by blast

lemma room_kq_new:
  assumes "room m N" "72 \<le> N"
  obtains m' and q :: "int kqueue" where "kq_new ops m = Some (m', Some q)" "kq_nodes q = []" "room m' (N - 72)"
proof -
  obtain m' p where "mm_alloc ops m sizeof_queueCDT = Some (m', p)" "p \<noteq> 0" "room m' (N - (unat sizeof_queueCDT + 48))"
    by (rule room_alloc [OF assms(1), where n = sizeof_queueCDT]) (use assms(2) in \<open>simp_all add: sizeof_queueCDT_def\<close>)
  then show thesis by (intro that [of m' "\<lparr>kq_self = p, kq_nodes = []\<rparr>"]) (simp_all add: kq_new_def sizeof_queueCDT_def)
qed

lemma room_enqueue:
  assumes "room m N" "64 \<le> N"
  obtains m' q' where "kqp_enqueue ops x m (Some q) = Some (m', Some q', 1)" "kq_elems q' = kq_elems q @ [x]" "room m' (N - 64)"
proof -
  obtain m' p where "mm_alloc ops m sizeof_Node = Some (m', p)" "p \<noteq> 0" "room m' (N - (unat sizeof_Node + 48))"
    by (rule room_alloc [OF assms(1), where n = sizeof_Node]) (use assms(2) in \<open>simp_all add: sizeof_Node_def\<close>)
  then show thesis
    by (intro that [of m' "q\<lparr>kq_nodes := kq_nodes q @ [(p, x)]\<rparr>"]) (simp_all add: kqp_enqueue_def kq_enqueue_def kq_elems_def sizeof_Node_def)
qed

lemma room_newSemaphore:
  assumes "room (kmem s) N" "144 \<le> N"
  shows "\<exists>m' F a. newSemaphore ops v s = Some (s\<lparr>kmem := m', sems := F\<rparr>, a) \<and> a \<noteq> 0 \<and> room m' (N - 144)"
proof -
  obtain m1 p where 1: "mm_alloc ops (kmem s) sizeof_semCDT = Some (m1, p)" "p \<noteq> 0" "room m1 (N - (unat sizeof_semCDT + 48))"
    by (rule room_alloc [OF assms(1), where n = sizeof_semCDT]) (use assms(2) in \<open>simp_all add: sizeof_semCDT_def\<close>)
  then have "room m1 (N - 72)" by (simp add: sizeof_semCDT_def)
  moreover have "72 \<le> N - 72" using assms(2) by simp
  ultimately obtain m2 and q :: "int kqueue" where 2: "kq_new ops m1 = Some (m2, Some q)" "kq_nodes q = []" "room m2 (N - 72 - 72)" by (rule room_kq_new)
  let ?F = "(sems s)(p \<mapsto> \<lparr>sem_value = v, sem_blockedQueue = q, sem_lock = False\<rparr>)"
  have "newSemaphore ops v s = Some (s\<lparr>kmem := m2, sems := ?F\<rparr>, p)" using 1(1,2) 2 by (simp add: newSemaphore_def)
  moreover have "room m2 (N - 144)" using 2(3) by simp
  ultimately show ?thesis using 1(2) by blast
qed

text \<open>A process without arguments takes 752 bytes and its stack, overheads included.\<close>
lemma room_newProcess:
  assumes r: "room (kmem s) N" and ss: "ss \<noteq> 0" "800 + unat ss \<le> N"
  obtains m' F P p pr where "newProcess ops e n ss pid pl 0 None s = Some (s\<lparr>kmem := m', sems := F, procs := P\<rparr>, p)" "p \<noteq> 0"
    "P p = Some pr" "room m' (N - (800 + unat ss))"
proof -
  obtain m1 p where 1: "mm_alloc ops (kmem s) sizeof_processCDT = Some (m1, p)" "p \<noteq> 0" "room m1 (N - (unat sizeof_processCDT + 48))"
    by (rule room_alloc [OF r, where n = sizeof_processCDT]) (use ss in \<open>simp_all add: sizeof_processCDT_def\<close>)
  have r1: "room m1 (N - 320)" using 1(3) by (simp add: sizeof_processCDT_def)
  obtain m2 sb where 2: "mm_alloc ops m1 ss = Some (m2, sb)" "sb \<noteq> 0" "room m2 (N - 320 - (unat ss + 48))"
    by (rule room_alloc [OF r1 ss(1)]) (use ss in simp_all)
  obtain m3 and ch :: "int kqueue" where 3: "kq_new ops m2 = Some (m3, Some ch)" "room m3 (N - 320 - (unat ss + 48) - 72)"
    by (rule room_kq_new [OF 2(3)]) (use ss in simp_all)
  obtain m4 and tc :: "int kqueue" where 4: "kq_new ops m3 = Some (m4, Some tc)" "room m4 (N - 320 - (unat ss + 48) - 72 - 72)"
    by (rule room_kq_new [OF 3(2)]) (use ss in simp_all)
  let ?N = "N - 320 - (unat ss + 48) - 72 - 72"
  have r4: "room (kmem (s\<lparr>kmem := m4\<rparr>)) ?N" "144 \<le> ?N" using 4(2) ss by simp_all
  from room_newSemaphore [OF r4, of 0] obtain m5 F5 a where
    5: "newSemaphore ops 0 (s\<lparr>kmem := m4\<rparr>) = Some (s\<lparr>kmem := m5, sems := F5\<rparr>, a)" "room m5 (?N - 144)" by auto
  have r5: "room (kmem (s\<lparr>kmem := m5, sems := F5\<rparr>)) (?N - 144)" "144 \<le> ?N - 144" using 5(2) ss by simp_all
  from room_newSemaphore [OF r5, of 0] obtain m6 F6 b where
    6: "newSemaphore ops 0 (s\<lparr>kmem := m5, sems := F5\<rparr>) = Some (s\<lparr>kmem := m6, sems := F6\<rparr>, b)" "room m6 (?N - 144 - 144)" by auto
  show thesis
    by (rule that [where m' = m6 and F = F6 and p = p and P = "(procs s)(p \<mapsto> fresh_proc e n ss pid pl sb (Some ch) (Some tc) a b 0 None)"])
      (use 1(1,2) 2(1,2) 3(1) 4(1) 5(1) 6 in \<open>simp_all add: newProcess_def fresh_proc_def\<close>)
qed

text \<open>With the kernel not running any process yet, a start succeeds and queues the process.\<close>
lemma room_start:
  assumes r: "room (kmem s) N" "34000 \<le> N" and q: "readyQueue s = Some q" "currentProcess s = 0" and free: "ptab s pid = Some 0"
  obtains s' q' where "startNewProcessWithPid ops e n pl pid 0 None s = Some (s', pid)" "readyQueue s' = Some q'"
    "kq_elems q' = kq_elems q @ [pid]" "room (kmem s') (N - 34000)"
proof -
  obtain m1 F P p pr where 1: "newProcess ops e n DEFAULT_STACK_SIZE pid pl 0 None s = Some (s\<lparr>kmem := m1, sems := F, procs := P\<rparr>, p)"
      "p \<noteq> 0" "P p = Some pr" "room m1 (N - (800 + unat DEFAULT_STACK_SIZE))"
    by (rule room_newProcess [OF r(1), where ss = DEFAULT_STACK_SIZE]) (use r(2) in \<open>simp_all add: DEFAULT_STACK_SIZE_def\<close>)
  have r1: "room m1 (N - 33568)" using 1(4) by (simp add: DEFAULT_STACK_SIZE_def)
  obtain m2 q' where 2: "kqp_enqueue ops pid m1 (Some q) = Some (m2, Some q', 1)" "kq_elems q' = kq_elems q @ [pid]" "room m2 (N - 33568 - 64)"
    by (rule room_enqueue [OF r1]) (use r(2) in simp_all)
  let ?s1 = "s\<lparr>kmem := m1, sems := F, procs := P\<rparr>"
  let ?pr = "pr\<lparr>p_ppid := 1\<rparr>"
  let ?s2 = "put_proc p ?pr ?s1"
  have p2: "procs ?s2 p = Some ?pr" by simp
  have "setPPID p INIT_PID ?s1 = Some ?s2" using 1(3) by (simp add: setPPID_def)
  moreover have "getCurrentPID ?s1 = Some (-1)" using q(2) by (simp add: getCurrentPID_def)
  ultimately obtain s' where "startNewProcessWithPid ops e n pl pid 0 None s = Some (s', pid)" "readyQueue s' = Some q'" "kmem s' = m2"
    using free 1(1,2) q 2(1) prepareStack_eq [OF p2]
    by (simp add: startNewProcessWithPid_def setState_def put_proc_def)
  moreover have "room m2 (N - 34000)" by (rule room_less [OF 2(3)]) simp
  ultimately show thesis using 2(2) by (intro that [of s' q']) simp_all
qed

end

section \<open>Booting\<close>

text \<open>A kernel state without a single object.\<close>
definition no_objects :: "'m kst \<Rightarrow> bool" where
  "no_objects s \<longleftrightarrow> sems s = Map.empty \<and> pipes s = Map.empty \<and> files s = Map.empty \<and> procs s = Map.empty \<and> readyQueue s = None"

lemma no_objects_owned: "no_objects s \<Longrightarrow> owned s x = []"
  by (cases x) (simp_all add: no_objects_def heap_blocks_def qnodes_def qself_def)

text \<open>One process more, with everything a later start needs.\<close>
definition started :: "'m kst \<Rightarrow> int \<Rightarrow> u64 \<Rightarrow> u8 list \<Rightarrow> 'm kst \<Rightarrow> bool" where
  "started s pid entryPoint name s' \<longleftrightarrow> boot_inv s' \<and> currentProcess s' = 0 \<and> rq_elems s' = rq_elems s @ [pid] \<and>
     pstate s' = (pstate s)(pid \<mapsto> READY) \<and> schedulerEnabled s' = schedulerEnabled s \<and> foregroundSet s' = foregroundSet s \<and>
     pipes s' = pipes s \<and> files s' = files s \<and> (\<forall>i. int i \<noteq> pid \<longrightarrow> processTable s' ! i = processTable s ! i) \<and>
     (\<forall>x. x \<noteq> pid \<longrightarrow> proc_at s' x = proc_at s x) \<and>
     (\<exists>pr. proc_at s' pid = Some pr \<and> p_pid pr = pid \<and> p_ppid pr = INIT_PID \<and> p_rip pr = entryPoint \<and> p_name pr = copyProcessName (Some name) \<and>
        p_fdTable pr = replicate 16 0)"

lemma rq_elems_of: "readyQueue s = Some q \<Longrightarrow> rq_elems s = kq_elems q"
  by (simp add: rq_elems_def)

context roomy_allocator
begin

lemma start_at_boot:
  assumes inv: "boot_inv s" and ok: "kmok s" and cp: "currentProcess s = 0" and r: "room (kmem s) N" "34000 \<le> N"
    and pid: "0 \<le> pid" "pid < 64" "processTable s ! nat pid = 0"
  obtains s' where "startNewProcessWithPid ops e (Some n) pl pid 0 None s = Some (s', pid)" "kmok s'" "room (kmem s') (N - 34000)" "started s pid e n s'"
proof -
  obtain q where q: "readyQueue s = Some q" using inv by (auto simp: boot_inv_def ready_ok_def)
  have free: "ptab s pid = Some 0" using pid by (simp add: ptab_def)
  obtain s' q' where s': "startNewProcessWithPid ops e (Some n) pl pid 0 None s = Some (s', pid)" "readyQueue s' = Some q'"
      "kq_elems q' = kq_elems q @ [pid]" "room (kmem s') (N - 34000)"
    by (rule room_start [OF r q cp free]) (rule that)
  have ch: "has_children_queue s" using cp by (simp add: has_children_queue_def)
  have args: "args_ok 0 None" by (simp add: args_ok_def)
  from inv ok ch args pid show thesis
  proof (cases rule: startNewProcessWithPid_spec [where e = e and n = "Some n" and pl = pl])
    case (failed m')
    with s'(1) pid(1) show thesis by simp
  next
    case (made s2 p)
    have [simp]: "s2 = s'" using made(1) s'(1) by simp
    have tab: "tab_ok s" "tab_ok s'" using inv made(3) by (simp_all add: boot_inv_def)
    have at: "proc_at s' x = proc_at s x" if "x \<noteq> pid" for x
    proof -
      have p: "p \<noteq> 0" "procs s p = None" "processTable s' = (processTable s)[nat pid := p]" and kept: "others_kept s pid p s'"
        using made(4) by (simp_all add: process_added_def)
      have same: "procs s' a = procs s a" if "a \<noteq> p" for a
        using kept that cp kmem_ok_proc_null [OF ok] by (auto simp: others_kept_def)
      show ?thesis
      proof (cases "0 \<le> x \<and> x < 64 \<and> processTable s ! nat x \<noteq> 0")
        case True
        then have "nat x < 64" by auto
        with True tab(1) obtain pr where "procs s (processTable s ! nat x) = Some pr" unfolding tab_ok_def by blast
        then have "processTable s ! nat x \<noteq> p" using p(2) by auto
        moreover have "nat x \<noteq> nat pid" using True that pid(1) by auto
        ultimately show ?thesis using True p(3) same by (simp add: proc_at_def)
      next
        case False
        then show ?thesis using that p(3) pid by (auto simp: proc_at_def)
      qed
    qed
    have "processTable s' ! i = processTable s ! i" if "int i \<noteq> pid" for i
      using made(4) that pid(1) by (auto simp: process_added_def)
    then have "started s pid e n s'"
      using made(3,4) cp rq_elems_of [OF q] rq_elems_of [OF s'(2)] s'(3) at
      by (auto simp: started_def process_added_def created_with_def inherits_def)
    then show thesis using s'(1,4) made(2) by (intro that [of s']) simp_all
  qed
qed

text \<open>The scheduler's first two processes.\<close>
lemma initializeScheduler_boots:
  assumes none: "no_objects s" and mem: "inv (kmem s)" "2 ^ 15 \<le> limit (kmem s)" and r: "room (kmem s) N" "70000 \<le> N"
  obtains s' where "initializeScheduler ops idle ini s = Some s'" "kmok s'" "boot_inv s'" "currentProcess s' = 0" "\<not> schedulerEnabled s'"
    "rq_elems s' = [0, 1]" "pstate s' = [0 \<mapsto> READY, 1 \<mapsto> READY]" "map_option p_rip (proc_at s' 0) = Some idle" "map_option p_rip (proc_at s' 1) = Some ini"
    "map_option p_ppid (proc_at s' 0) = Some 1" "map_option p_ppid (proc_at s' 1) = Some 1" "files s' = Map.empty" "pipes s' = Map.empty" "room (kmem s') (N - 68072)"
proof -
  define s0 where "s0 = s\<lparr>processTable := replicate 64 0, foregroundSet := replicate 64 False\<rparr>"
  have own0: "own_ok inv blocks (kmem s) (\<lambda>x. [])" using mem(1) by (simp add: own_ok_def)
  obtain m1 and q1 :: "int kqueue option" where k: "kq_new ops (kmem s) = Some (m1, q1)" "limit m1 = limit (kmem s)"
      "own_ok inv blocks m1 (own_set OReadySelf ([] @ qself q1) (\<lambda>x. []))" "qnodes q1 = []"
    by (rule kq_new_own [OF own0 mem(2), of OReadySelf]) (rule that)
  have N72: "72 \<le> N" using r(2) by simp
  obtain m1' and q :: "int kqueue" where "kq_new ops (kmem s) = Some (m1', Some q)" "room m1' (N - 72)" by (rule room_kq_new [OF r(1) N72]) (rule that)
  with k(1) have q: "q1 = Some q" and r1: "room m1 (N - 72)" by simp_all
  define s1 where "s1 = s0\<lparr>kmem := m1, readyQueue := Some q, currentProcess := 0, schedulerEnabled := False\<rparr>"
  have e: "procs s1 = Map.empty" "sems s1 = Map.empty" "pipes s1 = Map.empty" "files s1 = Map.empty" "processTable s1 = replicate 64 0"
      "kmem s1 = m1" "currentProcess s1 = 0" "\<not> schedulerEnabled s1"
    using none by (simp_all add: s1_def s0_def no_objects_def)
  have "owned s1 = own_set OReadySelf (qself q1) (\<lambda>x. [])"
  proof
    fix x show "owned s1 x = own_set OReadySelf (qself q1) (\<lambda>x. []) x"
      using k(4) e by (cases x) (simp_all add: own_set_def heap_blocks_def s1_def q)
  qed
  then have ok1: "kmok s1" using k(2,3) mem(2) e(6) by (simp add: kmem_ok_def)
  have at1: "proc_at s1 x = None" for x by (simp add: proc_at_def e)
  have rq1: "rq_elems s1 = []" using k(4) by (simp add: rq_elems_def s1_def q qnodes_def kq_elems_def)
  have inv1: "boot_inv s1"
    using rq1 at1 e by (simp add: boot_inv_def tab_ok_def ready_ok_def cur_ok_def fds_ok_def pstate_def) (simp add: s1_def s0_def)
  obtain s2 where 2: "startNewProcessWithPid ops idle (Some [105, 100, 108, 101]) 1 0 0 None s1 = Some (s2, 0)" "kmok s2"
      "room (kmem s2) (N - 72 - 34000)" "started s1 0 idle [105, 100, 108, 101] s2"
    by (rule start_at_boot [OF inv1 ok1 e(7), where N = "N - 72" and pid = 0 and pl = 1 and e = idle and n = "[105, 100, 108, 101]"])
      (use r1 r(2) e(5,6) in simp_all)
  have inv2: "boot_inv s2" "currentProcess s2 = 0" "processTable s2 ! 1 = 0" using 2(4) e(5) by (simp_all add: started_def)
  obtain s3 where 3: "startNewProcessWithPid ops ini (Some [105, 110, 105, 116]) 1 1 0 None s2 = Some (s3, 1)" "kmok s3"
      "room (kmem s3) (N - 72 - 34000 - 34000)" "started s2 1 ini [105, 110, 105, 116] s3"
    by (rule start_at_boot [OF inv2(1) 2(2) inv2(2) 2(3), where pid = 1 and pl = 1 and e = ini and n = "[105, 110, 105, 116]"])
      (use r(2) inv2(3) in simp_all)
  have "initializeScheduler ops idle ini s = Some s3"
    using k(1) 2(1) 3(1) none by (simp add: initializeScheduler_def s1_def s0_def q)
  moreover have "pstate s3 = [0 \<mapsto> READY, 1 \<mapsto> READY]" using 2(4) 3(4) at1 by (auto simp: started_def pstate_def fun_eq_iff)
  moreover have "room (kmem s3) (N - 68072)" using 3(3) by simp
  ultimately show thesis using 2(4) 3(2,4) rq1 e(3,4,8) by (intro that [of s3]) (auto simp: started_def)
qed

end

section \<open>The free list has the room\<close>

definition fl_room :: "fl_state \<Rightarrow> nat \<Rightarrow> bool" where
  "fl_room st N \<longleftrightarrow> (\<exists>bs a s. fl_rep st (bs @ [(a, s, True)]) \<and> N \<le> unat s)"

lemma fl_roomI: "fl_rep st (bs @ [(a, s, True)]) \<Longrightarrow> N \<le> unat s \<Longrightarrow> fl_room st N"
  unfolding fl_room_def by blast

lemma fl_room_less: "fl_room st N \<Longrightarrow> k \<le> N \<Longrightarrow> fl_room st k"
  unfolding fl_room_def by (meson le_trans)

lemma fl_room_alloc:
  assumes room: "fl_room st N" and n: "n \<noteq> 0" "unat n + 48 \<le> N"
  shows "\<exists>st' p. mem_alloc st n = Some (st', p) \<and> p \<noteq> 0 \<and> fl_room st' (N - (unat n + 48))"
proof -
  obtain bs a s where rep: "fl_rep st (bs @ [(a, s, True)])" and s: "N \<le> unat s" using room by (auto simp: fl_room_def)
  have lim: "unat n \<le> 2 ^ 64 - 8" using n(2) s unat_lt2p [of s] by simp
  note al = alignUp_ok [OF lim]
  from rep n(1) show ?thesis
  proof (cases rule: mem_alloc_cases)
    case fail
    from fail(2) [of "(a, s, True)"] al(2) n(2) s show ?thesis by (simp add: fits_def word_le_nat_alt)
  next
    case (ok xs b t ys st')
    have nz: "b + HEADER_SIZE \<noteq> 0" using payload_nonnull(1) [OF rep, of b t True] ok(1) by auto
    show ?thesis
    proof (cases ys rule: rev_cases)
      case Nil
      then have [simp]: "xs = bs" "b = a" "t = s" using ok(1) by simp_all
      have big: "unat (alignUp n) + 40 \<le> unat s" using al(2) n(2) s by simp
      moreover have "unat s + 40 < 2 ^ 64"
      proof -
        let ?lo = "unat (baseBlock st)" and ?hi = "unat (baseBlock st) + unat (totalBytes st)"
        have l: "layout ?lo (bs @ [(a, s, True)]) ?hi" "?hi < 2 ^ 64" "0 < ?lo" "8 dvd ?lo" using rep by (auto simp: fl_rep_def unat_gt_0)
        have "?lo \<le> unat a" "unat a + 32 + unat s \<le> ?hi" using layout_bounds [OF l(1), of a s True] by simp_all
        moreover have "8 \<le> ?lo" using l(3,4) by (auto dest: dvd_imp_le)
        ultimately show ?thesis using l(2) by linarith
      qed
      ultimately have "alignUp n + HEADER_SIZE + ALIGNMENT \<le> s" using unat_need [of "alignUp n" s] by (simp add: word_le_nat_alt)
      then have "fl_rep st' ((bs @ [(a, alignUp n, False)]) @ [(a + HEADER_SIZE + alignUp n, s - alignUp n - HEADER_SIZE, True)])"
        using ok(5) Nil by (simp add: taken_def)
      then have "fl_room st' (N - (unat n + 48))"
        by (rule fl_roomI) (use al(2) s big in \<open>simp add: unat_rest\<close>)
      then show ?thesis using ok(4) nz by blast
    next
      case (snoc zs z)
      then have "(xs @ (b, t, True) # zs) @ [z] = bs @ [(a, s, True)]" using ok(1) by simp
      then have "z = (a, s, True)" by (simp only: append1_eq_conv)
      then have "fl_rep st' ((xs @ taken (alignUp n) b t @ zs) @ [(a, s, True)])" using ok(5) snoc by simp
      then have "fl_room st' (N - (unat n + 48))" by (rule fl_roomI) (use s in simp)
      then show ?thesis using ok(4) nz by blast
    qed
  qed
qed

interpretation flr: roomy_allocator fl_ops fl_inv fl_blocks "\<lambda>_. 2 ^ 64 - 8" fl_room
proof (unfold_locales, goal_cases)
  case (1 m N n)
  then show ?case using fl_room_alloc [of m N n] by (simp add: fl_ops_def)
next
  case (2 m N k)
  then show ?case by (rule fl_room_less)
qed

section \<open>kernel.c\<close>

definition PageSize :: u64 where "PageSize = 0x1000"
definition sampleCodeModuleAddress :: u64 where "sampleCodeModuleAddress = 0x400000"
definition sampleDataModuleAddress :: u64 where "sampleDataModuleAddress = 0x500000"

definition clearBSS :: "u64 \<Rightarrow> u64 \<Rightarrow> mem \<Rightarrow> mem" where
  "clearBSS bssAddress bssSize = memset bssAddress 0 bssSize"

text \<open>The symbols of the linker script are the addresses \<open>endOfKernelBinary\<close>, \<open>bss\<close> and \<open>endOfKernel\<close>.\<close>
definition getStackBase :: "u64 \<Rightarrow> u64" where
  "getStackBase endOfKernel = endOfKernel + PageSize * 8 - 8"

definition initializeKernelBinary :: "u64 \<Rightarrow> u64 \<Rightarrow> u64 \<Rightarrow> mem \<Rightarrow> (mem \<times> u64) option" where
  "initializeKernelBinary endOfKernelBinary bss endOfKernel m = do {
     m \<leftarrow> loadModules endOfKernelBinary [sampleCodeModuleAddress, sampleDataModuleAddress] m;
     Some (clearBSS bss (endOfKernel - bss) m, getStackBase endOfKernel)
   }"

text \<open>\<^verbatim>\<open>initProcessEntry\<close> up to its endless loop of \<^verbatim>\<open>wait_any\<close>, and the loop's next step: a finished
  \<^verbatim>\<open>wait_any\<close> starts over.\<close>
definition initProcessEntry :: "'m mm_ops \<Rightarrow> (u64 \<Rightarrow> u8) \<Rightarrow> kb_state \<times> 'm kst \<Rightarrow> (kb_state \<times> 'm kst) option" where
  "initProcessEntry mm raw = (\<lambda>(k, s). do {
     (s, kbdPipe) \<leftarrow> newPipe mm raw s;
     (s, kbdRead) \<leftarrow> newFileAccess mm kbdPipe FILE_READ s;
     (s, kbdWrite) \<leftarrow> newFileAccess mm kbdPipe FILE_WRITE s;
     (s, r) \<leftarrow> addCurrentFd kbdRead s;
     (k, s) \<leftarrow> initializeKeyboardDriver kbdWrite (k, s);
     (s, r) \<leftarrow> startNewProcess mm sampleCodeModuleAddress (Some [115, 104, 101, 108, 108]) 1 0 None s;
     Some (k, s)
   })"

definition initLoop_step :: "'m mm_ops \<Rightarrow> u64 \<Rightarrow> wa_pc \<Rightarrow> 'm kst \<Rightarrow> ('m kst \<times> wa_pc) option" where
  "initLoop_step mm rsp pc s = wait_any_step mm rsp (if pc = WADone then WAWait else pc) s"

text \<open>\<^verbatim>\<open>main\<close> up to its endless \<^verbatim>\<open>_hlt\<close>: the addresses are those of \<^verbatim>\<open>idleProcessEntry\<close>,
  \<^verbatim>\<open>initProcessEntry\<close> and the five interrupt entry points.\<close>
definition kernel_main :: "'m mm_ops \<Rightarrow> (u64 \<Rightarrow> u64 \<Rightarrow> 'm \<Rightarrow> 'm) \<Rightarrow> u64 \<Rightarrow> u64 \<Rightarrow> u64 \<Rightarrow> u64 \<Rightarrow> u64 \<Rightarrow> u64 \<Rightarrow> u64 \<Rightarrow>
    'm kst \<times> (u8 \<Rightarrow> DESCR_INT) \<Rightarrow> ('m kst \<times> (u8 \<Rightarrow> DESCR_INT)) option" where
  "kernel_main mm init idle initEntry irq00 irq01 syscall ex0 ex6 = (\<lambda>(s, idt). do {
     s \<leftarrow> initializeScheduler mm idle initEntry (s\<lparr>kmem := init MEM_HEAP_START MEM_HEAP_SIZE (kmem s)\<rparr>);
     (let idt = load_idt irq00 irq01 syscall ex0 ex6 idt in Some (enableScheduler s, idt))
   })"

lemma enableScheduler_same:
  "proc_at (enableScheduler s) = proc_at s" "pstate (enableScheduler s) = pstate s" "rq_elems (enableScheduler s) = rq_elems s"
  "sched_inv (enableScheduler s) = sched_inv s" "fds_ok (enableScheduler s) = fds_ok s"
  "kmem_ok minv mblocks mlimit (enableScheduler s) = kmem_ok minv mblocks mlimit s"
  "currentProcess (enableScheduler s) = currentProcess s" "schedulerEnabled (enableScheduler s)"
proof -
  show at: "proc_at (enableScheduler s) = proc_at s" by (simp add: fun_eq_iff proc_at_def enableScheduler_def)
  then show ps: "pstate (enableScheduler s) = pstate s" by (simp add: fun_eq_iff pstate_def)
  show rq: "rq_elems (enableScheduler s) = rq_elems s" by (simp add: rq_elems_def enableScheduler_def)
  show "sched_inv (enableScheduler s) = sched_inv s" unfolding sched_defs ps rq by (simp add: enableScheduler_def)
qed (simp_all add: enableScheduler_def fds_ok_def kmem_ok_def)

text \<open>C8. The kernel boots.  With the free list over the heap of \<^verbatim>\<open>memoryManager.h\<close>, and nothing in the
  kernel's data segment before, \<^verbatim>\<open>main\<close> reaches its final loop with no allocation refused: exactly
  the idle and init processes exist, READY and queued in this order, each entering its own function, no process runs
  yet, the scheduler is on, the interrupt gates are loaded, and the scheduler's invariant and the
  ownership of every block hold.  So the invariants that every operation preserves do hold initially.\<close>
theorem kernel_boots:
  assumes "no_objects s"
  shows "\<exists>s'. kernel_main fl_ops mem_init idle initEntry irq00 irq01 syscall ex0 ex6 (s, idt) =
      Some (s', load_idt irq00 irq01 syscall ex0 ex6 idt) \<and>
    sched_inv s' \<and> fds_ok s' \<and> fl_kmem_ok s' \<and> schedulerEnabled s' \<and> currentProcess s' = 0 \<and> rq_elems s' = [0, 1] \<and>
    pstate s' = [0 \<mapsto> READY, 1 \<mapsto> READY] \<and> map_option p_rip (proc_at s' 0) = Some idle \<and> map_option p_rip (proc_at s' 1) = Some initEntry"
proof -
  let ?s = "s\<lparr>kmem := mem_init MEM_HEAP_START MEM_HEAP_SIZE (kmem s)\<rparr>"
  have none: "no_objects ?s" using assms by (simp add: no_objects_def)
  have "fl_rep (kmem ?s) ([] @ [(MEM_HEAP_START, MEM_HEAP_SIZE - HEADER_SIZE, True)])" using boot_rep by simp
  then have room: "fl_room (kmem ?s) 70000" by (rule fl_roomI) (simp add: MEM_HEAP_SIZE_def HEADER_SIZE_def)
  obtain s' where s': "initializeScheduler fl_ops idle initEntry ?s = Some s'" "fl_kmem_ok s'" "boot_inv s'" "currentProcess s' = 0"
      "rq_elems s' = [0, 1]" "pstate s' = [0 \<mapsto> READY, 1 \<mapsto> READY]" "map_option p_rip (proc_at s' 0) = Some idle"
      "map_option p_rip (proc_at s' 1) = Some initEntry"
    by (rule flr.initializeScheduler_boots [OF none _ _ room]) (auto intro: that)
  have "sched_inv s'" "fds_ok s'" using s'(3,6) by (simp_all add: boot_inv_def sched_inv_def idle_ok_def)
  then show ?thesis using s'
    by (intro exI [of _ "enableScheduler s'"]) (simp add: kernel_main_def enableScheduler_same)
qed

definition kst_zero :: "fl_state kst" where
  "kst_zero = \<lparr>kmem = fl_zero, sems = Map.empty, pipes = Map.empty, files = Map.empty, procs = Map.empty, stackmem = (\<lambda>_. 0),
     processTable = [], foregroundSet = [], currentProcess = 0, readyQueue = None, schedulerEnabled = False, tmr = timer_zero\<rparr>"

theorem kernel_boots_witness:
  "\<exists>s'. kernel_main fl_ops mem_init 0x100010 0x100020 1 2 3 4 5 (kst_zero, \<lambda>_. \<lparr>offset_l = 0, selector = 0, cero = 0, access = 0, offset_m = 0, offset_h = 0, other_cero = 0\<rparr>) =
      Some (s', load_idt 1 2 3 4 5 (\<lambda>_. \<lparr>offset_l = 0, selector = 0, cero = 0, access = 0, offset_m = 0, offset_h = 0, other_cero = 0\<rparr>)) \<and> rq_elems s' = [0, 1]"
proof -
  have "no_objects kst_zero" by (simp add: no_objects_def kst_zero_def)
  from kernel_boots [OF this, of "0x100010" "0x100020" 1 2 3 4 5] show ?thesis by blast
qed

end
