(* ===== verification/KInit.thy ===== *)
theory KInit
  imports KBoot
begin

text \<open>
  The init process of \<^verbatim>\<open>Kernel/kernel.c\<close>: with room in the heap \<^verbatim>\<open>initProcessEntry\<close> leaves the pipe of the
  keyboard, whose write end the driver holds, and the shell as its child on the read end.
\<close>

section \<open>Room for a pipe and its ends\<close>

context roomy_allocator
begin

lemma room_newBuffer:
  assumes "room m N" "1160 \<le> N"
  obtains m' c where "newBuffer ops raw PIPE_BUF_SIZE m = Some (m', Some c)" "room m' (N - 1160)"
proof -
  obtain m1 p where 1: "mm_alloc ops m sizeof_circularBuffer = Some (m1, p)" "p \<noteq> 0" "room m1 (N - (unat sizeof_circularBuffer + 48))"
    by (rule room_alloc [OF assms(1), where n = sizeof_circularBuffer]) (use assms(2) in \<open>simp_all add: sizeof_circularBuffer_def\<close>)
  then have r: "room m1 (N - 88)" by (simp add: sizeof_circularBuffer_def)
  obtain m2 d where 2: "mm_alloc ops m1 PIPE_BUF_SIZE = Some (m2, d)" "d \<noteq> 0" "room m2 (N - 88 - (unat PIPE_BUF_SIZE + 48))"
    by (rule room_alloc [OF r, where n = PIPE_BUF_SIZE]) (use assms(2) in \<open>simp_all add: PIPE_BUF_SIZE_def\<close>)
  have "room m2 (N - 1160)" using 2(3) by (simp add: PIPE_BUF_SIZE_def)
  moreover have "PIPE_BUF_SIZE \<noteq> 0" by (simp add: PIPE_BUF_SIZE_def)
  ultimately show thesis using 1(1,2) 2(1,2) by (intro that [of m2]) (simp_all add: newBuffer_def)
qed

lemma room_newPipe:
  assumes r: "room (kmem s) N" "2000 \<le> N"
  shows "\<exists>s' p. newPipe ops raw s = Some (s', p) \<and> p \<noteq> 0 \<and> room (kmem s') (N - 2000)"
proof -
  obtain m1 p where 1: "mm_alloc ops (kmem s) sizeof_pipeCDT = Some (m1, p)" "p \<noteq> 0" "room m1 (N - (unat sizeof_pipeCDT + 48))"
    by (rule room_alloc [OF r(1), where n = sizeof_pipeCDT]) (use r(2) in \<open>simp_all add: sizeof_pipeCDT_def\<close>)
  then have r1: "room m1 (N - 96)" "1160 \<le> N - 96" using r(2) by (simp_all add: sizeof_pipeCDT_def)
  obtain m2 c where 2: "newBuffer ops raw PIPE_BUF_SIZE m1 = Some (m2, Some c)" "room m2 (N - 96 - 1160)"
    by (rule room_newBuffer [OF r1]) (rule that)
  have r2: "room (kmem (s\<lparr>kmem := m2\<rparr>)) (N - 1256)" "144 \<le> N - 1256" using 2(2) r(2) by simp_all
  obtain m3 F3 a3 where 3: "newSemaphore ops 0 (s\<lparr>kmem := m2\<rparr>) = Some (s\<lparr>kmem := m3, sems := F3\<rparr>, a3)" "a3 \<noteq> 0" "room m3 (N - 1400)"
    using room_newSemaphore [OF r2, of 0] by auto
  have r3: "room (kmem (s\<lparr>kmem := m3, sems := F3\<rparr>)) (N - 1400)" "144 \<le> N - 1400" using 3(3) r(2) by simp_all
  obtain m4 F4 a4 where 4: "newSemaphore ops (uint PIPE_BUF_SIZE) (s\<lparr>kmem := m3, sems := F3\<rparr>) = Some (s\<lparr>kmem := m4, sems := F4\<rparr>, a4)" "a4 \<noteq> 0"
      "room m4 (N - 1544)" using room_newSemaphore [OF r3, of "uint PIPE_BUF_SIZE"] by auto
  have r4: "room (kmem (s\<lparr>kmem := m4, sems := F4\<rparr>)) (N - 1544)" "144 \<le> N - 1544" using 4(3) r(2) by simp_all
  obtain m5 F5 a5 where 5: "newSemaphore ops 1 (s\<lparr>kmem := m4, sems := F4\<rparr>) = Some (s\<lparr>kmem := m5, sems := F5\<rparr>, a5)" "a5 \<noteq> 0"
      "room m5 (N - 1688)" using room_newSemaphore [OF r4, of 1] by auto
  have r5: "room (kmem (s\<lparr>kmem := m5, sems := F5\<rparr>)) (N - 1688)" "144 \<le> N - 1688" using 5(3) r(2) by simp_all
  obtain m6 F6 a6 where 6: "newSemaphore ops 1 (s\<lparr>kmem := m5, sems := F5\<rparr>) = Some (s\<lparr>kmem := m6, sems := F6\<rparr>, a6)" "a6 \<noteq> 0"
      "room m6 (N - 1832)" using room_newSemaphore [OF r5, of 1] by auto
  have "room m6 (N - 2000)" by (rule room_less [OF 6(3)]) simp
  then show ?thesis using 1(1,2) 2(1) 3(1,2) 4(1,2) 5(1,2) 6(1,2) by (simp add: newPipe_def Let_def)
qed

lemma room_newFileAccess:
  assumes r: "room (kmem s) N" "64 \<le> N" and p: "pipes s p = Some pp" "p \<noteq> 0"
  shows "\<exists>s' fa. newFileAccess ops p fl s = Some (s', fa) \<and> fa \<noteq> 0 \<and> room (kmem s') (N - 64)"
proof -
  obtain m1 fa where 1: "mm_alloc ops (kmem s) sizeof_fileAccessCDT = Some (m1, fa)" "fa \<noteq> 0" "room m1 (N - (unat sizeof_fileAccessCDT + 48))"
    by (rule room_alloc [OF r(1), where n = sizeof_fileAccessCDT]) (use r(2) in \<open>simp_all add: sizeof_fileAccessCDT_def\<close>)
  have "room m1 (N - 64)" using 1(3) by (simp add: sizeof_fileAccessCDT_def)
  then show ?thesis using 1(1,2) p by (simp add: newFileAccess_def Let_def addPipeRef_def addPipeWriter_def)
qed

text \<open>A start that returns answers its pid when there is room for the process.\<close>
lemma room_start_pid:
  assumes r: "room (kmem s) N" "34000 \<le> N" and run: "startNewProcessWithPid ops e n pl pid 0 None s = Some (s', r)"
    and free: "ptab s pid = Some 0"
  shows "r = pid"
proof -
  obtain m1 F P p pr where "newProcess ops e n DEFAULT_STACK_SIZE pid pl 0 None s = Some (s\<lparr>kmem := m1, sems := F, procs := P\<rparr>, p)" "p \<noteq> 0"
    by (rule room_newProcess [OF r(1), where ss = DEFAULT_STACK_SIZE and e = e and n = n and pid = pid and pl = pl])
      (use r(2) in \<open>simp_all add: DEFAULT_STACK_SIZE_def\<close>)
  with run free show ?thesis by (auto simp: startNewProcessWithPid_def Let_def bind_eq_Some_conv)
qed

end

text \<open>What \<^verbatim>\<open>initProcessEntry\<close> leaves behind, seen from the state before.\<close>
definition shell_ready :: "'m kst \<Rightarrow> kb_state \<Rightarrow> 'm kst \<Rightarrow> bool" where
  "shell_ready s k' s' \<longleftrightarrow> (\<exists>fr p pp c pr pc.
     files s' fr = Some \<lparr>fa_pipe = p, fa_flags = FILE_READ, fa_refCount = 2\<rparr> \<and>
     files s' (keyboardBuffer k') = Some \<lparr>fa_pipe = p, fa_flags = FILE_WRITE, fa_refCount = 1\<rparr> \<and>
     pipes s' p = Some pp \<and> pp_refCount pp = 2 \<and> pp_writerCount pp = 1 \<and> pp_buffer pp = Some c \<and> cb_list c = [] \<and>
     proc_at s' (findFreePid s) = Some pr \<and> p_rip pr = sampleCodeModuleAddress \<and> p_state pr = READY \<and>
     p_ppid pr = cur_pid s \<and> p_fdTable pr = fr # replicate 15 0 \<and>
     procs s' (currentProcess s') = Some pc \<and> p_fdTable pc = fr # replicate 15 0)"

text \<open>The current process takes the read end as descriptor 0.\<close>
lemma addCurrentFd_first:
  assumes cp: "currentProcess s \<noteq> 0" "procs s (currentProcess s) = Some pc" "p_fdTable pc = replicate 16 0"
    and fa: "fa \<noteq> 0" "files s fa = Some x"
  shows "addCurrentFd fa s = Some ((put_proc (currentProcess s) (set_fd 0 fa pc) s)\<lparr>files := (files s)(fa \<mapsto> x\<lparr>fa_refCount := fa_refCount x + 1\<rparr>)\<rparr>, 0)"
proof -
  have up: "[0..<nat MAX_FDS] = 0 # [1..<16]" by (simp add: upt_conv_Cons)
  have "List.find (\<lambda>i. p_fdTable pc ! i = 0) [0..<nat MAX_FDS] = Some 0" unfolding up by (simp add: cp(3))
  then show ?thesis using assms
    by (simp add: addCurrentFd_def addFd_def openFd_def isValidFd_def isOpenFd_def addFileRef_def put_proc_def del: nat_numeral)
qed

context roomy_allocator
begin

lemma initProcessEntry_spec:
  assumes inv: "sched_inv s" "fds_ok s" and ok: "kmok s" and r: "room (kmem s) N" "40000 \<le> N"
    and cp: "currentProcess s \<noteq> 0" "procs s (currentProcess s) = Some pc" "p_fdTable pc = replicate 16 0" "p_children pc = Some q" "p_pid pc \<noteq> 0"
    and free: "0 \<le> findFreePid s"
  shows "\<exists>k' s'. initProcessEntry ops raw (k, s) = Some (k', s') \<and> sched_inv s' \<and> fds_ok s' \<and> kmok s' \<and> shell_ready s k' s'"
proof -
  let ?cp = "currentProcess s"
  have r0: "2000 \<le> N" using r(2) by simp
  from ok obtain m1 P pp F c where 1: "newPipe ops raw s = Some (s\<lparr>kmem := m1, sems := F, pipes := (pipes s)(P \<mapsto> pp)\<rparr>, P)"
      "kmok (s\<lparr>kmem := m1, sems := F, pipes := (pipes s)(P \<mapsto> pp)\<rparr>)" "P \<noteq> 0" "room m1 (N - 2000)"
      "pp_buffer pp = Some c" "cb_list c = []" "pp_refCount pp = 0" "pp_writerCount pp = 0"
    by (cases rule: newPipe_spec [where raw = raw]) (use room_newPipe [OF r(1) r0, of raw] in auto)
  define s1 where "s1 = s\<lparr>kmem := m1, sems := F, pipes := (pipes s)(P \<mapsto> pp)\<rparr>"
  have s1: "kmok s1" "room (kmem s1) (N - 2000)" "pipes s1 P = Some pp" "64 \<le> N - 2000" using 1 r(2) by (simp_all add: s1_def)
  from s1(1,3) obtain m2 fr s2 where 2: "newFileAccess ops P FILE_READ s1 = Some (s2, fr)"
      "s2 = s1\<lparr>kmem := m2, files := (files s1)(fr \<mapsto> \<lparr>fa_pipe = P, fa_flags = FILE_READ, fa_refCount = 0\<rparr>), pipes := (pipes s1)(P \<mapsto> pp\<lparr>pp_refCount := 1, pp_writerCount := 0\<rparr>)\<rparr>"
      "kmok s2" "fr \<noteq> 0" "files s1 fr = None" "room (kmem s2) (N - 2064)"
    by (cases rule: newFileAccess_spec [where fl = FILE_READ])
      (use room_newFileAccess [OF s1(2,4,3) 1(3), of FILE_READ] 1(7,8) in \<open>auto simp: FILE_READ_def FILE_WRITE_def\<close>)
  have s2: "pipes s2 P = Some (pp\<lparr>pp_refCount := 1, pp_writerCount := 0\<rparr>)" "64 \<le> N - 2064" using 2(2) r(2) by simp_all
  from 2(3) s2(1) obtain m3 fw s3 where 3: "newFileAccess ops P FILE_WRITE s2 = Some (s3, fw)"
      "s3 = s2\<lparr>kmem := m3, files := (files s2)(fw \<mapsto> \<lparr>fa_pipe = P, fa_flags = FILE_WRITE, fa_refCount = 0\<rparr>), pipes := (pipes s2)(P \<mapsto> pp\<lparr>pp_refCount := 2, pp_writerCount := 1\<rparr>)\<rparr>"
      "kmok s3" "fw \<noteq> 0" "files s2 fw = None" "room (kmem s3) (N - 2128)"
    by (cases rule: newFileAccess_spec [where fl = FILE_WRITE])
      (use room_newFileAccess [OF 2(6) s2(2,1) 1(3), of FILE_WRITE] in \<open>auto simp: FILE_WRITE_def\<close>)
  have ne: "fw \<noteq> fr" using 2(2) 3(5) by auto
  have e3: "currentProcess s3 = ?cp" "procs s3 = procs s" "processTable s3 = processTable s" "foregroundSet s3 = foregroundSet s" "readyQueue s3 = readyQueue s"
      "files s3 = (files s)(fr \<mapsto> \<lparr>fa_pipe = P, fa_flags = FILE_READ, fa_refCount = 0\<rparr>, fw \<mapsto> \<lparr>fa_pipe = P, fa_flags = FILE_WRITE, fa_refCount = 0\<rparr>)"
      "pipes s3 = (pipes s)(P \<mapsto> pp\<lparr>pp_refCount := 2, pp_writerCount := 1\<rparr>)" "kmem s3 = m3"
    using 2(2) 3(2) by (simp_all add: s1_def)
  let ?pc = "set_fd 0 fr pc"
  let ?R = "\<lparr>fa_pipe = P, fa_flags = FILE_READ, fa_refCount = 1\<rparr>"
  let ?W = "\<lparr>fa_pipe = P, fa_flags = FILE_WRITE, fa_refCount = 1\<rparr>"
  define s4 where "s4 = (put_proc ?cp ?pc s3)\<lparr>files := (files s3)(fr \<mapsto> ?R)\<rparr>"
  have 4: "addCurrentFd fr s3 = Some (s4, 0)"
    using addCurrentFd_first [of s3 pc fr] cp 2(4) e3 ne by (simp add: s4_def)
  define s5 where "s5 = (put_proc ?cp ?pc s3)\<lparr>files := (files s3)(fr \<mapsto> ?R, fw \<mapsto> ?W)\<rparr>"
  have 5: "initializeKeyboardDriver fw (k, s4) = Some (k\<lparr>keyboardBuffer := fw\<rparr>, s5)"
    using 3(4) ne e3(6)
    by (simp add: initializeKeyboardDriver_def isWritable_def hasFlag_def addFileRef_def on_file_def s4_def s5_def put_proc_def FILE_WRITE_def)
  have t5: "p_fdTable ?pc = fr # replicate 15 0" "p_pid ?pc = p_pid pc" "p_state ?pc = p_state pc" "p_children ?pc = Some q"
    using cp by (simp_all add: set_fd_def numeral_eq_Suc)
  have e5: "currentProcess s5 = ?cp" "procs s5 = (procs s)(?cp \<mapsto> ?pc)" "processTable s5 = processTable s" "foregroundSet s5 = foregroundSet s"
      "readyQueue s5 = readyQueue s" "files s5 = (files s)(fr \<mapsto> ?R, fw \<mapsto> ?W)" "pipes s5 = pipes s3" "kmem s5 = m3"
    using e3 by (simp_all add: s5_def fun_eq_iff)
  have ok5: "kmok s5" unfolding s5_def
    by (rule kmem_ok_files, rule kmem_ok_put_proc [OF 3(3)]) (use cp(2) e3 in \<open>auto simp: set_fd_def\<close>)
  have ps: "pstate s5 = pstate s" "rq_elems s5 = rq_elems s"
    using cp(2) t5(3) e5(2,3,5) by (auto simp: fun_eq_iff pstate_def proc_at_def rq_elems_def)
  have inv5: "sched_inv s5" "fds_ok s5"
  proof -
    show "sched_inv s5" using inv(1) cp(2) unfolding sched_defs ps by (auto simp: e5 t5(2))
    show "fds_ok s5" using inv(2) cp(2) t5(1) by (auto simp: fds_ok_def e5)
  qed
  have ch5: "has_children_queue s5" using t5(4) by (simp add: has_children_queue_def e5)
  have args: "args_ok 0 None" by (simp add: args_ok_def)
  have fp: "findFreePid s5 = findFreePid s" by (simp add: findFreePid_def e5)
  have cur: "cur_pid s5 = p_pid pc" "cur_pid s = p_pid pc" using cp(2) by (simp_all add: cur_pid_def e5 t5(2))
  obtain s6 p where 6: "startNewProcess ops sampleCodeModuleAddress (Some [115, 104, 101, 108, 108]) 1 0 None s5 = Some (s6, findFreePid s)"
      "kmok s6" "sched_inv s6" "fds_ok s6"
      "process_added s5 (p_pid pc) (created_with sampleCodeModuleAddress (Some [115, 104, 101, 108, 108]) 1 0 None) (findFreePid s) p s6"
    using inv5 ok5 ch5 args
  proof (cases rule: startNewProcess_spec [where e = sampleCodeModuleAddress and n = "Some [115, 104, 101, 108, 108]" and pl = 1])
    case (failed m')
    have "room (kmem s5) (N - 2128)" "34000 \<le> N - 2128" using 3(6) e3(8) e5(8) r(2) by simp_all
    moreover have "startNewProcessWithPid ops sampleCodeModuleAddress (Some [115, 104, 101, 108, 108]) 1 (findFreePid s5) 0 None s5 = Some (s5\<lparr>kmem := m'\<rparr>, -1)"
      using failed(1) free fp by (simp add: startNewProcess_def)
    moreover have "ptab s5 (findFreePid s5) = Some 0" using findFreePid_free [of s5] free fp by (auto simp: ptab_def)
    ultimately have "-1 = findFreePid s5" by (rule room_start_pid)
    then show thesis using free fp by simp
  next
    case (made s' p)
    then show thesis by (intro that [of s' p]) (simp_all add: fp cur)
  qed
  have run: "initProcessEntry ops raw (k, s) = Some (k\<lparr>keyboardBuffer := fw\<rparr>, s6)"
    using 1(1) 2(1) 3(1) 4 5 6(1) by (simp add: initProcessEntry_def s1_def)
  from 6(5) obtain pr where pr: "proc_at s6 (findFreePid s) = Some pr" "p_rip pr = sampleCodeModuleAddress" "inherits s5 (p_pid pc) pr s6"
      and added: "p \<noteq> 0" "procs s5 p = None" "others_kept s5 (findFreePid s) p s6" "pstate s6 = (pstate s5)(findFreePid s \<mapsto> READY)"
        "currentProcess s6 = currentProcess s5" "pipes s6 = pipes s5"
    by (auto simp: process_added_def created_with_def)
  have inh: "p_ppid pr = p_pid pc" "p_fdTable pr = fr # replicate 15 0" "files s6 = add_refs (fr # replicate 15 0) (files s5)"
    using pr(3) cp(1,5) t5(1) by (auto simp: inherits_def e5)
  have nz: "count_list (replicate 15 (0 :: u64)) a = 0" if "a \<noteq> 0" for a
    using that by (simp add: count_list_0_iff)
  have fl: "files s6 fr = Some \<lparr>fa_pipe = P, fa_flags = FILE_READ, fa_refCount = 2\<rparr>" "files s6 fw = Some ?W"
    using ne 2(4) 3(4) nz by (simp_all add: inh(3) add_refs_def e5(6))
  have st: "p_state pr = READY" using added(4) pr(1) by (auto simp: pstate_def fun_eq_iff dest: spec [of _ "findFreePid s"])
  have "?cp \<noteq> p" using added(2) by (auto simp: e5)
  then obtain pc' where "procs s6 (currentProcess s6) = Some pc'" "p_fdTable pc' = fr # replicate 15 0"
    using added(3) t5(1) by (fastforce simp: others_kept_def added(5) e5)
  then have "shell_ready s (k\<lparr>keyboardBuffer := fw\<rparr>) s6" unfolding shell_ready_def
    using fl pr(1,2) inh(1,2) st cur(2) added(6) e5(7) e3(7) 1(5,6)
    by (intro exI [of _ fr] exI [of _ P] exI [of _ "pp\<lparr>pp_refCount := 2, pp_writerCount := 1\<rparr>"] exI [of _ c] exI [of _ pr] exI [of _ pc']) simp
  with run 6(2-4) show ?thesis by blast
qed

end

text \<open>C9. The init process sets the console up.  From a state that satisfies the invariants, with 40000
  bytes left at the end of the free list, a free pid and no descriptor open in the current process
  (as for the freshly booted init), \<^verbatim>\<open>initProcessEntry\<close> refuses nothing: one empty pipe exists whose
  only writer is the keyboard driver, its read end is descriptor 0 of init and of the shell (and of
  nobody else: its count is 2), the shell is a READY child of init that enters the user module, and the
  invariants and the ownership of all blocks hold again.\<close>
theorem init_starts_shell:
  assumes "sched_inv s" "fds_ok s" "fl_kmem_ok s" "fl_room (kmem s) 40000" "currentProcess s \<noteq> 0"
    "procs s (currentProcess s) = Some pc" "p_fdTable pc = replicate 16 0" "p_children pc = Some q" "p_pid pc \<noteq> 0" "0 \<le> findFreePid s"
  shows "\<exists>k' s'. initProcessEntry fl_ops raw (k, s) = Some (k', s') \<and> sched_inv s' \<and> fds_ok s' \<and> fl_kmem_ok s' \<and> shell_ready s k' s'"
  by (rule flr.initProcessEntry_spec [OF assms(1-4) _ assms(5-10)]) simp

theorem init_starts_shell_witness:
  "\<exists>k' s'. initProcessEntry fl_ops (\<lambda>_. 0) (\<lparr>keyboardStatus = (\<lambda>_. False), multiByteFlag = False, capsLockActive = False, keyboardBuffer = 0, snapshotRequests = 0\<rparr>, demo_kst) = Some (k', s') \<and> shell_ready demo_kst k' s' \<and> sched_inv s'"
proof -
  have cur: "procs demo_kst (currentProcess demo_kst) = Some (demo_proc 2 RUNNING)" "currentProcess demo_kst \<noteq> 0"
    using demo_ptr_inj [of 16 0] demo_ptr_inj [of 16 8] demo_ptr_nonnull by (simp_all add: demo_kst_def)
  have "fds_ok demo_kst" by (rule demo_fds)
  moreover have "0 \<le> findFreePid demo_kst" by (simp add: demo_free_pid)
  moreover have "fl_room (kmem demo_kst) 40000"
  proof -
    have "kmem demo_kst = demo_heap" "40000 \<le> unat (0x100000 :: u64)" by (simp_all add: demo_kst_def)
    then show ?thesis using fl_roomI [OF demo_rep [unfolded demo_blocks_def]] by simp
  qed
  ultimately show ?thesis
    using init_starts_shell [OF demo_sched _ demo_kmem _ cur(2,1)] by (force simp: demo_proc_def)
qed

end
