(* ===== verification/TPacker.thy ===== *)
theory TPacker
  imports KMachine
begin

text \<open>
  The module packer \<^verbatim>\<open>Toolchain/ModulePacker/main.c\<close>, which appends the user modules to the kernel
  binary, and its agreement with the kernel's module loader, which takes them apart again at boot.
  The file system is a map from names to contents, \<^verbatim>\<open>argp\<close> is the list of callbacks it makes.
\<close>

section \<open>Arguments\<close>

definition BUFFER_SIZE :: nat where "BUFFER_SIZE = 128"
definition MAX_FILES :: nat where "MAX_FILES = 128"

record pack_arguments =
  pa_args :: "string list"
  pa_output_file :: string
  pa_count :: nat

text \<open>The keys of the callback, with their argument.\<close>
datatype argp_key = KeyOutput string | KeyArg string | KeyEnd | KeyOther

datatype parse_result = Parsed pack_arguments | Usage | ErrUnknown | OutOfArray

text \<open>\<open>arg_num\<close> is \<^verbatim>\<open>state->arg_num\<close>, the number of arguments seen so far.\<close>
fun parse_opt :: "argp_key \<Rightarrow> nat \<Rightarrow> pack_arguments \<Rightarrow> parse_result" where
  "parse_opt (KeyOutput arg) arg_num a = Parsed (a\<lparr>pa_output_file := arg\<rparr>)"
| "parse_opt (KeyArg arg) arg_num a =
     (if arg_num < MAX_FILES then Parsed (a\<lparr>pa_args := (pa_args a)[arg_num := arg]\<rparr>) else OutOfArray)"
| "parse_opt KeyEnd arg_num a = (if arg_num < 1 then Usage else Parsed (a\<lparr>pa_count := arg_num\<rparr>))"
| "parse_opt KeyOther arg_num a = ErrUnknown"

text \<open>The calls \<^verbatim>\<open>argp_parse\<close> makes, one per key; an unknown key is skipped by \<^verbatim>\<open>argp\<close>.\<close>
fun argp_calls :: "argp_key list \<Rightarrow> nat \<Rightarrow> pack_arguments \<Rightarrow> parse_result" where
  "argp_calls [] n a = Parsed a"
| "argp_calls (k # ks) n a = (case parse_opt k n a of
       Parsed a' \<Rightarrow> argp_calls ks (case k of KeyArg _ \<Rightarrow> n + 1 | _ \<Rightarrow> n) a'
     | ErrUnknown \<Rightarrow> argp_calls ks n a
     | r \<Rightarrow> r)"

section \<open>The image\<close>

text \<open>One \<^verbatim>\<open>fread\<close> takes a buffer; the end of the file shows when the read comes up short.\<close>
function write_file :: "u8 list \<Rightarrow> u8 list \<Rightarrow> u8 list" where
  "write_file target source =
     (let got = take BUFFER_SIZE source; target = target @ got
      in if length got < BUFFER_SIZE then target else write_file target (drop BUFFER_SIZE source))"
  by auto

termination write_file
  by (relation "measure (length \<circ> snd)") (auto simp: BUFFER_SIZE_def)

declare write_file.simps [simp del]

definition write_size :: "u8 list \<Rightarrow> u8 list \<Rightarrow> u8 list" where
  "write_size target file = target @ le32 (of_nat (length file))"

definition checkFiles :: "(string \<rightharpoonup> u8 list) \<Rightarrow> string list \<Rightarrow> bool" where
  "checkFiles fs names = list_all (\<lambda>n. fs n \<noteq> None) names"

fun append_modules :: "(string \<rightharpoonup> u8 list) \<Rightarrow> string list \<Rightarrow> u8 list \<Rightarrow> u8 list option" where
  "append_modules fs [] target = Some target"
| "append_modules fs (n # ns) target =
     Option.bind (fs n) (\<lambda>file. append_modules fs ns (write_file (write_size target file) file))"

text \<open>\<open>None\<close> is a read from a file that could not be opened.\<close>
definition buildImage :: "(string \<rightharpoonup> u8 list) \<Rightarrow> string list \<Rightarrow> u8 list option" where
  "buildImage fs names = (case names of [] \<Rightarrow> None
     | kname # modules \<Rightarrow> Option.bind (fs kname) (\<lambda>file.
         append_modules fs modules (write_file [] file @ le32 (of_nat (length names) - 1))))"

text \<open>The exit status and the image written, when there is one.\<close>
definition packer_main :: "bool \<Rightarrow> (string \<rightharpoonup> u8 list) \<Rightarrow> argp_key list \<Rightarrow> (nat \<times> (string \<times> u8 list) option) option" where
  "packer_main can_create fs keys =
     (case argp_calls keys 0 \<lparr>pa_args = replicate MAX_FILES [], pa_output_file = ''packedKernel.bin'', pa_count = 0\<rparr> of
        Parsed a \<Rightarrow>
          (let names = take (pa_count a) (pa_args a) in
           if \<not> checkFiles fs names then Some (1, None)
           else if \<not> can_create then Some (1, None)
           else map_option (\<lambda>image. (0, Some (pa_output_file a, image))) (buildImage fs names))
      | _ \<Rightarrow> None)"

section \<open>The layout of the image\<close>

lemma write_file_all: "write_file target source = target @ source"
proof (induction target source rule: write_file.induct)
  case (1 target source)
  then show ?case
    by (subst write_file.simps) (auto simp: Let_def BUFFER_SIZE_def min_def not_less)
qed

definition pack_module :: "u8 list \<Rightarrow> u8 list" where
  "pack_module x = le32 (of_nat (length x)) @ x"

lemma append_modules_eq:
  "list_all2 (\<lambda>n x. fs n = Some x) ns xs \<Longrightarrow> append_modules fs ns target = Some (target @ concat (map pack_module xs))"
  by (induction ns xs arbitrary: target rule: list_all2_induct) (simp_all add: write_file_all write_size_def pack_module_def)

lemma buildImage_eq:
  assumes "fs kname = Some kfile" "list_all2 (\<lambda>n x. fs n = Some x) ns xs"
  shows "buildImage fs (kname # ns) = Some (kfile @ le32 (of_nat (length xs)) @ concat (map pack_module xs))"
  using assms append_modules_eq [OF assms(2)] list_all2_lengthD [OF assms(2)]
  by (simp add: buildImage_def write_file_all)

section \<open>Reading it back\<close>

lemma region_iff: "a \<in> region p n \<longleftrightarrow> unat (a - p) < n"
proof
  assume "a \<in> region p n"
  then obtain i where "i < n" "a = p + of_nat i" by (auto simp: region_def)
  then show "unat (a - p) < n" by (simp add: unsigned_of_nat take_bit_nat_eq_self_iff le_less_trans [OF take_bit_nat_less_eq_self])
next
  assume "unat (a - p) < n"
  then show "a \<in> region p n" using region_mem [of "unat (a - p)" n p] by simp
qed

lemma apart_regions: "apart d s n \<longleftrightarrow> region d n \<inter> region s n = {}"
  by (auto simp: apart_def region_iff)

lemma region_shift: "k + n \<le> l \<Longrightarrow> region (p + of_nat k) n \<subseteq> region p l"
proof
  fix a assume kn: "k + n \<le> l" and "a \<in> region (p + of_nat k) n"
  then obtain i where "i < n" "a = p + of_nat (k + i)" by (auto simp: region_def add.assoc)
  with kn show "a \<in> region p l" using region_mem [of "k + i" l p] by simp
qed

text \<open>The regions the modules are copied to: each is apart from the payload \<open>R\<close> and from the later ones.\<close>
definition places :: "(u64 \<times> u8 list) list \<Rightarrow> u64 set" where
  "places ps = (\<Union>(t, x) \<in> set ps. region t (length x))"

lemma places_simps [simp]: "places [] = {}" "places ((t, x) # ps) = region t (length x) \<union> places ps"
  by (simp_all add: places_def)

fun places_ok :: "u64 set \<Rightarrow> (u64 \<times> u8 list) list \<Rightarrow> bool" where
  "places_ok R [] \<longleftrightarrow> True"
| "places_ok R ((t, x) # ps) \<longleftrightarrow> region t (length x) \<inter> R = {} \<and> region t (length x) \<inter> places ps = {} \<and> places_ok R ps"

lemma places_ok_mono: "places_ok R ps \<Longrightarrow> R' \<subseteq> R \<Longrightarrow> places_ok R' ps"
  by (induction R ps rule: places_ok.induct) auto

lemma length_pack_module [simp]: "length (pack_module x) = 4 + length x"
  by (simp add: pack_module_def)

lemma loadModule_copies:
  assumes packed: "bytes_at m cur (pack_module x)" and small: "length x < 2 ^ 32"
    and apart: "region t (length x) \<inter> region (cur + 4) (length x) = {}"
  obtains m' where "loadModule cur t m = (m', cur + of_nat (4 + length x))" "bytes_at m' t x"
    "\<And>a. a \<notin> region t (length x) \<Longrightarrow> m' a = m a"
proof -
  have size: "readUint32 m cur = of_nat (length x)" and body: "bytes_at m (cur + 4) x"
    using packed readUint32_le32 by (simp_all add: pack_module_def bytes_at_append)
  have widen: "ucast (of_nat (length x) :: u32) = (of_nat (length x) :: u64)"
    using small by (simp add: word_unat_eq_iff unsigned_of_nat unsigned_ucast_eq take_bit_nat_eq_self)
  have len: "unat (of_nat (length x) :: u64) = length x" using small by (simp add: unat_of_nat_u64)
  have copy: "memcpy t (cur + 4) (of_nat (length x)) m =
      (\<lambda>a. if a \<in> region t (length x) then m (cur + 4 + (a - t)) else m a)"
    using memcpy_result [of t "cur + 4" "of_nat (length x)" m] apart by (simp add: len apart_regions region_iff)
  show ?thesis
  proof (rule that)
    show "loadModule cur t m = (memcpy t (cur + 4) (of_nat (length x)) m, cur + of_nat (4 + length x))"
      by (simp add: loadModule_def Let_def size widen add.assoc)
    show "bytes_at (memcpy t (cur + 4) (of_nat (length x)) m) t x"
      using body by (simp add: copy bytes_at_def region_mem)
  qed (simp add: copy)
qed

lemma load_loop_modules:
  assumes "bytes_at m cur (concat (map pack_module xs))" "length xs \<le> length ts" "\<forall>x \<in> set xs. length x < 2 ^ 32"
    and "places_ok (region cur (length (concat (map pack_module xs)))) (zip ts xs)"
  shows "\<exists>m'. load_loop (length xs) cur ts m = Some m' \<and> (\<forall>(t, x) \<in> set (zip ts xs). bytes_at m' t x) \<and>
    (\<forall>a. a \<notin> places (zip ts xs) \<longrightarrow> m' a = m a)"
  using assms
proof (induction xs arbitrary: cur ts m)
  case (Cons x xs)
  then obtain t ts' where ts: "ts = t # ts'" by (cases ts) auto
  let ?next = "cur + of_nat (4 + length x)" and ?rest = "concat (map pack_module xs)"
  have ok: "region t (length x) \<inter> region cur (4 + length x + length ?rest) = {}" "region t (length x) \<inter> places (zip ts' xs) = {}"
      "places_ok (region cur (4 + length x + length ?rest)) (zip ts' xs)"
    using Cons.prems(4) by (simp_all add: ts)
  have inside: "region (cur + 4) (length x) \<subseteq> region cur (4 + length x + length ?rest)"
      "region ?next (length ?rest) \<subseteq> region cur (4 + length x + length ?rest)"
    using region_shift [of 4 "length x" _ cur] region_shift [of "4 + length x" "length ?rest" _ cur] by simp_all
  obtain m1 where m1: "loadModule cur t m = (m1, ?next)" "bytes_at m1 t x" "\<And>a. a \<notin> region t (length x) \<Longrightarrow> m1 a = m a"
    by (rule loadModule_copies [of m cur x t]) (use Cons.prems(1,3) inside(1) ok(1) in \<open>auto simp: bytes_at_append\<close>)
  have "bytes_at m1 ?next ?rest"
    by (rule bytes_at_frame [of m]) (use Cons.prems(1) inside(2) ok(1) m1(3) in \<open>auto simp: bytes_at_append\<close>)
  moreover have "places_ok (region ?next (length ?rest)) (zip ts' xs)" using ok(3) inside(2) by (rule places_ok_mono)
  ultimately obtain m' where m': "load_loop (length xs) ?next ts' m1 = Some m'"
      "\<forall>(t, x) \<in> set (zip ts' xs). bytes_at m' t x" "\<forall>a. a \<notin> places (zip ts' xs) \<longrightarrow> m' a = m1 a"
    using Cons.IH [of m1 ?next ts'] Cons.prems(2,3) by (auto simp: ts)
  have "bytes_at m' t x"
    using m1(2) by (rule bytes_at_frame) (use ok(2) m'(3) in blast)
  then show ?case using m' m1 by (auto simp: ts)
qed simp

section \<open>Properties\<close>

text \<open>C32. What the packer writes the kernel loads: when memory at the payload address holds the bytes
  \<^verbatim>\<open>buildImage\<close> appended to the kernel file, and the module areas overlap neither the payload nor each
  other, \<^verbatim>\<open>loadModules\<close> puts every module, whole, at its address and changes no other byte.\<close>
theorem packed_modules_loaded:
  assumes "fs kname = Some kfile" "list_all2 (\<lambda>n x. fs n = Some x) ns xs" and "buildImage fs (kname # ns) = Some img"
    and "bytes_at m payload (drop (length kfile) img)" and "\<forall>x \<in> set xs. length x < 2 ^ 32" "length xs < 2 ^ 32"
    and "length xs \<le> length targets"
    and "places_ok (region payload (length img - length kfile)) (zip targets xs)"
  shows "\<exists>m'. loadModules payload targets m = Some m' \<and> (\<forall>(t, x) \<in> set (zip targets xs). bytes_at m' t x) \<and>
    (\<forall>a. a \<notin> places (zip targets xs) \<longrightarrow> m' a = m a)"
proof -
  have img: "img = kfile @ le32 (of_nat (length xs)) @ concat (map pack_module xs)"
    using buildImage_eq [OF assms(1,2)] assms(3) by simp
  have "readUint32 m payload = of_nat (length xs)" and body: "bytes_at m (payload + 4) (concat (map pack_module xs))"
    using assms(4) readUint32_le32 by (simp_all add: img bytes_at_append)
  then have count: "unat (readUint32 m payload) = length xs"
    using assms(6) by (simp add: unsigned_of_nat take_bit_nat_eq_self)
  have "places_ok (region (payload + 4) (length (concat (map pack_module xs)))) (zip targets xs)"
    using assms(8) by (rule places_ok_mono) (use region_shift [of 4 _ _ payload] in \<open>simp add: img\<close>)
  from load_loop_modules [OF body assms(7,5) this] show ?thesis by (simp add: loadModules_def count)
qed


text \<open>One module of two bytes, loaded from 0x100 to the kernel's first target address.\<close>
theorem packed_modules_loaded_witness:
  "\<exists>m'. loadModules 0x100 [0x400000, 0x500000] ((\<lambda>_. 0)(0x100 := 1, 0x104 := 2, 0x108 := 11, 0x109 := 22)) = Some m' \<and>
     m' 0x400000 = 11 \<and> m' 0x400001 = 22 \<and> m' 0x500000 = 0"
proof -
  let ?fs = "[''k'' \<mapsto> [7, 7, 7], ''u'' \<mapsto> [11, 22]]" and ?xs = "[[11, 22]] :: u8 list list"
  let ?m = "(\<lambda>_. 0)(0x100 := 1, 0x104 := 2, 0x108 := 11, 0x109 := 22) :: mem"
  have img: "buildImage ?fs [''k'', ''u''] = Some [7, 7, 7, 1, 0, 0, 0, 2, 0, 0, 0, 11, 22]"
    using buildImage_eq [of ?fs "''k''" "[7, 7, 7]" "[''u'']" ?xs] by (simp add: le32_def pack_module_def upt_rec)
  have numeral_region: "region p (numeral k) = insert p (region (p + 1) (pred_numeral k))" for p k
    by (simp add: numeral_eq_Suc region_Suc)
  have "\<exists>m'. loadModules 0x100 [0x400000, 0x500000] ?m = Some m' \<and>
      (\<forall>(t, x) \<in> set (zip [0x400000, 0x500000] ?xs). bytes_at m' t x) \<and>
      (\<forall>a. a \<notin> places (zip [0x400000, 0x500000] ?xs) \<longrightarrow> m' a = ?m a)"
    by (intro packed_modules_loaded [where kfile = "[7, 7, 7]", OF _ _ img]) (simp_all add: region_Suc numeral_region)
  then show ?thesis by (auto simp: region_Suc numeral_region)
qed

end
