(* ===== verification/KException.thy ===== *)
theory KException
  imports KVideo KMachine KSpawn
begin

unbundle bit_operations_syntax

text \<open>
  The exception handler \<^verbatim>\<open>Kernel/interruptions/exceptions.c\<close> over the models of the video driver, the
  register dump, the descriptors and the clock.  The dump is written to the standard output of the
  process, a write that may have to wait like any other, so the handler is a machine.  The jump back to
  userland that follows it is assembly.
\<close>

section \<open>Model\<close>









section \<open>Properties\<close>











end
