(* ===== verification/UStd.thy ===== *)
theory UStd
  imports KPrelude "HOL-Library.Signed_Division"
begin

unbundle bit_operations_syntax

text \<open>
  The user library \<^verbatim>\<open>Userland/SampleCodeModule/cstandard.c\<close>.  A C string is the list of its bytes
  before the terminator; \<^verbatim>\<open>int\<close> and \<^verbatim>\<open>long\<close> are \<open>int\<close> with the wrap-around written out; the standard
  input is the list of bytes still to come, and \<^verbatim>\<open>getChar\<close> answers \<open>0\<close> at its end; what is printed is
  returned.  A write past a local array is \<open>None\<close>.
\<close>

definition s64 :: "int \<Rightarrow> int" where "s64 x = signed_take_bit 63 x"
definition s32 :: "int \<Rightarrow> int" where "s32 x = signed_take_bit 31 x"

section \<open>Characters\<close>

definition isNumber :: "u8 \<Rightarrow> bool" where "isNumber c \<longleftrightarrow> 48 \<le> c \<and> c \<le> 57"
definition isLower :: "u8 \<Rightarrow> bool" where "isLower c \<longleftrightarrow> 97 \<le> c \<and> c \<le> 122"
definition isUpper :: "u8 \<Rightarrow> bool" where "isUpper c \<longleftrightarrow> 65 \<le> c \<and> c \<le> 90"
definition isLetter :: "u8 \<Rightarrow> bool" where "isLetter c \<longleftrightarrow> isLower c \<or> isUpper c"
definition toLower :: "u8 \<Rightarrow> u8" where "toLower c = (if isUpper c then c + (97 - 65) else c)"
definition toUpper :: "u8 \<Rightarrow> u8" where "toUpper c = (if isLower c then c + (65 - 97) else c)"
definition isAlnum :: "u8 \<Rightarrow> bool" where "isAlnum c \<longleftrightarrow> isLetter c \<or> isNumber c"

definition isPrintableAscii :: "u8 \<Rightarrow> bool" where
  "isPrintableAscii c \<longleftrightarrow> 32 \<le> c \<and> c \<le> 126 \<or> c = 10 \<or> c = 8 \<or> c = 9"

definition clamp :: "int \<Rightarrow> int \<Rightarrow> int \<Rightarrow> int" where
  "clamp num mn mx = (if num \<le> mn then mn else if num \<ge> mx then mx else num)"

section \<open>Strings and numbers\<close>

fun ustrcmp :: "u8 list \<Rightarrow> u8 list \<Rightarrow> int" where
  "ustrcmp [] [] = 0"
| "ustrcmp [] (c2 # s2) = - uint c2"
| "ustrcmp (c1 # s1) [] = uint c1"
| "ustrcmp (c1 # s1) (c2 # s2) = (if c1 = c2 then ustrcmp s1 s2 else uint c1 - uint c2)"

text \<open>The \<^verbatim>\<open>do\<close> loop of \<^verbatim>\<open>numToString\<close>; the list is its digit stack, bottom first.\<close>
function digit_loop :: "int \<Rightarrow> u8 list \<Rightarrow> u8 list" where
  "digit_loop number stack =
     (let stack = stack @ [word_of_int (number smod 10) + 48]; number = number sdiv 10
      in if number > 0 then digit_loop number stack else stack)"
  by auto

lemma sdiv_ten: "0 \<le> number \<Longrightarrow> number sdiv 10 = number div (10 :: int)"
  by (cases "number = 0") (simp_all add: signed_divide_int_def sgn_if)

lemma smod_ten: "0 \<le> number \<Longrightarrow> number smod 10 = number mod (10 :: int)"
  by (cases "number = 0") (simp_all add: signed_modulo_int_def sgn_if)

lemma sdiv_ten_pos: "0 < number sdiv 10 \<Longrightarrow> 10 \<le> (number :: int)"
  by (rule ccontr) (auto simp: signed_divide_int_def sgn_if split: if_splits)

termination digit_loop
  by (relation "measure (nat \<circ> fst)") (auto dest!: sdiv_ten_pos simp: sdiv_ten)

declare digit_loop.simps [simp del]

definition numToString :: "int \<Rightarrow> u8 list" where
  "numToString number =
     (if number < 0 then 45 # rev (digit_loop (s64 (number * -1)) []) else rev (digit_loop number []))"

text \<open>The loop of \<^verbatim>\<open>stringToInt\<close>; \<open>None\<close> is its early return.\<close>
fun parse_loop :: "u8 list \<Rightarrow> int \<Rightarrow> int option" where
  "parse_loop [] out = Some out"
| "parse_loop (c # str) out =
     (if \<not> isNumber c then None else parse_loop str (s64 (s64 (out * 10) + (uint c - 48))))"

definition stringToInt :: "u8 list \<Rightarrow> int" where
  "stringToInt str =
     (let negative = (str \<noteq> [] \<and> hd str = 45); str = (if negative then tl str else str)
      in case parse_loop str 0 of None \<Rightarrow> -1 | Some out \<Rightarrow> if negative then s64 (out * -1) else out)"

fun hex_loop :: "u8 list \<Rightarrow> u64 \<Rightarrow> u32" where
  "hex_loop [] out = ucast out"
| "hex_loop (c # str) out =
     (let c = toLower c; isNum = isNumber c
      in if \<not> isNum \<and> (c < 97 \<or> c > 102) then scast c
         else hex_loop str (out * 16 + (if isNum then ucast c - 48 else ucast c - 97 + 10)))"

text \<open>The returned \<^verbatim>\<open>int32_t\<close> as its 32 bits.\<close>
definition hexStringToInt :: "u8 list \<Rightarrow> u32" where
  "hexStringToInt str =
     (if str \<noteq> [] \<and> hd str = 45 then -1
      else if length str \<ge> 2 \<and> str ! 0 = 48 \<and> toLower (str ! 1) = 120 then hex_loop (drop 2 str) 0
      else hex_loop str 0)"

definition isNumericalString :: "u8 list \<Rightarrow> bool" where
  "isNumericalString str = (str \<noteq> [] \<and> list_all isNumber str)"

section \<open>Formatted output\<close>

text \<open>A variadic argument: an \<^verbatim>\<open>int\<close> or a string pointer.  One that does not fit its directive is
  undefined behaviour.\<close>
datatype parg = PInt int | PStr "u8 list option"

text \<open>The bytes put and their count.\<close>
fun vprintf :: "u8 list \<Rightarrow> parg list \<Rightarrow> u8 list \<Rightarrow> int \<Rightarrow> (u8 list \<times> int) option" where
  "vprintf [] args out count = Some (out, count)"
| "vprintf [f] args out count = Some (out @ [f], count + 1)"
| "vprintf (f # d # format) args out count =
     (if f = 37 then
        (if d = 100 \<or> d = 105 then
           (case args of PInt v # args \<Rightarrow>
              vprintf format args (out @ numToString v) (count + int (length (numToString v))) | _ \<Rightarrow> None)
         else if d = 99 then
           (case args of PInt v # args \<Rightarrow> vprintf format args (out @ [word_of_int v]) (count + 1) | _ \<Rightarrow> None)
         else if d = 115 then
           (case args of PStr s # args \<Rightarrow>
              (let str = (case s of None \<Rightarrow> [40, 110, 117, 108, 108, 41] | Some str \<Rightarrow> str)
               in vprintf format args (out @ str) (count + int (length str))) | _ \<Rightarrow> None)
         else if d = 37 then vprintf format args (out @ [37]) (count + 1)
         else vprintf format args (out @ [37, d]) (count + 2))
      else vprintf (d # format) args (out @ [f]) (count + 1))"

definition printf :: "u8 list \<Rightarrow> parg list \<Rightarrow> (u8 list \<times> int) option" where
  "printf format args = map_option (\<lambda>(out, count). (out, 0)) (vprintf format args [] 0)"

section \<open>Formatted input\<close>

text \<open>\<^verbatim>\<open>getc\<close> on what the system call answered: the byte count and the byte.\<close>
definition getc :: "int \<Rightarrow> u8 \<Rightarrow> int" where
  "getc bytesRead c = (if bytesRead \<le> 0 then bytesRead else sint c)"

fun getChar :: "u8 list \<Rightarrow> u8 \<times> u8 list" where
  "getChar [] = (0, [])"
| "getChar (c # input) = (c, input)"

definition isSpace :: "u8 \<Rightarrow> bool" where
  "isSpace c \<longleftrightarrow> c = 32 \<or> c = 9 \<or> c = 10 \<or> c = 13"

fun skip_spaces :: "u8 list \<Rightarrow> u8 \<times> u8 list" where
  "skip_spaces [] = (0, [])"
| "skip_spaces (c # input) = (if isSpace c then skip_spaces input else (c, input))"

text \<open>The character that ends the number is consumed.\<close>
fun scan_digits :: "u8 list \<Rightarrow> u8 list \<Rightarrow> u8 list \<times> u8 list" where
  "scan_digits [] buffer = (buffer, [])"
| "scan_digits (c # input) buffer =
     (if c \<noteq> 0 \<and> isNumber c then scan_digits input (buffer @ [c]) else (buffer, input))"

fun scan_word :: "u8 list \<Rightarrow> u8 list \<Rightarrow> u8 list \<times> u8 list" where
  "scan_word [] str = (str, [])"
| "scan_word (c # input) str =
     (if c \<noteq> 0 \<and> c \<noteq> 9 \<and> c \<noteq> 10 \<and> c \<noteq> 13 then scan_word input (str @ [c]) else (str, input))"

text \<open>What is stored through the next pointer argument.\<close>
datatype sval = SInt int | SChar u8 | SStr "u8 list"

definition scan_int :: "u8 list \<Rightarrow> (sval option \<times> u8 list) option" where
  "scan_int input =
     (case skip_spaces input of (c, input) \<Rightarrow>
        if c = 45 \<or> isNumber c then
          (case scan_digits input [c] of (buffer, input) \<Rightarrow>
             if length buffer < 256 then Some (Some (SInt (s32 (stringToInt buffer))), input) else None)
        else Some (None, input))"

definition scan_str :: "u8 list \<Rightarrow> sval \<times> u8 list" where
  "scan_str input =
     (case skip_spaces input of (c, input) \<Rightarrow>
        if c \<noteq> 9 \<and> c \<noteq> 10 \<and> c \<noteq> 13 \<and> c \<noteq> 0
        then (case scan_word input [c] of (str, input) \<Rightarrow> (SStr str, input)) else (SStr [], input))"

text \<open>The count, what was stored, and the input left.\<close>
fun vscanf :: "u8 list \<Rightarrow> u8 list \<Rightarrow> int \<Rightarrow> sval list \<Rightarrow> (int \<times> sval list \<times> u8 list) option" where
  "vscanf [] input count vs = Some (count, vs, input)"
| "vscanf [f] input count vs = Some (count, vs, snd (getChar input))"
| "vscanf (f # d # format) input count vs =
     (if f = 37 then
        (if d = 100 \<or> d = 105 then
           (case scan_int input of None \<Rightarrow> None
            | Some (None, input) \<Rightarrow> vscanf format input count vs
            | Some (Some v, input) \<Rightarrow> vscanf format input (count + 1) (vs @ [v]))
         else if d = 99 then
           (case getChar input of (c, input) \<Rightarrow> vscanf format input (count + 1) (vs @ [SChar c]))
         else if d = 115 then
           (case scan_str input of (v, input) \<Rightarrow> vscanf format input (count + 1) (vs @ [v]))
         else if d = 37 then
           (case getChar input of (c, input) \<Rightarrow>
              if c \<noteq> 37 then Some (count, vs, input) else vscanf format input count vs)
         else vscanf format input count vs)
      else (case getChar input of (c, input) \<Rightarrow>
              if c \<noteq> f then Some (count, vs, input) else vscanf (d # format) input count vs))"

definition scanf :: "u8 list \<Rightarrow> u8 list \<Rightarrow> (int \<times> sval list \<times> u8 list) option" where
  "scanf format input = vscanf format input 0 []"

section \<open>Random numbers\<close>

definition RANDOM_MAX :: int where "RANDOM_MAX = 65535"

text \<open>\<^verbatim>\<open>S1\<close> is a signed \<^verbatim>\<open>short\<close> that is compared with the \<^verbatim>\<open>int\<close> constant \<^verbatim>\<open>0xAA55\<close>.\<close>
definition rng :: "u16 \<Rightarrow> u16" where
  "rng input =
     (let input = (if input = 0x560A then 0 else input);
          S0 = push_bit 8 (input AND 0xFF) XOR input;
          input = push_bit 8 (S0 AND 0xFF) OR drop_bit 8 (S0 AND 0xFF00);
          S0 = push_bit 1 (S0 AND 0xFF) XOR input;
          S1 = drop_bit 1 S0 XOR 0xFF00
      in if S0 AND 1 = 0 then (if sint S1 = 0xAA55 then 0 else S1 XOR 0x1FF4) else S1 XOR 0x8180)"

text \<open>The static \<^verbatim>\<open>rngCurrent\<close> is the state.\<close>
definition randomNext :: "u16 \<Rightarrow> u16 \<times> u16" where
  "randomNext rngCurrent = (rng rngCurrent, rngCurrent)"

definition setRngSeed :: "u16 \<Rightarrow> u16 \<Rightarrow> u16" where
  "setRngSeed seed rngCurrent = seed"

definition randomRange :: "int \<Rightarrow> int \<Rightarrow> u16 \<Rightarrow> u16 \<times> u64" where
  "randomRange mn mx rngCurrent =
     (case randomNext rngCurrent of (rngCurrent, r) \<Rightarrow>
        (let range = (word_of_int (mx - mn) :: u64) + 1;
             scaled = (ucast r :: u64) * range div word_of_int RANDOM_MAX
         in (rngCurrent, word_of_int mn + word_of_int (sint (ucast scaled :: u32)))))"

section \<open>Properties\<close>

subsection \<open>Numbers as text\<close>

text \<open>The decimal digits of a number, most significant first.\<close>
fun decimal :: "nat \<Rightarrow> u8 list" where
  "decimal n = (if n < 10 then [of_nat n + 48] else decimal (n div 10) @ [of_nat (n mod 10) + 48])"

declare decimal.simps [simp del]

lemma digit_loop_decimal: "digit_loop (int n) stack = stack @ rev (decimal n)"
proof (induction n arbitrary: stack rule: decimal.induct)
  case (1 n)
  have q: "int n sdiv 10 = int (n div 10)" and r: "int n smod 10 = int (n mod 10)"
    by (simp_all add: sdiv_ten smod_ten zdiv_int zmod_int)
  show ?case
  proof (cases "n < 10")
    case True
    then show ?thesis by (simp add: digit_loop.simps [of "int n"] decimal.simps [of n] q r)
  next
    case False
    then have "n div 10 > 0" by simp
    with 1 [OF False] False show ?thesis
      by (simp add: digit_loop.simps [of "int n"] decimal.simps [of n] q r)
  qed
qed

lemma numToString_decimal:
  assumes "\<bar>n\<bar> < 2 ^ 63"
  shows "numToString n = (if n < 0 then 45 # decimal (nat (- n)) else decimal (nat n))"
proof -
  have "s64 (n * -1) = - n" if "n < 0"
    using assms that by (simp add: s64_def signed_take_bit_int_eq_self)
  then show ?thesis
    using digit_loop_decimal [of "nat n" "[]"] digit_loop_decimal [of "nat (- n)" "[]"]
    by (cases "n < 0") (simp_all add: numToString_def)
qed

lemma digit_byte: "d < 10 \<Longrightarrow> uint (of_nat d + 48 :: u8) = int d + 48"
  by (simp add: uint_word_ariths unsigned_of_nat take_bit_nat_eq_self)

lemma isNumber_digit: "d < 10 \<Longrightarrow> isNumber (of_nat d + 48)"
  using digit_byte [of d] by (simp add: isNumber_def word_le_def)

lemma decimal_digits: "list_all isNumber (decimal n)" and decimal_Cons: "decimal n \<noteq> []"
  by (induction n rule: decimal.induct) (subst decimal.simps, simp add: isNumber_digit)+

lemma decimal_length: "n < 10 ^ k \<Longrightarrow> 0 < k \<Longrightarrow> length (decimal n) \<le> k"
proof (induction k arbitrary: n)
  case (Suc k)
  show ?case
  proof (cases "n < 10")
    case False
    then have "0 < k" using Suc.prems by (cases k) auto
    moreover have "n div 10 < 10 ^ k" using Suc.prems by (simp add: less_mult_imp_div_less mult.commute)
    ultimately show ?thesis using Suc.IH [of "n div 10"] False by (simp add: decimal.simps [of n])
  qed (simp add: decimal.simps [of n])
qed simp

lemma parse_append: "parse_loop (xs @ ys) out = Option.bind (parse_loop xs out) (parse_loop ys)"
  by (induction xs arbitrary: out) simp_all

lemma parse_decimal: "n < 2 ^ 63 \<Longrightarrow> parse_loop (decimal n) 0 = Some (int n)"
proof (induction n rule: decimal.induct)
  case (1 n)
  have fits: "s64 x = x" if "0 \<le> x" "x < 2 ^ 63" for x
    using that by (simp add: s64_def signed_take_bit_int_eq_self)
  show ?case
  proof (cases "n < 10")
    case True
    then show ?thesis using "1.prems" by (simp add: decimal.simps [of n] isNumber_digit digit_byte fits)
  next
    case False
    have "int n = int (n div 10) * 10 + int (n mod 10)" by presburger
    then show ?thesis
      using 1 False by (simp add: decimal.simps [of n] parse_append isNumber_digit digit_byte fits)
  qed
qed

lemma numToString_text:
  assumes "\<bar>n\<bar> < 2 ^ 63"
  shows "stringToInt (numToString n) = n \<and> length (numToString n) \<le> (if n < 0 then 20 else 19) \<and>
    list_all isNumber (if n < 0 then tl (numToString n) else numToString n)"
proof -
  have "nat \<bar>n\<bar> < 10 ^ 19" using assms by simp
  then have len: "length (decimal (nat \<bar>n\<bar>)) \<le> 19" by (intro decimal_length) simp_all
  have parse: "parse_loop (decimal (nat \<bar>n\<bar>)) 0 = Some \<bar>n\<bar>" using assms by (simp add: parse_decimal)
  show ?thesis
  proof (cases "n < 0")
    case True
    then show ?thesis using assms len parse decimal_digits [of "nat (- n)"]
      by (simp add: numToString_decimal stringToInt_def s64_def signed_take_bit_int_eq_self)
  next
    case False
    have "hd (decimal (nat n)) \<noteq> 45"
      using decimal_digits [of "nat n"] decimal_Cons [of "nat n"] by (cases "decimal (nat n)") (auto simp: isNumber_def)
    with False show ?thesis using assms len parse decimal_digits [of "nat n"]
      by (simp add: numToString_decimal stringToInt_def)
  qed
qed

text \<open>C28. Text and back: every 64-bit value but the most negative one is printed by \<^verbatim>\<open>numToString\<close>
  as an optional minus sign and at most nineteen digits, within the 20-byte digit stack, and
  \<^verbatim>\<open>stringToInt\<close> reads the same value back; a 64-bit value never needs more than 20 characters.\<close>
theorem numToString_roundtrip:
  assumes "\<bar>n\<bar> < 2 ^ 63"
  shows "stringToInt (numToString n) = n \<and> length (numToString n) \<le> (if n < 0 then 20 else 19) \<and>
    list_all isNumber (if n < 0 then tl (numToString n) else numToString n)"
  using assms by (rule numToString_text)

theorem numToString_roundtrip_witness:
  "stringToInt (numToString (-120)) = -120 \<and> numToString (-120) = [45, 49, 50, 48]"
  using numToString_roundtrip [of "-120"]
  by (simp add: numToString_decimal decimal.simps)

lemma skip_spaces_all: "list_all isSpace sp \<Longrightarrow> skip_spaces (sp @ xs) = skip_spaces xs"
  by (induction sp) simp_all

lemma scan_digits_all: "list_all isNumber ds \<Longrightarrow> scan_digits (ds @ xs) buffer = scan_digits xs (buffer @ ds)"
proof (induction ds arbitrary: buffer)
  case (Cons d ds)
  then have "d \<noteq> 0" by (auto simp: isNumber_def)
  with Cons show ?case by simp
qed simp

lemma not_space: "c = 45 \<or> isNumber c \<Longrightarrow> \<not> isSpace c"
  by (auto simp: isNumber_def isSpace_def)

lemma scan_int_text:
  assumes sp: "list_all isSpace sp" and c: "c = 45 \<or> isNumber c" and ds: "list_all isNumber ds"
    and len: "length ds < 255" and e: "\<not> isNumber e"
  shows "scan_int (sp @ (c # ds) @ e # rest) = Some (Some (SInt (s32 (stringToInt (c # ds)))), rest)"
  using c len e not_space [OF c]
  by (simp add: scan_int_def skip_spaces_all [OF sp] scan_digits_all [OF ds])

text \<open>C31. Print and scan: a printed \<^verbatim>\<open>int\<close>, after any blanks and before any character that is not a
  digit, is scanned back by \<^verbatim>\<open>%d\<close> as the same number; \<^verbatim>\<open>vprintf\<close> counts the characters it put, and
  \<^verbatim>\<open>scanf\<close> consumes one character past the number.\<close>
theorem printf_scanf_roundtrip:
  assumes "- (2 ^ 31) \<le> n" and "n < 2 ^ 31" and "list_all isSpace sp" and "\<not> isNumber e"
  shows "\<exists>out. vprintf [37, 100] [PInt n] [] 0 = Some (out, int (length out)) \<and>
    scanf [37, 100] (sp @ out @ e # rest) = Some (1, [SInt n], rest)"
proof -
  have small: "\<bar>n\<bar> < 2 ^ 63" using assms by simp
  note rt = numToString_text [OF small]
  obtain c ds where eq: "numToString n = c # ds" and c: "c = 45 \<or> isNumber c" and ds: "list_all isNumber ds"
  proof (cases "n < 0")
    case True
    then show thesis using that [of 45 "decimal (nat (- n))"] decimal_digits by (simp add: numToString_decimal [OF small])
  next
    case False
    obtain c ds where "decimal (nat n) = c # ds" using decimal_Cons [of "nat n"] by (cases "decimal (nat n)") auto
    then show thesis using that [of c ds] decimal_digits [of "nat n"] False by (simp add: numToString_decimal [OF small])
  qed
  have len: "length ds < 255" using rt eq by (simp split: if_splits)
  have "s32 (stringToInt (c # ds)) = n"
    using rt eq assms by (simp add: s32_def signed_take_bit_int_eq_self)
  with scan_int_text [OF assms(3) c ds len assms(4), of rest] show ?thesis
    by (simp add: scanf_def eq)
qed

theorem printf_scanf_roundtrip_witness:
  "\<exists>out. vprintf [37, 100] [PInt (-7)] [] 0 = Some (out, int (length out)) \<and>
    scanf [37, 100] ([32] @ out @ 10 # [65]) = Some (1, [SInt (-7)], [65])"
  by (rule printf_scanf_roundtrip) (simp_all add: isSpace_def isNumber_def)

subsection \<open>Random ranges\<close>

lemma scaled_bounds:
  assumes "r < 65536" "0 < k"
  shows "r = 65535 \<Longrightarrow> r * k div 65535 = k" "r \<noteq> 65535 \<Longrightarrow> r * k div 65535 < k" "r * k div 65535 \<le> (k :: nat)"
proof -
  show "r = 65535 \<Longrightarrow> r * k div 65535 = k" by simp
  show "r * k div 65535 < k" if "r \<noteq> 65535"
  proof -
    have "r * k < 65535 * k" using assms that by (intro mult_strict_right_mono) auto
    then show ?thesis by (simp add: less_mult_imp_div_less mult.commute)
  qed
  then show "r * k div 65535 \<le> k" by (cases "r = 65535") auto
qed

lemma randomRange_value:
  assumes "mn \<le> mx" and "mx - mn < 2 ^ 31 - 1"
  shows "\<exists>v. snd (randomRange mn mx r) = word_of_int v \<and> mn \<le> v \<and> (if r = 0xFFFF then v = mx + 1 else v \<le> mx)"
proof -
  define k where "k = nat (mx - mn + 1)"
  define q where "q = unat r * k div 65535"
  have k: "0 < k" "k < 2 ^ 31" "int k = mx - mn + 1" using assms by (simp_all add: k_def)
  have r: "unat r < 65536" using unat_lt2p [of r] by simp
  note b = scaled_bounds [OF r k(1), folded q_def]
  have rk: "unat r * k < 2 ^ 64"
  proof -
    have "unat r * k \<le> 65536 * 2 ^ 31" using r k by (intro mult_mono) auto
    then show ?thesis by simp
  qed
  have range: "(word_of_int (mx - mn) :: u64) + 1 = of_nat k"
    using k(3) by (metis add_diff_cancel_right' diff_add_cancel of_int_1 of_int_add of_int_of_nat_eq)
  have prod: "(ucast r :: u64) * of_nat k = of_nat (unat r * k)"
    by simp
  have "(ucast r :: u64) * of_nat k div 65535 = of_nat q"
    using rk by (simp only: word_eq_iff_unsigned [where 'a = nat]) (simp add: prod unat_div_distrib unsigned_of_nat take_bit_nat_eq_self q_def del: of_nat_mult)
  moreover have "q < 2 ^ 32" using b(3) k(2) by simp
  ultimately have "snd (randomRange mn mx r) = word_of_int mn + word_of_int (sint (of_nat q :: u32))"
    using range by (simp add: randomRange_def randomNext_def Let_def RANDOM_MAX_def unsigned_of_nat take_bit_nat_eq_self)
  moreover have "sint (of_nat q :: u32) = int q"
    using b(3) k(2) by (simp add: signed_of_nat signed_take_bit_int_eq_self)
  ultimately have "snd (randomRange mn mx r) = word_of_int (mn + int q)" by simp
  moreover have "r = 0xFFFF \<longleftrightarrow> unat r = 65535" by (auto simp: word_eq_iff_unsigned [where 'a = nat])
  ultimately show ?thesis using b k(3) by (intro exI [of _ "mn + int q"]) auto
qed

text \<open>Random numbers leave their range: \<^verbatim>\<open>randomRange(min, max)\<close> answers a value between \<open>min\<close> and
  \<open>max\<close> for every generator state but \<open>0xFFFF\<close>, where the division by \<^verbatim>\<open>RANDOM_MAX\<close> instead of the
  number of states gives \<open>max + 1\<close>.\<close>
theorem randomRange_bounds:
  assumes "mn \<le> mx" and "mx - mn < 2 ^ 31 - 1"
  shows "\<exists>v. snd (randomRange mn mx r) = word_of_int v \<and> mn \<le> v \<and> (if r = 0xFFFF then v = mx + 1 else v \<le> mx)"
  by (rule randomRange_value [OF assms])

theorem randomRange_bounds_witness:
  "\<exists>v. snd (randomRange 1 6 0xFFFF) = word_of_int v \<and> 1 \<le> v \<and> v = 7"
  using randomRange_bounds [of 1 6 "0xFFFF"] by simp

end
