(* ===== verification/UTerminal.thy ===== *)
theory UTerminal
  imports UStd
begin

text \<open>
  The terminal process \<^verbatim>\<open>Userland/SampleCodeModule/terminal.c\<close>: the cursor, the colours and the
  escape-sequence parser are its static variables; the drawing system calls it makes are recorded in
  order.  The bytes of each \<^verbatim>\<open>sys_read\<close> are an input.
\<close>

section \<open>State\<close>

definition CHAR_W :: int where "CHAR_W = 8"
definition CHAR_H :: int where "CHAR_H = 16"
definition BASELINE_Y :: int where "BASELINE_Y = 12"
definition TAB_WIDTH :: nat where "TAB_WIDTH = 4"
definition ESC :: u8 where "ESC = 0x1B"
definition ESC_PAYLOAD_MAX :: nat where "ESC_PAYLOAD_MAX = 16"
definition DEFAULT_FG :: u32 where "DEFAULT_FG = 0xFFFFFF"
definition DEFAULT_BG :: u32 where "DEFAULT_BG = 0x000000"

lemmas term_const [simp] = CHAR_W_def CHAR_H_def BASELINE_Y_def TAB_WIDTH_def ESC_PAYLOAD_MAX_def

datatype EscState = ST_NORMAL | ST_ESC_CMD | ST_ESC_PAYLOAD

text \<open>The drawing calls: background, scroll, rectangle (colour, position, size) and character
  (code, position of the base line, colours).\<close>
datatype draw = SysBackground u32 | SysScrollUp int u32 | SysDrawRect u32 int int int int
  | SysDrawChar u8 int int u32 u32

record term_state =
  cursorCol :: int
  cursorRow :: int
  cols :: int
  rows :: int
  screenW :: int
  screenH :: int
  fgColor :: u32
  bgColor :: u32
  escState :: EscState
  escCmd :: u8
  escPayload :: "u8 list"
  escPayloadLen :: nat
  drawn :: "draw list"

definition term_zero :: term_state where
  "term_zero = \<lparr>cursorCol = 0, cursorRow = 0, cols = 0, rows = 0, screenW = 0, screenH = 0, fgColor = DEFAULT_FG,
     bgColor = DEFAULT_BG, escState = ST_NORMAL, escCmd = 0, escPayload = replicate ESC_PAYLOAD_MAX 0,
     escPayloadLen = 0, drawn = []\<rparr>"

definition emit :: "draw \<Rightarrow> term_state \<Rightarrow> term_state" where
  "emit d t = t\<lparr>drawn := drawn t @ [d]\<rparr>"

section \<open>Operations\<close>

definition initLayout :: "u16 \<Rightarrow> u16 \<Rightarrow> term_state \<Rightarrow> term_state" where
  "initLayout w h t = t\<lparr>screenW := uint w, screenH := uint h, cols := uint w div CHAR_W, rows := uint h div CHAR_H\<rparr>"

definition clearScreen :: "term_state \<Rightarrow> term_state" where
  "clearScreen t = (emit (SysBackground (bgColor t)) t)\<lparr>cursorCol := 0, cursorRow := 0\<rparr>"

definition newline :: "term_state \<Rightarrow> term_state" where
  "newline t =
     (let t = t\<lparr>cursorCol := 0, cursorRow := cursorRow t + 1\<rparr> in
      if cursorRow t \<ge> rows t then (emit (SysScrollUp CHAR_H (bgColor t)) t)\<lparr>cursorRow := rows t - 1\<rparr> else t)"

definition backspace :: "term_state \<Rightarrow> term_state" where
  "backspace t =
     (if cursorCol t = 0 \<and> cursorRow t = 0 then t
      else (let t = (if cursorCol t = 0 then t\<lparr>cursorRow := cursorRow t - 1, cursorCol := cols t - 1\<rparr>
                     else t\<lparr>cursorCol := cursorCol t - 1\<rparr>);
                x = cursorCol t * CHAR_W; y = cursorRow t * CHAR_H + BASELINE_Y
            in emit (SysDrawRect (bgColor t) x (y - BASELINE_Y) CHAR_W CHAR_H) t))"

definition applyEscape :: "u8 \<Rightarrow> u8 list \<Rightarrow> term_state \<Rightarrow> term_state" where
  "applyEscape cmd payload t =
     (if cmd = 99 then clearScreen t
      else if cmd = 102 then t\<lparr>fgColor := hexStringToInt payload\<rparr>
      else if cmd = 98 then clearScreen (t\<lparr>bgColor := hexStringToInt payload\<rparr>)
      else if cmd = 114 then t\<lparr>fgColor := DEFAULT_FG, bgColor := DEFAULT_BG\<rparr>
      else t)"

definition drawNormalChar :: "u8 \<Rightarrow> term_state \<Rightarrow> term_state" where
  "drawNormalChar c t =
     (let t = (if cursorCol t \<ge> cols t then newline t else t);
          x = cursorCol t * CHAR_W; y = cursorRow t * CHAR_H + BASELINE_Y
      in (emit (SysDrawChar c x y (fgColor t) (bgColor t)) t)\<lparr>cursorCol := cursorCol t + 1\<rparr>)"

text \<open>The C string in the payload buffer once its terminator is stored.\<close>
definition payload_string :: "term_state \<Rightarrow> u8 list" where
  "payload_string t = takeWhile (\<lambda>b. b \<noteq> 0) (take (escPayloadLen t) (escPayload t))"

definition termPutChar :: "u8 \<Rightarrow> term_state \<Rightarrow> term_state" where
  "termPutChar c t =
     (if escState t = ST_ESC_CMD then t\<lparr>escCmd := c, escPayloadLen := 0, escState := ST_ESC_PAYLOAD\<rparr>
      else if escState t = ST_ESC_PAYLOAD then
        (if c = 59 then
           (let t = t\<lparr>escPayload := (escPayload t)[escPayloadLen t := 0]\<rparr>
            in (applyEscape (escCmd t) (payload_string t) t)\<lparr>escState := ST_NORMAL\<rparr>)
         else if escPayloadLen t < ESC_PAYLOAD_MAX - 1
         then t\<lparr>escPayload := (escPayload t)[escPayloadLen t := c], escPayloadLen := escPayloadLen t + 1\<rparr>
         else t)
      else if c = ESC then t\<lparr>escState := ST_ESC_CMD\<rparr>
      else if c = 0 then t
      else if c = 10 then newline t
      else if c = 13 then t\<lparr>cursorCol := 0\<rparr>
      else if c = 8 then backspace t
      else if c = 12 then clearScreen t
      else if c = 9 then (drawNormalChar 32 ^^ TAB_WIDTH) t
      else drawNormalChar c t)"

text \<open>The main loop over what the reads answer; an empty read is the end of file.\<close>
fun term_loop :: "u8 list list \<Rightarrow> term_state \<Rightarrow> term_state" where
  "term_loop [] t = t"
| "term_loop (buf # bufs) t = (if buf = [] then t else term_loop bufs (fold termPutChar buf t))"

definition terminalProcess :: "u16 \<Rightarrow> u16 \<Rightarrow> u8 list list \<Rightarrow> term_state" where
  "terminalProcess w h bufs = term_loop bufs (clearScreen (initLayout w h term_zero))"

section \<open>Properties\<close>

text \<open>A drawing call inside a screen of the given size, in whole cells.\<close>
fun in_screen :: "int \<Rightarrow> int \<Rightarrow> draw \<Rightarrow> bool" where
  "in_screen W H (SysBackground c) \<longleftrightarrow> True"
| "in_screen W H (SysScrollUp n c) \<longleftrightarrow> 0 < n \<and> n \<le> H"
| "in_screen W H (SysDrawRect c x y w h) \<longleftrightarrow> 0 \<le> x \<and> x + w \<le> W \<and> 0 \<le> y \<and> y + h \<le> H"
| "in_screen W H (SysDrawChar c x y f b) \<longleftrightarrow> 0 \<le> x \<and> x + 8 \<le> W \<and> 12 \<le> y \<and> y + 4 \<le> H"

definition term_inv :: "term_state \<Rightarrow> bool" where
  "term_inv t \<longleftrightarrow> 0 < cols t \<and> 0 < rows t \<and> 8 * cols t \<le> screenW t \<and> 16 * rows t \<le> screenH t \<and>
     0 \<le> cursorCol t \<and> cursorCol t \<le> cols t \<and> 0 \<le> cursorRow t \<and> cursorRow t < rows t \<and>
     length (escPayload t) = 16 \<and> escPayloadLen t \<le> 15 \<and>
     list_all (in_screen (screenW t) (screenH t)) (drawn t)"

definition same_screen :: "term_state \<Rightarrow> term_state \<Rightarrow> bool" where
  "same_screen t t' \<longleftrightarrow> screenW t' = screenW t \<and> screenH t' = screenH t \<and> cols t' = cols t \<and> rows t' = rows t"

text \<open>An operation is good when it keeps the invariant and the layout.\<close>
definition good :: "(term_state \<Rightarrow> term_state) \<Rightarrow> bool" where
  "good f \<longleftrightarrow> (\<forall>t. term_inv t \<longrightarrow> term_inv (f t) \<and> same_screen t (f t))"

lemma good_comp: "good f \<Longrightarrow> good g \<Longrightarrow> good (\<lambda>t. f (g t))"
  by (auto simp: good_def same_screen_def)

lemma good_funpow: "good f \<Longrightarrow> good (f ^^ n)"
  by (induction n) (auto simp: good_def same_screen_def)

lemma good_fold: "(\<And>c. good (f c)) \<Longrightarrow> good (fold f cs)"
  by (induction cs) (auto simp: good_def same_screen_def)

lemma good_clearScreen: "good clearScreen"
  by (auto simp: good_def term_inv_def same_screen_def clearScreen_def emit_def)

lemma good_newline: "good newline"
  by (auto simp: good_def term_inv_def same_screen_def newline_def emit_def Let_def)

lemma good_backspace: "good backspace"
  by (auto simp: good_def term_inv_def same_screen_def backspace_def emit_def Let_def)

lemma draw_at:
  assumes "term_inv t" "cursorCol t < cols t"
  shows "term_inv ((emit (SysDrawChar c (cursorCol t * CHAR_W) (cursorRow t * CHAR_H + BASELINE_Y) f b) t)
    \<lparr>cursorCol := cursorCol t + 1\<rparr>)"
  using assms by (auto simp: term_inv_def emit_def)

lemma newline_col: "term_inv t \<Longrightarrow> cursorCol (newline t) = 0"
  by (simp add: newline_def emit_def Let_def)

lemma good_drawNormalChar: "good (drawNormalChar c)"
  unfolding good_def
proof (intro allI impI)
  fix t assume t: "term_inv t"
  define t1 where "t1 = (if cursorCol t \<ge> cols t then newline t else t)"
  have t1: "term_inv t1" "same_screen t t1"
    using t good_newline by (auto simp: t1_def good_def same_screen_def)
  have "0 < cols t1" using t1(1) by (simp add: term_inv_def)
  then have "cursorCol t1 < cols t1" using newline_col [OF t] by (auto simp: t1_def)
  from draw_at [OF t1(1) this] t1(2) show "term_inv (drawNormalChar c t) \<and> same_screen t (drawNormalChar c t)"
    by (simp add: drawNormalChar_def Let_def flip: t1_def) (simp add: same_screen_def emit_def)
qed

lemma good_if: "good f \<Longrightarrow> good g \<Longrightarrow> good (\<lambda>t. if P t then f t else g t)"
  by (auto simp: good_def)

lemma good_set: "good (\<lambda>t. t)" "good (\<lambda>t. t\<lparr>cursorCol := 0\<rparr>)"
  "good (\<lambda>t. t\<lparr>escState := e\<rparr>)" "good (\<lambda>t. t\<lparr>escCmd := k, escPayloadLen := 0, escState := e\<rparr>)"
  "good (\<lambda>t. t\<lparr>bgColor := c\<rparr>)" "good (\<lambda>t. t\<lparr>fgColor := c\<rparr>)" "good (\<lambda>t. t\<lparr>fgColor := c, bgColor := d\<rparr>)"
  by (auto simp: good_def term_inv_def same_screen_def)

lemma good_applyEscape: "good (applyEscape cmd p)"
  unfolding applyEscape_def [abs_def]
  by (intro good_if good_clearScreen good_set good_comp [OF good_clearScreen good_set(5)])

lemma good_payload:
  "good (\<lambda>t. if escPayloadLen t < ESC_PAYLOAD_MAX - 1
     then t\<lparr>escPayload := (escPayload t)[escPayloadLen t := c], escPayloadLen := escPayloadLen t + 1\<rparr> else t)"
  by (auto simp: good_def term_inv_def same_screen_def)

lemma good_escape_end:
  "good (\<lambda>t. let t = t\<lparr>escPayload := (escPayload t)[escPayloadLen t := 0]\<rparr>
     in (applyEscape (escCmd t) (payload_string t) t)\<lparr>escState := ST_NORMAL\<rparr>)"
  unfolding good_def Let_def
proof (intro allI impI)
  fix t assume "term_inv t"
  then have "term_inv (t\<lparr>escPayload := (escPayload t)[escPayloadLen t := 0]\<rparr>)" (is "term_inv ?t") by (auto simp: term_inv_def)
  with good_comp [OF good_set(3) [of ST_NORMAL] good_applyEscape [of "escCmd ?t" "payload_string ?t"]]
  show "term_inv ((applyEscape (escCmd ?t) (payload_string ?t) ?t)\<lparr>escState := ST_NORMAL\<rparr>) \<and>
    same_screen t ((applyEscape (escCmd ?t) (payload_string ?t) ?t)\<lparr>escState := ST_NORMAL\<rparr>)"
    by (auto simp: good_def same_screen_def)
qed

lemma good_termPutChar: "good (termPutChar c)"
  unfolding termPutChar_def [abs_def]
  by (rule good_if, rule good_set, rule good_if, rule good_if, rule good_escape_end, rule good_payload)
    (intro good_if good_set good_newline good_backspace good_clearScreen good_funpow good_drawNormalChar)

lemma term_loop_good: "good (term_loop bufs)"
proof (induction bufs)
  case (Cons buf bufs)
  then show ?case
    using good_comp [OF Cons.IH good_fold [of termPutChar buf]] good_termPutChar by (auto simp: good_def same_screen_def)
qed (simp add: good_def same_screen_def)

text \<open>C25. Nothing is drawn outside the screen: whatever bytes arrive, in whatever pieces, on a screen
  of at least one character cell, every character, erased cell and scroll of the terminal lies
  inside the screen, the cursor stays within the grid, and the escape payload never leaves its
  16-byte array.\<close>
theorem terminal_in_bounds:
  assumes "8 \<le> w" and "16 \<le> h"
  shows "term_inv (terminalProcess w h bufs) \<and> screenW (terminalProcess w h bufs) = uint w \<and>
    screenH (terminalProcess w h bufs) = uint h"
proof -
  have "8 \<le> uint w" "16 \<le> uint h" using assms by (simp_all add: word_le_def)
  then have "0 < uint w div 8" "0 < uint h div 16" "8 * (uint w div 8) \<le> uint w" "16 * (uint h div 16) \<le> uint h"
    by linarith+
  then have "term_inv (initLayout w h term_zero)"
    by (simp add: term_inv_def initLayout_def term_zero_def)
  then have "term_inv (clearScreen (initLayout w h term_zero))" "same_screen (initLayout w h term_zero) (clearScreen (initLayout w h term_zero))"
    using good_clearScreen by (auto simp: good_def)
  then show ?thesis using term_loop_good [of bufs]
    by (auto simp: terminalProcess_def good_def same_screen_def) (simp_all add: initLayout_def)
qed

theorem terminal_in_bounds_witness: "term_inv (terminalProcess 640 480 [[65, 10, 8, 9], [27, 102, 70, 70]])"
  using terminal_in_bounds [of 640 480] by simp

subsection \<open>Colour sequences\<close>

text \<open>The six hexadecimal digits of a colour, as the macros of \<^verbatim>\<open>hexColors.h\<close> are used with.\<close>
definition hex_char :: "nat \<Rightarrow> u8" where
  "hex_char d = (if d < 10 then of_nat d + 48 else of_nat d + 55)"

definition hex6 :: "nat \<Rightarrow> u8 list" where
  "hex6 v = map (\<lambda>i. hex_char (v div 16 ^ (5 - i) mod 16)) [0..<6]"

lemma hex_char_facts: "\<forall>d \<in> set [0..<16]. toLower (hex_char d) \<noteq> 120 \<and> hex_char d \<noteq> 45 \<and> hex_char d \<noteq> 59 \<and>
    hex_char d \<noteq> 0 \<and> (isNumber (toLower (hex_char d)) \<or> 97 \<le> toLower (hex_char d) \<and> toLower (hex_char d) \<le> 102) \<and>
    (if isNumber (toLower (hex_char d)) then ucast (toLower (hex_char d)) - 48 else ucast (toLower (hex_char d)) - 97 + 10) = (of_nat d :: u64)"
  by code_simp

lemma hex_char_facts': "d < 16 \<Longrightarrow> toLower (hex_char d) \<noteq> 120 \<and> hex_char d \<noteq> 45 \<and> hex_char d \<noteq> 59 \<and> hex_char d \<noteq> 0"
  using hex_char_facts by simp

lemma hex_loop_char:
  assumes "d < 16" shows "hex_loop (hex_char d # str) out = hex_loop str (out * 16 + of_nat d)"
proof -
  have "d \<in> set [0..<16]" using assms by simp
  from hex_char_facts [rule_format, OF this] show ?thesis
    by (auto simp: Let_def not_less simp del: toLower_def)
qed

lemma hex_loop_digits:
  "list_all (\<lambda>d. d < 16) ds \<Longrightarrow> hex_loop (map hex_char ds) (of_nat a) = of_nat (take_bit 64 (foldl (\<lambda>a d. 16 * a + d) a ds))"
proof (induction ds arbitrary: a)
  case Nil
  then show ?case by (simp add: unsigned_of_nat)
next
  case (Cons d ds)
  have "(of_nat a :: u64) * 16 + of_nat d = of_nat (16 * a + d)" by simp
  with Cons show ?case by (simp only: list.map list.pred_inject hex_loop_char foldl.simps)
qed

lemma hexStringToInt_hex6:
  assumes "v < 2 ^ 24" shows "hexStringToInt (hex6 v) = of_nat v"
proof -
  define ds where "ds = map (\<lambda>i. v div 16 ^ (5 - i) mod 16) [0..<6]"
  have six: "hex6 v = map hex_char ds" by (simp add: hex6_def ds_def)
  have ds: "list_all (\<lambda>d. d < 16) ds" by (simp add: ds_def list_all_iff)
  have "foldl (\<lambda>a d. 16 * a + d) 0 ds = v"
    using nibbles [where x = v and n = 6] assms by (simp add: ds_def)
  then have "hex_loop (hex6 v) 0 = of_nat v"
    using hex_loop_digits [OF ds, of 0] assms by (simp add: six take_bit_nat_eq_self)
  moreover have "hex6 v \<noteq> []" "hd (hex6 v) \<noteq> 45" "length (hex6 v) = 6" "toLower (hex6 v ! 1) \<noteq> 120"
    using hex_char_facts' by (simp_all add: hex6_def hd_map nth_append)
  ultimately show ?thesis by (simp add: hexStringToInt_def)
qed

lemma put_payload:
  assumes "escState t = ST_ESC_PAYLOAD" "length (escPayload t) = 16" "escPayloadLen t + length cs \<le> 15" "59 \<notin> set cs"
  shows "\<exists>pl. fold termPutChar cs t = t\<lparr>escPayload := pl, escPayloadLen := escPayloadLen t + length cs\<rparr> \<and>
    length pl = 16 \<and> take (escPayloadLen t + length cs) pl = take (escPayloadLen t) (escPayload t) @ cs"
  using assms
proof (induction cs arbitrary: t)
  case Nil
  then show ?case by (intro exI [of _ "escPayload t"]) simp
next
  case (Cons c cs)
  define t1 where "t1 = t\<lparr>escPayload := (escPayload t)[escPayloadLen t := c], escPayloadLen := escPayloadLen t + 1\<rparr>"
  have put: "termPutChar c t = t1" using Cons.prems by (auto simp: termPutChar_def t1_def)
  have pre: "take (escPayloadLen t1) (escPayload t1) = take (escPayloadLen t) (escPayload t) @ [c]"
    using Cons.prems by (simp add: t1_def take_Suc_conv_app_nth)
  from Cons.IH [of t1] Cons.prems obtain pl where "fold termPutChar cs t1 = t1\<lparr>escPayload := pl, escPayloadLen := escPayloadLen t1 + length cs\<rparr>"
    "length pl = 16" "take (escPayloadLen t1 + length cs) pl = take (escPayloadLen t1) (escPayload t1) @ cs"
    by (auto simp: t1_def)
  with pre put show ?case by (intro exI [of _ pl]) (simp add: t1_def)
qed

text \<open>C36. Colour sequences: in its normal state the terminal turns \<^verbatim>\<open>COLOR_FG\<close> with the six digits of any
  24-bit colour into exactly that text colour, and \<^verbatim>\<open>COLOR_RESET\<close> into the default colours; both
  draw nothing, leave the cursor alone and end in the normal state.\<close>
theorem colour_sequence:
  assumes "term_inv t" and "escState t = ST_NORMAL" and "v < 2 ^ 24"
  shows "\<exists>t'. fold termPutChar ([0x1B, 102] @ hex6 v @ [59]) t = t' \<and> fgColor t' = of_nat v \<and> bgColor t' = bgColor t \<and>
      cursorCol t' = cursorCol t \<and> cursorRow t' = cursorRow t \<and> drawn t' = drawn t \<and> escState t' = ST_NORMAL \<and>
      (\<exists>u. fold termPutChar [0x1B, 114, 59] t' = u \<and> fgColor u = 0xFFFFFF \<and> bgColor u = 0 \<and> drawn u = drawn t \<and>
        cursorCol u = cursorCol t \<and> cursorRow u = cursorRow t \<and> escState u = ST_NORMAL)"
proof -
  define t1 where "t1 = t\<lparr>escState := ST_ESC_PAYLOAD, escCmd := 102, escPayloadLen := 0\<rparr>"
  have start: "termPutChar 102 (termPutChar 0x1B t) = t1"
    using assms(2) by (simp add: termPutChar_def ESC_def t1_def)
  have len: "length (hex6 v) = 6" by (simp add: hex6_def)
  have no59: "59 \<notin> set (hex6 v)" and no0: "0 \<notin> set (hex6 v)" using hex_char_facts' by (auto simp: hex6_def)
  have "escState t1 = ST_ESC_PAYLOAD" "length (escPayload t1) = 16" "escPayloadLen t1 + length (hex6 v) \<le> 15"
    using assms(1) len by (simp_all add: t1_def term_inv_def)
  from put_payload [OF this no59] obtain pl where
    "fold termPutChar (hex6 v) t1 = t1\<lparr>escPayload := pl, escPayloadLen := escPayloadLen t1 + length (hex6 v)\<rparr>"
    "length pl = 16" "take (escPayloadLen t1 + length (hex6 v)) pl = take (escPayloadLen t1) (escPayload t1) @ hex6 v" by auto
  then have pl: "fold termPutChar (hex6 v) t1 = t1\<lparr>escPayload := pl, escPayloadLen := 6\<rparr>" "length pl = 16" "take 6 pl = hex6 v"
    using len by (simp_all add: t1_def)
  have str: "takeWhile (\<lambda>b. b \<noteq> 0) (hex6 v) = hex6 v" using no0 by (intro takeWhile_eq_all_conv [THEN iffD2]) auto
  define t' where "t' = t1\<lparr>escPayloadLen := 6, escPayload := pl[6 := 0], fgColor := of_nat v, escState := ST_NORMAL\<rparr>"
  have run: "fold termPutChar ([0x1B, 102] @ hex6 v @ [59]) t = t'"
  proof -
    have "fold termPutChar ([0x1B, 102] @ hex6 v @ [59]) t = termPutChar 59 (t1\<lparr>escPayload := pl, escPayloadLen := 6\<rparr>)"
      using start pl(1) by simp
    also have "\<dots> = t'"
      using pl(3) by (simp add: str termPutChar_def Let_def payload_string_def applyEscape_def hexStringToInt_hex6 [OF assms(3)] t'_def t1_def)
    finally show ?thesis .
  qed
  have "fold termPutChar [0x1B, 114, 59] t' = t'\<lparr>escCmd := 114, escPayloadLen := 0, escPayload := (pl[6 := 0])[0 := 0],
      fgColor := DEFAULT_FG, bgColor := DEFAULT_BG, escState := ST_NORMAL\<rparr>"
    by (simp add: termPutChar_def Let_def applyEscape_def t'_def t1_def ESC_def)
  with run show ?thesis by (auto simp: t'_def t1_def DEFAULT_FG_def DEFAULT_BG_def)
qed

theorem colour_sequence_witness:
  "\<exists>t'. fold termPutChar ([0x1B, 102] @ hex6 0xFF8000 @ [59]) (terminalProcess 640 480 []) = t' \<and> fgColor t' = 0xFF8000"
proof -
  have "terminalProcess 640 480 [] = clearScreen (initLayout 640 480 term_zero)" by (simp add: terminalProcess_def)
  then have "term_inv (terminalProcess 640 480 [])" "escState (terminalProcess 640 480 []) = ST_NORMAL"
    by (simp_all add: clearScreen_def emit_def initLayout_def term_zero_def term_inv_def)
  from colour_sequence [OF this, of "0xFF8000"] show ?thesis by auto
qed

end
