(* ===== verification/UCommands.thy ===== *)
theory UCommands
  imports UStd
begin

unbundle bit_operations_syntax

text \<open>
  The shell commands \<^verbatim>\<open>Userland/SampleCodeModule/commands.c\<close>.  A command that only prints is the
  bytes it writes; one that filters its input works on the list of its reads; one whose course
  depends on what a system call answers is a program: a tree of calls, one branch per answer.
\<close>

section \<open>Programs over system calls\<close>

datatype req = SysReopen int | SysPipe | SysClose int | SysDup int int
  | SysSpawn u64 "u8 list list" "(int \<times> int) list" | SysForeground int | SysWaitpid int
  | SysKill int | SysNice int u8 | SysBlock int | SysUnblock int | SysWrite int "u8 list"
  | SysReapZombies | SysYield | SysRead int
  | SysSemOpen string int | SysSemClose string | SysCreate u64 "u8 list list"
  | SysPlaySound u64 u64 | SysSleep u64 | SysRegisters | SysGetpid | SysKernelTime
  | SysGetMaxProcesses | SysGetProcessesCount | SysFault nat

text \<open>\<open>SysFault\<close> is no call but the exception an instruction raises.  An answer: the returned value
  and, for a pipe, the two descriptors stored, for a read the bytes.\<close>
record answer =
  ret :: int
  fd0 :: int
  fd1 :: int
  got :: "u8 list"

datatype prog = Exit | Call req "answer \<Rightarrow> prog"

primrec calls :: "prog \<Rightarrow> (req \<Rightarrow> answer) \<Rightarrow> req list" where
  "calls Exit env = []"
| "calls (Call r k) env = r # calls (k (env r)) env"

text \<open>Running one program after another.\<close>
primrec andThen :: "prog \<Rightarrow> prog \<Rightarrow> prog" where
  "andThen Exit q = q"
| "andThen (Call r k) q = Call r (\<lambda>a. andThen (k a) q)"

definition STDIN :: int where "STDIN = 0"
definition STDOUT :: int where "STDOUT = 1"
definition STDERR :: int where "STDERR = 2"

lemmas std_fds [simp] = STDIN_def STDOUT_def STDERR_def

text \<open>\<^verbatim>\<open>printf\<close> puts its characters one system call at a time.\<close>
definition put_all :: "u8 list \<Rightarrow> prog \<Rightarrow> prog" where
  "put_all out k = foldr (\<lambda>c k. Call (SysWrite STDOUT [c]) (\<lambda>a. k)) out k"

definition print :: "string \<Rightarrow> parg list \<Rightarrow> prog \<Rightarrow> prog" where
  "print format args k = (case printf (bytes format) args of None \<Rightarrow> Exit | Some (out, r) \<Rightarrow> put_all out k)"

definition writeStr :: "int \<Rightarrow> u8 list \<Rightarrow> prog \<Rightarrow> prog" where
  "writeStr fd s k = Call (SysWrite fd s) (\<lambda>a. k)"

text \<open>\<^verbatim>\<open>(int16_t)\<close> of a 64-bit value.\<close>
definition s16 :: "int \<Rightarrow> int" where "s16 x = signed_take_bit 15 x"

text \<open>\<open>puts\<close>, \<open>putc\<close> and \<open>putChar\<close>, with the value they return handed on.\<close>
definition puts :: "u8 list \<Rightarrow> (int \<Rightarrow> prog) \<Rightarrow> prog" where
  "puts str k = Call (SysWrite STDOUT str) (\<lambda>a. Call (SysWrite STDOUT [10]) (\<lambda>_. k (s32 (ret a))))"

definition putc :: "u8 \<Rightarrow> int \<Rightarrow> (int \<Rightarrow> prog) \<Rightarrow> prog" where
  "putc c fd k = Call (SysWrite fd [c]) (\<lambda>a. k (s32 (ret a)))"

definition putChar :: "u8 \<Rightarrow> (int \<Rightarrow> prog) \<Rightarrow> prog" where
  "putChar c k = putc c STDOUT k"

section \<open>Programs that keep a contract\<close>

text \<open>A contract says what a call is allowed in the state the kernel is in (\<open>proper\<close>), which answers the
  kernel may give (\<open>may\<close>) and how the state changes (\<open>after\<close>).  A program conforms when, whatever
  the kernel answers within the contract, every call it makes is proper and it ends in \<open>Q\<close>.\<close>
primrec conforms :: "(req \<Rightarrow> 's \<Rightarrow> bool) \<Rightarrow> (req \<Rightarrow> answer \<Rightarrow> 's \<Rightarrow> bool) \<Rightarrow> (req \<Rightarrow> answer \<Rightarrow> 's \<Rightarrow> 's) \<Rightarrow>
    prog \<Rightarrow> ('s \<Rightarrow> bool) \<Rightarrow> 's \<Rightarrow> bool" where
  "conforms proper may after Exit Q S = Q S"
| "conforms proper may after (Call r k) Q S =
     (proper r S \<and> (\<forall>a. may r a S \<longrightarrow> conforms proper may after (k a) Q (after r a S)))"

lemma conforms_mono:
  "conforms proper may after p Q S \<Longrightarrow> (\<And>T. Q T \<Longrightarrow> Q' T) \<Longrightarrow> conforms proper may after p Q' S"
  by (induction p arbitrary: S) auto

lemma conforms_andThen:
  "conforms proper may after (andThen p q) Q S = conforms proper may after p (conforms proper may after q Q) S"
  by (induction p arbitrary: S) simp_all

text \<open>In a contract that says nothing of writes, output can be skipped.\<close>
locale quiet_writes =
  fixes proper :: "req \<Rightarrow> 's \<Rightarrow> bool"
    and may :: "req \<Rightarrow> answer \<Rightarrow> 's \<Rightarrow> bool"
    and after :: "req \<Rightarrow> answer \<Rightarrow> 's \<Rightarrow> 's"
  assumes write_proper: "proper (SysWrite fd s) S"
    and write_may: "may (SysWrite fd s) a S"
    and write_after: "after (SysWrite fd s) a S = S"
begin

lemma conforms_writeStr: "conforms proper may after (writeStr fd s k) Q S = conforms proper may after k Q S"
  by (simp add: writeStr_def write_proper write_may write_after)

lemma conforms_put_all: "conforms proper may after (put_all out k) Q S = conforms proper may after k Q S"
  by (induction out) (simp_all add: put_all_def write_proper write_may write_after)

lemma conforms_print:
  "conforms proper may after (print format args k) Q S =
     (if printf (bytes format) args = None then Q S else conforms proper may after k Q S)"
  by (simp add: print_def conforms_put_all split: option.splits)

lemmas conforms_output = conforms_writeStr conforms_put_all conforms_print

end

section \<open>Printing commands\<close>

text \<open>The writes of \<^verbatim>\<open>echo\<close>, joined.\<close>
fun echo_args :: "u8 list list \<Rightarrow> u8 list" where
  "echo_args [] = []"
| "echo_args [a] = a"
| "echo_args (a # as) = a @ [32] @ echo_args as"

definition echoCommand :: "u8 list list \<Rightarrow> u8 list" where
  "echoCommand argv = echo_args (tl argv) @ [10]"

definition weekdays :: "u8 list list" where
  "weekdays = map bytes [''Sun'', ''Mon'', ''Tue'', ''Wed'', ''Thu'', ''Fri'', ''Sat'']"

text \<open>\<open>None\<close> when the weekday the clock answers is not one of the table.\<close>
definition datetimeCommand :: "u8 \<times> u8 \<times> u8 \<times> u8 \<Rightarrow> u8 \<times> u8 \<times> u8 \<Rightarrow> u8 list option" where
  "datetimeCommand date time =
     (case (date, time) of ((wd, d, mo, y), (h, m, s)) \<Rightarrow>
        if wd = 0 \<or> wd > 7 then None
        else map_option fst (printf (bytes ''%d:%d:%d %s %d/%d/%d'' @ [10])
          [PInt (uint h), PInt (uint m), PInt (uint s), PStr (Some (weekdays ! (unat wd - 1))), PInt (uint d), PInt (uint mo), PInt (uint y)]))"

datatype ProcState = ST_READY | ST_RUNNING | ST_BLOCKED | ST_ZOMBIE

fun stateName :: "ProcState \<Rightarrow> u8 list" where
  "stateName ST_READY = bytes ''READY''"
| "stateName ST_RUNNING = bytes ''RUNNING''"
| "stateName ST_BLOCKED = bytes ''BLOCKED''"
| "stateName ST_ZOMBIE = bytes ''ZOMBIE''"

record ps_info =
  ps_pid :: int
  ps_ppid :: int
  ps_state :: ProcState
  ps_name :: "u8 list"
  ps_priority :: u8
  ps_inForeground :: bool
  ps_rsp :: u64
  ps_stackBase :: u64

definition writeHex64 :: "u64 \<Rightarrow> u8 list" where
  "writeHex64 value = [48, 120] @
     map (\<lambda>i. bytes ''0123456789ABCDEF'' ! unat (drop_bit ((15 - i) * 4) value AND 0xF)) [0..<16]"

definition padTo :: "int \<Rightarrow> int \<Rightarrow> u8 list" where
  "padTo currentLen target = replicate (nat (target - currentLen)) 32"

definition ps_field :: "u8 list \<Rightarrow> int \<Rightarrow> u8 list" where
  "ps_field s width = s @ padTo (int (length s)) width"

definition ps_row :: "ps_info \<Rightarrow> u8 list" where
  "ps_row p = ps_field (numToString (ps_pid p)) 5 @ ps_field (numToString (ps_ppid p)) 5 @
     ps_field (numToString (uint (ps_priority p))) 5 @ (if ps_inForeground p then bytes ''YES '' else bytes ''NO  '') @
     ps_field (stateName (ps_state p)) 8 @ writeHex64 (ps_rsp p) @ [32] @ writeHex64 (ps_stackBase p) @ [32] @
     ps_name p @ [10]"

definition psCommand :: "ps_info list \<Rightarrow> u8 list" where
  "psCommand procs = bytes ''PID  PPID PRIO FG  STATE   RSP                STACKBASE          NAME'' @ [10] @
     concat (map ps_row procs)"

text \<open>The four fields of the memory report, each cut to an \<^verbatim>\<open>int\<close>.\<close>
definition memCommand :: "u64 \<Rightarrow> u64 \<Rightarrow> u64 \<Rightarrow> u64 \<Rightarrow> u8 list" where
  "memCommand tot occupied free fragments =
     (let row = (\<lambda>label v. bytes label @ numToString (sint (ucast (v :: u64) :: u32)) @ [10]) in
      bytes ''Memoria (bytes):'' @ [10] @ row ''  total    : '' tot @ row ''  ocupada  : '' occupied @
      row ''  libre    : '' free @ row ''  fragments: '' fragments)"

section \<open>Commands on processes\<close>

definition killCommand :: "u8 list list \<Rightarrow> prog" where
  "killCommand argv =
     (if length argv < 2 then writeStr STDERR (bytes ''Usage: kill <pid>'' @ [10]) Exit
      else (let pid = stringToInt (argv ! 1);
                failed = print ''kill: no se pudo matar al pid %d'' [PInt (s32 pid)] (put_all [10] Exit)
            in if pid < 0 then failed
               else Call (SysKill (s16 pid)) (\<lambda>a. if ret a < 0 then failed
                 else print ''kill: pid %d terminado'' [PInt (s32 pid)] (put_all [10] Exit))))"

definition niceCommand :: "u8 list list \<Rightarrow> prog" where
  "niceCommand argv =
     (if length argv < 3 then writeStr STDERR (bytes ''Usage: nice <pid> <priority>'' @ [10]) Exit
      else (let pid = stringToInt (argv ! 1); prio = stringToInt (argv ! 2);
                failed = print ''nice: argumentos invalidos o pid %d no existe'' [PInt (s32 pid)] (put_all [10] Exit)
            in if pid < 0 \<or> prio < 1 then failed
               else Call (SysNice (s16 pid) (word_of_int prio)) (\<lambda>a. if ret a < 0 then failed
                 else print ''nice: pid %d -> prioridad %d'' [PInt (s32 pid), PInt (s32 prio)] (put_all [10] Exit))))"

definition blockCommand :: "u8 list list \<Rightarrow> prog" where
  "blockCommand argv =
     (if length argv < 2 then writeStr STDERR (bytes ''Usage: block <pid>'' @ [10]) Exit
      else (let pid = stringToInt (argv ! 1) in
        if pid < 0 then writeStr STDERR (bytes ''block: pid invalido'' @ [10]) Exit
        else Call (SysBlock (s16 pid)) (\<lambda>a.
          if ret a = 0 then print ''block: pid %d bloqueado'' [PInt (s32 pid)] (put_all [10] Exit)
          else Call (SysUnblock (s16 pid)) (\<lambda>a.
            if ret a = 0 then print ''block: pid %d desbloqueado'' [PInt (s32 pid)] (put_all [10] Exit)
            else print ''block: no se pudo (pid %d)'' [PInt (s32 pid)] (put_all [10] Exit)))))"

section \<open>Filters\<close>

text \<open>The reads of the standard input up to the first that answers nothing.\<close>
fun input_of :: "u8 list list \<Rightarrow> u8 list" where
  "input_of [] = []"
| "input_of (buf # bufs) = (if buf = [] then [] else buf @ input_of bufs)"

fun catCommand :: "u8 list list \<Rightarrow> u8 list list" where
  "catCommand [] = []"
| "catCommand (buf # bufs) = (if buf = [] then [] else buf # catCommand bufs)"

record wc_state =
  wc_lines :: int
  wc_words :: int
  wc_chars :: int
  wc_inWord :: bool

definition wc_char :: "u8 \<Rightarrow> wc_state \<Rightarrow> wc_state" where
  "wc_char c w =
     (let w = w\<lparr>wc_chars := wc_chars w + 1\<rparr>;
          w = (if c = 10 then w\<lparr>wc_lines := wc_lines w + 1\<rparr> else w)
      in if c = 32 \<or> c = 10 \<or> c = 9 then w\<lparr>wc_inWord := False\<rparr>
         else if \<not> wc_inWord w then w\<lparr>wc_inWord := True, wc_words := wc_words w + 1\<rparr> else w)"

fun wc_loop :: "u8 list list \<Rightarrow> wc_state \<Rightarrow> wc_state" where
  "wc_loop [] w = w"
| "wc_loop (buf # bufs) w = (if buf = [] then w else wc_loop bufs (fold wc_char buf w))"

definition wc_zero :: wc_state where
  "wc_zero = \<lparr>wc_lines = 0, wc_words = 0, wc_chars = 0, wc_inWord = False\<rparr>"

text \<open>The text printed on standard output; with parameters \<^verbatim>\<open>wc\<close> only complains.\<close>
definition wcCommand :: "u8 list list \<Rightarrow> u8 list list \<Rightarrow> u8 list option" where
  "wcCommand argv bufs =
     (if length argv > 1 then Some []
      else (let w = wc_loop bufs wc_zero in
        map_option fst (printf ([10] @ bytes '' %d lineas, %d palabras, %d caracteres'' @ [10])
          [PInt (wc_lines w), PInt (wc_words w), PInt (wc_chars w)])))"

definition isVowel :: "u8 \<Rightarrow> bool" where
  "isVowel c = (let c = toLower c in c = 97 \<or> c = 101 \<or> c = 105 \<or> c = 111 \<or> c = 117)"

text \<open>One write per read that leaves something.\<close>
fun filter_loop :: "u8 list list \<Rightarrow> u8 list list" where
  "filter_loop [] = []"
| "filter_loop (buf # bufs) =
     (if buf = [] then []
      else (let out = filter (\<lambda>c. \<not> isVowel c) buf in if out \<noteq> [] then out # filter_loop bufs else filter_loop bufs))"

definition filterCommand :: "u8 list list \<Rightarrow> u8 list list \<Rightarrow> u8 list list" where
  "filterCommand argv bufs = (if length argv > 1 then [] else filter_loop bufs)"

section \<open>The command table\<close>

record CommandEntry =
  ce_name :: string
  ce_entry :: nat
  ce_description :: string
  ce_isTest :: bool

text \<open>An entry point is named by its position among the functions of the table.\<close>
definition validCommands :: "CommandEntry list" where
  "validCommands = map (\<lambda>(n, d, i, t). \<lparr>ce_name = n, ce_entry = i, ce_description = d, ce_isTest = t\<rparr>)
    [(''help'', ''Lista los comandos disponibles'', 0, False),
     (''clear'', ''Limpia la pantalla'', 1, False),
     (''echo'', ''Imprime sus argumentos'', 2, False),
     (''datetime'', ''Imprime la fecha y hora actuales'', 3, False),
     (''registers'', ''Imprime el snapshot de registros (toma uno con F6)'', 4, False),
     (''ls'', ''Lista los archivos en el directorio actual'', 5, False),
     (''music'', ''Reproduce una cancion (r=Rickroll, c=Coffin)'', 6, False),
     (''zero'', ''Provoca una division por cero (excepcion)'', 7, False),
     (''invalid'', ''Provoca un opcode invalido (excepcion)'', 8, False),
     (''ps'', ''Lista los procesos del sistema'', 9, False),
     (''mem'', ''Estado del heap'', 10, False),
     (''loop'', ''Imprime su PID cada N segundos (espera activa)'', 11, False),
     (''kill'', ''Mata un proceso por PID'', 12, False),
     (''nice'', ''Cambia la prioridad de un proceso'', 13, False),
     (''block'', ''Bloquea/desbloquea un proceso (toggle)'', 14, False),
     (''cat'', ''Lee de stdin y escribe a stdout'', 15, False),
     (''wc'', ''Cuenta lineas, palabras y caracteres de stdin'', 16, False),
     (''filter'', ''Filtra las vocales de stdin'', 17, False),
     (''mvar'', ''MVar de Haskell: lectores/escritores sobre variable compartida (Usage: mvar <writers> <readers>)'', 18, False),
     (''test_mm'', ''Stress del memory manager (Usage: test_mm <max_bytes>)'', 19, True),
     (''test_proc'', ''Stress del scheduler crea/bloquea/mata procesos (Usage: test_proc <max_procs>)'', 20, True),
     (''test_prio'', ''Tres procesos con prioridades distintas (Usage: test_prio <max_value>)'', 21, True),
     (''test_sync'', ''Race conditions con y sin semaforos (Usage: test_sync <n_procesos> <n_iter> <use_sem>)'', 22, True)]"

definition getCommandCount :: int where "getCommandCount = int (length validCommands)"

fun command_loop :: "u8 list \<Rightarrow> CommandEntry list \<Rightarrow> int \<Rightarrow> int" where
  "command_loop name [] i = -1"
| "command_loop name (e # es) i = (if ustrcmp name (bytes (ce_name e)) = 0 then i else command_loop name es (i + 1))"

definition getCommandIndex :: "u8 list \<Rightarrow> int" where
  "getCommandIndex name = (if name = [] then -1 else command_loop name validCommands 0)"

text \<open>\<open>None\<close> is the null entry or name.\<close>
definition getCommandEntry :: "int \<Rightarrow> nat option" where
  "getCommandEntry idx = (if idx < 0 \<or> idx \<ge> getCommandCount then None else Some (ce_entry (validCommands ! nat idx)))"

definition getCommandName :: "int \<Rightarrow> u8 list option" where
  "getCommandName idx = (if idx < 0 \<or> idx \<ge> getCommandCount then None else Some (bytes (ce_name (validCommands ! nat idx))))"

definition color_fg :: "string \<Rightarrow> u8 list" where "color_fg hex = [27, 102] @ bytes hex @ [59]"
definition color_reset :: "u8 list" where "color_reset = [27, 114, 59]"

definition help_row :: "string \<Rightarrow> CommandEntry \<Rightarrow> u8 list" where
  "help_row hex e = bytes ''  '' @ color_fg hex @ bytes (ce_name e) @ color_reset @ bytes '' - '' @ bytes (ce_description e) @ [10]"

definition helpCommand :: "u8 list" where
  "helpCommand = [10] @ color_fg ''00FFFF'' @ bytes ''Available commands:'' @ color_reset @ [10] @
     concat (map (help_row ''80FF80'') (filter (\<lambda>e. \<not> ce_isTest e) validCommands)) @
     [10] @ color_fg ''FFFF60'' @ bytes ''Tests provistos por la catedra:'' @ color_reset @ [10] @
     concat (map (help_row ''FFFF60'') (filter ce_isTest validCommands)) @ [10]"

section \<open>Properties\<close>

definition blank :: "u8 \<Rightarrow> bool" where "blank c \<longleftrightarrow> c = 32 \<or> c = 10 \<or> c = 9"

lemma wc_char_step:
  "wc_chars (wc_char c w) = wc_chars w + 1"
  "wc_lines (wc_char c w) = wc_lines w + (if c = 10 then 1 else 0)"
  "wc_words (wc_char c w) = wc_words w + (if blank c \<or> wc_inWord w then 0 else 1)"
  "wc_inWord (wc_char c w) \<longleftrightarrow> \<not> blank c"
  by (auto simp: wc_char_def blank_def Let_def)

lemma wc_fold:
  "wc_chars (fold wc_char xs w) = wc_chars w + int (length xs)"
  "wc_lines (fold wc_char xs w) = wc_lines w + int (length (filter (\<lambda>c. c = 10) xs))"
  "wc_words (fold wc_char xs w) = wc_words w +
     int (length (words blank (if wc_inWord w then dropWhile (\<lambda>c. \<not> blank c) xs else xs)))"
  by (induction xs arbitrary: w) (simp_all add: wc_char_step)

lemma wc_loop_input: "wc_loop bufs w = fold wc_char (input_of bufs) w"
  by (induction bufs arbitrary: w) simp_all

lemma filter_loop_input: "concat (filter_loop bufs) = filter (\<lambda>c. \<not> isVowel c) (input_of bufs)"
  by (induction bufs) (auto simp: Let_def filter_empty_conv)

lemma cat_input: "concat (catCommand bufs) = input_of bufs"
  by (induction bufs) simp_all

text \<open>C34. The text filters do not depend on how the input is cut into reads: \<^verbatim>\<open>cat\<close> writes the input,
  \<^verbatim>\<open>filter\<close> the input without its vowels, and \<^verbatim>\<open>wc\<close> counts the newlines, the maximal runs of
  non-blank characters and the characters of the whole input, words that span reads included.\<close>
theorem text_filters_correct:
  "concat (catCommand bufs) = input_of bufs \<and>
   concat (filterCommand [name] bufs) = filter (\<lambda>c. \<not> isVowel c) (input_of bufs) \<and>
   wc_lines (wc_loop bufs wc_zero) = int (length (filter (\<lambda>c. c = 10) (input_of bufs))) \<and>
   wc_words (wc_loop bufs wc_zero) = int (length (words blank (input_of bufs))) \<and>
   wc_chars (wc_loop bufs wc_zero) = int (length (input_of bufs))"
  by (simp add: cat_input filterCommand_def filter_loop_input wc_loop_input wc_fold wc_zero_def)

lemma s16_small: "\<bar>n\<bar> < 2 ^ 15 \<Longrightarrow> s16 n = n"
  by (simp add: s16_def signed_take_bit_int_eq_self)

text \<open>The pid of \<^verbatim>\<open>kill\<close> is cut to 16 bits: for a number typed in decimal the command asks the
  kernel to end exactly the process whose pid is the low 16 bits, signed; up to 32767 that is the
  number typed, but \<^verbatim>\<open>kill 65538\<close> ends process 2.\<close>
theorem kill_truncates_pid:
  assumes "0 \<le> n" and "n < 2 ^ 63"
  shows "\<exists>rest. calls (killCommand [name, numToString n]) env = SysKill (s16 n) # rest \<and>
    (n < 2 ^ 15 \<longrightarrow> s16 n = n) \<and> s16 65538 = 2"
proof -
  have "stringToInt (numToString n) = n" using assms numToString_text [of n] by simp
  then show ?thesis using assms s16_small [of n] by (simp add: killCommand_def Let_def) (simp add: s16_def)
qed

theorem kill_truncates_pid_witness:
  "\<exists>rest. calls (killCommand [bytes ''kill'', numToString 65538]) (\<lambda>r. \<lparr>ret = 0, fd0 = 0, fd1 = 0, got = []\<rparr>) = SysKill 2 # rest"
  using kill_truncates_pid [of 65538 "bytes ''kill''" "\<lambda>r. \<lparr>ret = 0, fd0 = 0, fd1 = 0, got = []\<rparr>"] by auto

subsection \<open>Command lookup\<close>

lemma ustrcmp_eq: "0 \<notin> set s1 \<Longrightarrow> 0 \<notin> set s2 \<Longrightarrow> ustrcmp s1 s2 = 0 \<longleftrightarrow> s1 = s2"
proof (induction s1 s2 rule: ustrcmp.induct)
  case (4 c1 s1 c2 s2)
  then show ?case by (auto simp: word_uint_eq_iff)
qed (auto simp: uint_0_iff)

lemma names_plain: "\<forall>e \<in> set validCommands. 0 \<notin> set (bytes (ce_name e))"
  by code_simp

lemma names_distinct: "distinct (map (\<lambda>e. bytes (ce_name e)) validCommands)"
  by code_simp

lemma command_loop_found:
  assumes "\<forall>e \<in> set es. 0 \<notin> set (bytes (ce_name e))" "distinct (map (\<lambda>e. bytes (ce_name e)) es)" "j < length es"
  shows "command_loop (bytes (ce_name (es ! j))) es i = i + int j"
  using assms
proof (induction es arbitrary: i j)
  case (Cons e es)
  show ?case
  proof (cases j)
    case (Suc k)
    then have "es ! k \<in> set es" using Cons.prems by simp
    then have "bytes (ce_name (es ! k)) \<noteq> bytes (ce_name e)" using Cons.prems(2) by (auto simp: image_iff)
    with Cons Suc \<open>es ! k \<in> set es\<close> show ?thesis by (simp add: ustrcmp_eq)
  qed (use Cons.prems in \<open>simp add: ustrcmp_eq\<close>)
qed simp

lemma command_loop_missing:
  assumes "0 \<notin> set name" "\<forall>e \<in> set es. 0 \<notin> set (bytes (ce_name e)) \<and> bytes (ce_name e) \<noteq> name"
  shows "command_loop name es i = -1"
  using assms by (induction es arbitrary: i) (auto simp: ustrcmp_eq)

text \<open>Looking a command up by its name, and a name that is no command.\<close>
lemma getCommandIndex_found: "j < length validCommands \<Longrightarrow> getCommandIndex (bytes (ce_name (validCommands ! j))) = int j"
proof -
  assume j: "j < length validCommands"
  have "\<forall>e \<in> set validCommands. bytes (ce_name e) \<noteq> []" by code_simp
  with j have "bytes (ce_name (validCommands ! j)) \<noteq> []" by (meson nth_mem)
  with command_loop_found [OF names_plain names_distinct j, of 0] show ?thesis by (simp add: getCommandIndex_def)
qed

lemma getCommandIndex_missing:
  assumes "0 \<notin> set name" "\<And>e. e \<in> set validCommands \<Longrightarrow> bytes (ce_name e) \<noteq> name"
  shows "getCommandIndex name = -1"
  using command_loop_missing [OF assms(1), of validCommands 0] assms(2) names_plain by (simp add: getCommandIndex_def)

end
