(* ===== verification/UShell.thy ===== *)
theory UShell
  imports UCommands
begin

text \<open>
  The shell \<^verbatim>\<open>Userland/SampleCodeModule/shell.c\<close>: reading and splitting a line, and running it as a
  program over system calls.  A string that C cuts in place with a terminator is the list of the
  bytes before it.
\<close>

section \<open>Lines\<close>

definition MAX_TOKENS :: nat where "MAX_TOKENS = 16"
definition MAX_PIPELINE :: nat where "MAX_PIPELINE = 2"
definition MAX_COMMAND_LENGTH :: nat where "MAX_COMMAND_LENGTH = 128"

datatype line_result = LineEof | Line "u8 list"

text \<open>\<^verbatim>\<open>readLine\<close> on the bytes its reads bring, one at a time (the end of the list is the end of file):
  the result, the characters echoed and the input left.\<close>
fun readLine :: "nat \<Rightarrow> u8 list \<Rightarrow> u8 list \<Rightarrow> u8 list \<Rightarrow> line_result \<times> u8 list \<times> u8 list" where
  "readLine maxLen [] line echo = (LineEof, echo, [])"
| "readLine maxLen (c # input) line echo =
     (if c = 0 then readLine maxLen input line echo
      else if c = 10 then (Line line, echo @ [10], input)
      else if c = 8 then
        (if length line > 0 then readLine maxLen input (butlast line) (echo @ [8]) else readLine maxLen input line echo)
      else if length line < maxLen - 1 \<and> isPrintableAscii c then readLine maxLen input (line @ [c]) (echo @ [c])
      else readLine maxLen input line echo)"

definition sblank :: "u8 \<Rightarrow> bool" where "sblank c \<longleftrightarrow> c = 32 \<or> c = 9"

text \<open>\<open>n\<close> is how many more tokens fit.\<close>
fun token_loop :: "nat \<Rightarrow> u8 list \<Rightarrow> u8 list list" where
  "token_loop 0 str = []"
| "token_loop (Suc n) str =
     (let str = dropWhile sblank str in
      if str = [] then []
      else takeWhile (\<lambda>c. \<not> sblank c) str # token_loop n (drop 1 (dropWhile (\<lambda>c. \<not> sblank c) str)))"

definition tokenize :: "u8 list \<Rightarrow> nat \<Rightarrow> u8 list list" where
  "tokenize str maxTokens = token_loop maxTokens str"

text \<open>\<open>stages\<close> holds the finished stages, \<open>cur\<close> the bytes of the current one; \<open>None\<close> is \<open>-1\<close>.\<close>
function split_loop :: "nat \<Rightarrow> u8 list \<Rightarrow> u8 list list \<Rightarrow> u8 list \<Rightarrow> u8 list list option" where
  "split_loop maxStages [] stages cur = Some (stages @ [cur])"
| "split_loop maxStages (c # p) stages cur =
     (if c = 124 then
        (if length stages + 1 \<ge> maxStages then None
         else split_loop maxStages (dropWhile (\<lambda>c. c = 32) p) (stages @ [cur]) [])
      else split_loop maxStages p stages (cur @ [c]))"
  by pat_completeness auto

termination split_loop
  by (relation "measure (\<lambda>(m, p, s, c). length p)") (auto simp: le_imp_less_Suc length_dropWhile_le)

definition splitPipeline :: "u8 list \<Rightarrow> nat \<Rightarrow> u8 list list option" where
  "splitPipeline line maxStages = split_loop maxStages line [] []"

definition rtrim :: "u8 list \<Rightarrow> u8 list" where
  "rtrim line = rev (dropWhile sblank (rev line))"

text \<open>The answer and the line as it is left.\<close>
definition hasBackground :: "u8 list \<Rightarrow> bool \<times> u8 list" where
  "hasBackground line =
     (let line = rtrim line in
      if line \<noteq> [] \<and> last line = 38 then (True, rtrim (butlast line)) else (False, line))"

section \<open>Running a line\<close>

definition runStage :: "u8 list \<Rightarrow> int \<Rightarrow> int \<Rightarrow> bool \<Rightarrow> int list \<Rightarrow> (int \<Rightarrow> prog) \<Rightarrow> prog" where
  "runStage stageStr stdinFd stdoutFd background closeFds k =
     (let tokens = tokenize stageStr MAX_TOKENS in
      if tokens = [] then k (-1)
      else (let cmdIdx = getCommandIndex (tokens ! 0) in
        if cmdIdx < 0 then
          writeStr STDERR (color_fg ''FF4040'' @ bytes ''Command not found: '')
            (writeStr STDERR (tokens ! 0) (writeStr STDERR (color_reset @ [10]) (k (-1))))
        else (let overrides =
                (if stdinFd = -1 then [(STDIN, -1)] else if stdinFd \<noteq> STDIN then [(STDIN, stdinFd)] else []) @
                (if stdoutFd \<noteq> STDOUT then [(STDOUT, stdoutFd)] else []) @ map (\<lambda>fd. (fd, -1)) closeFds
          in Call (SysSpawn (case getCommandEntry cmdIdx of None \<Rightarrow> 0 | Some e \<Rightarrow> of_nat e + 1) tokens overrides) (\<lambda>a.
               if ret a < 0 then writeStr STDERR (bytes ''shell: cannot spawn'' @ [10]) (k (-1))
               else if \<not> background then Call (SysForeground (s16 (ret a))) (\<lambda>_. k (ret a)) else k (ret a)))))"

definition close_child :: "int \<Rightarrow> prog \<Rightarrow> prog" where
  "close_child childStdin k = (if childStdin \<ge> 0 then Call (SysClose childStdin) (\<lambda>_. k) else k)"

definition run_one :: "bool \<Rightarrow> int \<Rightarrow> int \<Rightarrow> u8 list \<Rightarrow> prog" where
  "run_one background childStdin firstStdin stage =
     runStage stage firstStdin STDOUT background (if childStdin \<ge> 0 then [childStdin] else []) (\<lambda>pid.
       if pid \<ge> 0 \<and> \<not> background
       then Call (SysWaitpid (s16 pid)) (\<lambda>_. put_all [10] (close_child childStdin Exit))
       else close_child childStdin Exit)"

text \<open>The line with a pipe, in the order of the code: the first stage, the second stage with the shell's
  ends closed afterwards, and the wait.\<close>
definition close_pipe :: "int \<Rightarrow> int \<Rightarrow> prog \<Rightarrow> prog" where
  "close_pipe rd wr k = Call (SysClose rd) (\<lambda>_. Call (SysClose wr) (\<lambda>_. k))"

definition finish_two :: "bool \<Rightarrow> int \<Rightarrow> int \<Rightarrow> int \<Rightarrow> prog" where
  "finish_two background childStdin pid1 pid2 =
     (if pid2 < 0 then
        Call (SysKill (s16 pid1)) (\<lambda>_.
          if \<not> background then Call (SysWaitpid (s16 pid1)) (\<lambda>_. close_child childStdin Exit)
          else close_child childStdin Exit)
      else if \<not> background then
        Call (SysWaitpid (s16 pid1)) (\<lambda>_. Call (SysWaitpid (s16 pid2)) (\<lambda>_. put_all [10] (close_child childStdin Exit)))
      else close_child childStdin Exit)"

definition run_second :: "bool \<Rightarrow> int \<Rightarrow> int \<Rightarrow> int \<Rightarrow> u8 list \<Rightarrow> int \<Rightarrow> prog" where
  "run_second background childStdin rd wr stage1 pid1 =
     (if pid1 < 0 then close_pipe rd wr (close_child childStdin Exit)
      else runStage stage1 rd STDOUT background (wr # (if childStdin \<ge> 0 then [childStdin] else [])) (\<lambda>pid2.
        close_pipe rd wr (finish_two background childStdin pid1 pid2)))"

definition run_two :: "bool \<Rightarrow> int \<Rightarrow> int \<Rightarrow> u8 list \<Rightarrow> u8 list \<Rightarrow> prog" where
  "run_two background childStdin firstStdin stage0 stage1 =
     Call SysPipe (\<lambda>a.
       if ret a < 0 then writeStr STDERR (bytes ''shell: cannot create pipe'' @ [10]) (close_child childStdin Exit)
       else runStage stage0 firstStdin (fd1 a) background
         (fd0 a # (if childStdin \<ge> 0 \<and> childStdin \<noteq> firstStdin then [childStdin] else []))
         (run_second background childStdin (fd0 a) (fd1 a) stage1))"

definition runLine :: "u8 list \<Rightarrow> prog" where
  "runLine line =
     (case hasBackground line of (background, line) \<Rightarrow>
        (case splitPipeline line MAX_PIPELINE of
           None \<Rightarrow> writeStr STDERR (bytes ''shell: solo se admite un `|` por linea'' @ [10]) Exit
         | Some stages \<Rightarrow>
           if stages = [] then Exit
           else Call (SysReopen STDIN) (\<lambda>a.
             (let childStdin = ret a;
                  firstStdin = (if childStdin < 0 then (if background then -1 else STDIN)
                                else if background then -1 else childStdin)
              in if length stages = 1 then run_one background childStdin firstStdin (stages ! 0)
                 else run_two background childStdin firstStdin (stages ! 0) (stages ! 1)))))"

text \<open>The terminal's start: \<open>terminal\<close> is its entry point.\<close>
definition launchTerminal :: "u64 \<Rightarrow> prog \<Rightarrow> prog" where
  "launchTerminal terminal k =
     Call (SysDup STDIN STDOUT) (\<lambda>_. Call (SysDup STDIN STDERR) (\<lambda>_. Call SysPipe (\<lambda>a.
       if ret a < 0 then k
       else Call (SysDup (fd1 a) STDOUT) (\<lambda>_. Call (SysDup (fd1 a) STDERR) (\<lambda>_. Call (SysClose (fd1 a)) (\<lambda>_.
         Call (SysSpawn terminal [] [(STDIN, fd0 a), (STDOUT, -1), (STDERR, -1), (fd0 a, -1)]) (\<lambda>_.
           Call (SysClose (fd0 a)) (\<lambda>_. k))))))))"

section \<open>The shell process\<close>

definition terminalClear :: "prog \<Rightarrow> prog" where
  "terminalClear k = writeStr STDOUT [12] k"

definition PROMPT :: "u8 list" where
  "PROMPT = color_fg ''00FFFF'' @ bytes ''[SHELL]'' @ color_reset @ bytes '' > ''"

definition WELCOME :: "u8 list" where
  "WELCOME = color_fg ''00FF80'' @ bytes ''Welcome to TP2 SO G18 shell.'' @ color_reset @ bytes '' Type `help`.'' @ [10]"

lemma readLine_consumes: "readLine maxLen input line echo = (Line l, out, rest) \<Longrightarrow> length rest < length input"
  by (induction maxLen input line echo rule: readLine.induct) (auto split: if_splits)

text \<open>\<open>input\<close> is the bytes the reads of the shell bring until the end of file.\<close>
function shellLoop :: "u8 list \<Rightarrow> prog" where
  "shellLoop input = Call SysReapZombies (\<lambda>_. writeStr STDOUT PROMPT
     (case readLine MAX_COMMAND_LENGTH input [] [] of
        (LineEof, echo, rest) \<Rightarrow> put_all echo Exit
      | (Line line, echo, rest) \<Rightarrow>
          put_all echo (if line = [] then shellLoop rest else andThen (runLine line) (shellLoop rest))))"
  by pat_completeness auto

termination shellLoop
  by (relation "measure length") (auto dest: readLine_consumes [OF sym])

declare shellLoop.simps [simp del]

text \<open>\<open>terminal\<close> is the entry point of the terminal.\<close>
definition shellProcess :: "u64 \<Rightarrow> u8 list \<Rightarrow> prog" where
  "shellProcess terminal input = launchTerminal terminal
     (Call SysYield (\<lambda>_. terminalClear (writeStr STDOUT WELCOME (shellLoop input))))"

section \<open>Properties\<close>

subsection \<open>Reading and splitting\<close>

text \<open>What the echoed characters leave on the screen line.\<close>
definition replay :: "u8 list \<Rightarrow> u8 list" where
  "replay echo = foldl (\<lambda>l c. if c = 8 then butlast l else l @ [c]) [] echo"

lemma replay_snoc: "replay (echo @ [c]) = (if c = 8 then butlast (replay echo) else replay echo @ [c])"
  by (simp add: replay_def)

definition line_ok :: "nat \<Rightarrow> u8 list \<Rightarrow> bool" where
  "line_ok maxLen line \<longleftrightarrow> length line < maxLen \<and> list_all (\<lambda>c. isPrintableAscii c \<and> c \<noteq> 10 \<and> c \<noteq> 8 \<and> c \<noteq> 0) line"

lemma line_ok_butlast: "line_ok maxLen line \<Longrightarrow> line_ok maxLen (butlast line)"
  by (auto simp: line_ok_def list_all_iff dest: in_set_butlastD)

lemma readLine_keeps:
  assumes "readLine maxLen input line echo = (Line l, out, rest)" "line_ok maxLen line" "replay echo = line"
  shows "line_ok maxLen l \<and> (\<exists>e. out = e @ [10] \<and> replay e = l)"
  using assms
proof (induction maxLen input line echo rule: readLine.induct)
  case (2 maxLen c input line echo)
  consider "c = 0" | "c = 10" | "c = 8" | "c \<noteq> 0" "c \<noteq> 10" "c \<noteq> 8" by blast
  then show ?case
  proof cases
    case 3
    then show ?thesis using 2 by (auto simp: replay_snoc line_ok_butlast split: if_splits)
  next
    case 4
    show ?thesis
    proof (cases "length line < maxLen - 1 \<and> isPrintableAscii c")
      case True
      then have "line_ok maxLen (line @ [c])" using 2(7) 4 by (auto simp: line_ok_def)
      with True 4 2 show ?thesis by (simp add: replay_snoc)
    qed (use 2 4 in auto)
  qed (use 2 in auto)
qed simp

text \<open>C35. What is shown is what is run: a line that \<^verbatim>\<open>readLine\<close> returns fits its buffer with the
  terminator, holds only printable characters, and is exactly the text the echoed characters leave
  on the line after its backspaces.\<close>
theorem readLine_echo:
  assumes "readLine maxLen input [] [] = (Line l, out, rest)" and "0 < maxLen"
  shows "length l < maxLen \<and> list_all isPrintableAscii l \<and> (\<exists>e. out = e @ [10] \<and> replay e = l)"
  using readLine_keeps [OF assms(1)] assms(2) by (auto simp: line_ok_def replay_def list_all_iff)

theorem readLine_echo_witness:
  "\<exists>e. [108, 120, 8, 115, 10] = e @ [10] \<and> replay e = [108, 115 :: u8]"
  using readLine_echo [of 128 "[108, 120, 8, 0, 115, 10, 65]" "[108, 115]" "[108, 120, 8, 115, 10]" "[65]"]
  by (simp add: isPrintableAscii_def)

lemma words_dropWhile: "words P (dropWhile P xs) = words P xs"
  by (induction xs) auto

lemma words_drop_sep: "words P (drop 1 (dropWhile (\<lambda>y. \<not> P y) xs)) = words P (dropWhile (\<lambda>y. \<not> P y) xs)"
proof (cases "dropWhile (\<lambda>y. \<not> P y) xs")
  case (Cons y ys)
  then have "P y" using hd_dropWhile [of "\<lambda>y. \<not> P y" xs] by simp
  with Cons show ?thesis by simp
next
  case Nil
  then show ?thesis unfolding Nil by simp
qed

lemma words_split:
  assumes "dropWhile P xs = y # ys"
  shows "words P xs = (y # takeWhile (\<lambda>y. \<not> P y) ys) # words P (drop 1 (dropWhile (\<lambda>y. \<not> P y) (y # ys)))"
proof -
  have y: "\<not> P y" using assms hd_dropWhile [of P xs] by simp
  have "words P xs = words P (y # ys)" using assms words_dropWhile [of P xs] by simp
  with y show ?thesis using words_drop_sep [of P ys] by simp
qed

text \<open>C33. Tokens: \<^verbatim>\<open>tokenize\<close> gives the first \<open>n\<close> maximal runs of characters other than blanks and tabs,
  in order, so the command sees its words however many blanks separate or surround them.\<close>
theorem tokenize_words: "tokenize str n = take n (words sblank str)"
  unfolding tokenize_def
proof (induction n arbitrary: str)
  case (Suc n)
  show ?case
  proof (cases "dropWhile sblank str")
    case Nil
    have "words sblank str = []" using words_dropWhile [of sblank str] unfolding Nil by simp
    with Nil show ?thesis by (simp del: dropWhile_eq_Nil_conv)
  next
    case (Cons y ys)
    have "\<not> sblank y" using Cons hd_dropWhile [of sblank str] by simp
    with Cons words_split [OF Cons] Suc.IH show ?thesis by (simp add: Let_def)
  qed
qed simp

subsection \<open>Descriptors\<close>

text \<open>Which answers the kernel may give when the shell holds the descriptors \<open>S\<close>: a new descriptor
  is one that was free.\<close>
fun may_answer :: "req \<Rightarrow> answer \<Rightarrow> int set \<Rightarrow> bool" where
  "may_answer (SysReopen fd) a S \<longleftrightarrow> ret a < 0 \<or> ret a \<notin> S"
| "may_answer SysPipe a S \<longleftrightarrow> ret a < 0 \<or> fd0 a \<notin> S \<and> fd1 a \<notin> S \<and> fd0 a \<noteq> fd1 a"
| "may_answer r a S \<longleftrightarrow> True"

fun fds_after :: "req \<Rightarrow> answer \<Rightarrow> int set \<Rightarrow> int set" where
  "fds_after (SysReopen fd) a S = (if ret a < 0 then S else insert (ret a) S)"
| "fds_after SysPipe a S = (if ret a < 0 then S else insert (fd0 a) (insert (fd1 a) S))"
| "fds_after (SysClose fd) a S = S - {fd}"
| "fds_after (SysDup old new) a S = (if ret a < 0 then S else insert new S)"
| "fds_after r a S = S"

text \<open>A call is proper when it closes, or hands to a child, only descriptors the shell holds.\<close>
fun proper :: "req \<Rightarrow> int set \<Rightarrow> bool" where
  "proper (SysClose fd) S \<longleftrightarrow> fd \<in> S"
| "proper (SysSpawn e argv ovs) S \<longleftrightarrow> list_all (\<lambda>(affected, target). target = -1 \<or> target \<in> S) ovs"
| "proper r S \<longleftrightarrow> True"

text \<open>Every run of the program from descriptors \<open>S\<close> makes only proper calls and ends in \<open>Q\<close>.\<close>
abbreviation runs :: "prog \<Rightarrow> (int set \<Rightarrow> bool) \<Rightarrow> int set \<Rightarrow> bool" where
  "runs \<equiv> conforms proper may_answer fds_after"

interpretation fdc: quiet_writes proper may_answer fds_after
  by unfold_locales simp_all

lemmas runs_output [simp] = fdc.conforms_writeStr fdc.conforms_put_all

lemma runs_close_child [simp]:
  "runs (close_child c k) Q S \<longleftrightarrow> (if c \<ge> 0 then c \<in> S \<and> runs k Q (S - {c}) else runs k Q S)"
  by (simp add: close_child_def)

lemma runs_runStage:
  assumes "\<And>pid. runs (k pid) Q S" and "stdinFd = -1 \<or> stdinFd = 0 \<or> stdinFd \<in> S" and "stdoutFd = 1 \<or> stdoutFd \<in> S"
  shows "runs (runStage stage stdinFd stdoutFd bg closes k) Q S"
  using assms by (auto simp: runStage_def Let_def list_all_iff)

lemma runs_run_one:
  assumes "runs (close_child c Exit) Q S" "first = -1 \<or> first = 0 \<or> first \<in> S"
  shows "runs (run_one bg c first stage) Q S"
  unfolding run_one_def by (rule runs_runStage) (use assms in \<open>auto simp del: runs_close_child\<close>)

lemma runs_close_pipe:
  assumes "runs k Q S" "rd \<notin> S" "wr \<notin> S" "rd \<noteq> wr"
  shows "runs (close_pipe rd wr k) Q (insert rd (insert wr S))"
proof -
  have "insert rd (insert wr S) - {rd} - {wr} = S" using assms by auto
  then show ?thesis using assms by (simp add: close_pipe_def)
qed

lemma runs_finish_two:
  "runs (close_child c Exit) Q S \<Longrightarrow> runs (finish_two bg c pid1 pid2) Q S"
  by (simp add: finish_two_def del: runs_close_child)

lemma runs_run_second:
  assumes "runs (close_child c Exit) Q S" "rd \<notin> S" "wr \<notin> S" "rd \<noteq> wr"
  shows "runs (run_second bg c rd wr stage pid1) Q (insert rd (insert wr S))"
  unfolding run_second_def
  using assms by (auto intro!: runs_runStage runs_close_pipe runs_finish_two simp del: runs_close_child)

lemma runs_run_two:
  assumes "runs (close_child c Exit) Q S" "first = -1 \<or> first = 0 \<or> first \<in> S"
  shows "runs (run_two bg c first stage0 stage1) Q S"
  using assms by (auto simp: run_two_def simp del: runs_close_child intro!: runs_runStage runs_run_second)

text \<open>Running a line leaves the shell with the descriptors it had, on every path.\<close>
lemma runs_runLine: "runs (runLine line) (\<lambda>T. T = S) S"
proof -
  obtain bg rest where bg: "hasBackground line = (bg, rest)" by (cases "hasBackground line")
  show ?thesis
  proof (cases "splitPipeline rest MAX_PIPELINE")
    case None
    then show ?thesis by (simp add: runLine_def bg)
  next
    case (Some stages)
    have "runs (if length stages = 1 then run_one bg (ret a) first (stages ! 0) else run_two bg (ret a) first (stages ! 0) (stages ! 1))
        (\<lambda>T. T = S) (fds_after (SysReopen 0) a S)"
      if a: "may_answer (SysReopen 0) a S" and f: "first = -1 \<or> first = 0 \<or> first \<in> fds_after (SysReopen 0) a S" for a first
    proof -
      have "runs (close_child (ret a) Exit) (\<lambda>T. T = S) (fds_after (SysReopen 0) a S)" using a by auto
      from runs_run_one [OF this f] runs_run_two [OF this f] show ?thesis by (cases "length stages = 1") (simp_all del: fds_after.simps)
    qed
    then show ?thesis using Some by (auto simp: runLine_def bg Let_def)
  qed
qed

lemma runs_shellLoop: "runs (shellLoop input) (\<lambda>T. T = S) S"
proof (induction input rule: shellLoop.induct)
  case (1 input)
  obtain r out rest where r: "readLine MAX_COMMAND_LENGTH input [] [] = (r, out, rest)"
    by (cases "readLine MAX_COMMAND_LENGTH input [] []")
  show ?case
  proof (cases r)
    case LineEof
    then show ?thesis by (simp add: shellLoop.simps [of input] r)
  next
    case (Line line)
    have "runs (andThen (runLine line) (shellLoop rest)) (\<lambda>T. T = S) S" if "line \<noteq> []"
      using 1(2) [OF r [symmetric] Line refl that] runs_runLine [of line S]
      by (auto simp: conforms_andThen elim!: conforms_mono)
    then show ?thesis using 1(1) [OF r [symmetric] Line refl] Line by (auto simp: shellLoop.simps [of input] r)
  qed
qed

lemma runs_dup:
  assumes "P T" and "\<And>U. P U \<Longrightarrow> P (insert new U)" and "\<And>U. P U \<Longrightarrow> runs k Q U"
  shows "runs (Call (SysDup old new) (\<lambda>_. k)) Q T"
  using assms by simp

text \<open>The start of the terminal: the pipe to it is closed again on the side of the shell; only its
  standard output and error are bound anew.\<close>
lemma runs_terminal_pipe:
  assumes k: "\<And>T. T - {1, 2} = S - {1, 2} \<Longrightarrow> runs k Q T"
    and T: "T - {1, 2} = S - {1, 2}" and new: "rd \<notin> T" "wr \<notin> T" "rd \<noteq> wr"
  shows "runs (Call (SysDup wr STDOUT) (\<lambda>_. Call (SysDup wr STDERR) (\<lambda>_. Call (SysClose wr) (\<lambda>_.
         Call (SysSpawn terminal [] [(STDIN, rd), (STDOUT, -1), (STDERR, -1), (rd, -1)]) (\<lambda>_.
           Call (SysClose rd) (\<lambda>_. k)))))) Q (insert rd (insert wr T))"
proof -
  let ?P = "\<lambda>U. rd \<in> U \<and> wr \<in> U \<and> U - {rd, wr} - {1, 2} = S - {1, 2}"
  have "insert rd (insert wr T) - {rd, wr} = T" using new by auto
  then have P: "?P (insert rd (insert wr T))" using T by simp
  have ins: "?P (insert n U)" if "?P U" "n = 1 \<or> n = 2" for n U
    using that by (auto simp: insert_Diff_if)
  show ?thesis
  proof (rule runs_dup [where P = ?P, OF P])
    fix U assume U: "?P U"
    show "runs (Call (SysDup wr STDERR) (\<lambda>_. Call (SysClose wr) (\<lambda>_.
         Call (SysSpawn terminal [] [(STDIN, rd), (STDOUT, -1), (STDERR, -1), (rd, -1)]) (\<lambda>_.
           Call (SysClose rd) (\<lambda>_. k))))) Q U"
    proof (rule runs_dup [where P = ?P, OF U])
      fix V assume V: "?P V"
      moreover have "V - {wr} - {rd} = V - {rd, wr}" by auto
      ultimately show "runs (Call (SysClose wr) (\<lambda>_.
         Call (SysSpawn terminal [] [(STDIN, rd), (STDOUT, -1), (STDERR, -1), (rd, -1)]) (\<lambda>_.
           Call (SysClose rd) (\<lambda>_. k)))) Q V"
        using new(3) k by simp
    qed (use ins in simp)
  qed (use ins in simp)
qed

lemma runs_launchTerminal:
  assumes k: "\<And>T. T - {1, 2} = S - {1, 2} \<Longrightarrow> runs k Q T"
  shows "runs (launchTerminal terminal k) Q S"
proof -
  let ?P = "\<lambda>T. T - {1, 2} = S - {1, 2}"
  have pipe: "runs (Call SysPipe (\<lambda>a. if ret a < 0 then k
       else Call (SysDup (fd1 a) STDOUT) (\<lambda>_. Call (SysDup (fd1 a) STDERR) (\<lambda>_. Call (SysClose (fd1 a)) (\<lambda>_.
         Call (SysSpawn terminal [] [(STDIN, fd0 a), (STDOUT, -1), (STDERR, -1), (fd0 a, -1)]) (\<lambda>_.
           Call (SysClose (fd0 a)) (\<lambda>_. k))))))) Q T" if "?P T" for T
    using that k runs_terminal_pipe [OF k that] by simp
  have ins: "?P (insert n U)" if "?P U" "n = 1 \<or> n = 2" for n U
    using that by (auto simp: insert_Diff_if)
  show ?thesis unfolding launchTerminal_def
    by (intro runs_dup [where P = ?P]) (use pipe ins in \<open>simp_all del: conforms.simps\<close>)
qed

text \<open>C21. The shell neither leaks nor loses descriptors: whatever is typed and whatever the kernel
  answers (a new descriptor being a free one), a whole session, from the start of the terminal to the
  end of file, returns, closes only descriptors the shell holds, hands only such descriptors to its
  children, and ends, errors of every line included, with the descriptors it began with, standard
  output and error apart, which the terminal's pipe takes.\<close>
theorem shell_session_no_fd_leak:
  "runs (shellProcess terminal input) (\<lambda>T. T - {1, 2} = S - {1, 2}) S"
  unfolding shellProcess_def terminalClear_def
  by (rule runs_launchTerminal) (auto intro!: conforms_mono [OF runs_shellLoop])

end
