(* ===== verification/UMvar.thy ===== *)
theory UMvar
  imports UCommands
begin

text \<open>
  The MVar command \<^verbatim>\<open>Userland/SampleCodeModule/mvar.c\<close>: producers and consumers that share one slot
  under three named semaphores.  Each wait, post and access of a worker is one step, and any worker
  may take the next one.  A semaphore is its number of free units: a wait is possible when there is
  one, as the kernel's semaphores guarantee.
\<close>

section \<open>Workers\<close>

definition MAX_WORKERS :: int where "MAX_WORKERS = 10"

definition colorPalette :: "string list" where
  "colorPalette = [''FF6060'', ''60FF60'', ''6060FF'', ''FFFF60'', ''FF60FF'', ''60FFFF'', ''FFA030'', ''30FFA0'',
     ''A030FF'', ''FF80B0'']"

text \<open>The wait before each round, in milliseconds.\<close>
definition randomDelay :: "u16 \<Rightarrow> u16 \<times> nat" where
  "randomDelay rngCurrent = (case randomNext rngCurrent of (rngCurrent, r) \<Rightarrow> (rngCurrent, unat r mod 400 + 100))"

text \<open>What a worker does next.\<close>
datatype mv_pc = WaitSlot | WaitExcl | Access | PostExcl | PostSlot | Emit

text \<open>A producer with its letter; a consumer with its index and the character it read.\<close>
datatype worker = Producer u8 mv_pc | Consumer nat u8 mv_pc

text \<open>The text a consumer writes.\<close>
definition consumer_text :: "nat \<Rightarrow> u8 \<Rightarrow> u8 list" where
  "consumer_text idx ch = [0x1B, 102] @ bytes (colorPalette ! (idx mod length colorPalette)) @ [59] @ [ch] @ [0x1B, 114, 59]"

text \<open>The slot, the units of the semaphores, the workers, and the history: the values written to the
  slot, the values read from it, and the text output.\<close>
record mv_state =
  slotValue :: u8
  exclusion :: nat
  slotLibre :: nat
  slotLleno :: nat
  workers :: "worker list"
  written :: "u8 list"
  taken :: "u8 list"
  shown :: "u8 list"

definition set_worker :: "nat \<Rightarrow> worker \<Rightarrow> mv_state \<Rightarrow> mv_state" where
  "set_worker i w s = s\<lparr>workers := (workers s)[i := w]\<rparr>"

text \<open>The loop body of \<^verbatim>\<open>producerEntry\<close>, one action at a time; \<open>None\<close> when the worker waits.\<close>
fun producerEntry :: "nat \<Rightarrow> u8 \<Rightarrow> mv_pc \<Rightarrow> mv_state \<Rightarrow> mv_state option" where
  "producerEntry i ch WaitSlot s =
     (if slotLibre s = 0 then None else Some (set_worker i (Producer ch WaitExcl) (s\<lparr>slotLibre := slotLibre s - 1\<rparr>)))"
| "producerEntry i ch WaitExcl s =
     (if exclusion s = 0 then None else Some (set_worker i (Producer ch Access) (s\<lparr>exclusion := exclusion s - 1\<rparr>)))"
| "producerEntry i ch Access s =
     Some (set_worker i (Producer ch PostExcl) (s\<lparr>slotValue := ch, written := written s @ [ch]\<rparr>))"
| "producerEntry i ch PostExcl s = Some (set_worker i (Producer ch PostSlot) (s\<lparr>exclusion := exclusion s + 1\<rparr>))"
| "producerEntry i ch PostSlot s = Some (set_worker i (Producer ch WaitSlot) (s\<lparr>slotLleno := slotLleno s + 1\<rparr>))"
| "producerEntry i ch Emit s = None"

text \<open>The loop body of \<^verbatim>\<open>consumerEntry\<close>.\<close>
fun consumerEntry :: "nat \<Rightarrow> nat \<Rightarrow> u8 \<Rightarrow> mv_pc \<Rightarrow> mv_state \<Rightarrow> mv_state option" where
  "consumerEntry i idx ch WaitSlot s =
     (if slotLleno s = 0 then None else Some (set_worker i (Consumer idx ch WaitExcl) (s\<lparr>slotLleno := slotLleno s - 1\<rparr>)))"
| "consumerEntry i idx ch WaitExcl s =
     (if exclusion s = 0 then None else Some (set_worker i (Consumer idx ch Access) (s\<lparr>exclusion := exclusion s - 1\<rparr>)))"
| "consumerEntry i idx ch Access s =
     Some (set_worker i (Consumer idx (slotValue s) PostExcl) (s\<lparr>taken := taken s @ [slotValue s]\<rparr>))"
| "consumerEntry i idx ch PostExcl s = Some (set_worker i (Consumer idx ch PostSlot) (s\<lparr>exclusion := exclusion s + 1\<rparr>))"
| "consumerEntry i idx ch PostSlot s = Some (set_worker i (Consumer idx ch Emit) (s\<lparr>slotLibre := slotLibre s + 1\<rparr>))"
| "consumerEntry i idx ch Emit s = Some (set_worker i (Consumer idx ch WaitSlot) (s\<lparr>shown := shown s @ consumer_text idx ch\<rparr>))"

definition worker_step :: "nat \<Rightarrow> mv_state \<Rightarrow> mv_state option" where
  "worker_step i s =
     (if i < length (workers s)
      then (case workers s ! i of Producer ch pc \<Rightarrow> producerEntry i ch pc s | Consumer idx ch pc \<Rightarrow> consumerEntry i idx ch pc s)
      else None)"

text \<open>The state after \<^verbatim>\<open>mvarCommand\<close> opened the semaphores and started its workers.\<close>
definition mv_init :: "nat \<Rightarrow> nat \<Rightarrow> mv_state" where
  "mv_init nw nr = \<lparr>slotValue = 0, exclusion = 1, slotLibre = 1, slotLleno = 0,
     workers = map (\<lambda>i. Producer (65 + of_nat (i mod 26)) WaitSlot) [0..<nw] @ map (\<lambda>i. Consumer i 0 WaitSlot) [0..<nr],
     written = [], taken = [], shown = []\<rparr>"

inductive mv_reach :: "nat \<Rightarrow> nat \<Rightarrow> mv_state \<Rightarrow> bool" for nw nr where
  start: "mv_reach nw nr (mv_init nw nr)"
| step: "mv_reach nw nr s \<Longrightarrow> worker_step i s = Some s' \<Longrightarrow> mv_reach nw nr s'"

section \<open>The command\<close>

text \<open>\<open>producer\<close> and \<open>consumer\<close> are the entry points; the command ends in a loop of yields, the last call
  shown.\<close>
definition start_worker :: "u64 \<Rightarrow> u8 list list \<Rightarrow> prog \<Rightarrow> prog" where
  "start_worker entry args k = Call (SysCreate entry args) (\<lambda>a.
     if ret a \<ge> 0 then Call (SysForeground (s16 (ret a))) (\<lambda>_. k) else k)"

definition mvarCommand :: "u64 \<Rightarrow> u64 \<Rightarrow> u8 list list \<Rightarrow> prog" where
  "mvarCommand producer consumer argv =
     (if length argv < 3 then writeStr STDERR (bytes ''Usage: mvar <writers> <readers>'' @ [10]) Exit
      else (let nw = stringToInt (argv ! 1); nr = stringToInt (argv ! 2);
                readers = foldr (\<lambda>i. start_worker consumer [bytes ''mvar_r'', numToString (int i)]) [0..<nat (s32 nr)]
                  (Call SysYield (\<lambda>_. Exit));
                writers = foldr (\<lambda>i. start_worker producer [bytes ''mvar_w'', [65 + of_nat (i mod 26)]]) [0..<nat (s32 nw)] readers
            in if nw \<le> 0 \<or> s64 (nw + nr) > MAX_WORKERS \<or> nr \<le> 0
               then writeStr STDERR (bytes ''mvar: writers y readers deben ser entre 1 y 10'' @ [10]) Exit
               else foldr (\<lambda>r k. Call r (\<lambda>_. k))
                 [SysSemClose ''mv_excl'', SysSemClose ''mv_libre'', SysSemClose ''mv_lleno'',
                  SysSemOpen ''mv_excl'' 1, SysSemOpen ''mv_libre'' 1, SysSemOpen ''mv_lleno'' 0] writers))"

section \<open>Properties\<close>

text \<open>Who holds the slot's token, who is in the critical section, and who has left or may take a value.\<close>
fun tok :: "worker \<Rightarrow> nat" where
  "tok (Producer ch pc) = (if pc = WaitSlot \<or> pc = Emit then 0 else 1)"
| "tok (Consumer idx ch pc) = (if pc = WaitSlot \<or> pc = Emit then 0 else 1)"

fun crit :: "worker \<Rightarrow> nat" where
  "crit (Producer ch pc) = (if pc = Access \<or> pc = PostExcl then 1 else 0)"
| "crit (Consumer idx ch pc) = (if pc = Access \<or> pc = PostExcl then 1 else 0)"

fun full :: "worker \<Rightarrow> nat" where
  "full (Producer ch pc) = (if pc = PostExcl \<or> pc = PostSlot then 1 else 0)"
| "full (Consumer idx ch pc) = (if pc = WaitExcl \<or> pc = Access then 1 else 0)"

definition total_of :: "(worker \<Rightarrow> nat) \<Rightarrow> mv_state \<Rightarrow> nat" where
  "total_of f s = sum_list (map f (workers s))"

text \<open>The sum without the \<open>i\<close>-th worker.\<close>
definition rest_of :: "nat \<Rightarrow> (worker \<Rightarrow> nat) \<Rightarrow> mv_state \<Rightarrow> nat" where
  "rest_of i f s = sum_list (map f (take i (workers s))) + sum_list (map f (drop (Suc i) (workers s)))"

lemma total_split:
  assumes "i < length (workers s)" shows "total_of f s = rest_of i f s + f (workers s ! i)"
proof -
  have "map f (workers s) = map f (take i (workers s)) @ f (workers s ! i) # map f (drop (Suc i) (workers s))"
    using assms by (metis id_take_nth_drop list.simps(9) map_append)
  then show ?thesis by (simp add: total_of_def rest_of_def)
qed

lemma rest_set: "rest_of i f (set_worker i w s) = rest_of i f s"
  by (simp add: rest_of_def set_worker_def)

lemma total_ge: "i < length (workers s) \<Longrightarrow> f (workers s ! i) \<le> total_of f s"
  by (simp add: total_split)

lemma rest_mono: "(\<And>w. f w \<le> g w) \<Longrightarrow> rest_of i f s \<le> rest_of i g s"
  by (simp add: rest_of_def add_mono sum_list_mono)

lemma total_other:
  "i < length (workers s) \<Longrightarrow> (\<And>w. f w \<le> g w) \<Longrightarrow> total_of f s + g (workers s ! i) \<le> total_of g s + f (workers s ! i)"
  using rest_mono [of f g i s] by (simp add: total_split)

lemma total_upd [simp]:
  "total_of f (s\<lparr>slotLibre := a\<rparr>) = total_of f s" "total_of f (s\<lparr>slotLleno := a\<rparr>) = total_of f s"
  "total_of f (s\<lparr>exclusion := a\<rparr>) = total_of f s" "total_of f (s\<lparr>shown := c\<rparr>) = total_of f s"
  "total_of f (s\<lparr>slotValue := b, written := c\<rparr>) = total_of f s" "total_of f (s\<lparr>taken := c\<rparr>) = total_of f s"
  by (simp_all add: total_of_def)

lemma set_worker_fields [simp]:
  "slotValue (set_worker i w s) = slotValue s" "exclusion (set_worker i w s) = exclusion s"
  "slotLibre (set_worker i w s) = slotLibre s" "slotLleno (set_worker i w s) = slotLleno s"
  "written (set_worker i w s) = written s" "taken (set_worker i w s) = taken s"
  by (simp_all add: set_worker_def)

lemma full_le_tok: "full w \<le> tok w" by (cases w) auto

definition mv_inv :: "mv_state \<Rightarrow> bool" where
  "mv_inv s \<longleftrightarrow> slotLibre s + slotLleno s + total_of tok s = 1 \<and> exclusion s + total_of crit s = 1 \<and>
     written s = taken s @ (if slotLleno s + total_of full s = 1 then [slotValue s] else [])"

lemma moved:
  "i < length (workers s) \<Longrightarrow> total_of f (set_worker i w s) = total_of f s - f (workers s ! i) + f w"
proof -
  assume i: "i < length (workers s)"
  then have "i < length (workers (set_worker i w s))" "workers (set_worker i w s) ! i = w" by (simp_all add: set_worker_def)
  then show ?thesis using i by (simp add: total_split rest_set)
qed

lemma mv_inv_step:
  assumes inv: "mv_inv s" and st: "worker_step i s = Some s'"
  shows "mv_inv s'"
proof -
  have i: "i < length (workers s)" using st by (auto simp: worker_step_def split: if_splits)
  note o = total_other [where f = full and g = tok, OF i full_le_tok] total_ge [OF i, of tok] total_ge [OF i, of crit] total_ge [OF i, of full]
  show ?thesis
  proof (cases "workers s ! i")
    case (Producer ch pc)
    then have "producerEntry i ch pc s = Some s'" using st i by (simp add: worker_step_def)
    then show ?thesis
      using inv i Producer o by (cases pc) (auto simp: mv_inv_def moved split: if_splits)
  next
    case (Consumer idx ch pc)
    then have "consumerEntry i idx ch pc s = Some s'" using st i by (simp add: worker_step_def)
    then show ?thesis
      using inv i Consumer o by (cases pc) (auto simp: mv_inv_def moved split: if_splits)
  qed
qed

lemma mv_inv_init: "mv_inv (mv_init nw nr)"
proof -
  have "total_of f (mv_init nw nr) = 0" if "\<And>c. f (Producer c WaitSlot) = 0" "\<And>i. f (Consumer i 0 WaitSlot) = 0" for f
    using that by (simp add: total_of_def mv_init_def comp_def)
  then have "total_of tok (mv_init nw nr) = 0" "total_of crit (mv_init nw nr) = 0" "total_of full (mv_init nw nr) = 0" by simp_all
  then show ?thesis by (simp add: mv_inv_def) (simp add: mv_init_def)
qed

lemma mv_inv_reach: "mv_reach nw nr s \<Longrightarrow> mv_inv s"
  by (induction rule: mv_reach.induct) (auto intro: mv_inv_init mv_inv_step)

text \<open>C20. Every value is delivered exactly once and in order: in every reachable state of any number of
  producers and consumers, the values consumed are the values produced, in the same order, except
  for at most the last one, which is then the content of the slot; two workers are never in the
  critical section together.\<close>
theorem mvar_exactly_once:
  assumes "mv_reach nw nr s"
  shows "(written s = taken s \<or> written s = taken s @ [slotValue s]) \<and> total_of crit s \<le> 1 \<and>
    slotLibre s \<le> 1 \<and> slotLleno s \<le> 1"
  using mv_inv_reach [OF assms] by (auto simp: mv_inv_def split: if_splits)

theorem mvar_exactly_once_witness:
  "\<exists>s. mv_reach 1 1 s \<and> written s = [65] \<and> (written s = taken s \<or> written s = taken s @ [slotValue s])"
proof -
  define s1 where "s1 = (mv_init 1 1)\<lparr>slotLibre := 0, workers := [Producer 65 WaitExcl, Consumer 0 0 WaitSlot]\<rparr>"
  define s2 where "s2 = s1\<lparr>exclusion := 0, workers := [Producer 65 Access, Consumer 0 0 WaitSlot]\<rparr>"
  define s3 where "s3 = s2\<lparr>slotValue := 65, written := [65], workers := [Producer 65 PostExcl, Consumer 0 0 WaitSlot]\<rparr>"
  have "worker_step 0 (mv_init 1 1) = Some s1" by (simp add: worker_step_def mv_init_def set_worker_def s1_def)
  then have 1: "mv_reach 1 1 s1" by (rule mv_reach.step [OF mv_reach.start])
  have "worker_step 0 s1 = Some s2" by (simp add: worker_step_def mv_init_def set_worker_def s1_def s2_def)
  with 1 have 2: "mv_reach 1 1 s2" by (rule mv_reach.step)
  have "worker_step 0 s2 = Some s3" by (simp add: worker_step_def mv_init_def set_worker_def s1_def s2_def s3_def)
  with 2 have "mv_reach 1 1 s3" by (rule mv_reach.step)
  with mvar_exactly_once [OF this] show ?thesis by (intro exI [of _ s3]) (simp add: s3_def)
qed

subsection \<open>Progress\<close>

fun isProducer :: "worker \<Rightarrow> bool" where
  "isProducer (Producer ch pc) = True"
| "isProducer (Consumer idx ch pc) = False"

fun wellPlaced :: "worker \<Rightarrow> bool" where
  "wellPlaced (Producer ch pc) \<longleftrightarrow> pc \<noteq> Emit"
| "wellPlaced (Consumer idx ch pc) \<longleftrightarrow> True"

definition shape :: "mv_state \<Rightarrow> bool list \<Rightarrow> bool" where
  "shape s ks \<longleftrightarrow> map isProducer (workers s) = ks \<and> list_all wellPlaced (workers s)"

lemma shape_set:
  assumes "shape s ks" "i < length (workers s)" "workers t = workers s" "isProducer w = isProducer (workers s ! i)" "wellPlaced w"
  shows "shape (set_worker i w t) ks"
proof -
  have "(map isProducer (workers s))[i := isProducer w] = map isProducer (workers s)"
    using assms(2,4) by (simp add: list_update_same_conv)
  moreover have "list_all wellPlaced ((workers s)[i := w])"
    using assms(1,2,5) by (simp add: shape_def list_all_length nth_list_update)
  ultimately show ?thesis using assms(1,3) by (simp add: shape_def set_worker_def map_update)
qed

lemma shape_step:
  assumes "shape s ks" "worker_step i s = Some s'" shows "shape s' ks"
proof -
  have i: "i < length (workers s)" using assms(2) by (auto simp: worker_step_def split: if_splits)
  show ?thesis
  proof (cases "workers s ! i")
    case (Producer ch pc)
    then show ?thesis using assms i
      by (cases pc) (auto simp: worker_step_def split: if_splits intro!: shape_set [OF assms(1) i])
  next
    case (Consumer idx ch pc)
    then show ?thesis using assms i
      by (cases pc) (auto simp: worker_step_def split: if_splits intro!: shape_set [OF assms(1) i])
  qed
qed

lemma shape_reach: "mv_reach nw nr s \<Longrightarrow> shape s (replicate nw True @ replicate nr False)"
proof (induction rule: mv_reach.induct)
  case start
  show ?case by (auto simp: shape_def mv_init_def comp_def list_all_iff map_replicate_const)
qed (rule shape_step)

text \<open>Which workers can move, from the state of the semaphores alone.\<close>
lemma can_step:
  assumes "i < length (workers s)" "wellPlaced (workers s ! i)" "worker_step i s = None"
  shows "tok (workers s ! i) = 0 \<and> (if isProducer (workers s ! i) then slotLibre s = 0 else slotLleno s = 0) \<or>
    exclusion s = 0 \<and> crit (workers s ! i) = 0"
proof (cases "workers s ! i")
  case (Producer ch pc)
  then show ?thesis using assms by (cases pc) (auto simp: worker_step_def split: if_splits)
next
  case (Consumer idx ch pc)
  then show ?thesis using assms by (cases pc) (auto simp: worker_step_def split: if_splits)
qed

text \<open>C27. The workers never all wait: in every reachable state with at least one producer and one
  consumer some worker can take a step.\<close>
theorem mvar_no_deadlock:
  assumes "mv_reach nw nr s" and "0 < nw" and "0 < nr"
  shows "\<exists>i s'. worker_step i s = Some s'"
proof (rule ccontr)
  assume "\<nexists>i s'. worker_step i s = Some s'"
  then have stuck: "worker_step i s = None" for i by (cases "worker_step i s") auto
  have inv: "mv_inv s" and sh: "shape s (replicate nw True @ replicate nr False)"
    using mv_inv_reach shape_reach assms(1) by auto
  have len: "length (workers s) = nw + nr" and kinds: "map isProducer (workers s) = replicate nw True @ replicate nr False"
    using sh by (auto simp: shape_def dest: arg_cong [of _ _ length])
  have wp: "wellPlaced (workers s ! i)" if "i < nw + nr" for i
    using sh that len by (simp add: shape_def list_all_length)
  note blocked = can_step [OF _ _ stuck]
  have zero: "total_of f s = 0" if "\<And>i. i < nw + nr \<Longrightarrow> f (workers s ! i) = 0" for f
    using that len by (simp add: total_of_def in_set_conv_nth) (metis in_set_conv_nth)
  have excl: "exclusion s \<noteq> 0"
  proof
    assume e: "exclusion s = 0"
    have "crit (workers s ! i) = 0" if i: "i < nw + nr" for i
    proof -
      have "crit w \<le> tok w" for w by (cases w) auto
      then show ?thesis using blocked [of i] wp [OF i] i len by (metis le_zero_eq)
    qed
    then have "total_of crit s = 0" by (rule zero)
    with inv e show False by (simp add: mv_inv_def)
  qed
  have b: "tok (workers s ! i) = 0 \<and> (if isProducer (workers s ! i) then slotLibre s = 0 else slotLleno s = 0)" if "i < nw + nr" for i
    using blocked [of i] wp [OF that] that len excl by auto
  then have "total_of tok s = 0" by (intro zero) auto
  then have "slotLibre s = 1 \<or> slotLleno s = 1" using inv by (auto simp: mv_inv_def)
  moreover have "isProducer (workers s ! 0)" "\<not> isProducer (workers s ! nw)"
    using arg_cong [OF kinds, of "\<lambda>l. l ! 0"] arg_cong [OF kinds, of "\<lambda>l. l ! nw"] len assms(2,3)
    by (simp_all add: nth_append)
  ultimately show False using b [of 0] b [of nw] assms(2,3) by auto
qed

theorem mvar_no_deadlock_witness: "\<exists>i s'. worker_step i (mv_init 2 3) = Some s'"
  by (rule mvar_no_deadlock [OF mv_reach.start]) simp_all

end
