(* ===== verification/UMusic.thy ===== *)
theory UMusic
  imports UShell
begin

text \<open>
  The songs \<^verbatim>\<open>Userland/SampleCodeModule/music.c\<close> and the commands of \<^verbatim>\<open>commands.c\<close> whose course is a
  sequence of system calls: those that play songs, clear the screen, show the registers, raise an
  exception or loop.  A duration is a \<^verbatim>\<open>float\<close> in the code; every one of the tables is a multiple of an
  eighth of a quarter note, so it is kept in eighths, and the products of the code are exact.
\<close>

section \<open>Songs\<close>

definition MAX_SONG_LENGTH :: nat where "MAX_SONG_LENGTH = 512"

text \<open>The notes \<^verbatim>\<open>C\<close> to \<^verbatim>\<open>B\<close> are numbered from 0.\<close>
datatype Notes = N_C | N_C_SHARP | N_D | N_D_SHARP | N_E | N_F | N_F_SHARP | N_G | N_G_SHARP | N_A | N_A_SHARP | N_B

fun note_index :: "Notes \<Rightarrow> nat" where
  "note_index N_C = 0" | "note_index N_C_SHARP = 1" | "note_index N_D = 2" | "note_index N_D_SHARP = 3"
| "note_index N_E = 4" | "note_index N_F = 5" | "note_index N_F_SHARP = 6" | "note_index N_G = 7"
| "note_index N_G_SHARP = 8" | "note_index N_A = 9" | "note_index N_A_SHARP = 10" | "note_index N_B = 11"

definition noteFrequencies :: "int list list" where
  "noteFrequencies =
     [[16, 17, 18, 19, 21, 22, 23, 25, 26, 28, 29, 31],
      [33, 35, 37, 39, 41, 44, 46, 49, 52, 55, 58, 62],
      [65, 69, 73, 78, 82, 87, 93, 98, 104, 110, 117, 123],
      [131, 139, 147, 156, 165, 175, 185, 196, 208, 220, 233, 247],
      [262, 277, 294, 311, 330, 349, 370, 392, 415, 440, 466, 494],
      [523, 554, 587, 622, 659, 698, 740, 784, 831, 880, 932, 988],
      [1047, 1109, 1175, 1245, 1319, 1397, 1480, 1568, 1661, 1760, 1865, 1976]]"

text \<open>\<open>duration8\<close> is the duration in eighths of a quarter note.\<close>
record Note =
  frequency :: int
  duration8 :: int

text \<open>The entries of the array past \<open>song_length\<close> are left out: nothing reads them.\<close>
record Song =
  song_length :: int
  song_bpm :: int
  quarter_note :: int
  song_notes :: "Note list"

text \<open>\<open>None\<close> where the copy leaves one of the arrays or the division faults.\<close>
definition init_song :: "Note list \<Rightarrow> nat \<Rightarrow> int \<Rightarrow> Song option" where
  "init_song notes len bpm =
     (if len > length notes \<or> len > MAX_SONG_LENGTH \<or> bpm = 0 then None
      else Some \<lparr>song_length = int len, song_bpm = bpm, quarter_note = 60000 sdiv bpm,
                 song_notes = map (\<lambda>i. notes ! i) [0..<len]\<rparr>)"

definition nt :: "nat \<Rightarrow> Notes \<Rightarrow> int \<Rightarrow> Note" where
  "nt octave n d = \<lparr>frequency = noteFrequencies ! octave ! note_index n, duration8 = d\<rparr>"

definition rickroll_notes :: "Note list" where
  "rickroll_notes = [nt 4 N_C 12, nt 4 N_D 12, nt 3 N_G 8, nt 4 N_D 12, nt 4 N_E 12, nt 4 N_G 1, nt 4 N_F 1, nt 4 N_E 4,
     nt 4 N_C 12, nt 4 N_D 12, nt 3 N_G 24]"

definition coffin_intro_notes :: "Note list" where
  "coffin_intro_notes =
     [nt 4 N_C 4, nt 4 N_C 4, nt 4 N_C 4, nt 4 N_C 4, nt 4 N_E 4, nt 4 N_E 4, nt 4 N_E 4, nt 4 N_E 4,
      nt 4 N_D 4, nt 4 N_D 4, nt 4 N_D 4, nt 4 N_D 4, nt 4 N_G 4, nt 4 N_G 4, nt 4 N_G 4, nt 4 N_G 4,
      nt 4 N_A 4, nt 4 N_A 4, nt 4 N_A 4, nt 4 N_A 4, nt 4 N_A 4, nt 4 N_A 4,
      nt 4 N_A 4, nt 4 N_A 4, nt 4 N_A 4, nt 4 N_A 4, nt 4 N_A 4, nt 4 N_A 4,
      nt 4 N_D 4, nt 4 N_C 4, nt 3 N_B 4, nt 3 N_G 4]"

definition coffin_chorus_notes :: "Note list" where
  "coffin_chorus_notes =
     [nt 3 N_A 8, nt 3 N_A 4, nt 4 N_E 4, nt 4 N_D 8, nt 4 N_C 8,
      nt 3 N_B 8, nt 3 N_B 4, nt 3 N_B 4, nt 4 N_D 8, nt 4 N_C 4, nt 3 N_B 4,
      nt 3 N_A 8, nt 3 N_A 4, nt 5 N_C 4, nt 4 N_B 4, nt 5 N_C 4, nt 4 N_B 4, nt 5 N_C 4,
      nt 3 N_A 8, nt 3 N_A 4, nt 5 N_C 4, nt 4 N_B 4, nt 5 N_C 4, nt 4 N_B 4, nt 5 N_C 4]"

text \<open>The three songs of the module.\<close>
record songs =
  rickroll_song :: Song
  coffin_intro :: Song
  coffin_chorus :: Song

text \<open>A song of the zeroed data segment.\<close>
definition zero_song :: Song where
  "zero_song = \<lparr>song_length = 0, song_bpm = 0, quarter_note = 0, song_notes = []\<rparr>"

definition songs_at_start :: songs where
  "songs_at_start = \<lparr>rickroll_song = zero_song, coffin_intro = zero_song, coffin_chorus = zero_song\<rparr>"

definition init_music :: "songs \<Rightarrow> songs option" where
  "init_music s = Option.bind (init_song rickroll_notes (length rickroll_notes) 130) (\<lambda>r.
     Option.bind (init_song coffin_intro_notes (length coffin_intro_notes) 100) (\<lambda>i.
     Option.bind (init_song coffin_chorus_notes (length coffin_chorus_notes) 100) (\<lambda>c.
       Some (s\<lparr>rickroll_song := r, coffin_intro := i, coffin_chorus := c\<rparr>))))"

section \<open>Playing\<close>

text \<open>The milliseconds \<^verbatim>\<open>quarter_note * duration + extra\<close>, a positive \<^verbatim>\<open>float\<close> cut to an integer.\<close>
definition millis :: "int \<Rightarrow> int \<Rightarrow> int \<Rightarrow> u64" where
  "millis quarter d extra = word_of_int ((quarter * d + 8 * extra) div 8)"

definition play_note :: "int \<Rightarrow> Note \<Rightarrow> prog \<Rightarrow> prog" where
  "play_note quarter note k =
     Call (SysPlaySound (word_of_int (frequency note)) (millis quarter (duration8 note) 0)) (\<lambda>_.
       Call (SysSleep (millis quarter (duration8 note) (quarter sdiv 32))) (\<lambda>_. k))"

definition play_song :: "Song \<Rightarrow> prog \<Rightarrow> prog" where
  "play_song song k = foldr (\<lambda>i. play_note (quarter_note song) (song_notes song ! i)) [0..<nat (song_length song)] k"

text \<open>A note of \<^verbatim>\<open>coffin_dance\<close>, with its two sleeps.\<close>
definition dance_note :: "nat \<Rightarrow> Notes \<Rightarrow> u64 \<Rightarrow> prog \<Rightarrow> prog" where
  "dance_note octave n len k =
     Call (SysPlaySound (word_of_int (noteFrequencies ! octave ! note_index n)) len) (\<lambda>_.
       Call (SysSleep len) (\<lambda>_. Call (SysSleep 18) (\<lambda>_. k)))"

text \<open>At 100 beats a minute a quarter lasts 600 ms, an eighth 300, and the finger delay is 18.\<close>
definition coffin_dance :: "prog \<Rightarrow> prog" where
  "coffin_dance k = foldr (\<lambda>(octave, n, len). dance_note octave n len)
     (replicate 4 (4, N_C, 300) @ replicate 4 (4, N_E, 300) @ replicate 4 (4, N_D, 300) @ replicate 4 (4, N_G, 300) @
      replicate 8 (4, N_A, 300) @ replicate 4 (4, N_A, 300) @
      [(4, N_D, 300), (4, N_C, 300), (3, N_B, 300), (3, N_G, 300),
       (3, N_A, 600), (3, N_A, 300), (4, N_E, 300), (4, N_D, 600), (4, N_C, 600),
       (3, N_B, 600), (3, N_B, 300), (3, N_B, 300), (4, N_D, 600), (4, N_C, 300), (3, N_B, 300)] @
      concat (replicate 2 [(3, N_A, 600), (3, N_A, 300), (5, N_C, 300), (4, N_B, 300), (5, N_C, 300), (4, N_B, 300),
        (5, N_C, 300)])) k"

section \<open>Commands\<close>

definition clearCommand :: prog where "clearCommand = terminalClear Exit"

definition registersCommand :: prog where
  "registersCommand = Call SysRegisters (\<lambda>a.
     if ret a = 0 then writeStr STDERR (bytes ''No snapshot taken. Press F6 at any moment to take one.'' @ [10]) Exit else Exit)"

text \<open>Exception 0 is the division by zero, exception 6 the invalid opcode.\<close>
definition zeroCommand :: prog where "zeroCommand = Call (SysFault 0) (\<lambda>_. Exit)"
definition invalidCommand :: prog where "invalidCommand = Call (SysFault 6) (\<lambda>_. Exit)"

definition lsCommand :: "songs \<Rightarrow> prog" where
  "lsCommand s = writeStr STDERR (bytes ''Of course there is no file system'' @ [10]) (play_song (rickroll_song s) Exit)"

text \<open>An empty argument starts with its terminator.\<close>
definition musicCommand :: "songs \<Rightarrow> u8 list list \<Rightarrow> prog" where
  "musicCommand s argv =
     (if length argv < 2 then writeStr STDERR (bytes ''Usage: music <r|c>'' @ [10]) Exit
      else (let c = (case argv ! 1 of [] \<Rightarrow> 0 | c # _ \<Rightarrow> c) in
        if c = 114 then writeStr STDOUT (bytes ''Now playing: Rickroll Intro'' @ [10]) (play_song (rickroll_song s) Exit)
        else if c = 99 then writeStr STDOUT (bytes ''Now playing: Coffin Dance'' @ [10])
          (play_song (coffin_intro s) (play_song (coffin_chorus s) Exit))
        else writeStr STDERR (bytes ''Use r for Rickroll, c for Coffin Dance'' @ [10]) Exit))"

text \<open>The endless loop of \<^verbatim>\<open>loop\<close>: \<open>clock\<close> is how often it may still ask the clock, \<open>round\<close> what it does
  once the target is reached.\<close>
fun loop_wait :: "nat \<Rightarrow> u64 \<Rightarrow> (nat \<Rightarrow> prog) \<Rightarrow> prog" where
  "loop_wait 0 target round = Exit"
| "loop_wait (Suc clock) target round = Call SysKernelTime (\<lambda>a.
     if (word_of_int (ret a) :: u64) < target then loop_wait clock target round else round clock)"

text \<open>\<open>rounds\<close> bounds the rounds shown.\<close>
fun loop_rounds :: "nat \<Rightarrow> nat \<Rightarrow> int \<Rightarrow> int \<Rightarrow> prog" where
  "loop_rounds 0 clock secs pid = Exit"
| "loop_rounds (Suc rounds) clock secs pid =
     print ''Hola del PID %d'' [PInt pid] (put_all [10] (Call SysKernelTime (\<lambda>a.
       loop_wait clock (word_of_int (ret a) + word_of_int (s32 (secs * 1000))) (\<lambda>clock. loop_rounds rounds clock secs pid))))"

definition loopCommand :: "nat \<Rightarrow> nat \<Rightarrow> u8 list list \<Rightarrow> prog" where
  "loopCommand rounds clock argv =
     (let secs = (if length argv \<ge> 2 then (let v = stringToInt (argv ! 1) in if v > 0 then s32 v else 1) else 1)
      in Call SysGetpid (\<lambda>a. loop_rounds rounds clock secs (s16 (ret a))))"

section \<open>Properties\<close>

lemma calls_play_song:
  "calls (play_song song k) env = concat (map (\<lambda>i. let note = song_notes song ! i in
     [SysPlaySound (word_of_int (frequency note)) (millis (quarter_note song) (duration8 note) 0),
      SysSleep (millis (quarter_note song) (duration8 note) (quarter_note song sdiv 32))]) [0..<nat (song_length song)]) @
   calls k env"
proof -
  have "calls (foldr (\<lambda>i. play_note q (f i)) is k) env = concat (map (\<lambda>i. let note = f i in
     [SysPlaySound (word_of_int (frequency note)) (millis q (duration8 note) 0),
      SysSleep (millis q (duration8 note) (q sdiv 32))]) is) @ calls k env" for q f and "is" :: "nat list"
    by (induction "is") (simp_all add: play_note_def Let_def)
  then show ?thesis by (simp add: play_song_def)
qed

text \<open>A song made by \<open>init_song\<close> plays its notes in order, each followed by a sleep of its length and the
  finger delay.\<close>
definition score :: "int \<Rightarrow> int \<Rightarrow> Note list \<Rightarrow> req list" where
  "score quarter finger notes = concat (map (\<lambda>n.
     [SysPlaySound (word_of_int (frequency n)) (word_of_int (quarter * duration8 n div 8)),
      SysSleep (word_of_int (quarter * duration8 n div 8 + finger))]) notes)"

lemma calls_init_song:
  assumes "init_song notes (length notes) bpm = Some song" and "q = 60000 sdiv bpm"
  shows "calls (play_song song k) env = score q (q sdiv 32) notes @ calls k env"
proof -
  have m: "map (\<lambda>i. f (notes ! i)) [0..<length notes] = map f notes" for f :: "Note \<Rightarrow> req list"
    using map_nth [of "notes"] by (metis (no_types, lifting) list.map_comp comp_def map_eq_conv)
  have song: "song = \<lparr>song_length = int (length notes), song_bpm = bpm, quarter_note = q, song_notes = notes\<rparr>"
    using assms map_nth [of "notes"] by (simp add: init_song_def split: if_splits)
  let ?f = "\<lambda>n. [SysPlaySound (word_of_int (frequency n)) (millis q (duration8 n) 0),
      SysSleep (millis q (duration8 n) (q sdiv 32))]"
  show ?thesis using m [of ?f] by (simp add: song calls_play_song score_def millis_def Let_def add.commute)
qed

lemma calls_zero_song: "calls (play_song zero_song k) env = calls k env"
  by (simp add: calls_play_song zero_song_def)

text \<open>The songs are only there after \<open>init_music\<close>, which no file of the module calls: as the program
  runs, \<^verbatim>\<open>music r\<close>, \<^verbatim>\<open>music c\<close> and \<^verbatim>\<open>ls\<close> print their line and make no other call.  Initialised,
  \<^verbatim>\<open>music r\<close> plays the eleven notes of its table at 461 ms a quarter and \<^verbatim>\<open>music c\<close> the intro and then
  the chorus at 600 ms, every note slept out before the next.\<close>
theorem music_needs_init:
  "calls (musicCommand songs_at_start [name, [114]]) env = [SysWrite 1 (bytes ''Now playing: Rickroll Intro'' @ [10])] \<and>
   calls (musicCommand songs_at_start [name, [99]]) env = [SysWrite 1 (bytes ''Now playing: Coffin Dance'' @ [10])] \<and>
   calls (lsCommand songs_at_start) env = [SysWrite 2 (bytes ''Of course there is no file system'' @ [10])] \<and>
   (\<exists>s. init_music songs_at_start = Some s \<and>
      calls (musicCommand s [name, [114]]) env =
        SysWrite 1 (bytes ''Now playing: Rickroll Intro'' @ [10]) # score 461 14 rickroll_notes \<and>
      calls (musicCommand s [name, [99]]) env =
        SysWrite 1 (bytes ''Now playing: Coffin Dance'' @ [10]) #
          score 600 18 coffin_intro_notes @ score 600 18 coffin_chorus_notes)"
proof -
  have lens: "length rickroll_notes = 11" "length coffin_intro_notes = 32" "length coffin_chorus_notes = 25"
    by (simp_all add: rickroll_notes_def coffin_intro_notes_def coffin_chorus_notes_def)
  obtain r i c where
    r: "init_song rickroll_notes (length rickroll_notes) 130 = Some r" and
    i: "init_song coffin_intro_notes (length coffin_intro_notes) 100 = Some i" and
    c: "init_song coffin_chorus_notes (length coffin_chorus_notes) 100 = Some c"
    by (simp add: init_song_def lens MAX_SONG_LENGTH_def)
  have q: "(461 :: int) = 60000 sdiv 130" "(461 :: int) sdiv 32 = 14" "(600 :: int) = 60000 sdiv 100" "(600 :: int) sdiv 32 = 18"
    by (simp_all add: signed_divide_int_def)
  have "init_music songs_at_start = Some \<lparr>rickroll_song = r, coffin_intro = i, coffin_chorus = c\<rparr>"
    by (simp add: init_music_def r i c songs_at_start_def)
  then show ?thesis
    by (simp add: musicCommand_def lsCommand_def writeStr_def songs_at_start_def calls_zero_song
        calls_init_song [OF r q(1)] calls_init_song [OF i q(3)] calls_init_song [OF c q(3)] q(2,4))
qed

end
