(* ===== verification/UModule.thy ===== *)
theory UModule
  imports UShell KLib
begin

text \<open>
  The start of the user module (\<^verbatim>\<open>Userland/SampleCodeModule/_loader.c\<close>, \<^verbatim>\<open>sampleCodeModule.c\<close>) and the
  functions of \<^verbatim>\<open>cstandard.c\<close> that work on memory.  Their loops are those of the kernel's library, over
  the byte memory of the module.
\<close>

section \<open>Memory functions of the user library\<close>

definition umemset :: "u64 \<Rightarrow> u32 \<Rightarrow> u64 \<Rightarrow> mem \<Rightarrow> mem" where
  "umemset destiation c len m = memset_loop destiation (ucast c) (unat len) m"

definition umemcpy :: "u64 \<Rightarrow> u64 \<Rightarrow> u64 \<Rightarrow> mem \<Rightarrow> mem" where
  "umemcpy destination source len m =
     (if destination mod 4 = 0 \<and> source mod 4 = 0 \<and> len mod 4 = 0
      then copy_words destination source 0 (unat (len div 4)) m
      else copy_bytes destination source 0 (unat len) m)"

text \<open>The length is counted in an \<^verbatim>\<open>int\<close>.\<close>
definition ustrlen :: "mem \<Rightarrow> u64 \<Rightarrow> int option" where
  "ustrlen m str = map_option (\<lambda>len. sint (ucast len :: u32)) (strlen_loop m str 0)"

section \<open>Start of the module\<close>

text \<open>\<^verbatim>\<open>main\<close> is the shell.\<close>
definition module_main :: "u64 \<Rightarrow> u8 list \<Rightarrow> prog" where
  "module_main terminal input = shellProcess terminal input"

text \<open>\<^verbatim>\<open>_start\<close>: \<open>bss\<close> and \<open>endOfBinary\<close> are the addresses of the linker's symbols.\<close>
definition module_start :: "u64 \<Rightarrow> u64 \<Rightarrow> u64 \<Rightarrow> u8 list \<Rightarrow> mem \<Rightarrow> mem \<times> prog" where
  "module_start bss endOfBinary terminal input m =
     (umemset bss 0 (endOfBinary - bss) m, module_main terminal input)"

section \<open>Properties\<close>

text \<open>The kernel's and the module's copies agree.\<close>
lemma user_memory_functions:
  "umemset = memset" "umemcpy = memcpy"
  "ustrlen m p = map_option (\<lambda>len. sint (ucast len :: u32)) (strlen m p)"
  by (simp_all add: umemset_def memset_def umemcpy_def memcpy_def ustrlen_def strlen_def fun_eq_iff)

lemma memset_loop_region: "memset_loop d c n m = (\<lambda>a. if a \<in> region d n then c else m a)"
  by (induction n arbitrary: m) (auto simp: region_def lessThan_Suc fun_eq_iff)

text \<open>The module starts with its uninitialised data zeroed and nothing else changed, and runs the shell.\<close>
lemma module_start_clears:
  "module_start bss e terminal input m =
     ((\<lambda>a. if a \<in> region bss (unat (e - bss)) then 0 else m a), shellProcess terminal input)"
  by (simp add: module_start_def umemset_def memset_loop_region module_main_def)

end
