(* ===== verification/USync.thy ===== *)
theory USync
  imports UCommands
begin

text \<open>
  The synchronisation test \<^verbatim>\<open>Userland/SampleCodeModule/test_sync.c\<close>: pairs of processes that add and
  subtract on one shared number, with or without a named semaphore around each access.  Every load,
  store, random draw, yield and system call of a process is one step, and any process may take the
  next one.  The named semaphore is its number of users and of free units: opening it for the first
  time creates it with the value 1, closing it for the last time destroys it.
\<close>

section \<open>Processes\<close>

text \<open>What a process does next; \<open>TFailed\<close> is the exit of a process whose open was refused.\<close>
datatype ts_pc = TOpen | TWait | TLoad | TRand | TYield | TStore | TPost | TClose | TDone | TFailed

text \<open>\<open>runs\<close> is \<open>n\<close>, \<open>left\<close> the iterations still to do, \<open>aux\<close> the local of \<^verbatim>\<open>slowInc\<close>.\<close>
record ts_proc =
  pc :: ts_pc
  runs :: nat
  left :: nat
  inc :: u64
  aux :: u64

record ts_state =
  global :: u64
  sem_users :: nat
  sem_units :: nat
  rngCurrent :: u16
  ts_procs :: "ts_proc list"

definition upd_proc :: "nat \<Rightarrow> ts_proc \<Rightarrow> ts_state \<Rightarrow> ts_state" where
  "upd_proc i p s = s\<lparr>ts_procs := (ts_procs s)[i := p]\<rparr>"

text \<open>The head of the loop.\<close>
definition loop_head :: "bool \<Rightarrow> nat \<Rightarrow> ts_pc" where
  "loop_head use_sem k = (if k = 0 then (if use_sem then TClose else TDone) else if use_sem then TWait else TLoad)"

text \<open>One step of \<^verbatim>\<open>slowInc\<close>; \<open>after\<close> is where its caller goes on.\<close>
fun slowInc :: "(nat \<Rightarrow> ts_pc) \<Rightarrow> nat \<Rightarrow> ts_proc \<Rightarrow> ts_pc \<Rightarrow> ts_state \<Rightarrow> ts_state" where
  "slowInc after i p TLoad s = upd_proc i (p\<lparr>aux := global s, pc := TRand\<rparr>) s"
| "slowInc after i p TRand s = (case randomNext (rngCurrent s) of (r, v) \<Rightarrow>
     upd_proc i (p\<lparr>pc := if unat v mod 100 < 30 then TYield else TStore\<rparr>) (s\<lparr>rngCurrent := r\<rparr>))"
| "slowInc after i p TYield s = upd_proc i (p\<lparr>pc := TStore\<rparr>) s"
| "slowInc after i p _ s = upd_proc i (p\<lparr>left := left p - 1, pc := after (left p - 1)\<rparr>) (s\<lparr>global := aux p + inc p\<rparr>)"

text \<open>One step of \<^verbatim>\<open>my_process_inc\<close>, the arguments read; \<open>None\<close> when the process waits or has ended.  \<open>opened\<close>
  is whether the kernel grants the open.\<close>
fun my_process_inc :: "bool \<Rightarrow> bool \<Rightarrow> nat \<Rightarrow> ts_proc \<Rightarrow> ts_pc \<Rightarrow> ts_state \<Rightarrow> ts_state option" where
  "my_process_inc use_sem opened i p TOpen s =
     Some (if \<not> use_sem then upd_proc i (p\<lparr>pc := loop_head use_sem (left p)\<rparr>) s
           else if opened then upd_proc i (p\<lparr>pc := loop_head use_sem (left p)\<rparr>)
             (s\<lparr>sem_users := sem_users s + 1, sem_units := if sem_users s = 0 then 1 else sem_units s\<rparr>)
           else upd_proc i (p\<lparr>pc := TFailed\<rparr>) s)"
| "my_process_inc use_sem opened i p TWait s =
     (if sem_units s = 0 then None else Some (upd_proc i (p\<lparr>pc := TLoad\<rparr>) (s\<lparr>sem_units := sem_units s - 1\<rparr>)))"
| "my_process_inc use_sem opened i p TPost s =
     Some (upd_proc i (p\<lparr>pc := loop_head use_sem (left p)\<rparr>) (s\<lparr>sem_units := sem_units s + 1\<rparr>))"
| "my_process_inc use_sem opened i p TClose s = Some (upd_proc i (p\<lparr>pc := TDone\<rparr>) (s\<lparr>sem_users := sem_users s - 1\<rparr>))"
| "my_process_inc use_sem opened i p TDone s = None"
| "my_process_inc use_sem opened i p TFailed s = None"
| "my_process_inc use_sem opened i p at s = Some (slowInc (\<lambda>k. if use_sem then TPost else loop_head use_sem k) i p at s)"

definition ts_step :: "bool \<Rightarrow> bool \<Rightarrow> nat \<Rightarrow> ts_state \<Rightarrow> ts_state option" where
  "ts_step use_sem opened i s =
     (if i < length (ts_procs s) then my_process_inc use_sem opened i (ts_procs s ! i) (pc (ts_procs s ! i)) s else None)"

text \<open>The arguments of a process; \<open>None\<close> when it returns at once.\<close>
definition my_process_args :: "u8 list list \<Rightarrow> (ts_proc \<times> bool) option" where
  "my_process_args argv =
     (if length argv \<noteq> 4 then None
      else (let n = word_of_int (stringToInt (argv ! 1)) :: u64; inc = signed_take_bit 7 (stringToInt (argv ! 2));
                use_sem = signed_take_bit 7 (stringToInt (argv ! 3))
            in if n = 0 \<or> inc = 0 \<or> use_sem < 0 then None
               else Some (\<lparr>pc = TOpen, runs = unat n, left = unat n, inc = word_of_int inc, aux = 0\<rparr>, use_sem \<noteq> 0)))"

section \<open>The command\<close>

text \<open>The arguments \<^verbatim>\<open>test_sync\<close> hands to its processes.\<close>
definition argvDec :: "u8 list list \<Rightarrow> u8 list list" where
  "argvDec argv = [bytes ''my_process_inc'', argv ! 2, bytes ''-1'', argv ! 3]"
definition argvInc :: "u8 list list \<Rightarrow> u8 list list" where
  "argvInc argv = [bytes ''my_process_inc'', argv ! 2, bytes ''1'', argv ! 3]"

fun create_pairs :: "u64 \<Rightarrow> u8 list list \<Rightarrow> nat \<Rightarrow> (int \<times> int) list \<Rightarrow> ((int \<times> int) list \<Rightarrow> prog) \<Rightarrow> prog" where
  "create_pairs entry argv 0 pids k = k pids"
| "create_pairs entry argv (Suc n) pids k =
     Call (SysCreate entry (argvDec argv)) (\<lambda>a. Call (SysCreate entry (argvInc argv)) (\<lambda>b.
       create_pairs entry argv n (pids @ [(ret a, ret b)]) k))"

fun wait_pairs :: "(int \<times> int) list \<Rightarrow> prog \<Rightarrow> prog" where
  "wait_pairs [] k = k"
| "wait_pairs ((p, q) # ps) k = Call (SysWaitpid (s16 p)) (\<lambda>_. Call (SysWaitpid (s16 q)) (\<lambda>_. wait_pairs ps k))"

text \<open>\<open>final\<close> is the number the processes leave; it is cut to an \<^verbatim>\<open>int\<close>.\<close>
definition test_sync_command :: "u64 \<Rightarrow> u64 \<Rightarrow> u8 list list \<Rightarrow> prog" where
  "test_sync_command entry final argv =
     (if length argv \<noteq> 4 \<or> stringToInt (argv ! 1) \<le> 0 \<or> stringToInt (argv ! 2) \<le> 0 \<or>
         (stringToInt (argv ! 3) \<noteq> 0 \<and> stringToInt (argv ! 3) \<noteq> 1)
      then writeStr STDERR (bytes ''Usage: test_sync <n_procesos> <n_iter> <use_sem>'' @ [10, 0]) Exit
      else create_pairs entry argv (nat (stringToInt (argv ! 1))) [] (\<lambda>pids.
        wait_pairs pids (print ''Final value: %d'' [PInt (s32 (sint final))] (put_all [10] Exit))))"

text \<open>The processes of one run: \<open>k\<close> pairs with \<open>n\<close> iterations each.\<close>
definition ts_start :: "nat \<Rightarrow> nat \<Rightarrow> u16 \<Rightarrow> ts_state" where
  "ts_start k n r = \<lparr>global = 0, sem_users = 0, sem_units = 0, rngCurrent = r,
     ts_procs = concat (replicate k [\<lparr>pc = TOpen, runs = n, left = n, inc = -1, aux = 0\<rparr>, \<lparr>pc = TOpen, runs = n, left = n, inc = 1, aux = 0\<rparr>])\<rparr>"

inductive ts_reach :: "bool \<Rightarrow> ts_state \<Rightarrow> ts_state \<Rightarrow> bool" for use_sem s0 where
  start: "ts_reach use_sem s0 s0"
| step: "ts_reach use_sem s0 s \<Longrightarrow> ts_step use_sem opened i s = Some s' \<Longrightarrow> ts_reach use_sem s0 s'"

section \<open>Invariant\<close>






definition count :: "(ts_pc \<Rightarrow> nat) \<Rightarrow> ts_state \<Rightarrow> nat" where
  "count f s = sum_list (map (f \<circ> pc) (ts_procs s))"





lemma count_other [simp]:
  "count f (s\<lparr>global := g\<rparr>) = count f s" "count f (s\<lparr>sem_users := u\<rparr>) = count f s" "count f (s\<lparr>sem_units := v\<rparr>) = count f s"
  "count f (s\<lparr>rngCurrent := r\<rparr>) = count f s"
  by (simp_all add: count_def)

lemma upd_simps [simp]:
  "global (upd_proc i p s) = global s" "sem_users (upd_proc i p s) = sem_users s" "sem_units (upd_proc i p s) = sem_units s"
  "ts_procs (upd_proc i p s) = (ts_procs s)[i := p]"
  by (simp_all add: upd_proc_def)

lemma upd_proc_commute [simp]:
  "ts_procs (s\<lparr>global := g\<rparr>) = ts_procs s" "ts_procs (s\<lparr>sem_users := u\<rparr>) = ts_procs s"
  by simp_all



















text \<open>The steps of the given processes, one after the other.\<close>
fun ts_run :: "bool \<Rightarrow> nat list \<Rightarrow> ts_state \<Rightarrow> ts_state option" where
  "ts_run use_sem [] s = Some s"
| "ts_run use_sem (i # ids) s = Option.bind (ts_step use_sem True i s) (ts_run use_sem ids)"

lemma ts_run_reach: "ts_reach use_sem s0 s \<Longrightarrow> ts_run use_sem ids s = Some s' \<Longrightarrow> ts_reach use_sem s0 s'"
proof (induction ids arbitrary: s)
  case (Cons i ids)
  then obtain s1 where "ts_step use_sem True i s = Some s1" "ts_run use_sem ids s1 = Some s'" by (auto simp: bind_eq_Some_conv)
  with Cons show ?case by (blast intro: ts_reach.step)
qed simp

lemma rng_0: "rng 0 = 57588"
  by (simp add: rng_def Let_def)

section \<open>Properties\<close>



text \<open>Without the semaphore the race is real: two processes that run one iteration each can both end
  and leave 1 instead of 0, the decrement lost.\<close>
theorem test_sync_race:
  "\<exists>s. ts_reach False (ts_start 1 1 0) s \<and> (\<forall>p \<in> set (ts_procs s). pc p = TDone) \<and> global s = 1"
proof -
  have "map_option (\<lambda>s. (list_all (\<lambda>p. pc p = TDone) (ts_procs s), global s)) (ts_run False [0, 1, 0, 1, 0, 1, 0, 0, 1] (ts_start 1 1 0)) = Some (True, 1)"
    by (simp add: ts_start_def ts_step_def loop_head_def randomNext_def rng_0 upd_proc_def)
  then obtain s where "ts_run False [0, 1, 0, 1, 0, 1, 0, 0, 1] (ts_start 1 1 0) = Some s" "\<forall>p \<in> set (ts_procs s). pc p = TDone" "global s = 1"
    by (auto simp: list_all_iff)
  then show ?thesis using ts_run_reach [OF ts_reach.start] by blast
qed

end
