(* ===== verification/UMemTest.thy ===== *)
theory UMemTest
  imports KBoot UCommands
begin

text \<open>
  The memory test \<^verbatim>\<open>Userland/SampleCodeModule/test_mm.c\<close> against the kernel's memory manager: blocks of
  random sizes are requested until a limit, marked byte by byte, checked and given back.  The rounds
  of its endless loop are one function; the manager is a parameter, the memory a function of
  addresses.
\<close>

section \<open>One round\<close>

definition MAX_BLOCKS :: nat where "MAX_BLOCKS = 128"

record mm_rq =
  rq_address :: u64
  rq_size :: u32

definition mm_memset :: "u64 \<Rightarrow> u8 \<Rightarrow> nat \<Rightarrow> mem \<Rightarrow> mem" where
  "mm_memset dst v n mm = fold (\<lambda>i mm. mm(dst + of_nat i := v)) [0..<n] mm"

definition mm_memcheck :: "u64 \<Rightarrow> u8 \<Rightarrow> nat \<Rightarrow> mem \<Rightarrow> int" where
  "mm_memcheck dst v n mm = (case List.find (\<lambda>i. mm (dst + of_nat i) \<noteq> v) [0..<n] of None \<Rightarrow> -1 | Some i \<Rightarrow> int i)"

text \<open>One request; a refused one is tried again with the next random size.\<close>
definition mm_try :: "'m mm_ops \<Rightarrow> u64 \<Rightarrow> 'm \<times> u16 \<times> mm_rq list \<times> u32 \<Rightarrow> ('m \<times> u16 \<times> mm_rq list \<times> u32) option" where
  "mm_try ops max_memory = (\<lambda>(m, r, rqs, tot).
     case randomRange 1 (sint (max_memory - ucast tot)) r of (r, v) \<Rightarrow>
       (let size = ucast v :: u32 in do {
         (m, p) \<leftarrow> mm_alloc ops m (ucast size);
         Some (if p \<noteq> 0 then (m, r, rqs @ [\<lparr>rq_address = p, rq_size = size\<rparr>], tot + size) else (m, r, rqs, tot))
       }))"

partial_function (option) mm_fill :: "'m mm_ops \<Rightarrow> u64 \<Rightarrow> 'm \<times> u16 \<times> mm_rq list \<times> u32 \<Rightarrow> ('m \<times> u16 \<times> mm_rq list \<times> u32) option" where
  "mm_fill ops max_memory st =
     (case st of (m, r, rqs, tot) \<Rightarrow>
        if length rqs < MAX_BLOCKS \<and> ucast tot < max_memory
        then Option.bind (mm_try ops max_memory st) (mm_fill ops max_memory)
        else Some st)"

declare mm_fill.simps [simp del]

definition mm_mark :: "mm_rq list \<Rightarrow> mem \<Rightarrow> mem" where
  "mm_mark rqs mm = fold (\<lambda>i mm. if rq_address (rqs ! i) \<noteq> 0
     then mm_memset (rq_address (rqs ! i)) (of_nat i) (unat (rq_size (rqs ! i))) mm else mm) [0..<length rqs] mm"

definition mm_corrupted :: "mm_rq list \<Rightarrow> mem \<Rightarrow> bool" where
  "mm_corrupted rqs mm = list_ex (\<lambda>i. rq_address (rqs ! i) \<noteq> 0 \<and>
     mm_memcheck (rq_address (rqs ! i)) (of_nat i) (unat (rq_size (rqs ! i))) mm \<ge> 0) [0..<length rqs]"

fun mm_free_all :: "'m mm_ops \<Rightarrow> mm_rq list \<Rightarrow> 'm \<Rightarrow> 'm option" where
  "mm_free_all ops [] m = Some m"
| "mm_free_all ops (q # qs) m = do {
     m \<leftarrow> (if rq_address q \<noteq> 0 then mm_free ops m (rq_address q) else Some m);
     mm_free_all ops qs m
   }"

text \<open>The last component of the result is whether the round ended in \<^verbatim>\<open>test_mm ERROR\<close>, which gives
  the blocks back all the same.\<close>
definition test_mm_round :: "'m mm_ops \<Rightarrow> u64 \<Rightarrow> 'm \<times> u16 \<times> mem \<Rightarrow> (('m \<times> u16 \<times> mem) \<times> bool) option" where
  "test_mm_round ops max_memory = (\<lambda>(m, r, mm). do {
     (m, r, rqs, tot) \<leftarrow> mm_fill ops max_memory (m, r, [], 0);
     (let mm = mm_mark rqs mm in do {
       m \<leftarrow> mm_free_all ops rqs m;
       Some ((m, r, mm), mm_corrupted rqs mm)
     })
   })"

text \<open>The arguments of the command: a complaint or the limit.\<close>
definition test_mm_command :: "u8 list list \<Rightarrow> u8 list + u64" where
  "test_mm_command argv =
     (if length argv \<noteq> 2 then Inl (bytes ''Usage: test_mm <max_memory_bytes>'' @ [10])
      else (let parsed = stringToInt (argv ! 1) in
        if parsed \<le> 0 then Inl (bytes ''test_mm: max_memory invalido'' @ [10]) else Inr (word_of_int parsed)))"

section \<open>Marks\<close>

definition rq_range :: "mm_rq \<Rightarrow> u64 set" where
  "rq_range q = {rq_address q + of_nat j | j. j < unat (rq_size q)}"

lemma mm_memset_eq: "mm_memset dst v n mm a = (if \<exists>j<n. a = dst + of_nat j then v else mm a)"
  unfolding mm_memset_def by (induction n) (auto simp: less_Suc_eq)

lemma mm_memcheck_ok: "(\<And>j. j < n \<Longrightarrow> mm (dst + of_nat j) = v) \<Longrightarrow> mm_memcheck dst v n mm = -1"
proof -
  assume "\<And>j. j < n \<Longrightarrow> mm (dst + of_nat j) = v"
  then have "List.find (\<lambda>i. mm (dst + of_nat i) \<noteq> v) [0..<n] = None" by (auto simp: find_None_iff)
  then show ?thesis by (simp add: mm_memcheck_def)
qed

lemma mm_mark_snoc:
  "mm_mark (qs @ [q]) mm a = (if rq_address q \<noteq> 0 \<and> a \<in> rq_range q then of_nat (length qs) else mm_mark qs mm a)"
proof -
  have "fold (\<lambda>i mm. if rq_address ((qs @ [q]) ! i) \<noteq> 0
       then mm_memset (rq_address ((qs @ [q]) ! i)) (of_nat i) (unat (rq_size ((qs @ [q]) ! i))) mm else mm) [0..<length qs] mm = mm_mark qs mm"
    unfolding mm_mark_def by (rule fold_cong) (auto simp: nth_append fun_eq_iff)
  then show ?thesis by (auto simp: mm_mark_def mm_memset_eq rq_range_def)
qed

text \<open>Disjoint blocks keep their marks; bytes outside them keep their value.\<close>
lemma mm_mark_value:
  assumes "\<And>i j. i < j \<Longrightarrow> j < length qs \<Longrightarrow> rq_range (qs ! i) \<inter> rq_range (qs ! j) = {}"
    and "\<And>q. q \<in> set qs \<Longrightarrow> rq_address q \<noteq> 0"
  shows "i < length qs \<Longrightarrow> a \<in> rq_range (qs ! i) \<Longrightarrow> mm_mark qs mm a = of_nat i"
    and "\<forall>q \<in> set qs. a \<notin> rq_range q \<Longrightarrow> mm_mark qs mm a = mm a"
  using assms
proof (induction qs rule: rev_induct)
  case (snoc q qs)
  {
    case 1
    have d: "rq_range (qs ! i') \<inter> rq_range (qs ! j') = {}" if "i' < j'" "j' < length qs" for i' j'
      using 1(3) [of i' j'] that by (simp add: nth_append)
    have dq: "rq_range (qs ! i') \<inter> rq_range q = {}" if "i' < length qs" for i'
      using 1(3) [of i' "length qs"] that by (simp add: nth_append)
    show ?case
    proof (cases "i < length qs")
      case True
      then have "a \<in> rq_range (qs ! i)" using 1(2) by (simp add: nth_append)
      then show ?thesis using snoc.IH(1) [OF True _ d] 1(4) dq [OF True] by (auto simp: mm_mark_snoc)
    qed (use 1 in \<open>auto simp: mm_mark_snoc nth_append less_Suc_eq\<close>)
  next
    case 2
    have d: "rq_range (qs ! i') \<inter> rq_range (qs ! j') = {}" if "i' < j'" "j' < length qs" for i' j'
      using 2(2) [of i' j'] that by (simp add: nth_append)
    show ?case using snoc.IH(2) [OF _ d] 2(1,3) by (auto simp: mm_mark_snoc)
  }
qed (simp_all add: mm_mark_def)

section \<open>Sizes\<close>

lemma sint_small: "unat (x :: u64) < 2 ^ 63 \<Longrightarrow> sint x = int (unat x)"
proof -
  assume "unat x < 2 ^ 63"
  then have "int (unat x) < 2 ^ 63" by (metis of_nat_less_iff of_nat_numeral of_nat_power)
  then have "signed_take_bit 63 (int (unat x)) = int (unat x)" by (intro signed_take_bit_int_eq_self) (rule order_trans [of _ 0], simp_all)
  then show ?thesis by (simp add: sint_uint)
qed

lemma ucast_small: "0 \<le> w \<Longrightarrow> w < 2 ^ 32 \<Longrightarrow> unat (ucast (word_of_int w :: u64) :: u32) = nat w"
proof -
  assume w: "0 \<le> w" "w < 2 ^ 32"
  have "uint (word_of_int w :: u64) = w" using w by (simp add: uint_word_of_int_eq take_bit_int_eq_self)
  then have "uint (ucast (word_of_int w :: u64) :: u32) = w" using w by (simp only: unsigned_ucast_eq) (simp add: take_bit_int_eq_self)
  then show ?thesis by (metis nat_uint_eq)
qed

lemma unat_ucast_up: "unat (ucast (x :: u32) :: u64) = unat x"
  using unat_lt2p [of x] by (simp add: unsigned_ucast_eq take_bit_nat_eq_self)

text \<open>The bytes requested.\<close>
definition rq_bytes :: "mm_rq list \<Rightarrow> nat" where
  "rq_bytes rqs = sum_list (map (\<lambda>q. unat (rq_size q)) rqs)"

text \<open>A request within the bounds of the generator.\<close>
lemma random_size:
  assumes mx: "unat (mx :: u64) < 2 ^ 31" "x < mx"
  obtains r' v where "randomRange 1 (sint (mx - x)) r = (r', v)" "1 \<le> unat (ucast v :: u32)" "unat (ucast v :: u32) \<le> unat mx - unat x + 1"
proof -
  define D where "D = unat mx - unat x"
  have d: "unat (mx - x) = D" "1 \<le> D" "D < 2 ^ 31" using mx by (simp_all add: D_def unat_sub word_less_nat_alt word_le_nat_alt)
  have s: "sint (mx - x) = int D" using sint_small [of "mx - x"] d(1,3) by simp
  obtain r' v where rv: "randomRange 1 (sint (mx - x)) r = (r', v)" by (cases "randomRange 1 (sint (mx - x)) r")
  obtain w where w: "v = word_of_int w" "1 \<le> w" "w \<le> int D + 1"
    using randomRange_value [of 1 "int D" r] rv d(2,3) unfolding s by (auto split: if_splits)
  moreover from this have "unat (ucast v :: u32) = nat w" using d(3) ucast_small [of w] by simp
  ultimately show thesis by (intro that [OF rv]) (auto simp flip: D_def)
qed

section \<open>Blocks\<close>

text \<open>A manager whose blocks do not run past the end of the address space.\<close>
locale bounded_allocator = roomy_allocator ops inv blocks limit room
  for ops :: "'m mm_ops" and inv :: "'m \<Rightarrow> bool" and blocks :: "'m \<Rightarrow> u64 \<rightharpoonup> nat" and limit :: "'m \<Rightarrow> nat" and room :: "'m \<Rightarrow> nat \<Rightarrow> bool" +
  assumes bounded_law: "inv m \<Longrightarrow> blocks m p = Some k \<Longrightarrow> unat p + k \<le> 2 ^ 64"
begin

text \<open>The requests served so far, over the blocks that were live before the round.\<close>
definition served :: "'m \<Rightarrow> 'm \<Rightarrow> mm_rq list \<Rightarrow> bool" where
  "served m0 m rqs \<longleftrightarrow> inv m \<and> limit m = limit m0 \<and> distinct (map rq_address rqs) \<and>
     (\<forall>a. a \<notin> rq_address ` set rqs \<longrightarrow> blocks m a = blocks m0 a) \<and>
     (\<forall>q \<in> set rqs. rq_address q \<noteq> 0 \<and> blocks m0 (rq_address q) = None \<and> (\<exists>k. blocks m (rq_address q) = Some k \<and> unat (rq_size q) \<le> k))"

lemma served_Nil: "inv m \<Longrightarrow> served m m []"
  by (simp add: served_def)

lemma served_snoc:
  assumes s: "served m0 m rqs" and new: "inv m'" "limit m' = limit m" "blocks m p = None" "p \<noteq> 0" "blocks m' = (blocks m)(p \<mapsto> k)" "unat sz \<le> k"
  shows "served m0 m' (rqs @ [\<lparr>rq_address = p, rq_size = sz\<rparr>])"
proof -
  have p: "p \<notin> rq_address ` set rqs" using s new(3) by (auto simp: served_def)
  moreover from this have "blocks m0 p = None" using s new(3) by (simp add: served_def)
  ultimately show ?thesis using s new by (auto simp: served_def)
qed

lemma served_apart:
  assumes s: "served m0 m rqs" and i: "i < j" "j < length rqs"
  shows "rq_range (rqs ! i) \<inter> rq_range (rqs ! j) = {}"
proof -
  let ?p = "rqs ! i" and ?q = "rqs ! j"
  have mem: "?p \<in> set rqs" "?q \<in> set rqs" using i by simp_all
  obtain k l where b: "blocks m (rq_address ?p) = Some k" "unat (rq_size ?p) \<le> k" "blocks m (rq_address ?q) = Some l" "unat (rq_size ?q) \<le> l"
    using s mem unfolding served_def by blast
  have inv: "inv m" using s by (simp add: served_def)
  have ne: "rq_address ?p \<noteq> rq_address ?q" using s i by (simp add: served_def distinct_conv_nth)
  have at: "unat (a + of_nat x) = unat a + x" if "unat a + h \<le> 2 ^ 64" "x < h" for a :: u64 and h x
    using that by (simp add: unat_add_no_wrap unat_of_nat_u64)
  note d = disjoint_law [OF inv b(1,3) ne] and w = bounded_law [OF inv b(1)] bounded_law [OF inv b(3)]
  show ?thesis
  proof (rule ccontr)
    assume "rq_range ?p \<inter> rq_range ?q \<noteq> {}"
    then obtain x y where "x < unat (rq_size ?p)" "y < unat (rq_size ?q)" "rq_address ?p + of_nat x = rq_address ?q + of_nat y"
      by (auto simp: rq_range_def)
    then have "x < k" "y < l" "unat (rq_address ?p) + x = unat (rq_address ?q) + y"
      using b(2,4) at [OF w(1), of x] at [OF w(2), of y] by simp_all
    with d show False by linarith
  qed
qed

text \<open>No mark is lost.\<close>
lemma served_intact:
  assumes s: "served m0 m rqs"
  shows "\<not> mm_corrupted rqs (mm_mark rqs mm)"
proof -
  have nz: "rq_address q \<noteq> 0" if "q \<in> set rqs" for q using s that by (simp add: served_def)
  have "mm_memcheck (rq_address (rqs ! i)) (of_nat i) (unat (rq_size (rqs ! i))) (mm_mark rqs mm) = -1" if "i < length rqs" for i
  proof (rule mm_memcheck_ok)
    fix j assume "j < unat (rq_size (rqs ! i))"
    then have "rq_address (rqs ! i) + of_nat j \<in> rq_range (rqs ! i)" by (auto simp: rq_range_def)
    then show "mm_mark rqs mm (rq_address (rqs ! i) + of_nat j) = of_nat i"
      using mm_mark_value(1) [of rqs i "rq_address (rqs ! i) + of_nat j" mm] served_apart [OF s] nz that by blast
  qed
  then show ?thesis by (simp add: mm_corrupted_def list_ex_iff)
qed

lemma served_free:
  "served m0 m rqs \<Longrightarrow> \<exists>m'. mm_free_all ops rqs m = Some m' \<and> inv m' \<and> limit m' = limit m0 \<and> blocks m' = blocks m0"
proof (induction rqs arbitrary: m)
  case Nil
  then show ?case by (auto simp: served_def)
next
  case (Cons q qs)
  then obtain k where k: "blocks m (rq_address q) = Some k" "rq_address q \<noteq> 0" "inv m" by (auto simp: served_def)
  obtain m1 where m1: "mm_free ops m (rq_address q) = Some m1" "inv m1" "limit m1 = limit m" "blocks m1 = (blocks m)(rq_address q := None)"
    using free_law [OF k(3,1)] by blast
  have "served m0 m1 qs" using Cons.prems m1 unfolding served_def by (auto simp: image_iff)
  from Cons.IH [OF this] show ?case using m1(1) k(2) by simp
qed

text \<open>Every request is served: with room for all of them the loop ends, after at most 128 rounds.\<close>
lemma mm_fill_serves:
  assumes "served m0 m rqs" "length rqs \<le> 128" "unat (mx :: u64) < 2 ^ 31" "unat tot \<le> unat mx + 1" "2 ^ 32 \<le> limit m0"
    "room m (unat mx + 1 - unat tot + (128 - length rqs) * 48)" "unat tot = rq_bytes rqs"
  shows "\<exists>m' r' rqs' tot'. mm_fill ops mx (m, r, rqs, tot) = Some (m', r', rqs', tot') \<and> served m0 m' rqs' \<and>
    length rqs' \<le> 128 \<and> (length rqs' = 128 \<or> unat mx \<le> rq_bytes rqs')"
  using assms
proof (induction "128 - length rqs" arbitrary: m r rqs tot rule: less_induct)
  case less
  show ?case
  proof (cases "length rqs < MAX_BLOCKS \<and> ucast tot < mx")
    case False
    then show ?thesis using less.prems by (subst mm_fill.simps) (auto simp: MAX_BLOCKS_def unat_ucast_up word_less_nat_alt)
  next
    case True
    have t: "unat (ucast tot :: u64) = unat tot" by (simp add: unat_ucast_up)
    then have tmx: "unat tot < unat mx" using True by (simp add: word_less_nat_alt)
    from random_size [OF less.prems(3) conjunct2 [OF True], of r] obtain r' v where
      v: "randomRange 1 (sint (mx - ucast tot)) r = (r', v)" "1 \<le> unat (ucast v :: u32)" "unat (ucast v :: u32) \<le> unat mx - unat tot + 1"
      by (auto simp: t)
    define sz where "sz = (ucast v :: u32)"
    have sz: "unat (ucast sz :: u64) = unat sz" "(ucast sz :: u64) \<noteq> 0" "unat sz \<le> unat mx - unat tot + 1" "1 \<le> unat sz"
      using v(2,3) by (auto simp: sz_def unat_ucast_up word_unat_eq_iff)
    have inv: "inv m" "limit m = limit m0" using less.prems(1) by (simp_all add: served_def)
    have lim: "unat (ucast sz :: u64) \<le> limit m" using inv(2) less.prems(5) unat_lt2p [of sz] by (simp add: sz(1))
    have len: "length rqs < 128" using True by (simp add: MAX_BLOCKS_def)
    let ?N = "unat mx + 1 - unat tot + (128 - length rqs) * 48"
    have "unat (ucast sz :: u64) + 48 \<le> ?N" using sz(1,3) tmx len by (simp add: diff_mult_distrib)
    from room_alloc [OF less.prems(6) sz(2) this] obtain m' p where
      a: "mm_alloc ops m (ucast sz) = Some (m', p)" "p \<noteq> 0" "room m' (?N - (unat (ucast sz :: u64) + 48))" .
    obtain k where b: "inv m'" "limit m' = limit m" "blocks m p = None" "unat sz \<le> k" "blocks m' = (blocks m)(p \<mapsto> k)"
      using alloc_law [OF inv(1) sz(2) lim] a(1,2) sz(1) by auto
    let ?q = "rqs @ [\<lparr>rq_address = p, rq_size = sz\<rparr>]"
    have "mm_try ops mx (m, r, rqs, tot) = Some (m', r', ?q, tot + sz)" using v(1) a(1,2) by (simp add: mm_try_def sz_def [symmetric])
    then have run: "mm_fill ops mx (m, r, rqs, tot) = mm_fill ops mx (m', r', ?q, tot + sz)"
      using True by (subst mm_fill.simps) simp
    have sum: "unat (tot + sz) = unat tot + unat sz" using sz(3) tmx less.prems(3) by (simp add: unat_word_ariths)
    show ?thesis
      unfolding run
    proof (rule less.hyps)
      show "128 - length ?q < 128 - length rqs" "length ?q \<le> 128" using len by simp_all
      show "served m0 m' ?q" by (rule served_snoc [OF less.prems(1) b(1,2,3) a(2) b(5,4)])
      show "unat (tot + sz) \<le> unat mx + 1" using sum sz(3) tmx by simp
      show "unat (tot + sz) = rq_bytes ?q" using sum less.prems(7) by (simp add: rq_bytes_def)
      show "room m' (unat mx + 1 - unat (tot + sz) + (128 - length ?q) * 48)"
        by (rule room_less [OF a(3)]) (use sum sz(1,3) tmx len in \<open>simp add: diff_mult_distrib\<close>)
    qed (use less.prems in simp_all)
  qed
qed

lemma test_mm_round_passes:
  assumes "inv m" "0 < mx" "unat (mx :: u64) < 2 ^ 31" "2 ^ 32 \<le> limit m" "room m (unat mx + 6145)"
  obtains m' r' rqs where "test_mm_round ops mx (m, r, mm) = Some ((m', r', mm_mark rqs mm), False)" "inv m'" "limit m' = limit m" "blocks m' = blocks m"
    "\<And>a. (\<And>q. q \<in> set rqs \<Longrightarrow> a \<notin> rq_range q) \<Longrightarrow> mm_mark rqs mm a = mm a" "length rqs = 128 \<or> unat mx \<le> rq_bytes rqs"
proof -
  have "room m (unat mx + 1 - unat (0 :: u32) + (128 - length []) * 48)" using assms(5) by (rule room_less) simp
  from mm_fill_serves [OF served_Nil [OF assms(1)] _ assms(3) _ assms(4) this, of r] obtain m1 r' rqs tot where
    f: "mm_fill ops mx (m, r, [], 0) = Some (m1, r', rqs, tot)" "served m m1 rqs" "length rqs = 128 \<or> unat mx \<le> rq_bytes rqs"
    by (auto simp: rq_bytes_def)
  obtain m' where g: "mm_free_all ops rqs m1 = Some m'" "inv m'" "limit m' = limit m" "blocks m' = blocks m" using served_free [OF f(2)] by blast
  have "mm_mark rqs mm a = mm a" if "\<And>q. q \<in> set rqs \<Longrightarrow> a \<notin> rq_range q" for a
    using mm_mark_value(2) [of rqs a mm] served_apart [OF f(2)] f(2) that by (auto simp: served_def)
  moreover have "test_mm_round ops mx (m, r, mm) = Some ((m', r', mm_mark rqs mm), False)"
    using f(1) g(1) served_intact [OF f(2)] by (simp add: test_mm_round_def)
  ultimately show thesis using f(3) g(2-4) by (intro that [of m' r' rqs]) simp_all
qed

end

section \<open>Properties\<close>

interpretation flb: bounded_allocator fl_ops fl_inv fl_blocks "\<lambda>_. 2 ^ 64 - 8" fl_room
proof (unfold_locales, goal_cases)
  case (1 m p k)
  then obtain bs where rep: "fl_rep m bs" by (auto simp: fl_inv_def)
  then have "live bs p = Some k" using 1(2) fl_blocks_rep by simp
  then obtain t where t: "(p - HEADER_SIZE, t, False) \<in> set bs" "k = unat t"
    using live_iff [OF fl_rep_distinct [OF rep], of p k] by auto
  have "unat (p - HEADER_SIZE) + 32 + unat t \<le> unat (baseBlock m) + unat (totalBytes m)" "unat (baseBlock m) + unat (totalBytes m) < 2 ^ 64"
    using rep layout_bounds [OF _ t(1)] by (auto simp: fl_rep_def)
  moreover have "unat p = unat (p - HEADER_SIZE) + 32" using payload_nonnull(2) [OF rep t(1)] by simp
  ultimately show ?case using t(2) by simp
qed

text \<open>C23. A round of the memory test over the free list ends and passes: for a positive limit
  below \<open>2 ^ 31\<close>, when the heap ends with a free block of at least 6145 bytes more than the limit, room for
  the headers and rounding of 128 blocks, the allocation loop serves every request until 128 blocks or the limit are reached, no mark
  of one block is overwritten by another, no byte outside the blocks is written, and all the
  blocks are given back, so that exactly the blocks live before are live after.\<close>
theorem test_mm_round_terminates:
  assumes "fl_inv m" "0 < mx" "unat mx < 2 ^ 31" "fl_room m (unat mx + 6145)"
  shows "\<exists>m' r' rqs. test_mm_round fl_ops mx (m, r, mm) = Some ((m', r', mm_mark rqs mm), False) \<and> fl_inv m' \<and> fl_blocks m' = fl_blocks m \<and>
    (length rqs = 128 \<or> unat mx \<le> rq_bytes rqs) \<and> (\<forall>a. (\<forall>q \<in> set rqs. a \<notin> rq_range q) \<longrightarrow> mm_mark rqs mm a = mm a)"
proof -
  have lim: "2 ^ 32 \<le> (2 :: nat) ^ 64 - 8" by simp
  show ?thesis by (rule flb.test_mm_round_passes [OF assms(1-3) lim assms(4), of r mm]) blast
qed

theorem test_mm_round_terminates_witness:
  "\<exists>x. test_mm_round fl_ops 100000 (mem_init MEM_HEAP_START MEM_HEAP_SIZE fl_zero, 7, \<lambda>_. 0) = Some (x, False)"
proof -
  let ?m = "mem_init MEM_HEAP_START MEM_HEAP_SIZE fl_zero"
  have "fl_rep ?m ([] @ [(MEM_HEAP_START, MEM_HEAP_SIZE - HEADER_SIZE, True)])" using boot_rep by simp
  then have "fl_room ?m (unat (100000 :: u64) + 6145)" by (rule fl_roomI) (simp add: MEM_HEAP_SIZE_def HEADER_SIZE_def)
  with test_mm_round_terminates [of ?m 100000 7 "\<lambda>_. 0"] show ?thesis by auto
qed

end
