(* ===== verification/UTests.thy ===== *)
theory UTests
  imports UCommands
begin

text \<open>
  The process tests \<^verbatim>\<open>Userland/SampleCodeModule/test_proc.c\<close> and \<^verbatim>\<open>test_prio.c\<close> as programs over system
  calls.  The endless loop of \<^verbatim>\<open>test_proc\<close> is cut after \<open>fuel\<close> turns of its inner loops, so that every
  prefix of its run is a program; both are checked against the contract of the calls on child
  processes.
\<close>

section \<open>test_proc\<close>

datatype State_rq = RUNNING | BLOCKED | KILLED

text \<open>A process \<^verbatim>\<open>p_rq\<close> is its pid and its state.\<close>
type_synonym p_rq = "int \<times> State_rq"

record tp_state =
  p_rqs :: "p_rq list"
  alive :: u8
  rq :: u8
  tp_rng :: u16

text \<open>The loop the command is in: creating, the test of the inner loop, the random actions, the
  unblocking.\<close>
datatype tp_phase = TpCreate | TpWhile | TpAct | TpUnblock

definition error_exit :: "string \<Rightarrow> prog" where
  "error_exit msg = print msg [] (put_all [10] Exit)"

text \<open>One turn of each loop; \<open>k\<close> is how it goes on.\<close>
definition tp_create :: "u64 \<Rightarrow> u64 \<Rightarrow> tp_state \<Rightarrow> (tp_phase \<Rightarrow> tp_state \<Rightarrow> prog) \<Rightarrow> prog" where
  "tp_create endless mx s k =
     (if ucast (rq s) < mx then
        Call (SysCreate endless []) (\<lambda>a. let pid = s32 (ret a) in
          if pid = -1 then error_exit ''test_processes: ERROR creating process''
          else k TpCreate (s\<lparr>p_rqs := (p_rqs s)[unat (rq s) := (pid, RUNNING)], alive := alive s + 1, rq := rq s + 1\<rparr>))
      else k TpWhile s)"

definition tp_while :: "tp_state \<Rightarrow> (tp_phase \<Rightarrow> tp_state \<Rightarrow> prog) \<Rightarrow> prog" where
  "tp_while s k = (if alive s > 0 then k TpAct (s\<lparr>rq := 0\<rparr>) else k TpCreate (s\<lparr>rq := 0\<rparr>))"

definition tp_act :: "u64 \<Rightarrow> tp_state \<Rightarrow> (tp_phase \<Rightarrow> tp_state \<Rightarrow> prog) \<Rightarrow> prog" where
  "tp_act mx s k =
     (if ucast (rq s) < mx then
        (case randomNext (tp_rng s) of (r, v) \<Rightarrow>
          (let s = s\<lparr>tp_rng := r\<rparr>; i = unat (rq s); (pid, st) = p_rqs s ! i;
               next = (\<lambda>s. k TpAct (s\<lparr>rq := rq s + 1\<rparr>))
           in if v mod 2 = 0 then
                (if st = RUNNING \<or> st = BLOCKED then
                   Call (SysKill (s16 pid)) (\<lambda>a.
                     if ret a = -1 then error_exit ''test_processes: ERROR killing process''
                     else Call (SysWaitpid (s16 pid)) (\<lambda>_.
                       next (s\<lparr>p_rqs := (p_rqs s)[i := (pid, KILLED)], alive := alive s - 1\<rparr>)))
                 else next s)
              else if st = RUNNING then
                Call (SysBlock (s16 pid)) (\<lambda>a.
                  if ret a = -1 then error_exit ''test_processes: ERROR blocking process''
                  else next (s\<lparr>p_rqs := (p_rqs s)[i := (pid, BLOCKED)]\<rparr>))
              else next s))
      else k TpUnblock (s\<lparr>rq := 0\<rparr>))"

text \<open>The random number is only drawn for a blocked process.\<close>
definition tp_unblock :: "u64 \<Rightarrow> tp_state \<Rightarrow> (tp_phase \<Rightarrow> tp_state \<Rightarrow> prog) \<Rightarrow> prog" where
  "tp_unblock mx s k =
     (if ucast (rq s) < mx then
        (let i = unat (rq s); (pid, st) = p_rqs s ! i; next = (\<lambda>s. k TpUnblock (s\<lparr>rq := rq s + 1\<rparr>)) in
         if st = BLOCKED then
           (case randomNext (tp_rng s) of (r, v) \<Rightarrow>
             (let s = s\<lparr>tp_rng := r\<rparr> in
              if v mod 2 \<noteq> 0 then
                Call (SysUnblock (s16 pid)) (\<lambda>a.
                  if ret a = -1 then error_exit ''test_processes: ERROR unblocking process''
                  else next (s\<lparr>p_rqs := (p_rqs s)[i := (pid, RUNNING)]\<rparr>))
              else next s))
         else next s)
      else k TpWhile s)"

fun tp_loop :: "nat \<Rightarrow> u64 \<Rightarrow> u64 \<Rightarrow> tp_phase \<Rightarrow> tp_state \<Rightarrow> prog" where
  "tp_loop 0 endless mx ph s = Exit"
| "tp_loop (Suc fuel) endless mx ph s =
     (case ph of TpCreate \<Rightarrow> tp_create endless mx s (tp_loop fuel endless mx)
      | TpWhile \<Rightarrow> tp_while s (tp_loop fuel endless mx)
      | TpAct \<Rightarrow> tp_act mx s (tp_loop fuel endless mx)
      | TpUnblock \<Rightarrow> tp_unblock mx s (tp_loop fuel endless mx))"

text \<open>\<open>endless\<close> is the entry point of the children, \<open>seed\<close> the state of the generator and \<open>garbage\<close> what the
  array on the stack holds at first.\<close>
definition test_proc_run :: "nat \<Rightarrow> u64 \<Rightarrow> u16 \<Rightarrow> (nat \<Rightarrow> p_rq) \<Rightarrow> int \<Rightarrow> prog" where
  "test_proc_run fuel endless seed garbage parsed =
     (let mx = word_of_int parsed in tp_loop fuel endless mx TpCreate
        \<lparr>p_rqs = map garbage [0..<unat mx], alive = 0, rq = 0, tp_rng = seed\<rparr>)"

definition test_proc_command :: "nat \<Rightarrow> u64 \<Rightarrow> u16 \<Rightarrow> (nat \<Rightarrow> p_rq) \<Rightarrow> u8 list list \<Rightarrow> prog" where
  "test_proc_command fuel endless seed garbage argv =
     (if length argv \<noteq> 2 then writeStr STDERR (bytes ''Usage: test_proc <max_processes>'' @ [10]) Exit
      else (let parsed = stringToInt (argv ! 1) in
        Call SysGetMaxProcesses (\<lambda>a. Call SysGetProcessesCount (\<lambda>b.
          (let limit = s64 (ret a - ret b) in
           if parsed \<le> 0 then writeStr STDERR (bytes ''test_proc: invalido'' @ [10]) Exit
           else if parsed > limit then
             writeStr STDERR (bytes ''test_proc: max_processes demasiado grande, ajustado para el maximo disponible'' @ [10, 0])
               (test_proc_run fuel endless seed garbage limit)
           else test_proc_run fuel endless seed garbage parsed)))))"

section \<open>test_prio\<close>

definition TOTAL_PROCESSES :: nat where "TOTAL_PROCESSES = 3"
definition LOWEST :: int where "LOWEST = 1"
definition MEDIUM :: int where "MEDIUM = 2"
definition HIGHEST :: int where "HIGHEST = 4"

definition prio :: "int list" where "prio = [LOWEST, MEDIUM, HIGHEST]"

text \<open>The counting loop of a child; the value it leaves.\<close>
function zero_loop :: "u64 \<Rightarrow> u64 \<Rightarrow> u64" where
  "zero_loop max_value value = (if value = max_value then value + 1 else zero_loop max_value (value + 1))"
  by pat_completeness auto

lemma unat_step_down: "x \<noteq> y \<Longrightarrow> unat (y - (x + 1)) < unat (y - x)" for x y :: u64
proof -
  assume "x \<noteq> y"
  then have "y - x \<noteq> 0" by simp
  then have "unat (y - x - 1) < unat (y - x)" by (simp add: unat_minus_one unat_gt_0)
  then show ?thesis by (simp add: algebra_simps)
qed

termination zero_loop
  by (relation "measure (\<lambda>(mx, v). unat (mx - v))") (simp_all add: unat_step_down)

declare zero_loop.simps [simp del]

definition zero_to_max :: "u64 \<Rightarrow> prog" where
  "zero_to_max max_value = (let value = zero_loop max_value 0 in
     Call SysGetpid (\<lambda>a. print ''PROCESS %d DONE!'' [PInt (s16 (ret a))] (put_all [10] Exit)))"

text \<open>A loop that creates one child per priority and does \<open>act\<close> on it; \<open>k\<close> gets the pids.\<close>
primrec spawn_each :: "u64 \<Rightarrow> (int \<Rightarrow> int \<Rightarrow> prog \<Rightarrow> prog) \<Rightarrow> int list \<Rightarrow> (int list \<Rightarrow> prog) \<Rightarrow> prog" where
  "spawn_each entry act [] k = k []"
| "spawn_each entry act (p # ps) k = Call (SysCreate entry []) (\<lambda>a.
     let pid = s16 (ret a) in act pid p (spawn_each entry act ps (\<lambda>pids. k (pid # pids))))"

definition wait_each :: "int list \<Rightarrow> prog \<Rightarrow> prog" where
  "wait_each pids k = foldr (\<lambda>pid k. Call (SysWaitpid pid) (\<lambda>_. k)) pids k"

definition unblock_each :: "int list \<Rightarrow> prog \<Rightarrow> prog" where
  "unblock_each pids k = foldr (\<lambda>pid k. Call (SysUnblock pid) (\<lambda>_. k)) pids k"

definition new_priority :: "int \<Rightarrow> int \<Rightarrow> prog \<Rightarrow> prog" where
  "new_priority pid p k = Call (SysNice pid (word_of_int p)) (\<lambda>_.
     print ''  PROCESS %d NEW PRIORITY: %d'' [PInt pid, PInt (s32 p)] (put_all [10] k))"

definition block_then_priority :: "int \<Rightarrow> int \<Rightarrow> prog \<Rightarrow> prog" where
  "block_then_priority pid p k = Call (SysBlock pid) (\<lambda>_. new_priority pid p k)"

text \<open>\<open>zero\<close> is the entry point of \<^verbatim>\<open>zero_to_max\<close>.\<close>
definition prio_blocked :: "u64 \<Rightarrow> prog" where
  "prio_blocked zero = put_all (bytes ''SAME PRIORITY, THEN CHANGE IT WHILE BLOCKED...'' @ [10])
     (spawn_each zero block_then_priority prio (\<lambda>pids. unblock_each pids (wait_each pids
        (put_all (bytes ''test_prio OK'' @ [10]) Exit))))"

definition prio_changed :: "u64 \<Rightarrow> prog" where
  "prio_changed zero = put_all (bytes ''SAME PRIORITY, THEN CHANGE IT...'' @ [10])
     (spawn_each zero new_priority prio (\<lambda>pids. wait_each pids (prio_blocked zero)))"

definition prio_same :: "u64 \<Rightarrow> prog" where
  "prio_same zero = put_all (bytes ''SAME PRIORITY...'' @ [10])
     (spawn_each zero (\<lambda>pid p k. k) prio (\<lambda>pids. wait_each pids (prio_changed zero)))"

definition test_prio_command :: "u64 \<Rightarrow> u8 list list \<Rightarrow> prog" where
  "test_prio_command zero argv =
     (if length argv \<noteq> 2 then writeStr STDERR (bytes ''Usage: test_prio <max_value>'' @ [10]) Exit
      else if stringToInt (argv ! 1) \<le> 0 then writeStr STDERR (bytes ''test_prio: invalido'' @ [10]) Exit
      else prio_same zero)"

section \<open>The contract of children\<close>

text \<open>The state: what the program last asked of each child it has not waited for.  At most \<open>n\<close> children
  may live at once; only a child may be acted on, a running one blocked, a blocked one unblocked, a
  live one killed, and a killed one waited for.  A running child may be waited for only with \<open>ending\<close>,
  when the children end by themselves: those of \<^verbatim>\<open>test_prio\<close> do, those of \<^verbatim>\<open>test_proc\<close> never do.\<close>
fun child_proper :: "nat \<Rightarrow> bool \<Rightarrow> req \<Rightarrow> (int \<Rightarrow> State_rq option) \<Rightarrow> bool" where
  "child_proper n ending (SysCreate e argv) S \<longleftrightarrow> card (dom S) < n"
| "child_proper n ending (SysKill p) S \<longleftrightarrow> S p = Some RUNNING \<or> S p = Some BLOCKED"
| "child_proper n ending (SysBlock p) S \<longleftrightarrow> S p = Some RUNNING"
| "child_proper n ending (SysUnblock p) S \<longleftrightarrow> S p = Some BLOCKED"
| "child_proper n ending (SysNice p q) S \<longleftrightarrow> S p = Some RUNNING \<or> S p = Some BLOCKED"
| "child_proper n ending (SysWaitpid p) S \<longleftrightarrow> S p = Some KILLED \<or> ending \<and> S p = Some RUNNING"
| "child_proper n ending r S \<longleftrightarrow> True"

text \<open>A new pid is a free one that fits 16 bits; the kernel has 64 processes.  With \<open>reliable\<close> no call fails.\<close>
fun child_may :: "bool \<Rightarrow> req \<Rightarrow> answer \<Rightarrow> (int \<Rightarrow> State_rq option) \<Rightarrow> bool" where
  "child_may reliable (SysCreate e argv) a S \<longleftrightarrow>
     \<not> reliable \<and> ret a = -1 \<or> 0 \<le> ret a \<and> ret a < 2 ^ 15 \<and> S (ret a) = None"
| "child_may reliable (SysKill p) a S \<longleftrightarrow> reliable \<longrightarrow> ret a = 0"
| "child_may reliable (SysBlock p) a S \<longleftrightarrow> reliable \<longrightarrow> ret a = 0"
| "child_may reliable (SysUnblock p) a S \<longleftrightarrow> reliable \<longrightarrow> ret a = 0"
| "child_may reliable SysGetMaxProcesses a S \<longleftrightarrow> ret a = 64"
| "child_may reliable SysGetProcessesCount a S \<longleftrightarrow> 0 \<le> ret a \<and> ret a \<le> 64"
| "child_may reliable r a S \<longleftrightarrow> True"

fun child_after :: "req \<Rightarrow> answer \<Rightarrow> (int \<Rightarrow> State_rq option) \<Rightarrow> (int \<Rightarrow> State_rq option)" where
  "child_after (SysCreate e argv) a S = (if ret a = -1 then S else S(ret a \<mapsto> RUNNING))"
| "child_after (SysKill p) a S = (if ret a = -1 then S else S(p \<mapsto> KILLED))"
| "child_after (SysBlock p) a S = (if ret a = -1 then S else S(p \<mapsto> BLOCKED))"
| "child_after (SysUnblock p) a S = (if ret a = -1 then S else S(p \<mapsto> RUNNING))"
| "child_after (SysWaitpid p) a S = S(p := None)"
| "child_after r a S = S"

text \<open>Every run from children \<open>S\<close> keeps the contract and ends in \<open>Q\<close>.\<close>
abbreviation tends :: "nat \<Rightarrow> bool \<Rightarrow> bool \<Rightarrow> prog \<Rightarrow> ((int \<Rightarrow> State_rq option) \<Rightarrow> bool) \<Rightarrow> (int \<Rightarrow> State_rq option) \<Rightarrow> bool" where
  "tends n ending reliable \<equiv> conforms (child_proper n ending) (child_may reliable) child_after"

interpretation chc: quiet_writes "child_proper n ending" "child_may reliable" child_after for n ending reliable
  by unfold_locales simp_all

section \<open>Properties\<close>

lemma zero_loop_value: "zero_loop max_value value = max_value + 1"
  by (induction max_value "value" rule: zero_loop.induct) (subst zero_loop.simps, simp)

subsection \<open>test_proc\<close>

definition live :: "p_rq list \<Rightarrow> p_rq list" where
  "live xs = filter (\<lambda>(p, st). st \<noteq> KILLED) xs"

text \<open>The array entries that are not killed are exactly the children, \<open>m\<close> of them.\<close>
definition tp_live :: "p_rq list \<Rightarrow> nat \<Rightarrow> (int \<Rightarrow> State_rq option) \<Rightarrow> bool" where
  "tp_live ys m S \<longleftrightarrow> S = map_of ys \<and> distinct (map fst ys) \<and> length ys = m \<and>
     (\<forall>(p, st) \<in> set ys. 0 \<le> p \<and> p < 2 ^ 15 \<and> st \<noteq> KILLED)"

lemma live_split:
  assumes "i < length xs"
  obtains as bs where "live xs = as @ (if snd (xs ! i) = KILLED then [] else [xs ! i]) @ bs"
    and "\<And>y. live (xs[i := y]) = as @ (if snd y = KILLED then [] else [y]) @ bs"
proof
  show "live xs = live (take i xs) @ (if snd (xs ! i) = KILLED then [] else [xs ! i]) @ live (drop (Suc i) xs)"
    by (subst id_take_nth_drop [OF assms]) (auto simp: live_def split: prod.splits)
  show "live (xs[i := y]) = live (take i xs) @ (if snd y = KILLED then [] else [y]) @ live (drop (Suc i) xs)" for y
    by (subst upd_conv_take_nth_drop [OF assms]) (auto simp: live_def split: prod.splits)
qed

lemma map_of_middle:
  assumes "distinct (map fst (as @ (p, st) # bs))"
  shows "map_of (as @ (p, st) # bs) p = Some st"
    and "map_of (as @ (p, st') # bs) = (map_of (as @ (p, st) # bs))(p \<mapsto> st')"
    and "map_of (as @ bs) = (map_of (as @ (p, st) # bs))(p := None)"
proof -
  have n: "map_of as p = None" "map_of bs p = None"
    using assms by (auto simp: map_of_eq_None_iff)
  show "map_of (as @ (p, st) # bs) p = Some st" using n by (simp add: map_add_def)
  show "map_of (as @ (p, st') # bs) = (map_of (as @ (p, st) # bs))(p \<mapsto> st')"
    and "map_of (as @ bs) = (map_of (as @ (p, st) # bs))(p := None)"
    using n by (auto simp: map_add_def fun_eq_iff split: option.splits)
qed

lemma tp_live_entry:
  assumes "tp_live (live xs) m S" and "i < length xs" and "xs ! i = (p, st)" and "st \<noteq> KILLED"
  shows "S p = Some st" and "s16 p = p" and "0 < m"
    and "st' \<noteq> KILLED \<Longrightarrow> tp_live (live (xs[i := (p, st')])) m (S(p \<mapsto> st'))"
    and "tp_live (live (xs[i := (p, KILLED)])) (m - 1) (S(p := None))"
proof -
  obtain as bs where l: "live xs = as @ (p, st) # bs"
    and u: "\<And>y. live (xs[i := y]) = as @ (if snd y = KILLED then [] else [y]) @ bs"
    by (rule live_split [OF assms(2)]) (use assms(3,4) in simp)
  have d: "distinct (map fst (as @ (p, st) # bs))" and S: "S = map_of (as @ (p, st) # bs)"
    and p: "0 \<le> p" "p < 2 ^ 15" using assms(1) by (auto simp: tp_live_def l)
  show "S p = Some st" unfolding S by (rule map_of_middle [OF d])
  show "s16 p = p" using p by (intro s16_small) simp
  show "0 < m" using assms(1) by (auto simp: tp_live_def l)
  show "tp_live (live (xs[i := (p, st')])) m (S(p \<mapsto> st'))" if "st' \<noteq> KILLED"
    unfolding S u map_of_middle(2) [OF d, symmetric] using assms(1) that by (auto simp: tp_live_def l)
  show "tp_live (live (xs[i := (p, KILLED)])) (m - 1) (S(p := None))"
    unfolding S u map_of_middle(3) [OF d, symmetric] using assms(1) by (auto simp: tp_live_def l)
qed

definition tp_inv :: "u64 \<Rightarrow> tp_phase \<Rightarrow> tp_state \<Rightarrow> (int \<Rightarrow> State_rq option) \<Rightarrow> bool" where
  "tp_inv mx ph s S \<longleftrightarrow> unat mx \<le> 64 \<and> length (p_rqs s) = unat mx \<and>
     (if ph = TpCreate then unat (rq s) \<le> unat mx \<and> alive s = rq s \<and>
        tp_live (take (unat (rq s)) (p_rqs s)) (unat (rq s)) S
      else tp_live (live (p_rqs s)) (unat (alive s)) S)"

lemma rq_less: "ucast r < mx \<longleftrightarrow> unat r < unat mx" for r :: u8 and mx :: u64
proof -
  have "unat (ucast r :: u64) = unat r" using unat_lt2p [of r] by (simp add: unsigned_ucast_eq take_bit_nat_eq_self)
  then show ?thesis by (simp add: word_less_nat_alt)
qed

lemma rq_next: "unat r < unat mx \<Longrightarrow> unat mx \<le> 64 \<Longrightarrow> unat (r + 1) = unat r + 1" for r :: u8 and mx :: u64
  by (simp add: unat_word_ariths)

lemma tends_error_exit: "tends n False r (error_exit msg) (\<lambda>_. True) S"
  by (simp add: error_exit_def chc.conforms_output)

lemma tp_live_card: "tp_live ys m S \<Longrightarrow> card (dom S) = m"
  using distinct_card [of "map fst ys"] by (simp add: tp_live_def dom_map_of_conv_image_fst)

lemma tp_live_snoc:
  assumes "tp_live ys m S" "S p = None" "0 \<le> p" "p < 2 ^ 15"
  shows "tp_live (ys @ [(p, RUNNING)]) (Suc m) (S(p \<mapsto> RUNNING))"
proof -
  have n: "map_of ys p = None" using assms by (simp add: tp_live_def)
  then have "p \<notin> fst ` set ys" by (simp add: map_of_eq_None_iff)
  moreover have "map_of (ys @ [(p, RUNNING)]) = (map_of ys)(p \<mapsto> RUNNING)"
    using n by (auto simp: map_add_def fun_eq_iff split: option.splits)
  ultimately show ?thesis using assms by (auto simp: tp_live_def)
qed

lemma tends_tp_create:
  assumes inv: "tp_inv mx TpCreate s S" and n: "unat mx \<le> n"
    and k: "\<And>ph s S. tp_inv mx ph s S \<Longrightarrow> tends n False r (k ph s) (\<lambda>_. True) S"
  shows "tends n False r (tp_create e mx s k) (\<lambda>_. True) S"
proof (cases "unat (rq s) < unat mx")
  case False
  then have "unat (rq s) = unat mx" using inv by (simp add: tp_inv_def)
  moreover from this have "take (unat (rq s)) (p_rqs s) = p_rqs s" using inv by (simp add: tp_inv_def)
  ultimately have l: "tp_live (p_rqs s) (unat (alive s)) S" using inv by (simp add: tp_inv_def)
  then have "live (p_rqs s) = p_rqs s" by (auto simp: tp_live_def live_def filter_id_conv)
  with l inv have "tp_inv mx TpWhile s S" by (simp add: tp_inv_def)
  with False k show ?thesis by (simp add: tp_create_def rq_less)
next
  case True
  let ?ys = "take (unat (rq s)) (p_rqs s)"
  have l: "tp_live ?ys (unat (rq s)) S" and mx: "unat mx \<le> 64" "length (p_rqs s) = unat mx"
    using inv by (auto simp: tp_inv_def)
  have step: "tp_inv mx TpCreate (s\<lparr>p_rqs := (p_rqs s)[unat (rq s) := (p, RUNNING)], alive := alive s + 1, rq := rq s + 1\<rparr>)
      (S(p \<mapsto> RUNNING))" if "0 \<le> p" "p < 2 ^ 15" "S p = None" for p
    using inv tp_live_snoc [OF l that(3,1,2)] rq_next [OF True mx(1)] True mx
    by (simp add: tp_inv_def take_Suc_conv_app_nth)
  have "card (dom S) < n" using tp_live_card [OF l] True n by simp
  moreover have "s32 p = p" if "0 \<le> p" "p < 2 ^ 15" for p
    using that by (simp add: s32_def signed_take_bit_int_eq_self)
  ultimately show ?thesis using True step k
    by (auto simp: tp_create_def rq_less Let_def tends_error_exit s32_def)
qed

lemma tends_tp_while:
  assumes inv: "tp_inv mx TpWhile s S" and k: "\<And>ph s S. tp_inv mx ph s S \<Longrightarrow> tends n False r (k ph s) (\<lambda>_. True) S"
  shows "tends n False r (tp_while s k) (\<lambda>_. True) S"
proof (cases "alive s > 0")
  case True
  then show ?thesis using inv by (auto simp: tp_while_def tp_inv_def intro!: k)
next
  case False
  then have "alive s = 0" by (simp add: word_gt_0)
  then show ?thesis using inv by (auto simp: tp_while_def tp_inv_def tp_live_def intro!: k)
qed

text \<open>The turn of a process of the array goes on in the same phase.\<close>
lemma tends_next:
  assumes "unat mx \<le> 64" "length ys = unat mx" "tp_live (live ys) (unat al) S" "ph \<noteq> TpCreate"
    and "\<And>ph s S. tp_inv mx ph s S \<Longrightarrow> tends n False r (k ph s) (\<lambda>_. True) S"
  shows "tends n False r (k ph \<lparr>p_rqs = ys, alive = al, rq = q, tp_rng = g\<rparr>) (\<lambda>_. True) S"
  using assms by (simp add: tp_inv_def)

lemma tends_tp_act:
  assumes inv: "tp_inv mx TpAct s S" and k: "\<And>ph s S. tp_inv mx ph s S \<Longrightarrow> tends n False r (k ph s) (\<lambda>_. True) S"
  shows "tends n False r (tp_act mx s k) (\<lambda>_. True) S"
proof -
  obtain ys al q g where s: "s = \<lparr>p_rqs = ys, alive = al, rq = q, tp_rng = g\<rparr>" by (cases s)
  have mx: "unat mx \<le> 64" "length ys = unat mx" and l: "tp_live (live ys) (unat al) S"
    using inv by (auto simp: tp_inv_def s)
  note onward = tends_next [OF mx(1) _ _ _ k]
  show ?thesis
  proof (cases "unat q < unat mx")
    case False
    then show ?thesis using mx l by (auto simp: tp_act_def rq_less s intro!: onward)
  next
    case True
    obtain g' v where g: "randomNext g = (g', v)" by (cases "randomNext g")
    obtain p st where e: "ys ! unat q = (p, st)" by (cases "ys ! unat q")
    show ?thesis
    proof (cases "st = KILLED")
      case True
      then show ?thesis using mx l \<open>unat q < unat mx\<close> by (auto simp: tp_act_def rq_less s g e Let_def intro!: onward)
    next
      case False
      note t = tp_live_entry [OF l _ e False]
      have q: "unat q < length ys" using True mx by simp
      have "unat (al - 1) = unat al - 1" using t(3) [OF q] by (simp add: unat_minus_one unat_gt_0)
      then have kill: "tp_live (live (ys[unat q := (p, KILLED)])) (unat (al - 1)) (S(p := None))" using t(5) [OF q] by simp
      have st: "st = RUNNING \<or> st = BLOCKED" using False by (cases st) auto
      show ?thesis
      proof (cases "v mod 2 = 0")
        case True
        then show ?thesis using mx l \<open>unat q < unat mx\<close> st t(1,2) [OF q] kill
          by (auto simp: tp_act_def rq_less s g e Let_def tends_error_exit intro!: onward)
      next
        case v: False
        then show ?thesis using mx l \<open>unat q < unat mx\<close> t(1,2) [OF q] t(4) [OF q, of BLOCKED]
          by (auto simp: tp_act_def rq_less s g e Let_def tends_error_exit intro!: onward)
      qed
    qed
  qed
qed

lemma tends_tp_unblock:
  assumes inv: "tp_inv mx TpUnblock s S" and k: "\<And>ph s S. tp_inv mx ph s S \<Longrightarrow> tends n False r (k ph s) (\<lambda>_. True) S"
  shows "tends n False r (tp_unblock mx s k) (\<lambda>_. True) S"
proof -
  obtain ys al q g where s: "s = \<lparr>p_rqs = ys, alive = al, rq = q, tp_rng = g\<rparr>" by (cases s)
  have mx: "unat mx \<le> 64" "length ys = unat mx" and l: "tp_live (live ys) (unat al) S"
    using inv by (auto simp: tp_inv_def s)
  note onward = tends_next [OF mx(1) _ _ _ k]
  show ?thesis
  proof (cases "unat q < unat mx")
    case False
    then show ?thesis using mx l by (auto simp: tp_unblock_def rq_less s intro!: onward)
  next
    case True
    obtain g' v where g: "randomNext g = (g', v)" by (cases "randomNext g")
    obtain p st where e: "ys ! unat q = (p, st)" by (cases "ys ! unat q")
    have q: "unat q < length ys" using True mx by simp
    show ?thesis
    proof (cases "st = BLOCKED")
      case False
      then show ?thesis using mx l True by (auto simp: tp_unblock_def rq_less s g e Let_def intro!: onward)
    next
      case b: True
      then have "st \<noteq> KILLED" by simp
      from tp_live_entry [OF l q e this] b show ?thesis using mx l True
        by (auto simp: tp_unblock_def rq_less s g e Let_def tends_error_exit intro!: onward)
    qed
  qed
qed

lemma tends_tp_loop:
  "tp_inv mx ph s S \<Longrightarrow> unat mx \<le> n \<Longrightarrow> tends n False r (tp_loop fuel e mx ph s) (\<lambda>_. True) S"
proof (induction fuel arbitrary: ph s S)
  case (Suc fuel)
  show ?case
    by (cases ph) (use Suc in \<open>auto intro!: tends_tp_create tends_tp_while tends_tp_act tends_tp_unblock\<close>)
qed simp

lemma unat_word_of_int_small: "0 \<le> x \<Longrightarrow> x \<le> 64 \<Longrightarrow> unat (word_of_int x :: u64) = nat x"
  by (simp add: unsigned_of_int take_bit_int_eq_self)

lemma tends_test_proc_run:
  assumes "0 \<le> x" "x \<le> 64" "nat x \<le> n"
  shows "tends n False r (test_proc_run fuel e seed garbage x) (\<lambda>_. True) Map.empty"
proof -
  have "tp_inv (word_of_int x) TpCreate
      \<lparr>p_rqs = map garbage [0..<unat (word_of_int x :: u64)], alive = 0, rq = 0, tp_rng = seed\<rparr> Map.empty"
    using assms by (simp add: tp_inv_def tp_live_def unat_word_of_int_small)
  from tends_tp_loop [OF this] assms show ?thesis by (simp add: test_proc_run_def unat_word_of_int_small)
qed

text \<open>C24. The process test is a well-behaved parent: for any arguments, random state and stack contents,
  after any number of turns of its endless loop and whatever the kernel answers to its calls, failures
  included, it has at most the requested number of children at a time, blocks only children it left
  running, unblocks only blocked ones, kills only live ones, each once, and waits only for children it
  killed, never for a running or blocked one, whose endless loop would keep it waiting.\<close>
theorem test_proc_children:
  "tends (nat (stringToInt (argv ! 1))) False reliable (test_proc_command fuel endless seed garbage argv) (\<lambda>_. True) Map.empty"
proof -
  have lim: "s64 (64 - b) = 64 - b" if "0 \<le> b" "b \<le> 64" for b
    using that by (simp add: s64_def signed_take_bit_int_eq_self)
  show ?thesis
    by (auto simp: test_proc_command_def Let_def chc.conforms_output lim intro!: tends_test_proc_run)
qed

subsection \<open>test_prio\<close>

lemma tends_spawn_each:
  assumes act: "\<And>pid p k Q S. S pid = Some RUNNING \<Longrightarrow> tends n True True k Q (S(pid \<mapsto> st)) \<Longrightarrow> tends n True True (act pid p k) Q S"
    and "finite (dom S)" and "card (dom S) + length ps \<le> n"
    and "\<And>pids. distinct pids \<Longrightarrow> set pids \<inter> dom S = {} \<Longrightarrow>
           tends n True True (k pids) Q (\<lambda>p. if p \<in> set pids then Some st else S p)"
  shows "tends n True True (spawn_each e act ps k) Q S"
  using assms(2-4)
proof (induction ps arbitrary: S k)
  case Nil
  from Nil(3) [of "[]"] show ?case by simp
next
  case (Cons p ps)
  have "tends n True True (act pid p (spawn_each e act ps (\<lambda>pids. k (pid # pids)))) Q (S(pid \<mapsto> RUNNING))"
    if pid: "S pid = None" for pid
  proof (rule act)
    show "tends n True True (spawn_each e act ps (\<lambda>pids. k (pid # pids))) Q (S(pid \<mapsto> RUNNING, pid \<mapsto> st))"
    proof (rule Cons.IH)
      show "finite (dom (S(pid \<mapsto> RUNNING, pid \<mapsto> st)))"
        using Cons.prems(1) by (simp only: dom_fun_upd option.distinct if_False finite_insert)
      show "card (dom (S(pid \<mapsto> RUNNING, pid \<mapsto> st))) + length ps \<le> n"
        using Cons.prems(1,2) pid by (simp add: domIff)
      fix pids assume d: "distinct pids" "set pids \<inter> dom (S(pid \<mapsto> RUNNING, pid \<mapsto> st)) = {}"
      then have "pid \<notin> set pids" "set pids \<inter> dom S = {}" by auto
      moreover have "(\<lambda>p. if p \<in> set (pid # pids) then Some st else S p) =
          (\<lambda>p. if p \<in> set pids then Some st else (S(pid \<mapsto> RUNNING, pid \<mapsto> st)) p)" by auto
      ultimately show "tends n True True (k (pid # pids)) Q (\<lambda>p. if p \<in> set pids then Some st else (S(pid \<mapsto> RUNNING, pid \<mapsto> st)) p)"
        using Cons.prems(3) [of "pid # pids"] d(1) pid by (auto simp: domIff)
      qed
  qed simp
  then show ?case using Cons.prems(2) by (auto simp: Let_def s16_small)
qed

lemma wait_each_simps [simp]:
  "wait_each [] k = k" "wait_each (p # ps) k = Call (SysWaitpid p) (\<lambda>_. wait_each ps k)"
  "unblock_each [] k = k" "unblock_each (p # ps) k = Call (SysUnblock p) (\<lambda>_. unblock_each ps k)"
  by (simp_all add: wait_each_def unblock_each_def)

lemma tends_wait_each:
  assumes "distinct pids" "\<forall>p \<in> set pids. S p = Some RUNNING" "tends n True r k Q (\<lambda>p. if p \<in> set pids then None else S p)"
  shows "tends n True r (wait_each pids k) Q S"
  using assms
proof (induction pids arbitrary: S)
  case (Cons p ps)
  have "(\<lambda>q. if q \<in> set ps then None else (S(p := None)) q) = (\<lambda>q. if q \<in> set (p # ps) then None else S q)" by auto
  then have "tends n True r (wait_each ps k) Q (S(p := None))"
    using Cons.prems by (intro Cons.IH) (auto simp del: fun_upd_apply, auto)
  with Cons.prems(2) show ?case by simp
qed simp

lemma tends_wait_all:
  assumes "distinct pids" "tends n True r k Q Map.empty"
  shows "tends n True r (wait_each pids k) Q (\<lambda>p. if p \<in> set pids then Some RUNNING else None)"
proof -
  have "(\<lambda>p. if p \<in> set pids then None else if p \<in> set pids then Some RUNNING else None) = Map.empty" by auto
  with assms show ?thesis by (intro tends_wait_each) simp_all
qed

lemma tends_unblock_each:
  assumes "distinct pids" "\<forall>p \<in> set pids. S p = Some BLOCKED"
    "tends n True True k Q (\<lambda>p. if p \<in> set pids then Some RUNNING else S p)"
  shows "tends n True True (unblock_each pids k) Q S"
  using assms
proof (induction pids arbitrary: S)
  case (Cons p ps)
  have "(\<lambda>q. if q \<in> set ps then Some RUNNING else (S(p \<mapsto> RUNNING)) q) = (\<lambda>q. if q \<in> set (p # ps) then Some RUNNING else S q)"
    by auto
  then have "tends n True True (unblock_each ps k) Q (S(p \<mapsto> RUNNING))"
    using Cons.prems by (intro Cons.IH) (auto simp del: fun_upd_apply, auto)
  with Cons.prems(2) show ?case by simp
qed simp

lemma printf_priority: "printf (bytes ''  PROCESS %d NEW PRIORITY: %d'') [PInt x, PInt y] \<noteq> None"
  by (simp add: printf_def bytes_def)

lemma tends_new_priority:
  "S pid = Some RUNNING \<or> S pid = Some BLOCKED \<Longrightarrow> tends n True True k Q S \<Longrightarrow> tends n True True (new_priority pid p k) Q S"
  by (auto simp: new_priority_def chc.conforms_output printf_priority)

lemma tends_prio_blocked: "3 \<le> n \<Longrightarrow> tends n True True (prio_blocked z) (\<lambda>S. S = Map.empty) Map.empty"
  unfolding prio_blocked_def chc.conforms_output
  by (rule tends_spawn_each [where st = BLOCKED])
    (auto simp: prio_def block_then_priority_def chc.conforms_output fun_eq_iff
      intro!: tends_new_priority tends_unblock_each tends_wait_each)

lemma tends_prio_changed: "3 \<le> n \<Longrightarrow> tends n True True (prio_changed z) (\<lambda>S. S = Map.empty) Map.empty"
  unfolding prio_changed_def chc.conforms_output
  by (rule tends_spawn_each [where st = RUNNING])
    (auto simp: prio_def fun_upd_idem intro!: tends_new_priority tends_wait_all tends_prio_blocked)

lemma tends_prio_same: "3 \<le> n \<Longrightarrow> tends n True True (prio_same z) (\<lambda>S. S = Map.empty) Map.empty"
  unfolding prio_same_def chc.conforms_output
  by (rule tends_spawn_each [where st = RUNNING])
    (auto simp: prio_def fun_upd_idem intro!: tends_wait_all tends_prio_changed)

text \<open>While no call fails, the priority test has at most three children at a time, changes priorities
  only of live children, unblocks every child it blocked before it waits for it, and ends with every
  child waited for; each child counts its 64-bit counter up to the maximum and stops.\<close>
theorem test_prio_reaps_all:
  "tends 3 True True (test_prio_command zero argv) (\<lambda>S. S = Map.empty) Map.empty \<and> zero_loop mx 0 = mx + 1"
  by (simp add: test_prio_command_def chc.conforms_output tends_prio_same zero_loop_value)

end
