(* ===== verification/Spec2Isabelle.thy ===== *)
theory Spec2Isabelle
  imports KFreeList KCircularBuffer KQueue KTimer KSched KSem KLib KSharedSem KPipe KProcess KLifecycle KKeyboard KMachine KBuddyHeap KPipeFlow KVideo KSyscalls KReap KInit TPacker KException UStd UTerminal UCommands UShell UMvar UMusic UModule USync UMemTest UTests
begin

text \<open>
  A verification development for the kernel and userland of TP2_SO_G18, a 64-bit monolithic teaching
  operating system on x64BareBones (Pure64).  The paths below are relative to the repository.

  \<^bold>\<open>The program.\<close>  A boot loader (Pure64) starts a packed image: the kernel with the user module
  appended by the tool \<^verbatim>\<open>Toolchain/ModulePacker\<close>.  \<^verbatim>\<open>Kernel/kernel.c\<close> copies the module out, sets up
  one of two memory managers, the scheduler and the interrupt gates, and creates the idle and the init
  process; init makes the pipe of the keyboard and starts the shell, which is the user module.  Every
  kernel structure (processes, queues, semaphores, pipes, file accesses) is allocated from the memory
  manager.  The timer interrupt runs the scheduler; semaphores block and wake processes through it;
  pipes are a circular buffer and semaphores; a descriptor names a file access, a counted end of a
  pipe; system calls go through a table of 45 handlers.  The shell starts the terminal and the commands
  as processes joined by pipes; the commands and tests only use system calls.

  \<^bold>\<open>Conventions\<close> (\<^verbatim>\<open>KPrelude\<close>).  A machine integer is a word of its width and wraps; a pointer is a 64-bit
  word and 0 is NULL.  C structures live in one typed heap per structure, keyed by address; an access
  to a structure that was freed or never allocated, an index out of an array and a fault are \<^verbatim>\<open>None\<close>, so
  that a theorem that a function returns \<^verbatim>\<open>Some\<close> says that it uses no bad pointer.  Loops with no evident
  bound are partial functions into options, and are shown to return.  Kernel code runs with interrupts
  off: its functions are atomic, and a function that may block is a machine whose steps end where
  another process can run.

  \<^bold>\<open>Memory managers.\<close>  \<^verbatim>\<open>KAllocator\<close> states the interface of \<^verbatim>\<open>memoryManager.h\<close> and the locale
  \<^verbatim>\<open>allocator\<close>: what \<^verbatim>\<open>mem_alloc\<close> and \<^verbatim>\<open>mem_free\<close> promise on an invariant and a set of live blocks, and what
  follows for any client.  \<^verbatim>\<open>KFreeList\<close> models \<^verbatim>\<open>Kernel/memory/memoryManager.c\<close> (block headers linked by
  addresses, first fit, splitting, merging with both neighbours) and interprets the locale (\<^verbatim>\<open>fl\<close>).
  \<^verbatim>\<open>KBuddy\<close>, \<^verbatim>\<open>KBuddyInv\<close> and \<^verbatim>\<open>KBuddyHeap\<close> model \<^verbatim>\<open>memoryManagerBuddy.c\<close> (the array of nodes with its pool of
  recycled slots; descent, splitting, merging), relate the array to a tree of blocks, and give the
  contract that this theory interprets (\<^verbatim>\<open>bd\<close>).  \<^verbatim>\<open>KBoot\<close> extends the locale to \<^verbatim>\<open>roomy_allocator\<close> (when an
  allocation must succeed) and \<^verbatim>\<open>UMemTest\<close> to \<^verbatim>\<open>bounded_allocator\<close>; both are interpreted on the free list
  (\<^verbatim>\<open>flr\<close>, \<^verbatim>\<open>flb\<close>).  \<^verbatim>\<open>KDemoHeap\<close> and \<^verbatim>\<open>KDemo\<close> hold the concrete states of the worked examples.

  \<^bold>\<open>Kernel structures.\<close>  \<^verbatim>\<open>KCircularBuffer\<close> models \<^verbatim>\<open>circularBuffer.c\<close> and refines it to a bounded list
  (locale \<^verbatim>\<open>bounded_fifo\<close>, interpretation \<^verbatim>\<open>cbq\<close>).  \<^verbatim>\<open>KQueue\<close> models \<^verbatim>\<open>queue.c\<close> as linked nodes, a partial
  heap with \<^verbatim>\<open>NULL\<close> handles and faults, and shows, over any allocator, that they behave as the list queues the other theories use (\<^verbatim>\<open>kq_...\<close>, the queue of
  pids \<^verbatim>\<open>kqp_...\<close>).  \<^verbatim>\<open>KState\<close> is the state of the kernel: the typed heaps and the static variables of
  \<^verbatim>\<open>scheduler.c\<close>.

  \<^bold>\<open>Scheduling.\<close>  \<^verbatim>\<open>KSched\<close> models the table, the ready queue, \<^verbatim>\<open>schedule\<close>, \<^verbatim>\<open>setReady\<close> and \<^verbatim>\<open>setBlocked\<close>; its
  lemmas give the invariant \<^verbatim>\<open>sched_inv\<close> (table, queue and states agree), the ownership of memory blocks
  \<^verbatim>\<open>kmem_ok\<close> (each block belongs to one structure), and the exact turn of every ready process.  \<^verbatim>\<open>KSem\<close>
  models \<^verbatim>\<open>semaphore.c\<close> with its spinlock and the forced tick of a blocking wait, and \<^verbatim>\<open>KSharedSem\<close> the named
  semaphores.  \<^verbatim>\<open>KTimer\<close> is the tick counter, \<^verbatim>\<open>sleep\<close> and the speaker.

  \<^bold>\<open>Processes and pipes.\<close>  \<^verbatim>\<open>KProcess\<close> models \<^verbatim>\<open>process.c\<close> (creation, the initial stack, children,
  descriptors); \<^verbatim>\<open>KLifecycle\<close> the rest of \<^verbatim>\<open>scheduler.c\<close> (start, end, kill, wait, descriptor calls by pid);
  \<^verbatim>\<open>KSpawn\<close> what a start leaves behind, on success and on each failing allocation, and \<^verbatim>\<open>KReap\<close> what its
  release gives back.  \<^verbatim>\<open>KPipe\<close> models \<^verbatim>\<open>pipe.c\<close>
  and \<^verbatim>\<open>fileAccess.c\<close>; \<^verbatim>\<open>KPipeFlow\<close> proves what readers and writers see under any interleaving, \<^verbatim>\<open>KPipeLife\<close>
  creation and release.  \<^verbatim>\<open>KSyscalls\<close> is \<^verbatim>\<open>syscallDispatcher.c\<close>.  \<^verbatim>\<open>KBoot\<close> is \<^verbatim>\<open>kernel.c\<close>: \<^verbatim>\<open>main\<close> establishes every
  invariant from an empty data segment; \<^verbatim>\<open>KInit\<close> proves what the init process leaves for the shell.

  \<^bold>\<open>Devices and library.\<close>  \<^verbatim>\<open>KLib\<close> is \<^verbatim>\<open>lib.c\<close> on a byte memory; \<^verbatim>\<open>KKeyboard\<close> the keyboard driver; \<^verbatim>\<open>KVideo\<close>,
  with the glyphs in \<^verbatim>\<open>KFont\<close>, the video driver on the bytes of its two frame buffers; \<^verbatim>\<open>KMachine\<close> the
  register dump, the clock, the gates, the dispatch of interrupt lines and the module loader; \<^verbatim>\<open>KException\<close>
  the exception handler over these and the descriptors, a machine because the dump is written to the
  standard output, where the write may wait.  \<^verbatim>\<open>TPacker\<close> is the image packer; its theorem meets the module loader.

  \<^bold>\<open>Userland\<close> (\<^verbatim>\<open>Userland/SampleCodeModule\<close>).  \<^verbatim>\<open>UStd\<close> is \<^verbatim>\<open>cstandard.c\<close> with strings as lists of bytes;
  \<^verbatim>\<open>UModule\<close> its functions on memory and the start of the module.  \<^verbatim>\<open>UCommands\<close> defines programs as trees
  of system calls with a branch per answer, and what it means that a program keeps a contract with the
  kernel (\<^verbatim>\<open>conforms\<close>; locale \<^verbatim>\<open>quiet_writes\<close>, interpreted by \<^verbatim>\<open>fdc\<close> for descriptors and \<^verbatim>\<open>chc\<close> for children);
  it models the commands that print, filter or act on processes, \<^verbatim>\<open>UMusic\<close> those that play songs, wait or
  fault.  \<^verbatim>\<open>UShell\<close> is \<^verbatim>\<open>shell.c\<close>, \<^verbatim>\<open>UTerminal\<close> \<^verbatim>\<open>terminal.c\<close> with its escape parser.  \<^verbatim>\<open>UMvar\<close> and \<^verbatim>\<open>USync\<close> are the
  concurrent programs \<^verbatim>\<open>mvar.c\<close> and \<^verbatim>\<open>test_sync.c\<close>, one step per access to shared data; \<^verbatim>\<open>UMemTest\<close> runs
  \<^verbatim>\<open>test_mm.c\<close> on the memory managers; \<^verbatim>\<open>UTests\<close> is \<^verbatim>\<open>test_proc.c\<close> and \<^verbatim>\<open>test_prio.c\<close>.

  \<^bold>\<open>What the theorems show.\<close>  Invariants: the scheduler's (every tick keeps it and leaves a running
  process), the boot (establishes it), the terminal (never draws outside the screen).  Safety: semaphores
  exclude, pipes lose and reorder nothing, the MVar hands each value over once, the counter of \<^verbatim>\<open>test_sync\<close>
  is exact with its semaphore and, by an explicit run, not without, the shell leaks no descriptor and
  \<^verbatim>\<open>test_proc\<close> acts on its children only as their state allows.  Liveness and termination: each ready process runs at its turn, the MVar does not
  deadlock, a round of \<^verbatim>\<open>test_mm\<close> ends.  Functional and refinement results: both memory managers, queue,
  buffer, semaphores, drawing, scrolling, the first dispatch of a process.  Errors: starting a process and
  making a pipe do all or nothing.  Round trips: numbers and text, printing and scanning, colour escapes,
  packing and loading, allocation and release, making and reaping a process.

  \<^bold>\<open>Bounds and fuel.\<close>  Where C keeps loop counters in an \<^verbatim>\<open>int\<close>, sizes are taken below \<open>2 ^ 31\<close> (a rectangle
  with larger sides has no result); the list of
  ticks that arrive while \<^verbatim>\<open>sleep\<close> polls is an argument, and enough of them make it return.  Endless
  loops (\<^verbatim>\<open>loop\<close>, \<^verbatim>\<open>test_proc\<close>, the wait loop of init) are cut after an arbitrary number of turns, or shown
  as the step they repeat; a theorem about them holds for every such number, that is, for every prefix.
  The input of the shell is the list of bytes its reads bring, so its session is total.

  \<^bold>\<open>Findings.\<close>  Some theorems state what the code does where that is not what it means to do: a buddy
  request larger than the heap is served with a shorter block, a free-list request near \<open>2 ^ 64\<close> with an
  empty one, \<^verbatim>\<open>randomRange\<close> can exceed its maximum by one, unblocking by pid passes a semaphore, \<^verbatim>\<open>kill\<close> cuts
  the pid to 16 bits, and the songs are never initialised.

  \<^bold>\<open>Not modelled.\<close>  The boot loader Pure64 and its disk tool BMFS (third-party code kept as it came), the
  assembly files (port access, context switch, interrupt stubs, whose effects are parameters: port
  inputs, saved registers, handler addresses), and \<^verbatim>\<open>point.c\<close>, which nothing calls and which scales by a
  \<^verbatim>\<open>double\<close>.  Two processors and caches are not modelled: the machine has one.
\<close>

section \<open>Properties across components\<close>

text \<open>All the kernel's lemmas over a memory manager, for the buddy manager.\<close>
interpretation bd: allocator bd_ops bd_inv bd_blocks "\<lambda>s. 2 ^ maxOrder s"
  by (rule bd_allocator)

text \<open>C18. The kernel can be linked against either memory manager: over the buddy manager too, when \<^verbatim>\<open>newQueue\<close>
  gets its memory, any sequence of operations of the linked queue runs to the end without an access
  through \<^verbatim>\<open>NULL\<close> or to a freed node, answers like a list and makes the same memory requests, for every
  heap of at least 32 bytes; when it does not, the \<^verbatim>\<open>NULL\<close> handle makes both go wrong at the same
  operation, if at all.\<close>
theorem linked_queue_on_buddy:
  assumes "bd_inv m" and "5 \<le> maxOrder m" and "newQueue bd_ops m = Some (m1, qp, q)"
  shows "\<exists>kq. kq_new bd_ops m = Some (m1, kq) \<and>
    (if qp = 0 then kq = None \<and>
       q_run bd_ops cmp opns (m1, h, q) = map_option (\<lambda>(m, kq, outs). ((m, h, None), outs)) (kqp_run bd_ops cmp opns m1 None)
     else \<exists>m' h' q' kq' outs. q_run bd_ops cmp opns (m1, h, q) = Some ((m', h', Some q'), outs) \<and>
       kqp_run bd_ops cmp opns m1 kq = Some (m', Some kq', outs) \<and> qrep h' q' (kq_nodes kq'))"
proof -
  have "(2 :: nat) ^ 5 \<le> 2 ^ maxOrder m" using assms(2) by (intro power_increasing) simp_all
  then show ?thesis by (intro bd.queue_refines [OF assms(1) _ assms(3)]) simp
qed

lemma boot_buddy_queue:
  obtains m1 qp q where "newQueue bd_ops boot_buddy = Some (m1, qp, q)" "qp \<noteq> 0"
proof -
  have n: "sizeof_queueCDT \<noteq> 0" by (simp add: sizeof_queueCDT_def)
  have o: "getOrder sizeof_queueCDT boot_buddy = 5"
    unfolding getOrder_def boot_buddy_rep(2) sizeof_queueCDT_def by code_simp
  from boot_buddy_rep(1) n show thesis
  proof (cases rule: bd_alloc_cases)
    case (null s' fs' t')
    then show thesis by (simp add: boot_buddy_rep o)
  next
    case (block s' fs' t' q)
    have "minAddress boot_buddy + of_nat q \<noteq> 0" using bd_address(4) [OF boot_buddy_rep(1) block(4)] by simp
    then show thesis using block(1) by (intro that) (simp_all add: newQueue_def bd_ops_def)
  qed
qed

theorem linked_queue_on_buddy_witness:
  "\<exists>m1 qp q. newQueue bd_ops boot_buddy = Some (m1, qp, q) \<and> qp \<noteq> 0 \<and>
     (\<exists>s outs. q_run bd_ops (\<lambda>x y. x - y) [Enq 5, Enq 6, Remove 5, Poll, Poll :: int qop] (m1, Map.empty, q) = Some (s, outs))"
proof -
  have inv: "bd_inv boot_buddy" "5 \<le> maxOrder boot_buddy" using boot_buddy_rep by (auto simp: bd_inv_def)
  obtain m1 qp q where n: "newQueue bd_ops boot_buddy = Some (m1, qp, q)" "qp \<noteq> 0" by (rule boot_buddy_queue)
  from linked_queue_on_buddy [OF inv n(1), of "\<lambda>x y. x - y" "[Enq 5, Enq 6, Remove 5, Poll, Poll]" Map.empty] n
  show ?thesis by fastforce
qed

end
